(* ===== verification/Prelude.thy ===== *)
theory Prelude
  imports Complex_Main "HOL-Library.Word" "HOL-Library.AList" "HOL-Library.List_Lexorder"
    "HOL-Library.Multiset"
begin

text \<open>
  Shared vocabulary of the development: the Rust integer types and their wrapping, saturating and
  truncating operations as they behave in the release build, the standard containers as lists
  (\<open>HashMap\<close> as an association list whose order is the iteration order, \<open>BTreeMap\<close> as one sorted
  by key), the interface of a key-value store as a locale, and list lemmas used by several
  components.
\<close>

named_theorems rust_int \<open>unfolding of the Rust integer operations\<close>
named_theorems inv_intro \<open>one preservation lemma per operation of a component\<close>

section \<open>Integers\<close>

type_synonym u8 = "8 word"
type_synonym u16 = "16 word"
type_synonym u32 = "32 word"
type_synonym u64 = "64 word"
type_synonym i64 = int
type_synonym bytes = "u8 list"

text \<open>
  A signed 64-bit value is an \<^typ>\<open>int\<close> in \<open>-2^63 ..< 2^63\<close>; every signed operation of the source
  says how it leaves that range: \<open>+ - *\<close> and \<open>as i64\<close> wrap (\<open>i64_wrap\<close>), the
  \<open>saturating_\<close> methods clamp (\<open>i64_sat\<close>).
\<close>

definition i64_min :: int where "i64_min = - (2 ^ 63)"
definition i64_max :: int where "i64_max = 2 ^ 63 - 1"

definition is_i64 :: "int \<Rightarrow> bool" where
  "is_i64 x \<longleftrightarrow> i64_min \<le> x \<and> x \<le> i64_max"

definition i64_wrap :: "int \<Rightarrow> i64" where
  "i64_wrap x = (x + 2 ^ 63) mod 2 ^ 64 - 2 ^ 63"

definition i64_sat :: "int \<Rightarrow> i64" where
  "i64_sat x = max i64_min (min i64_max x)"

text \<open>Division of signed values truncates towards zero.\<close>

definition tdiv :: "int \<Rightarrow> int \<Rightarrow> int" where
  "tdiv a b = sgn a * sgn b * (\<bar>a\<bar> div \<bar>b\<bar>)"

definition saturating_add_i64 :: "i64 \<Rightarrow> i64 \<Rightarrow> i64" where
  "saturating_add_i64 a b = i64_sat (a + b)"

definition saturating_sub_i64 :: "i64 \<Rightarrow> i64 \<Rightarrow> i64" where
  "saturating_sub_i64 a b = i64_sat (a - b)"

definition saturating_neg_i64 :: "i64 \<Rightarrow> i64" where
  "saturating_neg_i64 a = i64_sat (- a)"

definition unsigned_abs_i64 :: "i64 \<Rightarrow> u64" where
  "unsigned_abs_i64 a = word_of_int \<bar>a\<bar>"

definition u64_as_i64 :: "u64 \<Rightarrow> i64" where
  "u64_as_i64 w = i64_wrap (uint w)"

definition i64_as_u64 :: "i64 \<Rightarrow> u64" where
  "i64_as_u64 a = word_of_int a"

definition saturating_sub_u64 :: "u64 \<Rightarrow> u64 \<Rightarrow> u64" where
  "saturating_sub_u64 a b = (if a < b then 0 else a - b)"

definition checked_sub_u64 :: "u64 \<Rightarrow> u64 \<Rightarrow> u64 option" where
  "checked_sub_u64 a b = (if a < b then None else Some (a - b))"

definition abs_diff_u64 :: "u64 \<Rightarrow> u64 \<Rightarrow> u64" where
  "abs_diff_u64 a b = (if a < b then b - a else a - b)"

lemmas i64_defs = i64_min_def i64_max_def is_i64_def i64_wrap_def i64_sat_def

lemmas i64_ops [rust_int] = saturating_add_i64_def saturating_sub_i64_def saturating_neg_i64_def
  unsigned_abs_i64_def u64_as_i64_def i64_as_u64_def

lemma is_i64_wrap [simp]: "is_i64 (i64_wrap x)"
proof -
  have "0 \<le> (x + 2 ^ 63) mod 2 ^ 64" and "(x + 2 ^ 63) mod 2 ^ 64 < (2 ^ 64 :: int)" by simp_all
  then show ?thesis unfolding i64_defs by simp
qed

lemma is_i64_sat [simp]: "is_i64 (i64_sat x)"
  by (simp add: i64_defs)

lemma i64_wrap_id [simp]: "is_i64 x \<Longrightarrow> i64_wrap x = x"
  unfolding i64_defs by simp

lemma i64_sat_id [simp]: "is_i64 x \<Longrightarrow> i64_sat x = x"
  unfolding i64_defs by simp

lemma i64_sat_mono: "x \<le> y \<Longrightarrow> i64_sat x \<le> i64_sat y"
  unfolding i64_sat_def by (auto simp: min_def max_def)

lemma is_i64_0 [simp]: "is_i64 0" and is_i64_1 [simp]: "is_i64 1"
  by (simp_all add: i64_defs)

lemma i64_sat_uminus: "is_i64 x \<Longrightarrow> x \<noteq> i64_min \<Longrightarrow> i64_sat (- x) = - x"
  unfolding i64_defs by simp

lemma tdiv_0 [simp]: "tdiv 0 b = 0"
  by (simp add: tdiv_def)

lemma tdiv_nonneg: "0 \<le> a \<Longrightarrow> 0 < b \<Longrightarrow> tdiv a b = a div b"
  by (cases "a = 0") (auto simp: tdiv_def)

lemma tdiv_neg: "a < 0 \<Longrightarrow> 0 < b \<Longrightarrow> tdiv a b = - ((- a) div b)"
  by (simp add: tdiv_def)

lemma tdiv_minus: "tdiv (- a) b = - tdiv a b"
  by (simp add: tdiv_def)

lemma tdiv_abs_le:
  assumes "0 < b" shows "\<bar>tdiv a b\<bar> * b \<le> \<bar>a\<bar>"
proof -
  have "\<bar>tdiv a b\<bar> = \<bar>a\<bar> div b"
    using assms by (cases "a = 0") (auto simp: tdiv_def abs_mult abs_sgn_eq pos_imp_zdiv_nonneg_iff)
  then show ?thesis using assms
    by (metis div_mult_mod_eq le_add_same_cancel1 pos_mod_sign)
qed

lemma tdiv_abs_bound:
  assumes "0 < b" "\<bar>a\<bar> \<le> c * b" shows "\<bar>tdiv a b\<bar> \<le> c"
  using tdiv_abs_le [OF assms(1), of a] assms
  by (meson mult_le_cancel_right_pos order_trans)

lemma tdiv_2_close: "\<bar>2 * tdiv a 2 - a\<bar> \<le> 1"
  by (cases "0 \<le> a") (auto simp: tdiv_nonneg tdiv_neg)

lemma uint_unsigned_abs: "is_i64 a \<Longrightarrow> uint (unsigned_abs_i64 a) = \<bar>a\<bar>"
  unfolding unsigned_abs_i64_def i64_defs
  by (simp add: uint_word_of_int) (intro mod_pos_pos_trivial; linarith)

lemma u64_as_i64_small: "uint w < 2 ^ 63 \<Longrightarrow> u64_as_i64 w = uint w"
proof -
  assume "uint w < 2 ^ 63"
  moreover have "- (2 ^ 63) \<le> uint w" by (rule order_trans [OF _ uint_ge_0]) simp
  ultimately have "is_i64 (uint w)" by (simp add: i64_defs)
  then show ?thesis by (simp add: u64_as_i64_def)
qed

lemma saturating_sub_u64_uint: "uint (saturating_sub_u64 a b) = max 0 (uint a - uint b)"
  by (auto simp: saturating_sub_u64_def word_less_def uint_sub_lem not_less word_le_def)

lemma unat_u32_less: "unat (w :: u32) < 2 ^ 64"
proof -
  have "unat w < 2 ^ LENGTH(32)" by (rule unsigned_less)
  then show ?thesis by simp
qed

lemma uint_unat: "uint (w :: 'a::len word) = int (unat w)"
  by simp

lemma unat_u32_u64 [simp]: "unat (ucast (w :: u32) :: u64) = unat w"
proof -
  have "unat w < 2 ^ 64" by (rule unat_u32_less)
  then show ?thesis by (simp add: unsigned_ucast_eq take_bit_nat_eq_self)
qed

lemma unat_of_nat_u64: "n < 2 ^ 64 \<Longrightarrow> unat (of_nat n :: u64) = n"
  by (simp add: unsigned_of_nat take_bit_nat_eq_self)

lemma ucast_u32_u64: "(ucast (w :: u32) :: u64) = of_nat (unat w)"
proof (rule unsigned_word_eqI)
  have "unat w < 2 ^ 64" by (rule unat_u32_less)
  then show "unat (ucast w :: u64) = unat (of_nat (unat w) :: u64)"
    by (simp only: unat_of_nat_u64 unat_u32_u64)
qed

text \<open>An operation that can panic returns an outcome.\<close>

datatype 'a outcome = Panic | Ret 'a

fun obind :: "'a outcome \<Rightarrow> ('a \<Rightarrow> 'b outcome) \<Rightarrow> 'b outcome" where
  "obind Panic f = Panic"
| "obind (Ret x) f = f x"

lemma obind_eq_Ret: "obind x f = Ret y \<longleftrightarrow> (\<exists>z. x = Ret z \<and> f z = Ret y)"
  by (cases x) auto

text \<open>Signed division panics on a zero divisor and on \<open>i64::MIN / -1\<close>, in every build.\<close>

definition div_i64 :: "i64 \<Rightarrow> i64 \<Rightarrow> i64 outcome" where
  "div_i64 a b = (if b = 0 \<or> (a = i64_min \<and> b = - 1) then Panic else Ret (tdiv a b))"

definition sum_i64 :: "i64 list \<Rightarrow> i64" where
  "sum_i64 xs = foldl (\<lambda>a x. i64_wrap (a + x)) 0 xs"

lemma i64_wrap_shift: "i64_wrap (a + 2 ^ 64 * k) = i64_wrap a"
proof -
  have "a + 2 ^ 64 * k + 2 ^ 63 = a + 2 ^ 63 + 2 ^ 64 * k" by linarith
  then show ?thesis unfolding i64_wrap_def by (simp only: mod_mult_self2)
qed

lemma i64_wrap_eq: "\<exists>k. i64_wrap a = a + 2 ^ 64 * k"
proof -
  have "i64_wrap a = a + 2 ^ 64 * (- ((a + 2 ^ 63) div 2 ^ 64))"
    unfolding i64_wrap_def by (simp add: minus_div_mult_eq_mod [symmetric])
  then show ?thesis by blast
qed

lemma i64_wrap_plus_left [simp]: "i64_wrap (i64_wrap a + b) = i64_wrap (a + b)"
proof -
  obtain k where "i64_wrap a = a + 2 ^ 64 * k" using i64_wrap_eq by blast
  then have "i64_wrap a + b = a + b + 2 ^ 64 * k" by simp
  then show ?thesis by (simp only: i64_wrap_shift)
qed

lemma i64_wrap_uminus [simp]: "i64_wrap (- i64_wrap a) = i64_wrap (- a)"
proof -
  obtain k where "i64_wrap a = a + 2 ^ 64 * k" using i64_wrap_eq by blast
  then have "- i64_wrap a = - a + 2 ^ 64 * (- k)" by simp
  then show ?thesis by (simp only: i64_wrap_shift)
qed

lemma i64_wrap_plus_right [simp]: "i64_wrap (a + i64_wrap b) = i64_wrap (a + b)"
  using i64_wrap_plus_left [of b a] by (simp add: add.commute)

lemma i64_wrap_minus_left [simp]: "i64_wrap (i64_wrap a - b) = i64_wrap (a - b)"
  using i64_wrap_plus_left [of a "- b"] by simp

lemma i64_wrap_minus_right [simp]: "i64_wrap (a - i64_wrap b) = i64_wrap (a - b)"
proof -
  obtain k where "i64_wrap b = b + 2 ^ 64 * k" using i64_wrap_eq by blast
  then have "a - i64_wrap b = a - b + 2 ^ 64 * (- k)" by simp
  then show ?thesis by (simp only: i64_wrap_shift)
qed

lemma sum_i64_eq: "sum_i64 xs = i64_wrap (sum_list xs)"
proof -
  have "foldl (\<lambda>a x. i64_wrap (a + x)) (i64_wrap c) xs = i64_wrap (c + sum_list xs)" for c
    by (induction xs arbitrary: c) (auto simp: add.assoc)
  from this [of 0] show ?thesis by (simp add: sum_i64_def)
qed

section \<open>Little- and big-endian bytes\<close>

definition u64_be :: "u64 \<Rightarrow> bytes" where
  "u64_be w = map (\<lambda>i. ucast (drop_bit (8 * i) w)) [7, 6, 5, 4, 3, 2, 1, 0]"

definition u32_be :: "u32 \<Rightarrow> bytes" where
  "u32_be w = map (\<lambda>i. ucast (drop_bit (8 * i) w)) [3, 2, 1, 0]"

definition u64_le :: "u64 \<Rightarrow> bytes" where
  "u64_le w = rev (u64_be w)"

definition u32_le :: "u32 \<Rightarrow> bytes" where
  "u32_le w = rev (u32_be w)"

fun be_val :: "bytes \<Rightarrow> nat" where
  "be_val [] = 0"
| "be_val (b # bs) = unat b * 256 ^ length bs + be_val bs"

lemma length_u64_be [simp]: "length (u64_be w) = 8"
  by (simp add: u64_be_def)

lemma length_u32_be [simp]: "length (u32_be w) = 4"
  by (simp add: u32_be_def)

lemma length_u64_le [simp]: "length (u64_le w) = 8"
  by (simp add: u64_le_def)

lemma length_u32_le [simp]: "length (u32_le w) = 4"
  by (simp add: u32_le_def)

lemma unat_byte: "unat (ucast (drop_bit k w) :: u8) = unat w div 2 ^ k mod 256"
proof -
  have "unat (ucast (drop_bit k w) :: u8) = take_bit LENGTH(8) (unat (drop_bit k w))"
    by (rule unsigned_ucast_eq)
  also have "unat (drop_bit k w) = unat w div 2 ^ k" by (rule trans [OF unat_drop_bit_eq drop_bit_eq_div])
  finally show ?thesis by (simp add: take_bit_eq_mod)
qed

lemma be_val_bytes: "be_val (map (\<lambda>i. ucast (drop_bit (8 * i) w)) (rev [0..<k])) = unat w mod 256 ^ k"
proof (induction k)
  case (Suc k)
  have "(2 :: nat) ^ (8 * k) = 256 ^ k" by (simp add: power_mult)
  then have "unat (ucast (drop_bit (8 * k) w) :: u8) = unat w div 256 ^ k mod 256" by (simp only: unat_byte)
  moreover have "unat w mod (256 ^ k * 256) = 256 ^ k * (unat w div 256 ^ k mod 256) + unat w mod 256 ^ k"
    by (rule mod_mult2_eq)
  ultimately show ?case using Suc by (simp add: mult.commute)
qed simp

lemma be_val_u64: "be_val (u64_be w) = unat w"
proof -
  have "[7, 6, 5, 4, 3, 2, 1, 0] = rev [0..<8]" by (simp add: upt_rec)
  then have "be_val (u64_be w) = unat w mod 256 ^ 8" unfolding u64_be_def by (simp only: be_val_bytes)
  moreover have "unat w < 2 ^ LENGTH(64)" by (rule unsigned_less)
  ultimately show ?thesis by simp
qed

lemma be_val_u32: "be_val (u32_be w) = unat w"
proof -
  have "[3, 2, 1, 0] = rev [0..<4]" by (simp add: upt_rec)
  then have "be_val (u32_be w) = unat w mod 256 ^ 4" unfolding u32_be_def by (simp only: be_val_bytes)
  moreover have "unat w < 2 ^ LENGTH(32)" by (rule unsigned_less)
  ultimately show ?thesis by simp
qed

definition u64_from_be :: "bytes \<Rightarrow> u64" where "u64_from_be bs = of_nat (be_val bs)"
definition u32_from_be :: "bytes \<Rightarrow> u32" where "u32_from_be bs = of_nat (be_val bs)"

lemma u64_from_be_of [simp]: "u64_from_be (u64_be w) = w"
  by (simp add: u64_from_be_def be_val_u64)

lemma u32_from_be_of [simp]: "u32_from_be (u32_be w) = w"
  by (simp add: u32_from_be_def be_val_u32)

lemma be_val_bound: "be_val bs < 256 ^ length bs"
proof (induction bs)
  case (Cons b bs)
  have "unat b < 256" by (rule less_le_trans [OF unsigned_less]) simp
  then have "unat b * 256 ^ length bs \<le> 255 * 256 ^ length bs"
    by (intro mult_right_mono) auto
  with Cons.IH have "unat b * 256 ^ length bs + be_val bs < 255 * 256 ^ length bs + 256 ^ length bs"
    by (rule add_le_less_mono [rotated])
  then show ?case by simp
qed simp

section \<open>Containers\<close>

text \<open>
  A \<open>HashMap\<close> is an association list with distinct keys. Its order stands for the iteration order,
  which Rust leaves open: a theorem about every such list is a theorem about every iteration order.
  Insertion overwrites in place or adds a new entry (\<^const>\<open>AList.update\<close>).
\<close>

type_synonym ('k, 'v) hashmap = "('k \<times> 'v) list"

definition hm_ok :: "('k, 'v) hashmap \<Rightarrow> bool" where
  "hm_ok m \<longleftrightarrow> distinct (map fst m)"

abbreviation hm_get :: "('k, 'v) hashmap \<Rightarrow> 'k \<Rightarrow> 'v option" where
  "hm_get m k \<equiv> map_of m k"

abbreviation hm_insert :: "'k \<Rightarrow> 'v \<Rightarrow> ('k, 'v) hashmap \<Rightarrow> ('k, 'v) hashmap" where
  "hm_insert k v m \<equiv> AList.update k v m"

abbreviation hm_remove :: "'k \<Rightarrow> ('k, 'v) hashmap \<Rightarrow> ('k, 'v) hashmap" where
  "hm_remove k m \<equiv> AList.delete k m"

definition hm_retain :: "('k \<Rightarrow> 'v \<Rightarrow> bool) \<Rightarrow> ('k, 'v) hashmap \<Rightarrow> ('k, 'v) hashmap" where
  "hm_retain P m = filter (\<lambda>(k, v). P k v) m"

text \<open>
  A \<open>BTreeMap\<close> is an association list strictly sorted by key: iteration is in key order.
\<close>

type_synonym ('k, 'v) btreemap = "('k \<times> 'v) list"

definition bt_ok :: "('k::linorder, 'v) btreemap \<Rightarrow> bool" where
  "bt_ok m \<longleftrightarrow> sorted_wrt (<) (map fst m)"

fun bt_insert :: "'k::linorder \<Rightarrow> 'v \<Rightarrow> ('k, 'v) btreemap \<Rightarrow> ('k, 'v) btreemap" where
  "bt_insert k v [] = [(k, v)]"
| "bt_insert k v ((k', v') # m) =
     (if k < k' then (k, v) # (k', v') # m
      else if k = k' then (k, v) # m
      else (k', v') # bt_insert k v m)"

text \<open>
  What a component whose operations keep an invariant promises, and what follows for any sequence of them: the invariant of every state
  of a run, and of the states a run passes through.
\<close>

locale kept =
  fixes step :: "'s \<Rightarrow> 'a \<Rightarrow> 's"
    and inv :: "'s \<Rightarrow> bool"
  assumes keeps: "inv s \<Longrightarrow> inv (step s a)"
begin

lemma run: "inv s \<Longrightarrow> inv (foldl step s as)"
  by (induction as arbitrary: s) (simp_all add: keeps)

lemma passes: "inv s \<Longrightarrow> inv (foldl step s (take n as))"
  by (rule run)

end

text \<open>What a client of either map relies on.\<close>

locale kv_map =
  fixes empty :: "'m"
    and lookup :: "'m \<Rightarrow> 'k \<Rightarrow> 'v option"
    and insert :: "'k \<Rightarrow> 'v \<Rightarrow> 'm \<Rightarrow> 'm"
    and remove :: "'k \<Rightarrow> 'm \<Rightarrow> 'm"
    and retain :: "('k \<Rightarrow> 'v \<Rightarrow> bool) \<Rightarrow> 'm \<Rightarrow> 'm"
    and ok :: "'m \<Rightarrow> bool"
  assumes ok_empty: "ok empty"
    and ok_insert: "ok m \<Longrightarrow> ok (insert k v m)"
    and ok_remove: "ok m \<Longrightarrow> ok (remove k m)"
    and ok_retain: "ok m \<Longrightarrow> ok (retain P m)"
    and lookup_empty: "lookup empty k = None"
    and lookup_insert: "ok m \<Longrightarrow> lookup (insert k v m) k' = (if k' = k then Some v else lookup m k')"
    and lookup_remove: "ok m \<Longrightarrow> lookup (remove k m) k' = (if k' = k then None else lookup m k')"
    and lookup_retain: "ok m \<Longrightarrow> lookup (retain P m) k' =
      (case lookup m k' of None \<Rightarrow> None | Some v \<Rightarrow> if P k' v then Some v else None)"
begin

lemma retain_Some_iff:
  "ok m \<Longrightarrow> lookup (retain P m) k = Some v \<longleftrightarrow> lookup m k = Some v \<and> P k v"
  by (auto simp: lookup_retain split: option.splits if_splits)

lemma all_insert:
  assumes "ok m" "\<And>k v. lookup m k = Some v \<Longrightarrow> Q k v" "Q k v" "lookup (insert k v m) k' = Some v'"
  shows "Q k' v'"
  using assms by (auto simp: lookup_insert split: if_splits)

lemma all_remove:
  assumes "ok m" "\<And>k v. lookup m k = Some v \<Longrightarrow> Q k v" "lookup (remove k m) k' = Some v'"
  shows "Q k' v'"
  using assms by (auto simp: lookup_remove split: if_splits)

lemma all_retain:
  assumes "ok m" "\<And>k v. lookup m k = Some v \<Longrightarrow> Q k v" "lookup (retain P m) k' = Some v'"
  shows "Q k' v' \<and> P k' v'"
  using assms by (auto simp: retain_Some_iff)

end

lemma map_of_retain:
  "distinct (map fst m) \<Longrightarrow> map_of (hm_retain P m) k =
     (case map_of m k of None \<Rightarrow> None | Some v \<Rightarrow> if P k v then Some v else None)"
  unfolding hm_retain_def
  by (induction m) (auto simp: map_of_eq_None_iff split: option.splits dest: map_of_SomeD)

lemma distinct_retain: "distinct (map fst m) \<Longrightarrow> distinct (map fst (hm_retain P m))"
  unfolding hm_retain_def by (induction m) auto

interpretation hm: kv_map "[] :: ('k, 'v) hashmap" map_of AList.update AList.delete hm_retain hm_ok
  by unfold_locales
    (auto simp: hm_ok_def distinct_update distinct_delete distinct_retain update_conv' delete_conv'
      map_of_retain)

lemma set_bt_insert: "set (map fst (bt_insert k v m)) = Set.insert k (set (map fst m))"
  by (induction k v m rule: bt_insert.induct) auto

lemma bt_ok_insert: "bt_ok m \<Longrightarrow> bt_ok (bt_insert k v m)"
proof (induction k v m rule: bt_insert.induct)
  case (2 k v k' v' m)
  then show ?case using set_bt_insert [of k v m] by (auto simp: bt_ok_def)
qed (simp add: bt_ok_def)

lemma map_of_bt_insert:
  "bt_ok m \<Longrightarrow> map_of (bt_insert k v m) k' = (if k' = k then Some v else map_of m k')"
  by (induction k v m rule: bt_insert.induct) (auto simp: bt_ok_def)

lemma bt_ok_distinct: "bt_ok m \<Longrightarrow> distinct (map fst m)"
  by (simp add: bt_ok_def strict_sorted_iff)

lemma bt_ok_filter: "bt_ok m \<Longrightarrow> bt_ok (filter P m)"
  unfolding bt_ok_def by (induction m) auto

lemma bt_ok_delete: "bt_ok m \<Longrightarrow> bt_ok (AList.delete k m)"
  unfolding AList.delete_eq by (rule bt_ok_filter)

lemma bt_ok_retain: "bt_ok m \<Longrightarrow> bt_ok (hm_retain P m)"
  unfolding hm_retain_def by (rule bt_ok_filter)

interpretation bt: kv_map "[] :: ('k::linorder, 'v) btreemap" map_of bt_insert AList.delete hm_retain bt_ok
  by unfold_locales
    (auto simp: bt_ok_insert map_of_bt_insert bt_ok_delete bt_ok_retain delete_conv' map_of_retain
      bt_ok_distinct, simp add: bt_ok_def)

section \<open>Iterator methods\<close>

text \<open>\<open>min_by_key\<close> keeps the first of several minima, \<open>max_by_key\<close> the last of several maxima.\<close>

fun min_by_key :: "('a \<Rightarrow> 'k::linorder) \<Rightarrow> 'a list \<Rightarrow> 'a option" where
  "min_by_key f [] = None"
| "min_by_key f (x # xs) =
     (case min_by_key f xs of None \<Rightarrow> Some x | Some y \<Rightarrow> if f x \<le> f y then Some x else Some y)"

fun max_by_key :: "('a \<Rightarrow> 'k::linorder) \<Rightarrow> 'a list \<Rightarrow> 'a option" where
  "max_by_key f [] = None"
| "max_by_key f (x # xs) =
     (case max_by_key f xs of None \<Rightarrow> Some x | Some y \<Rightarrow> if f x \<le> f y then Some y else Some x)"

lemma min_by_key_None [simp]: "min_by_key f xs = None \<longleftrightarrow> xs = []"
  by (cases xs) (auto split: option.splits)

lemma max_by_key_None [simp]: "max_by_key f xs = None \<longleftrightarrow> xs = []"
  by (cases xs) (auto split: option.splits)

lemma min_by_key_Some: "min_by_key f xs = Some y \<Longrightarrow> y \<in> set xs \<and> (\<forall>x \<in> set xs. f y \<le> f x)"
  by (induction xs arbitrary: y) (fastforce split: option.splits if_splits)+

lemma max_by_key_Some: "max_by_key f xs = Some y \<Longrightarrow> y \<in> set xs \<and> (\<forall>x \<in> set xs. f x \<le> f y)"
  by (induction xs arbitrary: y) (fastforce split: option.splits if_splits)+

text \<open>
  \<open>sort_by\<close> with a comparison \<open>le\<close> (the comparator does not say \<open>Greater\<close>) is stable: for a total
  preorder it is determined, and insertion from the right computes it.
\<close>

fun insort_by :: "('a \<Rightarrow> 'a \<Rightarrow> bool) \<Rightarrow> 'a \<Rightarrow> 'a list \<Rightarrow> 'a list" where
  "insort_by le x [] = [x]"
| "insort_by le x (y # ys) = (if le x y then x # y # ys else y # insort_by le x ys)"

definition sort_by :: "('a \<Rightarrow> 'a \<Rightarrow> bool) \<Rightarrow> 'a list \<Rightarrow> 'a list" where
  "sort_by le xs = foldr (insort_by le) xs []"

lemma mset_insort_by: "mset (insort_by le x xs) = add_mset x (mset xs)"
  by (induction xs) auto

lemma mset_sort_by [simp]: "mset (sort_by le xs) = mset xs"
  unfolding sort_by_def by (induction xs) (auto simp: mset_insort_by)

lemma set_sort_by [simp]: "set (sort_by le xs) = set xs"
  by (metis mset_sort_by set_mset_mset)

lemma length_sort_by [simp]: "length (sort_by le xs) = length xs"
  by (metis mset_sort_by size_mset)

definition preorder_on_list :: "('a \<Rightarrow> 'a \<Rightarrow> bool) \<Rightarrow> 'a set \<Rightarrow> bool" where
  "preorder_on_list le S \<longleftrightarrow> (\<forall>a \<in> S. \<forall>b \<in> S. le a b \<or> le b a) \<and>
     (\<forall>a \<in> S. \<forall>b \<in> S. \<forall>c \<in> S. le a b \<longrightarrow> le b c \<longrightarrow> le a c)"

lemma preorder_trans:
  "preorder_on_list le S \<Longrightarrow> a \<in> S \<Longrightarrow> b \<in> S \<Longrightarrow> c \<in> S \<Longrightarrow> le a b \<Longrightarrow> le b c \<Longrightarrow> le a c"
  unfolding preorder_on_list_def by blast

lemma preorder_linear: "preorder_on_list le S \<Longrightarrow> a \<in> S \<Longrightarrow> b \<in> S \<Longrightarrow> \<not> le a b \<Longrightarrow> le b a"
  unfolding preorder_on_list_def by blast

lemma sorted_insort_by:
  assumes "preorder_on_list le S" "x \<in> S" "set xs \<subseteq> S" "sorted_wrt le xs"
  shows "sorted_wrt le (insort_by le x xs)"
  using assms(3,4)
proof (induction xs)
  case (Cons y ys)
  have set: "set (insort_by le x ys) = insert x (set ys)" by (metis mset_insort_by set_mset_add_mset_insert set_mset_mset)
  show ?case
  proof (cases "le x y")
    case True
    have "le x z" if "z \<in> set ys" for z
    proof -
      have "le y z" using Cons.prems(2) that by simp
      then show ?thesis using preorder_trans [OF assms(1,2) _ _ True, of z] Cons.prems(1) that by auto
    qed
    with True Cons.prems show ?thesis by simp
  next
    case False
    then have "le y x" using preorder_linear [OF assms(1,2)] Cons.prems(1) by simp
    with False Cons set show ?thesis by simp
  qed
qed simp

lemma sorted_sort_by:
  assumes "preorder_on_list le (set xs)" shows "sorted_wrt le (sort_by le xs)"
proof -
  have "sorted_wrt le (foldr (insort_by le) ys [])" if "set ys \<subseteq> set xs" for ys
    using that
  proof (induction ys)
    case (Cons y ys)
    have "set (foldr (insort_by le) ys []) = set ys" using set_sort_by [of le ys] by (simp add: sort_by_def)
    then show ?case using Cons assms by (auto intro!: sorted_insort_by)
  qed simp
  then show ?thesis by (simp add: sort_by_def)
qed

definition last_opt :: "'a list \<Rightarrow> 'a option" where
  "last_opt xs = (if xs = [] then None else Some (last xs))"

definition nth_opt :: "'a list \<Rightarrow> nat \<Rightarrow> 'a option" where
  "nth_opt xs i = (if i < length xs then Some (xs ! i) else None)"

lemma last_opt_snoc [simp]: "last_opt (xs @ [x]) = Some x"
  by (simp add: last_opt_def)

lemma map_filter_mem: "y \<in> set (List.map_filter f xs) \<longleftrightarrow> (\<exists>x \<in> set xs. f x = Some y)"
  by (induction xs) (auto simp: map_filter_simps split: option.splits)

lemma length_map_filter: "length (List.map_filter f xs) \<le> length xs"
  by (induction xs) (auto simp: map_filter_simps split: option.splits)

lemma sorted_take_drop_le:
  assumes "sorted (map f xs)" "x \<in> set (take n xs)" "y \<in> set (drop n xs)"
  shows "f x \<le> f y"
proof -
  have "sorted (map f (take n xs) @ map f (drop n xs))"
    using assms(1) by (simp flip: map_append)
  with assms(2,3) show ?thesis by (auto simp: sorted_append)
qed

lemma distinct_concat_nth:
  assumes "\<And>i. i < length bs \<Longrightarrow> distinct (bs ! i)"
    and "\<And>i j. i < j \<Longrightarrow> j < length bs \<Longrightarrow> set (bs ! i) \<inter> set (bs ! j) = {}"
  shows "distinct (concat bs)"
  using assms
proof (induction bs)
  case (Cons b bs)
  have "distinct (concat bs)"
    using Cons.prems(1) [of "Suc _"] Cons.prems(2) [of "Suc _" "Suc _"] by (intro Cons.IH) auto
  moreover have "set b \<inter> set (concat bs) = {}"
    using Cons.prems(2) [of 0 "Suc _"] by (fastforce simp: in_set_conv_nth [of _ bs])
  ultimately show ?case using Cons.prems(1) [of 0] by simp
qed simp

end
