(* ===== verification/F64.thy ===== *)
theory F64
  imports Prelude "HOL-Library.Log_Nat"
begin

text \<open>
  Rust's \<open>f64\<close>: IEEE-754 binary64 by value. A number is a rational \<open>Fin r\<close> (with \<open>Fin 0\<close> the
  positive zero), the negative zero, an infinity or the (single, positive) NaN. Every operation
  computes exactly on rationals and rounds once, to nearest with ties to even, so the model
  evaluates and the rounding is not idealised away. Transcendental functions, whose precision Rust
  leaves open, are parameters where they are used.
\<close>

named_theorems f64_val \<open>the numeric value of the results of the operations\<close>

section \<open>Rounding rationals\<close>

definition flog2 :: "rat \<Rightarrow> int" where
  "flog2 x = (let (p, q) = quotient_of x; l = bitlen p - bitlen q
              in if 2 powi l \<le> x then l else l - 1)"

definition rnd_even :: "rat \<Rightarrow> int" where
  "rnd_even x = (let f = \<lfloor>x\<rfloor>; d = x - of_int f in
     if d < 1 / 2 then f else if 1 / 2 < d then f + 1 else if even f then f else f + 1)"

definition rexp :: "rat \<Rightarrow> int" where
  "rexp x = max (flog2 \<bar>x\<bar> - 52) (- 1074)"

definition rr :: "rat \<Rightarrow> rat" where
  "rr x = (if x = 0 then 0 else of_int (rnd_even (x / 2 powi rexp x)) * 2 powi rexp x)"

lemma two_powi_pos [simp]: "0 < (2 :: rat) powi e"
  by simp

lemma two_powi_le_iff [simp]: "(2 :: rat) powi a \<le> 2 powi b \<longleftrightarrow> a \<le> b"
  using power_int_increasing [of a b "2 :: rat"] power_int_strict_increasing [of b a "2 :: rat"]
  by (cases "a \<le> b") auto

lemma two_powi_less_iff [simp]: "(2 :: rat) powi a < 2 powi b \<longleftrightarrow> a < b"
  by (simp add: less_le_not_le)

lemma flog2_bounds:
  assumes "0 < x"
  shows "2 powi flog2 x \<le> x" and "x < 2 powi (flog2 x + 1)"
proof -
  obtain p q where pq: "quotient_of x = (p, q)" by (cases "quotient_of x")
  have q: "0 < q" using quotient_of_denom_pos [OF pq] .
  have x: "x = of_int p / of_int q" using quotient_of_div [OF pq] .
  have p: "0 < p" using assms q unfolding x by (simp add: zero_less_divide_iff)
  have bp: "(2 :: rat) powi (bitlen p - 1) \<le> of_int p" "of_int p < (2 :: rat) powi bitlen p"
    and bq: "(2 :: rat) powi (bitlen q - 1) \<le> of_int q" "of_int q < (2 :: rat) powi bitlen q"
  proof -
    have aux: "(2 :: rat) powi (bitlen n - 1) \<le> of_int n" "of_int n < (2 :: rat) powi bitlen n"
      if "0 < n" for n :: int
    proof -
      have b: "1 \<le> bitlen n" using that
        by (metis bitlen_eq_zero_iff bitlen_nonneg dual_order.order_iff_strict int_one_le_iff_zero_less linorder_not_le)
      from bitlen_bounds [OF that]
      have "(2 :: int) ^ nat (bitlen n - 1) \<le> n" "n < 2 ^ nat (bitlen n)" by auto
      then have "(of_int (2 ^ nat (bitlen n - 1)) :: rat) \<le> of_int n"
        "(of_int n :: rat) < of_int (2 ^ nat (bitlen n))" by linarith+
      then show "(2 :: rat) powi (bitlen n - 1) \<le> of_int n" "of_int n < (2 :: rat) powi bitlen n"
        using b by (simp_all add: power_int_def)
    qed
    show "(2 :: rat) powi (bitlen p - 1) \<le> of_int p" "of_int p < (2 :: rat) powi bitlen p"
      using aux [OF p] .
    show "(2 :: rat) powi (bitlen q - 1) \<le> of_int q" "of_int q < (2 :: rat) powi bitlen q"
      using aux [OF q] .
  qed
  define l where "l = bitlen p - bitlen q"
  have "(2 :: rat) powi (l - 1) \<le> of_int p / of_int q"
  proof -
    have "(2 :: rat) powi (l - 1) * of_int q \<le> 2 powi (l - 1) * 2 powi bitlen q"
      using bq(2) by simp
    also have "\<dots> = 2 powi (bitlen p - 1)"
      by (simp add: l_def flip: power_int_add)
    also have "\<dots> \<le> of_int p" by (rule bp)
    finally show ?thesis using q by (simp add: pos_le_divide_eq)
  qed
  moreover have "of_int p / of_int q < (2 :: rat) powi (l + 1)"
  proof -
    have "of_int p < (2 :: rat) powi bitlen p" by (rule bp)
    also have "\<dots> = 2 powi (l + 1) * 2 powi (bitlen q - 1)"
      by (simp add: l_def flip: power_int_add)
    also have "\<dots> \<le> 2 powi (l + 1) * of_int q" using bq(1) by simp
    finally show ?thesis using q by (simp add: pos_divide_less_eq)
  qed
  ultimately have *: "2 powi (l - 1) \<le> x" "x < 2 powi (l + 1)" unfolding x by auto
  have f: "flog2 x = (if 2 powi l \<le> x then l else l - 1)"
    by (simp add: flog2_def pq l_def)
  show "2 powi flog2 x \<le> x" and "x < 2 powi (flog2 x + 1)"
    using * by (auto simp: f)
qed

lemma flog2_unique:
  assumes "2 powi k \<le> x" "x < 2 powi (k + 1)" shows "flog2 x = k"
proof -
  have "0 < x" using assms(1) by (meson less_le_trans two_powi_pos)
  note b = flog2_bounds [OF this]
  have "2 powi k < (2 :: rat) powi (flog2 x + 1)" "2 powi flog2 x < (2 :: rat) powi (k + 1)"
    using b assms by linarith+
  then show ?thesis by simp
qed

lemma flog2_mono: "0 < x \<Longrightarrow> x \<le> y \<Longrightarrow> flog2 x \<le> flog2 y"
proof -
  assume "0 < x" "x \<le> y"
  with flog2_bounds(1) [of x] flog2_bounds(2) [of y]
  have "(2 :: rat) powi flog2 x < 2 powi (flog2 y + 1)" by linarith
  then show ?thesis by simp
qed

subsection \<open>Rounding to an integer\<close>

lemma rnd_even_of_int [simp]: "rnd_even (of_int n) = n"
  by (simp add: rnd_even_def)

lemma rnd_even_close: "\<bar>of_int (rnd_even x) - x\<bar> \<le> 1 / 2"
  unfolding rnd_even_def Let_def by (auto simp: abs_if) linarith+

lemma rnd_even_mono: "x \<le> y \<Longrightarrow> rnd_even x \<le> rnd_even y"
proof -
  assume xy: "x \<le> y"
  show ?thesis
  proof (cases "\<lfloor>x\<rfloor> = \<lfloor>y\<rfloor>")
    case True
    then show ?thesis using xy unfolding rnd_even_def Let_def by (auto)
  next
    case False
    then have "\<lfloor>x\<rfloor> + 1 \<le> \<lfloor>y\<rfloor>" using floor_mono [OF xy] by linarith
    moreover have "rnd_even x \<le> \<lfloor>x\<rfloor> + 1" "\<lfloor>y\<rfloor> \<le> rnd_even y"
      unfolding rnd_even_def Let_def by auto
    ultimately show ?thesis by linarith
  qed
qed

lemma rnd_even_minus: "rnd_even (- x) = - rnd_even x"
proof (cases "x = of_int \<lfloor>x\<rfloor>")
  case True
  then have "rnd_even (- x) = rnd_even (of_int (- \<lfloor>x\<rfloor>))" by simp
  also have "\<dots> = - rnd_even x" by (subst (2) True) (simp only: rnd_even_of_int)
  finally show ?thesis .
next
  case False
  then have f: "\<lfloor>- x\<rfloor> = - \<lfloor>x\<rfloor> - 1"
    by (intro floor_unique) (simp; linarith)+
  show ?thesis unfolding rnd_even_def Let_def f by auto
qed

subsection \<open>Rounding to 53 bits\<close>

lemma rr_0 [simp]: "rr 0 = 0"
  by (simp add: rr_def)

lemma rexp_minus [simp]: "rexp (- x) = rexp x"
  by (simp add: rexp_def)

lemma rexp_ge: "- 1074 \<le> rexp x"
  by (simp add: rexp_def)

lemma rr_minus [simp]: "rr (- x) = - rr x"
  by (simp add: rr_def rnd_even_minus)

lemma rr_grid:
  assumes "rexp (of_int k * 2 powi e) \<le> e"
  shows "rr (of_int k * 2 powi e) = of_int k * 2 powi e"
proof (cases "k = 0")
  case False
  define f where "f = rexp (of_int k * 2 powi e)"
  have "(of_int k * 2 powi e) / 2 powi f = (of_int k * 2 powi (e - f) :: rat)"
    by (simp add: power_int_diff)
  also have "\<dots> = of_int (k * 2 ^ nat (e - f))"
    using assms by (simp add: f_def power_int_def)
  finally have "rnd_even ((of_int k * 2 powi e) / 2 powi f) = k * 2 ^ nat (e - f)"
    by (simp only: rnd_even_of_int)
  then have "rr (of_int k * 2 powi e) = of_int (k * 2 ^ nat (e - f)) * 2 powi f"
    using False by (simp only: rr_def f_def [symmetric]) simp
  also have "\<dots> = of_int k * (2 powi (e - f) * 2 powi f)"
    using assms by (simp add: f_def power_int_def)
  also have "\<dots> = of_int k * 2 powi e" by (simp flip: power_int_add)
  finally show ?thesis .
qed simp

lemma rr_dyadic:
  assumes "\<bar>k\<bar> \<le> 2 ^ 53" "- 1074 \<le> e"
  shows "rr (of_int k * 2 powi e) = of_int k * 2 powi e"
proof -
  consider "k = 0" | "k \<noteq> 0" "\<bar>k\<bar> < 2 ^ 53" | "\<bar>k\<bar> = 2 ^ 53" using assms(1) by linarith
  then show ?thesis
  proof cases
    case 2
    let ?x = "of_int k * 2 powi e :: rat"
    have pos: "0 < \<bar>?x\<bar>" using 2 by simp
    have "(of_int \<bar>k\<bar> :: rat) < of_int (2 ^ 53)" using 2(2) by (simp only: of_int_less_iff)
    then have "\<bar>?x\<bar> < 2 ^ 53 * 2 powi e" by (simp add: abs_mult)
    also have "\<dots> = 2 powi (53 + e)" by (simp add: power_int_add)
    finally have "(2 :: rat) powi flog2 \<bar>?x\<bar> < 2 powi (53 + e)"
      using flog2_bounds(1) [OF pos] by linarith
    then have "rexp ?x \<le> e" using assms(2) by (simp add: rexp_def)
    then show ?thesis by (rule rr_grid)
  next
    case 3
    define s where "s = sgn k"
    have s: "k = s * 2 ^ 53" "\<bar>s\<bar> = 1" using 3 by (auto simp: s_def sgn_if abs_if split: if_splits)
    let ?y = "of_int (s * 2 ^ 52) * 2 powi (e + 1) :: rat"
    have eq: "(of_int k * 2 powi e :: rat) = ?y"
      by (simp add: s power_int_add)
    have "\<bar>of_int s :: rat\<bar> = 1" using s(2) by (metis of_int_1 of_int_abs)
    then have "\<bar>?y\<bar> = 2 powi (e + 53)"
      by (simp add: abs_mult power_int_add)
    moreover have "flog2 (2 powi (e + 53)) = e + 53" by (rule flog2_unique) simp_all
    ultimately have "rexp ?y \<le> e + 1"
      using assms(2) by (simp add: rexp_def)
    then show ?thesis unfolding eq by (rule rr_grid)
  qed simp
qed

text \<open>A number between two powers of two is rounded between them.\<close>

lemma scaled_less: "0 < x \<Longrightarrow> x / 2 powi rexp x < 2 ^ 53"
proof -
  assume x: "0 < x"
  have "x < 2 powi (flog2 x + 1)" by (rule flog2_bounds [OF x])
  also have "\<dots> \<le> 2 powi (53 + rexp x)" using x by (simp add: rexp_def)
  also have "\<dots> = 2 ^ 53 * 2 powi rexp x" by (simp add: power_int_add)
  finally show ?thesis by (simp add: pos_divide_less_eq)
qed

lemma rnd_even_le: "x \<le> of_int n \<Longrightarrow> rnd_even x \<le> n"
  using rnd_even_mono [of x "of_int n"] by simp

lemma rnd_even_ge: "of_int n \<le> x \<Longrightarrow> n \<le> rnd_even x"
  using rnd_even_mono [of "of_int n" x] by simp

lemma rnd_even_scaled: "0 < x \<Longrightarrow> 0 \<le> rnd_even (x / 2 powi rexp x) \<and> rnd_even (x / 2 powi rexp x) \<le> 2 ^ 53"
  using scaled_less [of x] by (auto intro!: rnd_even_ge rnd_even_le)

lemma rr_nonneg: "0 \<le> x \<Longrightarrow> 0 \<le> rr x"
  using rnd_even_scaled [of x] by (auto simp: rr_def)

lemma rr_mono_pos:
  assumes "0 < x" "x \<le> y" shows "rr x \<le> rr y"
proof (cases "rexp x = rexp y")
  case True
  have "rnd_even (x / 2 powi rexp y) \<le> rnd_even (y / 2 powi rexp y)"
    using assms by (intro rnd_even_mono divide_right_mono) auto
  with assms True show ?thesis by (simp add: rr_def)
next
  case False
  have y: "0 < y" using assms by linarith
  have "rexp x < rexp y" using False flog2_mono [OF assms] assms by (auto simp: rexp_def)
  then have ey: "rexp y = flog2 y - 52" and le: "rexp x + 53 \<le> flog2 y"
    using y rexp_ge [of x] by (auto simp: rexp_def)
  have "rr x = of_int (rnd_even (x / 2 powi rexp x)) * 2 powi rexp x" using assms by (simp add: rr_def)
  also have "\<dots> \<le> of_int (2 ^ 53) * 2 powi rexp x"
    using rnd_even_scaled [OF assms(1)] by (intro mult_right_mono) (auto simp only: of_int_le_iff, simp)
  also have "\<dots> = 2 powi (rexp x + 53)" by (simp add: power_int_add)
  also have "\<dots> \<le> 2 powi flog2 y" using le by simp
  also have "\<dots> = of_int (2 ^ 52) * 2 powi rexp y" by (simp add: ey power_int_diff)
  also have "\<dots> \<le> of_int (rnd_even (y / 2 powi rexp y)) * 2 powi rexp y"
  proof -
    have "of_int (2 ^ 52) * 2 powi rexp y \<le> y"
      using flog2_bounds(1) [OF y] by (simp add: ey power_int_diff)
    then have "2 ^ 52 \<le> rnd_even (y / 2 powi rexp y)"
      by (intro rnd_even_ge) (simp add: pos_le_divide_eq)
    then show ?thesis by (intro mult_right_mono) (simp_all only: of_int_le_iff, simp)
  qed
  also have "\<dots> = rr y" using y by (simp add: rr_def)
  finally show ?thesis .
qed

lemma rr_nonpos: "x \<le> 0 \<Longrightarrow> rr x \<le> 0"
  using rr_nonneg [of "- x"] by simp

lemma rr_mono: "x \<le> y \<Longrightarrow> rr x \<le> rr y"
proof -
  assume xy: "x \<le> y"
  consider "0 < x" | "x \<le> 0" "0 \<le> y" | "y < 0" using xy by linarith
  then show ?thesis
  proof cases
    case 1 then show ?thesis using xy by (rule rr_mono_pos)
  next
    case 2 then show ?thesis using rr_nonpos [of x] rr_nonneg [of y] by linarith
  next
    case 3 then show ?thesis using rr_mono_pos [of "- y" "- x"] xy by simp
  qed
qed

lemma rr_rr [simp]: "rr (rr x) = rr x"
proof -
  have *: "rr (rr x) = rr x" if "0 < x" for x
    using that rnd_even_scaled [OF that] rexp_ge [of x]
    by (simp add: rr_def [of x]) (rule rr_dyadic, auto)
  show ?thesis
  proof (cases "0 < x \<or> x = 0")
    case False
    then have "0 < - x" by simp
    from * [OF this] show ?thesis by simp
  qed (use * in auto)
qed

lemma rr_of_int [simp]: "\<bar>n\<bar> \<le> 2 ^ 53 \<Longrightarrow> rr (of_int n) = of_int n"
  using rr_dyadic [of n 0] by simp

section \<open>Floating-point numbers\<close>

datatype f64 = NaN | PInf | NInf | NZero | Fin rat

definition f_huge :: rat where "f_huge = 2 ^ 1024"

text \<open>
  The numeric value; the infinities sit at \<open>\<plusminus>2^1024\<close>, beyond every finite number, so that
  comparing values is comparing numbers.
\<close>

fun nval :: "f64 \<Rightarrow> rat" where
  "nval NaN = 0"
| "nval PInf = f_huge"
| "nval NInf = - f_huge"
| "nval NZero = 0"
| "nval (Fin r) = r"

definition is_nan :: "f64 \<Rightarrow> bool" where "is_nan x \<longleftrightarrow> x = NaN"
definition is_inf :: "f64 \<Rightarrow> bool" where "is_inf x \<longleftrightarrow> x = PInf \<or> x = NInf"
definition is_finite :: "f64 \<Rightarrow> bool" where "is_finite x \<longleftrightarrow> \<not> is_nan x \<and> \<not> is_inf x"
definition is_zero :: "f64 \<Rightarrow> bool" where "is_zero x \<longleftrightarrow> x = NZero \<or> x = Fin 0"
definition is_neg :: "f64 \<Rightarrow> bool" where
  "is_neg x \<longleftrightarrow> x = NInf \<or> x = NZero \<or> (x \<noteq> NaN \<and> nval x < 0)"

lemmas f64_class = is_nan_def is_inf_def is_finite_def is_zero_def is_neg_def

definition rnd :: "rat \<Rightarrow> f64" where
  "rnd x = (let y = rr x in
     if f_huge \<le> y then PInf else if y \<le> - f_huge then NInf
     else if y = 0 \<and> x < 0 then NZero else Fin y)"

text \<open>The values the hardware has: a finite one is its own rounding and in range.\<close>

definition is_f64 :: "f64 \<Rightarrow> bool" where
  "is_f64 x = (case x of Fin r \<Rightarrow> rr r = r \<and> \<bar>r\<bar> < f_huge | _ \<Rightarrow> True)"

definition fzero :: "bool \<Rightarrow> f64" where "fzero neg = (if neg then NZero else Fin 0)"
definition finf :: "bool \<Rightarrow> f64" where "finf neg = (if neg then NInf else PInf)"

definition fneg :: "f64 \<Rightarrow> f64" where
  "fneg x = (case x of NaN \<Rightarrow> NaN | PInf \<Rightarrow> NInf | NInf \<Rightarrow> PInf | NZero \<Rightarrow> Fin 0
     | Fin r \<Rightarrow> if r = 0 then NZero else Fin (- r))"

definition fadd :: "f64 \<Rightarrow> f64 \<Rightarrow> f64" where
  "fadd a b =
     (if is_nan a \<or> is_nan b then NaN
      else if is_inf a then (if is_inf b \<and> a \<noteq> b then NaN else a)
      else if is_inf b then b
      else if is_zero a \<and> is_zero b then fzero (is_neg a \<and> is_neg b)
      else if nval a + nval b = 0 then Fin 0
      else rnd (nval a + nval b))"

definition fsub :: "f64 \<Rightarrow> f64 \<Rightarrow> f64" where
  "fsub a b = fadd a (fneg b)"

definition fmul :: "f64 \<Rightarrow> f64 \<Rightarrow> f64" where
  "fmul a b =
     (if is_nan a \<or> is_nan b then NaN
      else if is_inf a \<or> is_inf b
        then (if is_zero a \<or> is_zero b then NaN else finf (is_neg a \<noteq> is_neg b))
      else if is_zero a \<or> is_zero b then fzero (is_neg a \<noteq> is_neg b)
      else rnd (nval a * nval b))"

definition fdiv :: "f64 \<Rightarrow> f64 \<Rightarrow> f64" where
  "fdiv a b =
     (if is_nan a \<or> is_nan b then NaN
      else if is_inf a then (if is_inf b then NaN else finf (is_neg a \<noteq> is_neg b))
      else if is_inf b then fzero (is_neg a \<noteq> is_neg b)
      else if is_zero b then (if is_zero a then NaN else finf (is_neg a \<noteq> is_neg b))
      else if is_zero a then fzero (is_neg a \<noteq> is_neg b)
      else rnd (nval a / nval b))"

text \<open>\<open><\<close>, \<open><=\<close>, \<open>==\<close> are false on NaN; the two zeros are equal.\<close>

definition flt :: "f64 \<Rightarrow> f64 \<Rightarrow> bool" where
  "flt a b \<longleftrightarrow> \<not> is_nan a \<and> \<not> is_nan b \<and> nval a < nval b"

definition fle :: "f64 \<Rightarrow> f64 \<Rightarrow> bool" where
  "fle a b \<longleftrightarrow> \<not> is_nan a \<and> \<not> is_nan b \<and> nval a \<le> nval b"

definition feq :: "f64 \<Rightarrow> f64 \<Rightarrow> bool" where
  "feq a b \<longleftrightarrow> \<not> is_nan a \<and> \<not> is_nan b \<and> nval a = nval b"

text \<open>
  \<open>total_cmp\<close>: minus zero below zero, NaN above everything. The order also tells NaNs apart by sign and payload, a negative one being below
  everything; as neither is modelled (Rust leaves both open for the NaN an operation produces), the one NaN here stands for a positive one.
\<close>

definition total_le :: "f64 \<Rightarrow> f64 \<Rightarrow> bool" where
  "total_le a b \<longleftrightarrow> is_nan b \<or> (\<not> is_nan a \<and>
     (nval a < nval b \<or> (nval a = nval b \<and> (a = NZero \<or> b \<noteq> NZero))))"

definition fabs :: "f64 \<Rightarrow> f64" where
  "fabs x = (if is_neg x then fneg x else x)"

definition fmax :: "f64 \<Rightarrow> f64 \<Rightarrow> f64" where
  "fmax a b = (if is_nan a then b else if is_nan b then a else if nval a < nval b then b else a)"

definition fmin :: "f64 \<Rightarrow> f64 \<Rightarrow> f64" where
  "fmin a b = (if is_nan a then b else if is_nan b then a else if nval b < nval a then b else a)"

definition fsignum :: "f64 \<Rightarrow> f64" where
  "fsignum x = (if is_nan x then NaN else if is_neg x then Fin (- 1) else Fin 1)"

text \<open>\<open>powi(2)\<close> is one multiplication; in general it is compiler-rt's square-and-multiply.\<close>

definition fsq :: "f64 \<Rightarrow> f64" where "fsq x = fmul x x"

fun powi_loop :: "f64 \<Rightarrow> f64 \<Rightarrow> nat \<Rightarrow> f64" where
  "powi_loop r a b =
     (let r' = (if odd b then fmul r a else r)
      in if b div 2 = 0 then r' else powi_loop r' (fmul a a) (b div 2))"

declare powi_loop.simps [simp del]

definition fpowi :: "f64 \<Rightarrow> nat \<Rightarrow> f64" where
  "fpowi a b = powi_loop (Fin 1) a b"

text \<open>\<open>Iterator::sum\<close> starts at minus zero.\<close>

definition fsum :: "f64 list \<Rightarrow> f64" where
  "fsum xs = foldl fadd NZero xs"

text \<open>Conversions: from integers round, to integers truncate and saturate (NaN to zero).\<close>

definition of_i64 :: "int \<Rightarrow> f64" where "of_i64 n = rnd (of_int n)"
definition of_u64 :: "u64 \<Rightarrow> f64" where "of_u64 w = rnd (of_int (uint w))"
definition of_u32 :: "u32 \<Rightarrow> f64" where "of_u32 w = rnd (of_int (uint w))"
definition of_usize :: "nat \<Rightarrow> f64" where "of_usize n = rnd (of_nat n)"

definition trunc_rat :: "rat \<Rightarrow> int" where
  "trunc_rat r = (if 0 \<le> r then \<lfloor>r\<rfloor> else \<lceil>r\<rceil>)"

definition f64_as_i64 :: "f64 \<Rightarrow> i64" where
  "f64_as_i64 x = i64_sat (trunc_rat (nval x))"

definition f64_as_u64 :: "f64 \<Rightarrow> u64" where
  "f64_as_u64 x = word_of_int (max 0 (min (2 ^ 64 - 1) (trunc_rat (nval x))))"

definition f64_as_u32 :: "f64 \<Rightarrow> u32" where
  "f64_as_u32 x = word_of_int (max 0 (min (2 ^ 32 - 1) (trunc_rat (nval x))))"

definition f64_as_usize :: "f64 \<Rightarrow> nat" where
  "f64_as_usize x = unat (f64_as_u64 x)"

text \<open>\<open>floor\<close>; \<open>round\<close> is half away from zero. Both keep the sign of a zero result.\<close>

definition f_int :: "bool \<Rightarrow> int \<Rightarrow> f64" where
  "f_int neg n = (if n = 0 then fzero neg else rnd (of_int n))"

definition ffloor :: "f64 \<Rightarrow> f64" where
  "ffloor x = (if is_finite x then f_int (is_neg x) \<lfloor>nval x\<rfloor> else x)"

definition fround :: "f64 \<Rightarrow> f64" where
  "fround x = (if is_finite x
     then f_int (is_neg x) (if 0 \<le> nval x then \<lfloor>nval x + 1 / 2\<rfloor> else \<lceil>nval x - 1 / 2\<rceil>)
     else x)"

text \<open>\<open>sqrt\<close> is correctly rounded: the integer square root of the scaled argument.\<close>

fun isqrt :: "nat \<Rightarrow> nat" where
  "isqrt n = (if n = 0 then 0 else
     (let r = 2 * isqrt (n div 4) in if (r + 1) ^ 2 \<le> n then r + 1 else r))"

declare isqrt.simps [simp del]

definition sqrt_even :: "rat \<Rightarrow> int" where
  "sqrt_even z = (let s = int (isqrt (nat \<lfloor>z\<rfloor>)); h = (of_int s + 1 / 2) ^ 2 in
     if z < h then s else if h < z then s + 1 else if even s then s else s + 1)"

definition sqrt_exp :: "rat \<Rightarrow> int" where
  "sqrt_exp x = flog2 x div 2 - 52"

definition fsqrt :: "f64 \<Rightarrow> f64" where
  "fsqrt x =
     (if is_nan x \<or> is_zero x \<or> x = PInf then x
      else if is_neg x then NaN
      else let e = sqrt_exp (nval x)
        in Fin (of_int (sqrt_even (nval x / 4 powi e)) * 2 powi e))"

text \<open>A decimal literal is the rounding of its value.\<close>

abbreviation flit :: "rat \<Rightarrow> f64" where "flit \<equiv> rnd"

section \<open>Values of results\<close>

definition nclamp :: "rat \<Rightarrow> rat" where
  "nclamp y = max (- f_huge) (min f_huge y)"

lemma f_huge_pos [simp]: "0 < f_huge" "0 \<le> f_huge" "\<not> f_huge < 0" "\<not> f_huge \<le> 0" "f_huge \<noteq> 0"
  by (simp_all add: f_huge_def)

lemma nclamp_mono: "x \<le> y \<Longrightarrow> nclamp x \<le> nclamp y"
  unfolding nclamp_def by (auto simp only: max_def min_def split: if_splits)

lemma nclamp_id: "\<bar>y\<bar> \<le> f_huge \<Longrightarrow> nclamp y = y"
  unfolding nclamp_def abs_le_iff by (auto simp only: max_def min_def split: if_splits)

lemma nclamp_0 [simp]: "nclamp 0 = 0"
  by (rule nclamp_id) simp

lemma nval_rnd [f64_val]: "nval (rnd x) = nclamp (rr x)"
  unfolding rnd_def nclamp_def Let_def by (auto simp: max_def min_def not_le)

lemma is_nan_rnd [simp]: "\<not> is_nan (rnd x)"
  by (simp add: rnd_def is_nan_def Let_def)

lemma rnd_0 [simp]: "rnd 0 = Fin 0"
  by (simp add: rnd_def)

lemma is_f64_rnd [simp]: "is_f64 (rnd x)"
  unfolding rnd_def is_f64_def Let_def by (auto simp: abs_less_iff not_le)

lemma rnd_id: "is_f64 (Fin r) \<Longrightarrow> rnd r = Fin r"
  unfolding rnd_def is_f64_def Let_def by (auto simp: abs_less_iff not_le)

lemma rr_pow2: "- 1074 \<le> e \<Longrightarrow> rr (2 powi e) = 2 powi e"
  using rr_dyadic [of 1 e] by simp

lemma rr_f_huge: "rr f_huge = f_huge"
  using rr_pow2 [of 1024] unfolding f_huge_def by simp

lemma rr_nval: "is_f64 a \<Longrightarrow> rr (nval a) = nval a"
  by (cases a) (auto simp: is_f64_def rr_f_huge)

lemma abs_nval_le: "is_f64 a \<Longrightarrow> \<bar>nval a\<bar> \<le> f_huge"
  by (cases a) (auto simp: is_f64_def)

lemma abs_nval_less: "is_f64 a \<Longrightarrow> is_finite a \<Longrightarrow> \<bar>nval a\<bar> < f_huge"
  by (cases a) (auto simp: is_f64_def f64_class)

text \<open>Rounding never crosses a representable number.\<close>

lemma rnd_le: "is_f64 c \<Longrightarrow> x \<le> nval c \<Longrightarrow> nclamp (rr x) \<le> nval c"
  using nclamp_mono [OF rr_mono, of x "nval c"] by (simp add: rr_nval nclamp_id abs_nval_le)

lemma rnd_ge: "is_f64 c \<Longrightarrow> nval c \<le> x \<Longrightarrow> nval c \<le> nclamp (rr x)"
  using nclamp_mono [OF rr_mono, of "nval c" x] by (simp add: rr_nval nclamp_id abs_nval_le)

lemma rnd_mono: "x \<le> y \<Longrightarrow> nclamp (rr x) \<le> nclamp (rr y)"
  by (intro nclamp_mono rr_mono)

lemma rnd_nonneg: "0 \<le> x \<Longrightarrow> 0 \<le> nclamp (rr x)"
  using rnd_mono [of 0 x] by simp

lemma rnd_nonpos: "x \<le> 0 \<Longrightarrow> nclamp (rr x) \<le> 0"
  using rnd_mono [of x 0] by simp

lemma nclamp_rr_nval: "is_f64 a \<Longrightarrow> nclamp (rr (nval a)) = nval a"
  by (simp add: rr_nval nclamp_id abs_nval_le)

lemma is_f64_of_int [simp]: "\<bar>n\<bar> \<le> 2 ^ 53 \<Longrightarrow> is_f64 (Fin (of_int n))"
proof -
  assume n: "\<bar>n\<bar> \<le> 2 ^ 53"
  have "\<bar>of_int n :: rat\<bar> = of_int \<bar>n\<bar>" by simp
  also have "\<dots> \<le> of_int (2 ^ 53)" using n by (simp only: of_int_le_iff)
  also have "\<dots> < f_huge" by (simp add: f_huge_def)
  finally show ?thesis using n by (simp add: is_f64_def)
qed

lemma rnd_of_int: "\<bar>n\<bar> \<le> 2 ^ 53 \<Longrightarrow> rnd (of_int n) = Fin (of_int n)"
  by (intro rnd_id is_f64_of_int)

lemma is_f64_simps [simp]:
  "is_f64 NaN" "is_f64 PInf" "is_f64 NInf" "is_f64 NZero" "is_f64 (Fin 0)" "is_f64 (Fin 1)"
  "is_f64 (Fin (- 1))" "is_f64 (fzero s)" "is_f64 (finf s)"
  using is_f64_of_int [of 1] is_f64_of_int [of "- 1"]
  by (simp_all add: is_f64_def fzero_def finf_def)

lemma is_f64_numeral [simp]: "(numeral n :: int) \<le> 2 ^ 53 \<Longrightarrow> is_f64 (Fin (numeral n))"
  using is_f64_of_int [of "numeral n"] by simp

lemma is_zero_nval: "is_finite a \<Longrightarrow> is_zero a \<longleftrightarrow> nval a = 0"
  by (cases a) (auto simp: f64_class)

lemma nval_fneg [simp]: "nval (fneg a) = - nval a"
  by (cases a) (auto simp: fneg_def)

lemma is_f64_fneg [simp]: "is_f64 a \<Longrightarrow> is_f64 (fneg a)"
  by (cases a) (auto simp: fneg_def is_f64_def)

lemma fneg_class [simp]: "is_nan (fneg a) = is_nan a" "is_inf (fneg a) = is_inf a"
  "is_finite (fneg a) = is_finite a"
  by (cases a; simp add: fneg_def f64_class)+

lemma nval_fzero [simp]: "nval (fzero s) = 0" "\<not> is_nan (fzero s)" "is_finite (fzero s)"
  by (simp_all add: fzero_def f64_class)

lemma is_f64_fadd [simp]: "is_f64 a \<Longrightarrow> is_f64 b \<Longrightarrow> is_f64 (fadd a b)"
  by (simp add: fadd_def)

lemma is_f64_fsub [simp]: "is_f64 a \<Longrightarrow> is_f64 b \<Longrightarrow> is_f64 (fsub a b)"
  by (simp add: fsub_def)

lemma is_f64_fmul [simp]: "is_f64 (fmul a b)"
  by (simp add: fmul_def)

lemma is_f64_fdiv [simp]: "is_f64 (fdiv a b)"
  by (simp add: fdiv_def)

lemma is_f64_fsq [simp]: "is_f64 (fsq a)"
  by (simp add: fsq_def)

lemma is_f64_of_i64 [simp]: "is_f64 (of_i64 n)" "is_f64 (of_u64 w)" "is_f64 (of_u32 v)"
  "is_f64 (of_usize k)"
  by (simp_all add: of_i64_def of_u64_def of_u32_def of_usize_def)

lemma is_f64_fmax [simp]: "is_f64 a \<Longrightarrow> is_f64 b \<Longrightarrow> is_f64 (fmax a b)"
  by (simp add: fmax_def)

lemma is_f64_fmin [simp]: "is_f64 a \<Longrightarrow> is_f64 b \<Longrightarrow> is_f64 (fmin a b)"
  by (simp add: fmin_def)

lemma is_f64_fabs [simp]: "is_f64 a \<Longrightarrow> is_f64 (fabs a)"
  by (simp add: fabs_def)

lemma finite_not_nan: "is_finite a \<Longrightarrow> \<not> is_nan a"
  by (simp add: is_finite_def)

text \<open>Overflow and NaN propagate: a finite result had finite arguments.\<close>

lemma fadd_finite_args: "is_finite (fadd a b) \<Longrightarrow> is_finite a \<and> is_finite b"
  by (cases a; cases b) (auto simp: fadd_def f64_class)

lemma fmul_finite_args: "is_finite (fmul a b) \<Longrightarrow> is_finite a \<and> is_finite b"
  by (cases a; cases b) (auto simp: fmul_def f64_class finf_def split: if_splits)

lemma is_zero_fmul: "is_zero a \<Longrightarrow> is_finite b \<Longrightarrow> is_zero (fmul a b)"
  by (cases b) (auto simp: fmul_def f64_class fzero_def)

lemma is_zero_fadd: "is_zero a \<Longrightarrow> is_zero b \<Longrightarrow> is_zero (fadd a b)"
  by (auto simp: fadd_def f64_class fzero_def)

lemma nval_fadd [f64_val]:
  assumes "is_finite a" "is_finite b"
  shows "nval (fadd a b) = nclamp (rr (nval a + nval b))"
  using assms by (auto simp: fadd_def is_finite_def nval_rnd is_zero_nval [OF assms(1)]
      is_zero_nval [OF assms(2)])

lemma nan_fadd: "is_finite a \<Longrightarrow> is_finite b \<Longrightarrow> \<not> is_nan (fadd a b)"
  by (auto simp: fadd_def is_finite_def f64_class(1) fzero_def rnd_def Let_def)

lemma nval_fsub [f64_val]:
  "is_finite a \<Longrightarrow> is_finite b \<Longrightarrow> nval (fsub a b) = nclamp (rr (nval a - nval b))"
  by (simp add: fsub_def nval_fadd)

lemma nan_fsub: "is_finite a \<Longrightarrow> is_finite b \<Longrightarrow> \<not> is_nan (fsub a b)"
  by (simp add: fsub_def nan_fadd)

lemma nval_fmul [f64_val]:
  assumes "is_finite a" "is_finite b"
  shows "nval (fmul a b) = nclamp (rr (nval a * nval b))"
  using assms by (auto simp: fmul_def is_finite_def nval_rnd is_zero_nval [OF assms(1)]
      is_zero_nval [OF assms(2)])

lemma nan_fmul: "is_finite a \<Longrightarrow> is_finite b \<Longrightarrow> \<not> is_nan (fmul a b)"
  by (auto simp: fmul_def is_finite_def)

lemma nval_fdiv [f64_val]:
  assumes "is_finite a" "is_finite b" "nval b \<noteq> 0"
  shows "nval (fdiv a b) = nclamp (rr (nval a / nval b))"
  using assms by (auto simp: fdiv_def is_finite_def nval_rnd is_zero_nval [OF assms(1)]
      is_zero_nval [OF assms(2)])

lemma nan_fdiv: "is_finite a \<Longrightarrow> is_finite b \<Longrightarrow> nval b \<noteq> 0 \<Longrightarrow> \<not> is_nan (fdiv a b)"
  by (auto simp: fdiv_def is_finite_def is_zero_nval)

lemma finite_bounded:
  assumes "is_f64 a" "\<not> is_nan a" "\<bar>nval a\<bar> < f_huge"
  shows "is_finite a"
  using assms by (cases a) (auto simp: f64_class)

lemma finite_between:
  assumes "is_f64 a" "\<not> is_nan a" "is_f64 l" "is_f64 u" "is_finite l" "is_finite u"
    "nval l \<le> nval a" "nval a \<le> nval u"
  shows "is_finite a"
  using abs_nval_less [OF assms(3,5)] abs_nval_less [OF assms(4,6)] assms
  by (intro finite_bounded) (auto simp: abs_less_iff)

lemma fin_simps [simp]: "is_finite (Fin r)" "is_finite NZero" "\<not> is_finite PInf" "\<not> is_finite NInf"
  "\<not> is_finite NaN" "\<not> is_nan (Fin r)" "\<not> is_nan NZero" "\<not> is_nan PInf" "\<not> is_nan NInf" "is_nan NaN"
  by (simp_all add: f64_class)

lemma nval_fabs [simp]: "nval (fabs a) = \<bar>nval a\<bar>"
  by (cases a) (auto simp: fabs_def f64_class)

lemma fabs_class [simp]: "is_nan (fabs a) = is_nan a" "is_finite (fabs a) = is_finite a"
  by (simp_all add: fabs_def)

lemma nval_fmax: "\<not> is_nan a \<Longrightarrow> \<not> is_nan b \<Longrightarrow> nval (fmax a b) = max (nval a) (nval b)"
  by (simp add: fmax_def)

lemma fmax_class: "is_finite a \<Longrightarrow> is_finite b \<Longrightarrow> is_finite (fmax a b)"
  by (simp add: fmax_def)

lemma fle_refl_iff [simp]: "fle a a \<longleftrightarrow> \<not> is_nan a"
  by (simp add: fle_def)

lemma total_le_refl: "total_le a a"
  by (auto simp: total_le_def)

lemma total_le_trans: "total_le a b \<Longrightarrow> total_le b c \<Longrightarrow> total_le a c"
  by (auto simp: total_le_def)

lemma total_le_linear: "total_le a b \<or> total_le b a"
  by (auto simp: total_le_def)

section \<open>Square roots\<close>

lemma isqrt_spec: "isqrt n ^ 2 \<le> n \<and> n < (isqrt n + 1) ^ 2"
proof (induction n rule: isqrt.induct)
  case (1 n)
  show ?case
  proof (cases "n = 0")
    case True then show ?thesis by (simp add: isqrt.simps)
  next
    case False
    define r where "r = isqrt (n div 4)"
    from 1 [OF False] have "r ^ 2 \<le> n div 4" "n div 4 < (r + 1) ^ 2" by (simp_all add: r_def)
    then have "(2 * r) ^ 2 \<le> n" "n < (2 * r + 2) ^ 2"
      by (auto simp: power2_eq_square algebra_simps)
    moreover have "isqrt n = (if (2 * r + 1) ^ 2 \<le> n then 2 * r + 1 else 2 * r)"
      using False by (subst isqrt.simps) (simp add: r_def Let_def)
    ultimately show ?thesis by auto
  qed
qed

lemma sqrt_even_bounds:
  assumes "0 \<le> z" "of_int a ^ 2 \<le> z" "z < of_int b ^ 2" "0 \<le> a" "0 \<le> b"
  shows "a \<le> sqrt_even z" "sqrt_even z \<le> b"
proof -
  define s where "s = int (isqrt (nat \<lfloor>z\<rfloor>))"
  have s: "s ^ 2 \<le> \<lfloor>z\<rfloor>" "\<lfloor>z\<rfloor> < (s + 1) ^ 2"
    using isqrt_spec [of "nat \<lfloor>z\<rfloor>"] assms(1) unfolding s_def
    by (metis of_nat_power of_nat_le_iff le_nat_iff zero_le_floor, metis of_nat_1 of_nat_add of_nat_power nat_less_iff zero_le_floor)
  have "a ^ 2 \<le> \<lfloor>z\<rfloor>" using assms(2) by (metis le_floor_iff of_int_power)
  then have "a ^ 2 < (s + 1) ^ 2" using s by linarith
  then have "a \<le> s" using power_less_imp_less_base [of a 2 "s + 1"] by (simp add: s_def)
  have "(of_int s :: rat) ^ 2 \<le> z" using s(1) by (metis le_floor_iff of_int_power)
  then have "(of_int s :: rat) ^ 2 < of_int b ^ 2" using assms(3) by linarith
  then have "s < b" using power_less_imp_less_base [of "of_int s :: rat" 2 "of_int b"] assms(5) by simp
  then show "a \<le> sqrt_even z" "sqrt_even z \<le> b"
    using \<open>a \<le> s\<close> unfolding sqrt_even_def s_def [symmetric] Let_def by auto
qed

lemma sqrt_even_scaled:
  assumes "0 < x"
  shows "2 ^ 52 \<le> sqrt_even (x / 4 powi sqrt_exp x) \<and> sqrt_even (x / 4 powi sqrt_exp x) \<le> 2 ^ 53"
proof -
  define h where "h = flog2 x div 2"
  have four: "(4 :: rat) powi e = 2 powi (2 * e)" for e
    by (simp add: power_int_mult)
  have "2 * h \<le> flog2 x" "flog2 x + 1 \<le> 2 * h + 2" by (simp_all add: h_def)
  then have "(2 :: rat) powi (2 * h) \<le> x" "x < 2 powi (2 * h + 2)"
    using flog2_bounds [OF assms] by (meson order_trans two_powi_le_iff less_le_trans)+
  moreover have "(2 :: rat) powi (2 * h) = (2 ^ 52) ^ 2 * 4 powi sqrt_exp x"
    "(2 :: rat) powi (2 * h + 2) = (2 ^ 53) ^ 2 * 4 powi sqrt_exp x"
    unfolding four sqrt_exp_def h_def by (simp_all add: power_int_diff power_int_add algebra_simps)
  ultimately have "(of_int (2 ^ 52)) ^ 2 \<le> x / 4 powi sqrt_exp x" "x / 4 powi sqrt_exp x < (of_int (2 ^ 53)) ^ 2"
    by (simp_all add: pos_le_divide_eq pos_divide_less_eq)
  then show ?thesis using sqrt_even_bounds [of "x / 4 powi sqrt_exp x" "2 ^ 52" "2 ^ 53"] assms by simp
qed

lemma f64_min_pos:
  assumes "is_f64 (Fin x)" "0 < x" shows "- 1074 \<le> flog2 x \<and> flog2 x \<le> 1023"
proof
  have x: "x = of_int (rnd_even (x / 2 powi rexp x)) * 2 powi rexp x"
    using assms by (simp add: is_f64_def rr_def)
  then have "0 < rnd_even (x / 2 powi rexp x)"
    using assms(2) by (metis mult_le_0_iff not_le of_int_0_le_iff less_le of_int_le_0_iff two_powi_pos zero_le_mult_iff)
  then have "1 * 2 powi rexp x \<le> x" by (subst x) (rule mult_right_mono, simp_all)
  then have "2 powi rexp x \<le> x" by simp
  then have "2 powi rexp x < (2 :: rat) powi (flog2 x + 1)"
    using flog2_bounds(2) [OF assms(2)] by linarith
  then show "- 1074 \<le> flog2 x" using rexp_ge [of x] by simp
  have "x < 2 powi 1024" using assms by (simp add: is_f64_def f_huge_def)
  then have "(2 :: rat) powi flog2 x < 2 powi 1024" using flog2_bounds(1) [OF assms(2)] by linarith
  then show "flog2 x \<le> 1023" by (simp only: two_powi_less_iff)
qed

lemma fsqrt_pos:
  assumes "is_f64 (Fin x)" "0 < x"
  shows "is_f64 (fsqrt (Fin x)) \<and> is_finite (fsqrt (Fin x)) \<and> 0 < nval (fsqrt (Fin x))"
proof -
  define e where "e = sqrt_exp x"
  define m where "m = sqrt_even (x / 4 powi e)"
  have e: "- 1074 \<le> e" "e \<le> 500" using f64_min_pos [OF assms] by (auto simp: e_def sqrt_exp_def)
  have m: "2 ^ 52 \<le> m" "m \<le> 2 ^ 53" using sqrt_even_scaled [OF assms(2)] by (auto simp: m_def e_def)
  have q: "fsqrt (Fin x) = Fin (of_int m * 2 powi e)"
    using assms(2) by (simp add: fsqrt_def f64_class m_def e_def Let_def)
  have "rr (of_int m * 2 powi e) = of_int m * 2 powi e" using m e by (intro rr_dyadic) auto
  moreover have "of_int m * 2 powi e < f_huge"
  proof -
    have "of_int m * 2 powi e \<le> of_int (2 ^ 53) * (2 :: rat) powi e"
      using m(2) by (intro mult_right_mono) (simp_all only: of_int_le_iff, simp)
    also have "\<dots> = 2 powi (e + 53)" by (simp add: power_int_add)
    also have "\<dots> < 2 powi 1024" using e by (simp only: two_powi_less_iff)
    finally show ?thesis by (simp add: f_huge_def)
  qed
  moreover have "0 < (of_int m :: rat)" using m(1) by simp
  ultimately show ?thesis by (simp add: q is_f64_def)
qed

lemma is_f64_fsqrt [simp]: "is_f64 x \<Longrightarrow> is_f64 (fsqrt x)"
proof (cases "\<exists>r. x = Fin r \<and> 0 < r")
  case True
  assume "is_f64 x"
  with True fsqrt_pos show ?thesis by auto
next
  case False
  assume "is_f64 x"
  with False show ?thesis by (cases x) (auto simp: fsqrt_def f64_class not_less)
qed

lemma fsqrt_nonneg: "is_f64 x \<Longrightarrow> is_finite x \<Longrightarrow> 0 \<le> nval x \<Longrightarrow>
    is_finite (fsqrt x) \<and> 0 \<le> nval (fsqrt x)"
proof (cases "nval x = 0")
  case True
  assume "is_finite x"
  then show ?thesis using True by (simp add: fsqrt_def is_zero_nval)
next
  case False
  assume "is_f64 x" "is_finite x" "0 \<le> nval x"
  with False fsqrt_pos show ?thesis by (cases x) (auto intro: less_imp_le)
qed

lemma fsqrt_pos_iff: "is_f64 x \<Longrightarrow> is_finite x \<Longrightarrow> 0 < nval x \<Longrightarrow> 0 < nval (fsqrt x)"
  using fsqrt_pos by (cases x) auto

section \<open>Conversions\<close>

lemma trunc_rat_of_int [simp]: "trunc_rat (of_int n) = n"
  by (simp add: trunc_rat_def)

lemma trunc_rat_mono: "x \<le> y \<Longrightarrow> trunc_rat x \<le> trunc_rat y"
proof -
  assume xy: "x \<le> y"
  consider "0 \<le> x" | "x < 0" "0 \<le> y" | "y < 0" using xy by linarith
  then show ?thesis
  proof cases
    case 2
    then have "\<lceil>x\<rceil> \<le> 0" "0 \<le> \<lfloor>y\<rfloor>" by simp_all
    with 2 show ?thesis by (simp add: trunc_rat_def del: zero_le_floor ceiling_le_zero)
  qed (use xy in \<open>auto simp: trunc_rat_def floor_mono ceiling_mono\<close>)
qed

lemma f64_as_i64_bounds: "is_i64 (f64_as_i64 x)"
  by (simp add: f64_as_i64_def)

lemma f64_as_i64_zero: "nval x = 0 \<Longrightarrow> f64_as_i64 x = 0"
  by (simp add: f64_as_i64_def trunc_rat_def)

lemma f64_as_i64_mono: "nval x \<le> nval y \<Longrightarrow> f64_as_i64 x \<le> f64_as_i64 y"
  by (simp add: f64_as_i64_def i64_sat_mono trunc_rat_mono)

lemma f64_as_i64_of_i64: "\<bar>n\<bar> \<le> 2 ^ 53 \<Longrightarrow> f64_as_i64 (of_i64 n) = n"
  by (simp add: f64_as_i64_def of_i64_def rnd_of_int)
    (rule i64_sat_id, auto simp: i64_defs abs_le_iff)

lemma nval_of_i64: "nval (of_i64 n) = nclamp (rr (of_int n))"
  by (simp add: of_i64_def nval_rnd)

lemma finite_of_small:
  assumes "\<bar>x\<bar> \<le> 2 ^ 100" shows "is_finite (rnd x)"
proof (rule finite_bounded)
  have p: "rr (2 ^ 100) = 2 ^ 100" using rr_pow2 [of 100] by simp
  have "\<bar>rr x\<bar> \<le> 2 ^ 100" using rr_mono [of x "2 ^ 100"] rr_mono [of "- x" "2 ^ 100"] assms
    by (simp only: abs_le_iff p rr_minus)
  moreover have "(2 :: rat) ^ 100 < f_huge" by (simp add: f_huge_def)
  ultimately have b: "\<bar>rr x\<bar> < f_huge" by linarith
  then show "\<bar>nval (rnd x)\<bar> < f_huge" by (simp add: nval_rnd nclamp_id)
qed simp_all

lemma finite_of_int_64:
  assumes "\<bar>n\<bar> \<le> 2 ^ 64" shows "is_finite (rnd (of_int n))"
proof (rule finite_of_small)
  have "(of_int \<bar>n\<bar> :: rat) \<le> of_int (2 ^ 64)" using assms by (simp only: of_int_le_iff)
  then have "\<bar>of_int n :: rat\<bar> \<le> 2 ^ 64" by simp
  also have "\<dots> \<le> 2 ^ 100" by simp
  finally show "\<bar>of_int n :: rat\<bar> \<le> 2 ^ 100" .
qed

lemma finite_of_u64 [simp]: "is_finite (of_u64 w)"
  unfolding of_u64_def using uint_lt2p [of w] by (intro finite_of_int_64) simp

lemma finite_of_u32 [simp]: "is_finite (of_u32 w)"
  unfolding of_u32_def using uint_lt2p [of w] by (intro finite_of_int_64) simp

lemma finite_of_i64 [simp]: "is_i64 n \<Longrightarrow> is_finite (of_i64 n)"
  unfolding of_i64_def by (intro finite_of_int_64) (auto simp: i64_defs abs_le_iff)

section \<open>Numbers at or above zero\<close>

definition nonneg :: "f64 \<Rightarrow> bool" where
  "nonneg x \<longleftrightarrow> is_f64 x \<and> is_finite x \<and> 0 \<le> nval x"

lemma fadd_nonneg_ge:
  assumes "nonneg a" "nonneg b"
  shows "nval a \<le> nval (fadd a b)" "\<not> is_nan (fadd a b)" "is_f64 (fadd a b)"
proof -
  have v: "nval (fadd a b) = nclamp (rr (nval a + nval b))" using assms by (simp add: nonneg_def nval_fadd)
  show "nval a \<le> nval (fadd a b)" unfolding v using assms by (intro rnd_ge) (simp_all add: nonneg_def)
qed (use assms in \<open>simp_all add: nonneg_def nan_fadd\<close>)

lemma nonneg_fmul: "nonneg a \<Longrightarrow> nonneg b \<Longrightarrow> is_finite (fmul a b) \<Longrightarrow> nonneg (fmul a b)"
  by (simp add: nonneg_def nval_fmul rnd_nonneg)

lemma nonneg_fadd: "nonneg a \<Longrightarrow> nonneg b \<Longrightarrow> is_finite (fadd a b) \<Longrightarrow> nonneg (fadd a b)"
  using fadd_nonneg_ge(1) [of a b] unfolding nonneg_def by auto

text \<open>A number in the unit interval, and what multiplying by it does.\<close>

definition unit_f64 :: "f64 \<Rightarrow> bool" where
  "unit_f64 x \<longleftrightarrow> nonneg x \<and> nval x \<le> 1"

lemma unit_f64I:
  assumes "is_f64 x" "\<not> is_nan x" "0 \<le> nval x" "nval x \<le> 1"
  shows "unit_f64 x"
proof -
  have "is_finite x" by (rule finite_between [of _ "Fin 0" "Fin 1"]) (use assms in simp_all)
  with assms show ?thesis by (simp add: unit_f64_def nonneg_def)
qed

lemma unit_one_minus:
  assumes "unit_f64 k" shows "unit_f64 (fsub (Fin 1) k)"
proof (rule unit_f64I)
  have k: "is_f64 k" "is_finite k" "0 \<le> nval k" "nval k \<le> 1" using assms by (simp_all add: unit_f64_def nonneg_def)
  have v: "nval (fsub (Fin 1) k) = nclamp (rr (1 - nval k))" using k by (simp add: nval_fsub)
  show "0 \<le> nval (fsub (Fin 1) k)" unfolding v using k by (intro rnd_nonneg) simp
  show "nval (fsub (Fin 1) k) \<le> 1" unfolding v using k rnd_le [of "Fin 1" "1 - nval k"] by simp
  show "is_f64 (fsub (Fin 1) k)" "\<not> is_nan (fsub (Fin 1) k)" using k by (simp_all add: nan_fsub)
qed

lemma unit_fmul:
  assumes "unit_f64 k" "nonneg a"
  shows "nonneg (fmul k a)" "nval (fmul k a) \<le> nval a"
proof -
  have v: "nval (fmul k a) = nclamp (rr (nval k * nval a))" "\<not> is_nan (fmul k a)"
    using assms by (simp_all add: unit_f64_def nonneg_def nval_fmul nan_fmul)
  have p: "0 \<le> nval k * nval a" "nval k * nval a \<le> nval a"
    using assms by (simp_all add: unit_f64_def nonneg_def mult_left_le_one_le)
  show le: "nval (fmul k a) \<le> nval a" unfolding v using p assms(2) by (intro rnd_le) (simp_all add: nonneg_def)
  have n: "0 \<le> nval (fmul k a)" unfolding v using p(1) by (rule rnd_nonneg)
  have "is_finite (fmul k a)"
    by (rule finite_between [of _ "Fin 0" a]) (use assms v le n in \<open>simp_all add: nonneg_def\<close>)
  with n show "nonneg (fmul k a)" by (simp add: nonneg_def)
qed

lemma fraction_unit:
  assumes "nonneg p" "nonneg r" "is_finite (fadd p r)" "0 < nval (fadd p r)"
  shows "unit_f64 (fdiv p (fadd p r))"
proof (rule unit_f64I)
  have p: "is_finite p" "0 \<le> nval p" using assms(1) by (simp_all add: nonneg_def)
  have v: "nval (fdiv p (fadd p r)) = nclamp (rr (nval p / nval (fadd p r)))"
    using p assms(3,4) by (intro nval_fdiv) auto
  have "nval p \<le> nval (fadd p r)" using assms(1,2) by (rule fadd_nonneg_ge)
  then have q: "0 \<le> nval p / nval (fadd p r)" "nval p / nval (fadd p r) \<le> 1" using p assms(4) by simp_all
  show "0 \<le> nval (fdiv p (fadd p r))" unfolding v using q(1) by (rule rnd_nonneg)
  show "nval (fdiv p (fadd p r)) \<le> 1" unfolding v using q(2) rnd_le [of "Fin 1"] by simp
  show "\<not> is_nan (fdiv p (fadd p r))" using p assms(3,4) by (intro nan_fdiv) auto
qed simp

lemma tiny_pos: "0 < nval (flit (1 / 10 ^ 30))"
proof -
  have "nval (Fin (2 powi - 100)) \<le> nclamp (rr (1 / 10 ^ 30))"
  proof (rule rnd_ge)
    have "(2 :: rat) powi - 100 < 1" by simp
    also have "1 < f_huge" by (simp add: f_huge_def)
    finally show "is_f64 (Fin (2 powi - 100))" using rr_pow2 [of "- 100"] by (simp add: is_f64_def)
  qed (simp add: power_int_minus)
  moreover have "0 < nval (Fin (2 powi - 100))" by simp
  ultimately show ?thesis unfolding nval_rnd by linarith
qed

section \<open>Absolute errors and bounds\<close>

lemma rr_abs_err:
  assumes "\<bar>x\<bar> < 2 ^ k"
  shows "\<bar>rr x - x\<bar> \<le> 2 powi (int k - 54)"
proof (cases "x = 0")
  case False
  then have x: "0 < \<bar>x\<bar>" by simp
  have "2 powi flog2 \<bar>x\<bar> < (2 :: rat) powi int k" using flog2_bounds(1) [OF x] assms by simp
  then have "flog2 \<bar>x\<bar> < int k" by (simp only: two_powi_less_iff)
  then have e: "rexp x \<le> int k - 53" by (simp add: rexp_def)
  have "rr x - x = (of_int (rnd_even (x / 2 powi rexp x)) - x / 2 powi rexp x) * 2 powi rexp x"
    using False by (simp add: rr_def algebra_simps)
  then have "\<bar>rr x - x\<bar> = \<bar>of_int (rnd_even (x / 2 powi rexp x)) - x / 2 powi rexp x\<bar> * 2 powi rexp x"
    by (simp add: abs_mult)
  also have "\<dots> \<le> 1 / 2 * 2 powi rexp x" using rnd_even_close by (intro mult_right_mono) auto
  also have "\<dots> = 2 powi (rexp x - 1)" by (simp add: power_int_diff)
  also have "\<dots> \<le> 2 powi (int k - 54)" using e by (simp del: power_int_diff)
  finally show ?thesis .
qed simp

lemma fadd_close:
  assumes "is_finite a" "is_finite b" "\<bar>nval a + nval b\<bar> < 2 ^ k" "k \<le> 1000"
  shows "\<bar>nval (fadd a b) - (nval a + nval b)\<bar> \<le> 2 powi (int k - 54)"
proof -
  let ?x = "nval a + nval b"
  have "rr (2 ^ k) = 2 ^ k" using rr_pow2 [of "int k"] by simp
  then have "\<bar>rr ?x\<bar> \<le> 2 ^ k" using rr_mono [of ?x "2 ^ k"] rr_mono [of "- ?x" "2 ^ k"] assms(3)
    by (simp only: abs_le_iff abs_less_iff rr_minus) simp
  also have "(2 :: rat) ^ k \<le> 2 ^ 1000" using assms(4) by (intro power_increasing) auto
  also have "\<dots> \<le> f_huge" unfolding f_huge_def by (intro power_increasing) auto
  finally have "nval (fadd a b) = rr ?x" using assms(1,2) by (simp add: nval_fadd nclamp_id)
  then show ?thesis using rr_abs_err [OF assms(3)] by simp
qed

text \<open>A number of magnitude at most \<open>2^k\<close>, and the operations on such.\<close>

definition fbound :: "nat \<Rightarrow> f64 \<Rightarrow> bool" where
  "fbound k x \<longleftrightarrow> is_f64 x \<and> is_finite x \<and> \<bar>nval x\<bar> \<le> 2 ^ k"

lemma fbound_not_nan: "fbound k x \<Longrightarrow> \<not> is_nan x"
  by (simp add: fbound_def is_finite_def)

lemma fbound_le: "fbound k x \<Longrightarrow> k \<le> l \<Longrightarrow> fbound l x"
  unfolding fbound_def by (auto intro: order_trans power_increasing)

lemma fbound_rr:
  assumes "is_f64 y" "\<not> is_nan y" "nval y = nclamp (rr x)" "\<bar>x\<bar> \<le> 2 ^ k" "k \<le> 1000"
  shows "fbound k y"
proof -
  have "rr (2 ^ k) = 2 ^ k" using rr_pow2 [of "int k"] by simp
  then have b: "\<bar>rr x\<bar> \<le> 2 ^ k" using rr_mono [of x "2 ^ k"] rr_mono [of "- x" "2 ^ k"] assms(4)
    by (simp only: abs_le_iff rr_minus)
  have "(2 :: rat) ^ k \<le> 2 ^ 1000" using assms(5) by (intro power_increasing) auto
  moreover have "(2 :: rat) ^ 1000 < f_huge" unfolding f_huge_def by (intro power_strict_increasing) auto
  ultimately have lt: "\<bar>rr x\<bar> < f_huge" using b by linarith
  then have v: "nval y = rr x" using assms(3) by (simp add: nclamp_id)
  have "is_finite y" using assms(1,2) lt by (intro finite_bounded) (simp_all add: v)
  then show ?thesis using assms(1) b by (simp add: fbound_def v)
qed

lemma fbound_fadd:
  assumes "fbound k a" "fbound k b" "k < 1000"
  shows "fbound (k + 1) (fadd a b)"
proof (rule fbound_rr)
  show "\<bar>nval a + nval b\<bar> \<le> 2 ^ (k + 1)"
    using assms abs_triangle_ineq [of "nval a" "nval b"] by (simp add: fbound_def)
qed (use assms in \<open>simp_all add: fbound_def nval_fadd nan_fadd\<close>)

lemma fbound_fneg: "fbound k a \<Longrightarrow> fbound k (fneg a)"
  by (simp add: fbound_def)

lemma fbound_fsub: "fbound k a \<Longrightarrow> fbound k b \<Longrightarrow> k < 1000 \<Longrightarrow> fbound (k + 1) (fsub a b)"
  unfolding fsub_def by (intro fbound_fadd fbound_fneg)

lemma fbound_fabs: "fbound k a \<Longrightarrow> fbound k (fabs a)"
  by (simp add: fbound_def)

lemma fbound_fdiv:
  assumes "fbound k a" "is_finite b" "1 \<le> nval b" "k \<le> 1000"
  shows "fbound k (fdiv a b)"
proof (rule fbound_rr)
  have "\<bar>nval a\<bar> \<le> 2 ^ k * nval b"
    using assms(1,3) mult_left_mono [of 1 "nval b" "2 ^ k :: rat"] unfolding fbound_def by (auto intro: order_trans)
  then show "\<bar>nval a / nval b\<bar> \<le> 2 ^ k" using assms(3) by (simp add: pos_divide_le_eq)
qed (use assms in \<open>simp_all add: fbound_def nval_fdiv nan_fdiv\<close>)

lemma fbound_of_i64: "is_i64 n \<Longrightarrow> fbound 63 (of_i64 n)"
proof (rule fbound_rr [of _ "of_int n"])
  assume "is_i64 n"
  then have "\<bar>n\<bar> \<le> 2 ^ 63" by (auto simp: i64_defs)
  then have "(of_int \<bar>n\<bar> :: rat) \<le> of_int (2 ^ 63)" by (simp only: of_int_le_iff)
  then show "\<bar>of_int n :: rat\<bar> \<le> 2 ^ 63" by simp
qed (simp_all add: nval_of_i64, simp add: of_i64_def)

text \<open>A sum of at most 900 numbers below \<open>2^k\<close> in magnitude stays a number.\<close>

lemma fbound_fsum:
  assumes "\<forall>x \<in> set xs. fbound k x" "k + length xs < 1000"
  shows "fbound (k + length xs) (fsum xs)"
proof -
  have "fbound (m + length ys) (foldl fadd a ys)" if "fbound m a" "\<forall>x \<in> set ys. fbound k x" "k \<le> m" "m + length ys < 1000" for m a ys
    using that
  proof (induction ys arbitrary: a m)
    case (Cons y ys)
    have "fbound (m + 1) (fadd a y)" using Cons.prems by (intro fbound_fadd) (auto intro: fbound_le)
    from Cons.IH [OF this] Cons.prems show ?case by simp
  qed simp
  from this [of k NZero xs] assms show ?thesis by (simp add: fsum_def fbound_def)
qed

lemma fbound_fmul:
  assumes "fbound k a" "fbound l b" "k + l \<le> 1000"
  shows "fbound (k + l) (fmul a b)"
proof (rule fbound_rr)
  have "\<bar>nval a\<bar> * \<bar>nval b\<bar> \<le> 2 ^ k * 2 ^ l" using assms by (intro mult_mono) (auto simp: fbound_def)
  then show "\<bar>nval a * nval b\<bar> \<le> 2 ^ (k + l)" by (simp add: abs_mult power_add)
qed (use assms in \<open>simp_all add: fbound_def nval_fmul nan_fmul\<close>)

section \<open>Rounding errors\<close>

text \<open>
  \<open>rounds_to x y\<close>: \<open>y\<close> is the exact result \<open>x\<close> after one rounding, relative error \<open>2^-53\<close>, with room for the underflow of
  tiny results. The operations round once; what the errors of a whole computation add up to is then arithmetic on rationals.
\<close>

lemma rr_rel_err: "\<bar>rr x - x\<bar> \<le> \<bar>x\<bar> / 2 ^ 53 + 2 powi - 1075"
proof (cases "x = 0")
  case False
  then have x: "0 < \<bar>x\<bar>" by simp
  have "rr x - x = (of_int (rnd_even (x / 2 powi rexp x)) - x / 2 powi rexp x) * 2 powi rexp x"
    using False by (simp add: rr_def algebra_simps)
  then have "\<bar>rr x - x\<bar> = \<bar>of_int (rnd_even (x / 2 powi rexp x)) - x / 2 powi rexp x\<bar> * 2 powi rexp x"
    by (simp add: abs_mult)
  also have "\<dots> \<le> 1 / 2 * 2 powi rexp x" using rnd_even_close by (intro mult_right_mono) auto
  also have "\<dots> = 2 powi (rexp x - 1)" by (simp add: power_int_diff)
  also have "\<dots> \<le> \<bar>x\<bar> / 2 ^ 53 + 2 powi - 1075"
  proof (cases "flog2 \<bar>x\<bar> - 52 \<le> - 1074")
    case True
    then have r: "rexp x - 1 = - 1075" by (simp add: rexp_def)
    show ?thesis unfolding r by simp
  next
    case False
    then have "2 powi (rexp x - 1) = 2 powi flog2 \<bar>x\<bar> / (2 :: rat) ^ 53" by (simp add: rexp_def power_int_diff)
    also have "\<dots> \<le> \<bar>x\<bar> / 2 ^ 53" using flog2_bounds(1) [OF x] by (simp add: divide_right_mono)
    finally show ?thesis using two_powi_pos [of "- 1075"] by linarith
  qed
  finally show ?thesis .
qed simp

lemma nclamp_rr: "\<bar>x\<bar> \<le> 2 ^ k \<Longrightarrow> k \<le> 1000 \<Longrightarrow> nclamp (rr x) = rr x"
proof -
  assume x: "\<bar>x\<bar> \<le> 2 ^ k" and k: "k \<le> 1000"
  have "rr (2 ^ k) = 2 ^ k" using rr_pow2 [of "int k"] by simp
  then have "\<bar>rr x\<bar> \<le> 2 ^ k" using rr_mono [of x "2 ^ k"] rr_mono [of "- x" "2 ^ k"] x
    by (simp only: abs_le_iff rr_minus)
  also have "(2 :: rat) ^ k \<le> 2 ^ 1000" using k by (intro power_increasing) auto
  also have "\<dots> \<le> f_huge" unfolding f_huge_def by (intro power_increasing) auto
  finally show ?thesis by (rule nclamp_id)
qed

lemma rounded_rel: "nval y = nclamp (rr x) \<Longrightarrow> \<bar>x\<bar> \<le> 2 ^ k \<Longrightarrow> k \<le> 1000 \<Longrightarrow> \<bar>nval y - x\<bar> \<le> \<bar>x\<bar> / 2 ^ 53 + 2 powi - 1075"
  using rr_rel_err [of x] by (simp add: nclamp_rr)

definition rounds_to :: "rat \<Rightarrow> rat \<Rightarrow> bool" where
  "rounds_to x y \<longleftrightarrow> \<bar>y - x\<bar> \<le> \<bar>x\<bar> / 2 ^ 53 + 1 / 2 ^ 200"

lemma rounds_op: "nval y = nclamp (rr x) \<Longrightarrow> \<bar>x\<bar> \<le> 2 ^ k \<Longrightarrow> k \<le> 1000 \<Longrightarrow> rounds_to x (nval y)"
proof -
  assume "nval y = nclamp (rr x)" "\<bar>x\<bar> \<le> 2 ^ k" "k \<le> 1000"
  note rounded_rel [OF this]
  moreover have "(2 :: rat) powi - 1075 \<le> 2 powi - 200" by (simp only: two_powi_le_iff)
  moreover have "(2 :: rat) powi - 200 = 1 / 2 ^ 200" by (simp add: power_int_minus field_simps)
  ultimately show ?thesis by (simp only: rounds_to_def)
qed

lemma rounds_abs: "rounds_to x y \<Longrightarrow> \<bar>x\<bar> \<le> A \<Longrightarrow> \<bar>y - x\<bar> \<le> A / 2 ^ 53 + 1 / 2 ^ 200"
proof -
  assume r: "rounds_to x y" and x: "\<bar>x\<bar> \<le> A"
  have "\<bar>x\<bar> / 2 ^ 53 \<le> A / 2 ^ 53" using x by (intro divide_right_mono) simp_all
  with r show ?thesis unfolding rounds_to_def by linarith
qed

lemma near_abs: "\<bar>a - b\<bar> \<le> \<alpha> \<Longrightarrow> \<bar>b\<bar> \<le> B \<Longrightarrow> \<bar>a :: rat\<bar> \<le> \<alpha> + B"
  by linarith

lemma near_trans: "\<bar>a - b\<bar> \<le> \<alpha> \<Longrightarrow> \<bar>b - c\<bar> \<le> \<beta> \<Longrightarrow> \<bar>a - c :: rat\<bar> \<le> \<alpha> + \<beta>"
  by linarith

lemma abs_sum_le: "\<bar>a\<bar> \<le> A \<Longrightarrow> \<bar>b\<bar> \<le> B \<Longrightarrow> \<bar>a + b :: rat\<bar> \<le> A + B"
  by linarith

lemma near_add: "\<bar>a - b\<bar> \<le> \<alpha> \<Longrightarrow> \<bar>c - d\<bar> \<le> \<beta> \<Longrightarrow> \<bar>a + c - (b + d) :: rat\<bar> \<le> \<alpha> + \<beta>"
  by linarith

lemma rounds_near:
  assumes "rounds_to x y" "\<bar>x - z\<bar> \<le> \<alpha>" "\<bar>z\<bar> \<le> B"
  shows "\<bar>y - z\<bar> \<le> (\<alpha> + B) / 2 ^ 53 + 1 / 2 ^ 200 + \<alpha>"
  by (rule near_trans [OF rounds_abs [OF assms(1) near_abs [OF assms(2,3)]] assms(2)])

lemma prod_close:
  fixes a b :: rat
  assumes "\<bar>a - a'\<bar> \<le> \<alpha>" "\<bar>b - b'\<bar> \<le> \<beta>" "\<bar>b\<bar> \<le> B" "\<bar>a'\<bar> \<le> A"
  shows "\<bar>a * b - a' * b'\<bar> \<le> \<alpha> * B + A * \<beta>"
proof -
  have "a * b - a' * b' = (a - a') * b + a' * (b - b')" by (simp add: algebra_simps)
  then have "\<bar>a * b - a' * b'\<bar> \<le> \<bar>a - a'\<bar> * \<bar>b\<bar> + \<bar>a'\<bar> * \<bar>b - b'\<bar>"
    using abs_triangle_ineq [of "(a - a') * b" "a' * (b - b')"] by (simp add: abs_mult)
  also have "\<dots> \<le> \<alpha> * B + A * \<beta>" using assms abs_ge_zero [of "a - a'"] abs_ge_zero [of a']
    by (intro add_mono mult_mono) (auto intro: order_trans [OF abs_ge_zero])
  finally show ?thesis .
qed

lemma foldl_fadd_ge:
  assumes "is_finite (foldl fadd a xs)" "nonneg a" "\<forall>x \<in> set xs. nonneg x"
  shows "nonneg (foldl fadd a xs) \<and> nval a \<le> nval (foldl fadd a xs) \<and> (\<forall>x \<in> set xs. nval x \<le> nval (foldl fadd a xs))"
  using assms
proof (induction xs arbitrary: a)
  case (Cons x xs)
  have "is_finite (fadd a x)"
  proof -
    have "is_finite (foldl fadd b ys) \<Longrightarrow> is_finite b" for b ys by (induction ys arbitrary: b) (auto dest: fadd_finite_args)
    then show ?thesis using Cons.prems(1) by simp
  qed
  then have n: "nonneg (fadd a x)" using Cons.prems by (intro nonneg_fadd) simp_all
  have "nval a \<le> nval (fadd a x)" using Cons.prems by (intro fadd_nonneg_ge(1)) simp_all
  moreover have "nval x \<le> nval (fadd a x)"
    using Cons.prems(2,3) by (simp add: nonneg_def nval_fadd) (intro rnd_ge, simp_all)
  ultimately show ?case using Cons.IH [OF _ n] Cons.prems by auto
qed simp

lemma fsum_ge:
  assumes "is_finite (fsum xs)" "\<forall>x \<in> set xs. nonneg x"
  shows "nonneg (fsum xs)" "x \<in> set xs \<Longrightarrow> nval x \<le> nval (fsum xs)"
  using foldl_fadd_ge [of NZero xs] assms by (auto simp: fsum_def nonneg_def)

lemma rounds_fmul: "fbound k a \<Longrightarrow> fbound l b \<Longrightarrow> k + l \<le> 1000 \<Longrightarrow> rounds_to (nval a * nval b) (nval (fmul a b))"
proof (rule rounds_op)
  assume a: "fbound k a" "fbound l b"
  then have "\<bar>nval a\<bar> * \<bar>nval b\<bar> \<le> 2 ^ k * 2 ^ l" by (intro mult_mono) (auto simp: fbound_def)
  then show "\<bar>nval a * nval b\<bar> \<le> 2 ^ (k + l)" by (simp add: abs_mult power_add)
qed (simp_all add: fbound_def nval_fmul)

lemma rounds_fadd: "fbound k a \<Longrightarrow> fbound k b \<Longrightarrow> k < 1000 \<Longrightarrow> rounds_to (nval a + nval b) (nval (fadd a b))"
proof (rule rounds_op [of _ _ "k + 1"])
  assume "fbound k a" "fbound k b"
  then show "\<bar>nval a + nval b\<bar> \<le> 2 ^ (k + 1)" using abs_triangle_ineq [of "nval a" "nval b"] by (simp add: fbound_def)
qed (simp_all add: fbound_def nval_fadd)

lemma rounds_fsub: "fbound k a \<Longrightarrow> fbound k b \<Longrightarrow> k < 1000 \<Longrightarrow> rounds_to (nval a - nval b) (nval (fsub a b))"
  using rounds_fadd [of k a "fneg b"] by (simp add: fsub_def fbound_fneg)

lemma fdiv_rounds:
  assumes "fbound k a" "is_finite b" "nval b \<noteq> 0" "\<bar>nval a / nval b\<bar> \<le> 2 ^ l" "l \<le> 1000"
  shows "rounds_to (nval a / nval b) (nval (fdiv a b))" "fbound l (fdiv a b)"
proof -
  have v: "nval (fdiv a b) = nclamp (rr (nval a / nval b))" using assms by (simp add: nval_fdiv fbound_def)
  show "rounds_to (nval a / nval b) (nval (fdiv a b))" by (rule rounds_op [OF v assms(4,5)])
  show "fbound l (fdiv a b)" by (rule fbound_rr [OF _ _ v assms(4,5)]) (use assms in \<open>simp_all add: nan_fdiv fbound_def\<close>)
qed

lemma fbound_unit: "unit_f64 w \<Longrightarrow> fbound 0 w"
  by (simp add: unit_f64_def nonneg_def fbound_def)

subsection \<open>The error of the square root\<close>

lemma sqrt_even_close:
  assumes "0 \<le> z" "1 \<le> sqrt_even z"
  shows "(of_int (sqrt_even z) - 1) ^ 2 \<le> z" "z < (of_int (sqrt_even z) + 1) ^ 2"
proof -
  let ?m = "sqrt_even z"
  have top: "z < of_int (\<lfloor>z\<rfloor> + 1) ^ 2" "0 \<le> \<lfloor>z\<rfloor> + 1"
  proof -
    have f: "0 \<le> \<lfloor>z\<rfloor>" using assms(1) by simp
    then have "(of_int (\<lfloor>z\<rfloor> + 1) :: rat) * 1 \<le> of_int (\<lfloor>z\<rfloor> + 1) * of_int (\<lfloor>z\<rfloor> + 1)"
      by (intro mult_left_mono) simp_all
    moreover have "z < of_int (\<lfloor>z\<rfloor> + 1)" by linarith
    ultimately show "z < of_int (\<lfloor>z\<rfloor> + 1) ^ 2" by (simp add: power2_eq_square)
    show "0 \<le> \<lfloor>z\<rfloor> + 1" using f by simp
  qed
  show "z < (of_int ?m + 1) ^ 2"
    using sqrt_even_bounds(1) [OF assms(1) _ top(1) _ top(2), of "?m + 1"] assms(2) by (force simp: not_less)
  show "(of_int ?m - 1) ^ 2 \<le> z"
    using sqrt_even_bounds(2) [OF assms(1), of 0 "?m - 1"] assms by (force simp: not_le)
qed

lemma fsqrt_square:
  assumes "is_f64 (Fin x)" "0 < x"
  shows "x \<le> 2 * nval (fsqrt (Fin x)) ^ 2" "nval (fsqrt (Fin x)) ^ 2 \<le> 2 * x"
proof -
  define e where "e = sqrt_exp x"
  define z where "z = x / 4 powi e"
  define m where "m = (of_int (sqrt_even z) :: rat)"
  have x: "x = z * 4 powi e" by (simp add: z_def)
  have "2 ^ 52 \<le> sqrt_even z" using sqrt_even_scaled [OF assms(2)] by (simp add: z_def e_def)
  then have "10 \<le> sqrt_even z" by simp
  then have m: "10 \<le> m" unfolding m_def by (metis of_int_le_iff of_int_numeral)
  have z: "(m - 1) ^ 2 \<le> z" "z < (m + 1) ^ 2"
    using sqrt_even_close [of z] assms(2) \<open>10 \<le> sqrt_even z\<close> by (simp_all add: m_def z_def)
  have sq: "10 * m \<le> m * m" using m by simp
  have "m * m - 2 * m + 1 \<le> z" "z < m * m + 2 * m + 1" using z by (simp_all add: power2_eq_square algebra_simps)
  with sq m have "z \<le> 2 * (m * m)" "m * m \<le> 2 * z" by linarith+
  then have "z \<le> 2 * m ^ 2" "m ^ 2 \<le> 2 * z" by (simp_all add: power2_eq_square)
  moreover have "nval (fsqrt (Fin x)) ^ 2 = m ^ 2 * 4 powi e"
  proof -
    have "((2 :: rat) powi e) ^ 2 = 4 powi e" by (simp add: power2_eq_square flip: power_int_mult_distrib)
    then show ?thesis using assms(2) by (simp add: fsqrt_def f64_class m_def e_def z_def Let_def power_mult_distrib)
  qed
  moreover have "0 < (4 :: rat) powi e" by simp
  ultimately show "x \<le> 2 * nval (fsqrt (Fin x)) ^ 2" "nval (fsqrt (Fin x)) ^ 2 \<le> 2 * x"
    unfolding x by (simp_all add: mult_right_mono flip: mult.assoc)
qed


lemma sqrt_even_square: "0 \<le> s \<Longrightarrow> sqrt_even (of_int s ^ 2) = s"
proof -
  assume s: "0 \<le> s"
  have "\<lfloor>(of_int s :: rat) ^ 2\<rfloor> = s ^ 2" by (metis floor_of_int of_int_power)
  then have n: "nat \<lfloor>(of_int s :: rat) ^ 2\<rfloor> = nat s ^ 2" using s by (simp add: nat_power_eq)
  have "isqrt (nat s ^ 2) \<le> nat s" "nat s < isqrt (nat s ^ 2) + 1"
    using isqrt_spec [of "nat s ^ 2"] by (auto intro: power2_le_imp_le power2_less_imp_less)
  then have "isqrt (nat s ^ 2) = nat s" by simp
  then have "int (isqrt (nat \<lfloor>(of_int s :: rat) ^ 2\<rfloor>)) = s" using s n by simp
  moreover have "(of_int s :: rat) ^ 2 < (of_int s + 1 / 2) ^ 2" using s by (intro power_strict_mono) simp_all
  ultimately show ?thesis by (simp add: sqrt_even_def Let_def)
qed

end
