(* ===== verification/Types.thy ===== *)
theory Types
  imports F64
begin

text \<open>
  \<open>rtfsn-core/src/types.rs\<close>: epochs, node identifiers (ordered as their bytes), timestamps, the
  six-dimensional network coordinates and the Merkle digest. The hash function is the blake3 crate:
  a parameter.
\<close>

definition COORDINATE_DIMENSIONS :: nat where "COORDINATE_DIMENSIONS = 6"

datatype epoch = Epoch (epoch_no: u64)

definition epoch_next :: "epoch \<Rightarrow> epoch" where
  "epoch_next e = Epoch (epoch_no e + 1)"

definition epoch_prev :: "epoch \<Rightarrow> epoch option" where
  "epoch_prev e = map_option Epoch (checked_sub_u64 (epoch_no e) 1)"

datatype node_id = NodeId (id_bytes: bytes)

instantiation node_id :: linorder
begin

definition less_eq_node_id :: "node_id \<Rightarrow> node_id \<Rightarrow> bool" where
  "less_eq_node_id a b \<longleftrightarrow> id_bytes a \<le> id_bytes b"

definition less_node_id :: "node_id \<Rightarrow> node_id \<Rightarrow> bool" where
  "less_node_id a b \<longleftrightarrow> id_bytes a < id_bytes b"

instance
  by standard (auto simp: less_eq_node_id_def less_node_id_def node_id.expand)

end

type_synonym hash = "bytes \<Rightarrow> bytes"

definition node_id_from_public_key :: "hash \<Rightarrow> bytes \<Rightarrow> node_id" where
  "node_id_from_public_key blake3 pk = NodeId (blake3 pk)"

record timestamp = ts_nanos :: u64

text \<open>\<open>now\<close> on what the operating system answers: the nanoseconds since 1970, or that its clock is before them; \<open>wasm32\<close> has no clock.\<close>

definition timestamp_now :: "bool \<Rightarrow> nat option \<Rightarrow> timestamp outcome" where
  "timestamp_now wasm32 since_epoch = (if wasm32 then Ret \<lparr>ts_nanos = 0\<rparr>
     else case since_epoch of None \<Rightarrow> Panic | Some ns \<Rightarrow> Ret \<lparr>ts_nanos = of_nat ns\<rparr>)"

definition timestamp_from_nanos :: "u64 \<Rightarrow> timestamp" where
  "timestamp_from_nanos n = \<lparr>ts_nanos = n\<rparr>"

definition timestamp_as_secs_f64 :: "timestamp \<Rightarrow> f64" where
  "timestamp_as_secs_f64 t = fdiv (of_u64 (ts_nanos t)) (Fin 1000000000)"

definition timestamp_diff_secs :: "timestamp \<Rightarrow> timestamp \<Rightarrow> f64" where
  "timestamp_diff_secs t u = fdiv (fsub (of_u64 (ts_nanos t)) (of_u64 (ts_nanos u))) (Fin 1000000000)"

record duration = dur_nanos :: u64

definition duration_from_nanos :: "u64 \<Rightarrow> duration" where
  "duration_from_nanos n = \<lparr>dur_nanos = n\<rparr>"

definition duration_as_secs_f64 :: "duration \<Rightarrow> f64" where
  "duration_as_secs_f64 d = fdiv (of_u64 (dur_nanos d)) (Fin 1000000000)"

section \<open>Coordinates\<close>

record coordinates = dims :: "f64 list"

definition coords_ok :: "coordinates \<Rightarrow> bool" where
  "coords_ok c \<longleftrightarrow> length (dims c) = COORDINATE_DIMENSIONS \<and> (\<forall>d \<in> set (dims c). is_f64 d)"

definition coords_origin :: coordinates where
  "coords_origin = \<lparr>dims = replicate COORDINATE_DIMENSIONS (Fin 0)\<rparr>"

definition coords_distance :: "coordinates \<Rightarrow> coordinates \<Rightarrow> f64" where
  "coords_distance a b = fsqrt (fsum (map (\<lambda>(x, y). fsq (fsub x y)) (zip (dims a) (dims b))))"

definition coords_add_scaled :: "coordinates \<Rightarrow> coordinates \<Rightarrow> f64 \<Rightarrow> coordinates" where
  "coords_add_scaled a d s =
     \<lparr>dims = map (\<lambda>i. fadd (dims a ! i) (fmul (dims d ! i) s)) [0..<COORDINATE_DIMENSIONS]\<rparr>"

definition coords_subtract :: "coordinates \<Rightarrow> coordinates \<Rightarrow> coordinates" where
  "coords_subtract a b = \<lparr>dims = map (\<lambda>i. fsub (dims a ! i) (dims b ! i)) [0..<COORDINATE_DIMENSIONS]\<rparr>"

definition coords_magnitude :: "coordinates \<Rightarrow> f64" where
  "coords_magnitude a = fsqrt (fsum (map fsq (dims a)))"

definition coords_normalize :: "coordinates \<Rightarrow> coordinates" where
  "coords_normalize a = (let mag = coords_magnitude a in
     if flt mag (flit (1 / 10 ^ 12)) then coords_origin
     else \<lparr>dims = map (\<lambda>i. fdiv (dims a ! i) mag) [0..<COORDINATE_DIMENSIONS]\<rparr>)"

section \<open>Latency profile and Merkle digest\<close>

record latency_profile =
  mean_nanos :: i64
  variance_nanos :: i64
  p10_nanos :: i64
  p50_nanos :: i64
  p90_nanos :: i64
  trend_nanos_per_epoch :: i64
  sample_count :: u32
  epoch_first :: u64
  epoch_last :: u64

datatype merkle_digest = MerkleDigest (digest: bytes)

definition merkle_from_items :: "hash \<Rightarrow> bytes list \<Rightarrow> merkle_digest" where
  "merkle_from_items blake3 items = MerkleDigest (blake3 (concat (map blake3 items)))"

definition merkle_combine :: "hash \<Rightarrow> merkle_digest \<Rightarrow> merkle_digest \<Rightarrow> merkle_digest" where
  "merkle_combine blake3 l r = MerkleDigest (blake3 (digest l @ digest r))"

section \<open>Lemmas\<close>

lemma rnd_uminus: "x \<noteq> 0 \<Longrightarrow> rnd (- x) = fneg (rnd x)"
proof -
  assume "x \<noteq> 0"
  have h: "0 < f_huge" by simp
  show ?thesis
  proof (cases "f_huge \<le> rr x")
    case True
    with h have "\<not> f_huge \<le> - rr x" by linarith
    with True show ?thesis by (auto simp: rnd_def fneg_def)
  next
    case False
    show ?thesis
    proof (cases "f_huge \<le> - rr x")
      case True
      with False show ?thesis by (auto simp: rnd_def fneg_def)
    next
      case small: False
      with False \<open>x \<noteq> 0\<close> show ?thesis by (auto simp: rnd_def fneg_def Let_def)
    qed
  qed
qed

lemma fsub_swap: "fsub a b = fneg (fsub b a) \<or> (is_zero (fsub a b) \<and> is_zero (fsub b a))"
proof (cases "is_finite a \<and> is_finite b")
  case True
  show ?thesis
  proof (cases "nval a = nval b")
    case True
    with \<open>is_finite a \<and> is_finite b\<close> show ?thesis
      by (auto simp: fsub_def fadd_def is_finite_def is_zero_def fzero_def)
  next
    case False
    with True have "fsub a b = rnd (nval a - nval b)" "fsub b a = rnd (nval b - nval a)"
      by (auto simp: fsub_def fadd_def is_finite_def is_zero_nval)
    then show ?thesis using False rnd_uminus [of "nval b - nval a"] by simp
  qed
next
  case False
  then show ?thesis
    by (cases a; cases b) (auto simp: fsub_def fadd_def fneg_def f64_class fzero_def)
qed

lemma fsq_fneg: "fsq (fneg x) = fsq x"
  by (cases x) (auto simp: fsq_def fmul_def fneg_def f64_class fzero_def finf_def)

lemma fsq_zero: "is_zero x \<Longrightarrow> fsq x = Fin 0"
  by (auto simp: fsq_def fmul_def f64_class fzero_def)

lemma fsq_fsub_swap: "fsq (fsub a b) = fsq (fsub b a)"
  using fsub_swap [of a b] by (metis fsq_fneg fsq_zero)

lemma nval_fsq_nonneg: "0 \<le> nval (fsq x)"
proof (cases "is_finite x")
  case True
  then show ?thesis by (simp add: fsq_def nval_fmul rnd_nonneg)
next
  case False
  then show ?thesis by (cases x) (auto simp: fsq_def fmul_def f64_class finf_def)
qed

text \<open>Distance is symmetric in floating point, NaNs and signed zeros included.\<close>

lemma coords_distance_sym:
  assumes "length (dims a) = length (dims b)"
  shows "coords_distance a b = coords_distance b a"
proof -
  have "map (\<lambda>(x, y). fsq (fsub x y)) (zip xs ys) = map (\<lambda>(x, y). fsq (fsub x y)) (zip ys xs)"
    if "length xs = length ys" for xs ys :: "f64 list"
    using that by (induction xs ys rule: list_induct2) (auto simp: fsq_fsub_swap)
  with assms show ?thesis by (simp add: coords_distance_def)
qed

lemma coords_ok_origin [simp]: "coords_ok coords_origin"
  by (simp add: coords_ok_def coords_origin_def)

lemma coords_ok_add_scaled [simp]:
  "coords_ok a \<Longrightarrow> coords_ok (coords_add_scaled a d s)"
  by (auto simp: coords_ok_def coords_add_scaled_def)

lemma coords_ok_subtract [simp]:
  "coords_ok a \<Longrightarrow> coords_ok b \<Longrightarrow> coords_ok (coords_subtract a b)"
  by (auto simp: coords_ok_def coords_subtract_def)

lemma coords_ok_normalize [simp]: "coords_ok (coords_normalize a)"
  by (auto simp: coords_ok_def coords_normalize_def Let_def coords_origin_def)

lemma is_f64_fsum: "(\<forall>x \<in> set xs. is_f64 x) \<Longrightarrow> is_f64 (fsum xs)"
proof -
  have "is_f64 a \<Longrightarrow> \<forall>x \<in> set xs. is_f64 x \<Longrightarrow> is_f64 (foldl fadd a xs)" for a
    by (induction xs arbitrary: a) auto
  then show "(\<forall>x \<in> set xs. is_f64 x) \<Longrightarrow> is_f64 (fsum xs)" by (simp add: fsum_def)
qed

lemma is_f64_distance [simp]: "is_f64 (coords_distance a b)"
  unfolding coords_distance_def by (intro is_f64_fsqrt is_f64_fsum) auto

end
