(* ===== verification/EpochManager.thy ===== *)
theory EpochManager
  imports Types
begin

text \<open>
  \<open>rtfsn-core/src/epoch.rs\<close>: the three-phase epoch lifecycle of one node. \<open>try_advance\<close> returns the
  new state and whether it advanced. Times are the caller's nanosecond clock; the elapsed time is
  the unsigned subtraction of the source, which wraps in the release build.
\<close>

datatype epoch_phase = Measure | Solve | Publish

fun phase_next :: "epoch_phase \<Rightarrow> epoch_phase option" where
  "phase_next Measure = Some Solve"
| "phase_next Solve = Some Publish"
| "phase_next Publish = None"

record epoch_manager =
  current_epoch :: epoch
  current_phase :: epoch_phase
  quorum_threshold :: nat
  received_beacons :: "node_id set"
  phase_start_time :: u64
  phase_timeout_nanos :: u64

definition epoch_manager_new :: "nat \<Rightarrow> u64 \<Rightarrow> epoch_manager" where
  "epoch_manager_new quorum timeout =
     \<lparr>current_epoch = Epoch 0, current_phase = Measure, quorum_threshold = quorum,
      received_beacons = {}, phase_start_time = 0, phase_timeout_nanos = timeout\<rparr>"

definition timed_out :: "epoch_manager \<Rightarrow> u64 \<Rightarrow> bool" where
  "timed_out m now \<longleftrightarrow> now - phase_start_time m > phase_timeout_nanos m"

definition has_quorum :: "epoch_manager \<Rightarrow> bool" where
  "has_quorum m \<longleftrightarrow> card (received_beacons m) \<ge> quorum_threshold m"

definition beacon_count :: "epoch_manager \<Rightarrow> nat" where
  "beacon_count m = card (received_beacons m)"

definition record_beacon :: "epoch_manager \<Rightarrow> node_id \<Rightarrow> epoch_manager" where
  "record_beacon m peer = m\<lparr>received_beacons := insert peer (received_beacons m)\<rparr>"

definition try_advance :: "epoch_manager \<Rightarrow> u64 \<Rightarrow> epoch_manager \<times> bool" where
  "try_advance m now =
     (case current_phase m of
        Measure \<Rightarrow>
          (if timed_out m now then (m\<lparr>current_phase := Solve, phase_start_time := now\<rparr>, True)
           else (m, False))
      | Solve \<Rightarrow> (m\<lparr>current_phase := Publish, phase_start_time := now\<rparr>, True)
      | Publish \<Rightarrow>
          (if card (received_beacons m) \<ge> quorum_threshold m \<or> timed_out m now
           then (m\<lparr>current_epoch := epoch_next (current_epoch m), current_phase := Measure,
                   received_beacons := {}, phase_start_time := now\<rparr>, True)
           else (m, False)))"

section \<open>The manager as a state machine\<close>

text \<open>What the daemon may do to a manager: poll it, or hand it a beacon.\<close>

inductive em_step :: "epoch_manager \<Rightarrow> epoch_manager \<Rightarrow> bool" where
  poll: "em_step m (fst (try_advance m now))"
| beacon: "em_step m (record_beacon m peer)"

inductive em_reach :: "nat \<Rightarrow> u64 \<Rightarrow> epoch_manager \<Rightarrow> bool" for q t where
  em_start: "em_reach q t (epoch_manager_new q t)"
| em_more: "em_reach q t m \<Longrightarrow> em_step m m' \<Longrightarrow> em_reach q t m'"

inductive_cases em_stepE: "em_step m m'"

text \<open>Position in the endless walk Measure, Solve, Publish, Measure, \<open>\<dots>\<close>\<close>

fun phase_index :: "epoch_phase \<Rightarrow> nat" where
  "phase_index Measure = 0"
| "phase_index Solve = 1"
| "phase_index Publish = 2"

definition em_position :: "epoch_manager \<Rightarrow> nat" where
  "em_position m = 3 * unat (epoch_no (current_epoch m)) + phase_index (current_phase m)"

lemma unat_succ: "(w :: u64) \<noteq> - 1 \<Longrightarrow> unat (w + 1) = unat w + 1"
  by (metis Suc_eq_plus1 add.commute add_eq_0_iff unatSuc)

lemma try_advance_cases:
  "snd (try_advance m now) \<longleftrightarrow>
     current_phase m = Solve \<or> (current_phase m = Measure \<and> timed_out m now)
     \<or> (current_phase m = Publish \<and> (has_quorum m \<or> timed_out m now))"
  by (cases "current_phase m") (auto simp: try_advance_def has_quorum_def)

lemma try_advance_no: "\<not> snd (try_advance m now) \<Longrightarrow> fst (try_advance m now) = m"
  by (cases "current_phase m") (auto simp: try_advance_def)

lemma try_advance_yes:
  assumes "snd (try_advance m now)" "epoch_no (current_epoch m) \<noteq> - 1"
  shows "em_position (fst (try_advance m now)) = em_position m + 1
    \<and> phase_start_time (fst (try_advance m now)) = now"
  using assms unat_succ [of "epoch_no (current_epoch m)"]
  by (cases "current_phase m") (auto simp: try_advance_def em_position_def epoch_next_def split: if_splits)

lemma em_step_config:
  "em_step m m' \<Longrightarrow> quorum_threshold m' = quorum_threshold m \<and>
     phase_timeout_nanos m' = phase_timeout_nanos m"
  by (erule em_stepE; cases "current_phase m") (auto simp: try_advance_def record_beacon_def)

lemma em_reach_config: "em_reach q t m \<Longrightarrow> quorum_threshold m = q \<and> phase_timeout_nanos m = t"
  by (induction rule: em_reach.induct) (auto simp: epoch_manager_new_def dest: em_step_config)

lemma em_reach_finite: "em_reach q t m \<Longrightarrow> finite (received_beacons m)"
proof (induction rule: em_reach.induct)
  case (em_more m m')
  then show ?case
    by (auto elim!: em_stepE simp: try_advance_def record_beacon_def split: epoch_phase.splits)
qed (simp add: epoch_manager_new_def)

section \<open>Liveness\<close>

text \<open>Polls at a sequence of times, the way the daemon's timer drives the manager.\<close>

definition em_polls :: "epoch_manager \<Rightarrow> u64 list \<Rightarrow> epoch_manager" where
  "em_polls m ts = foldl (\<lambda>m now. fst (try_advance m now)) m ts"

lemma timed_outI: "unat (phase_start_time m) + unat (phase_timeout_nanos m) < unat now \<Longrightarrow> timed_out m now"
  by (simp add: timed_out_def word_less_nat_alt unat_sub_if')

lemma em_position_mod3: "em_position m div 3 = unat (epoch_no (current_epoch m))"
  by (cases "current_phase m") (simp_all add: em_position_def)

lemma try_advance_timed_out:
  assumes "timed_out m now" "epoch_no (current_epoch m) \<noteq> - 1"
  shows "em_position (fst (try_advance m now)) = em_position m + 1"
    "phase_start_time (fst (try_advance m now)) = now"
    "phase_timeout_nanos (fst (try_advance m now)) = phase_timeout_nanos m"
proof -
  have "snd (try_advance m now)" using assms(1) by (cases "current_phase m") (auto simp: try_advance_cases)
  then show "em_position (fst (try_advance m now)) = em_position m + 1"
    "phase_start_time (fst (try_advance m now)) = now"
    using try_advance_yes assms(2) by blast+
  show "phase_timeout_nanos (fst (try_advance m now)) = phase_timeout_nanos m"
    using em_step_config [OF em_step.poll] by blast
qed

section \<open>Properties\<close>

text \<open>
  The epoch never skips or repeats a phase. Reading the state as a position in the endless walk
  Measure, Solve, Publish, Measure, \<open>\<dots>\<close>, a poll that reports an advance moves exactly one position on
  and restarts the phase timer at the polled time; a poll that reports none leaves the whole state as it
  was. The hypothesis excludes the last 64-bit epoch, whose successor wraps to epoch 0.
\<close>

theorem try_advance_position:
  assumes "epoch_no (current_epoch m) \<noteq> - 1"
  shows "(if snd (try_advance m now)
          then em_position (fst (try_advance m now)) = em_position m + 1
            \<and> phase_start_time (fst (try_advance m now)) = now
          else fst (try_advance m now) = m)"
  using assms try_advance_no try_advance_yes by simp

theorem try_advance_position_witness:
  "epoch_no (current_epoch (epoch_manager_new 3 10)) \<noteq> - 1 \<and>
   em_position (fst (try_advance (epoch_manager_new 3 10) 11)) = 1"
proof -
  have h: "epoch_no (current_epoch (epoch_manager_new 3 10)) \<noteq> - 1"
    by (simp add: epoch_manager_new_def)
  have "snd (try_advance (epoch_manager_new 3 10) 11)"
    by (simp add: try_advance_def epoch_manager_new_def timed_out_def)
  then show ?thesis using h try_advance_position [OF h, of 11]
    by (simp add: em_position_def epoch_manager_new_def)
qed

text \<open>
  (C33) Epochs make progress without a quorum. If no beacon ever arrives, three polls whose times are
  each more than the phase timeout after the previous one bring the manager from any phase of one epoch
  to the same phase of the next: the timeout alone is enough, however large the quorum threshold.
\<close>

theorem epoch_progress:
  assumes "epoch_no (current_epoch m) \<noteq> - 1"
    and "unat (phase_start_time m) + unat (phase_timeout_nanos m) < unat a"
    and "unat a + unat (phase_timeout_nanos m) < unat b"
    and "unat b + unat (phase_timeout_nanos m) < unat c"
    and "epoch_no (current_epoch m) + 1 \<noteq> - 1"
  shows "em_position (em_polls m [a, b, c]) = em_position m + 3"
proof -
  let ?T = "phase_timeout_nanos m"
  have fin: "epoch_no (current_epoch x) \<noteq> - 1" if "em_position x \<le> em_position m + 2" for x
  proof
    assume "epoch_no (current_epoch x) = - 1"
    moreover have "em_position x div 3 \<le> (em_position m + 2) div 3" using that by (rule div_le_mono)
    moreover have "(em_position m + 2) div 3 \<le> em_position m div 3 + 1" by linarith
    ultimately have "unat (- 1 :: u64) \<le> unat (epoch_no (current_epoch m)) + 1"
      by (simp add: em_position_mod3)
    also have "\<dots> = unat (epoch_no (current_epoch m) + 1)" using unat_succ [OF assms(1)] by simp
    finally have "- 1 \<le> epoch_no (current_epoch m) + 1" by (simp only: word_le_nat_alt)
    then show False using assms(5) by (simp add: word_order.extremum_unique)
  qed
  define m1 where "m1 = fst (try_advance m a)"
  define m2 where "m2 = fst (try_advance m1 b)"
  note s1 = try_advance_timed_out [OF timed_outI [OF assms(2)] assms(1), folded m1_def]
  have "timed_out m1 b" by (rule timed_outI) (simp add: s1 assms(3))
  note s2 = try_advance_timed_out [OF this fin, folded m2_def]
  have "timed_out m2 c" by (rule timed_outI) (simp add: s1 s2 assms(4))
  note s3 = try_advance_timed_out [OF this fin]
  show ?thesis using s1 s2 s3 by (simp add: em_polls_def m1_def [symmetric] m2_def [symmetric])
qed

theorem epoch_progress_witness:
  "em_position (em_polls (epoch_manager_new 1000 10) [20, 40, 60]) = em_position (epoch_manager_new 1000 10) + 3"
  by (rule epoch_progress) (simp_all add: epoch_manager_new_def)

text \<open>
  A clock that is set back ends the phase at once. The elapsed time of a phase is an unsigned
  difference, so a poll with a time before the start of the phase (by less than half the range of the
  counter) reads as an enormous wait: the phase times out immediately, whatever the timeout below
  \<open>2^63\<close> ns (292 years).
\<close>

theorem clock_set_back_times_out:
  assumes "now < phase_start_time m" "unat (phase_start_time m) - unat now \<le> 2 ^ 63"
    "unat (phase_timeout_nanos m) < 2 ^ 63" "current_phase m \<noteq> Solve"
  shows "snd (try_advance m now) \<and> current_phase (fst (try_advance m now)) =
    (if current_phase m = Measure then Solve else Measure)"
proof -
  have "unat (now - phase_start_time m) = 2 ^ 64 - (unat (phase_start_time m) - unat now)"
    using assms(1) unsigned_less [of "phase_start_time m"] by (auto simp: unat_sub_if' word_less_nat_alt)
  then have "timed_out m now" using assms by (simp add: timed_out_def word_less_nat_alt)
  then show ?thesis using assms(4) by (cases "current_phase m") (auto simp: try_advance_def)
qed

theorem clock_set_back_times_out_witness:
  "snd (try_advance ((epoch_manager_new 3 10)\<lparr>phase_start_time := 100\<rparr>) 99) \<and>
   current_phase (fst (try_advance ((epoch_manager_new 3 10)\<lparr>phase_start_time := 100\<rparr>) 99)) = Solve"
  using clock_set_back_times_out [of 99 "(epoch_manager_new 3 10)\<lparr>phase_start_time := 100\<rparr>"]
  by (simp add: epoch_manager_new_def)

end
