(* ===== verification/Routing.thy ===== *)
theory Routing
  imports Types "HOL-Library.Multiset"
begin

text \<open>
  \<open>rtfsn-core/src/dht/routing.rs\<close>: the Kademlia routing table, 256 buckets of at most 20 nodes
  indexed by the length of the common prefix with the local id, and the table of tables, one per
  layer. Keys are 32 bytes.
\<close>

unbundle bit_operations_syntax

definition K_BUCKET_SIZE :: nat where "K_BUCKET_SIZE = 20"
definition KEY_BITS :: nat where "KEY_BITS = 256"

definition xor_distance :: "bytes \<Rightarrow> bytes \<Rightarrow> bytes" where
  "xor_distance a b = map (\<lambda>i. a ! i XOR b ! i) [0..<32]"

definition u8_leading_zeros :: "u8 \<Rightarrow> nat" where
  "u8_leading_zeros b = length (takeWhile (\<lambda>i. \<not> bit b i) [7, 6, 5, 4, 3, 2, 1, 0])"

fun leading_zeros :: "bytes \<Rightarrow> nat" where
  "leading_zeros [] = 0"
| "leading_zeros (b # bs) = (if b = 0 then 8 + leading_zeros bs else u8_leading_zeros b)"

definition bucket_index :: "bytes \<Rightarrow> bytes \<Rightarrow> nat" where
  "bucket_index local remote = (let lz = leading_zeros (xor_distance local remote) in
     if lz \<ge> KEY_BITS then KEY_BITS - 1 else KEY_BITS - 1 - lz)"

record routing_table =
  local_id :: bytes
  buckets :: "node_id list list"

definition routing_new :: "bytes \<Rightarrow> routing_table" where
  "routing_new local = \<lparr>local_id = local, buckets = replicate KEY_BITS []\<rparr>"

definition bucket_insert :: "node_id list \<Rightarrow> node_id \<Rightarrow> node_id list \<times> bool" where
  "bucket_insert bucket node =
     (if node \<in> set bucket then (filter (\<lambda>n. n \<noteq> node) bucket @ [node], True)
      else if length bucket < K_BUCKET_SIZE then (bucket @ [node], True)
      else (bucket, False))"

definition routing_insert :: "routing_table \<Rightarrow> node_id \<Rightarrow> routing_table \<times> bool" where
  "routing_insert t node =
     (if id_bytes node = local_id t then (t, False)
      else let idx = bucket_index (local_id t) (id_bytes node);
               (bucket, ok) = bucket_insert (buckets t ! idx) node
           in (t\<lparr>buckets := (buckets t)[idx := bucket]\<rparr>, ok))"

definition all_nodes :: "routing_table \<Rightarrow> node_id list" where
  "all_nodes t = concat (buckets t)"

definition find_closest :: "routing_table \<Rightarrow> bytes \<Rightarrow> nat \<Rightarrow> node_id list" where
  "find_closest t target k =
     map fst (take k (sort_key snd
       (map (\<lambda>n. (n, xor_distance (id_bytes n) target)) (concat (buckets t)))))"

definition routing_remove :: "routing_table \<Rightarrow> node_id \<Rightarrow> routing_table" where
  "routing_remove t node = t\<lparr>buckets := map (filter (\<lambda>n. n \<noteq> node)) (buckets t)\<rparr>"

definition node_count :: "routing_table \<Rightarrow> nat" where
  "node_count t = sum_list (map length (buckets t))"

record layered_routing =
  rt_layer0 :: routing_table
  rt_layer1 :: routing_table
  rt_layer2 :: routing_table
  rt_layer3 :: routing_table

definition layered_routing_new :: "bytes \<Rightarrow> layered_routing" where
  "layered_routing_new local =
     \<lparr>rt_layer0 = routing_new local, rt_layer1 = routing_new local,
      rt_layer2 = routing_new local, rt_layer3 = routing_new local\<rparr>"

section \<open>The distance\<close>

lemma xor_distance_sym: "xor_distance a b = xor_distance b a"
  by (simp add: xor_distance_def xor.commute)

lemma xor_eq_0: "x XOR y = 0 \<Longrightarrow> x = (y :: u8)"
proof -
  assume "x XOR y = 0"
  moreover have "x = (x XOR y) XOR y" by (simp add: xor.assoc)
  ultimately show "x = y" by simp
qed

lemma xor_distance_0:
  assumes "length a = 32" "length b = 32"
  shows "xor_distance a b = replicate 32 0 \<longleftrightarrow> a = b"
proof
  assume "xor_distance a b = replicate 32 0"
  then have "\<forall>i < 32. xor_distance a b ! i = 0" by simp
  then have "\<forall>i < 32. a ! i XOR b ! i = 0" by (simp add: xor_distance_def)
  then have "\<forall>i < 32. a ! i = b ! i" by (blast intro: xor_eq_0)
  with assms show "a = b" by (simp add: list_eq_iff_nth_eq)
qed (simp add: xor_distance_def map_replicate_trivial [symmetric])

lemma leading_zeros_le: "leading_zeros bs \<le> 8 * length bs"
proof (induction bs)
  case (Cons b bs)
  have "u8_leading_zeros b \<le> 8"
    using length_takeWhile_le [of "\<lambda>i. \<not> bit b i" "[7, 6, 5, 4, 3, 2, 1, 0]"]
    by (simp add: u8_leading_zeros_def)
  with Cons show ?case by simp
qed simp

lemma bucket_index_bound: "bucket_index a b < KEY_BITS"
  by (auto simp: bucket_index_def KEY_BITS_def Let_def)

section \<open>The invariant\<close>

definition bucket_ok :: "bytes \<Rightarrow> nat \<Rightarrow> node_id list \<Rightarrow> bool" where
  "bucket_ok local i b \<longleftrightarrow> distinct b \<and> length b \<le> K_BUCKET_SIZE \<and>
     (\<forall>n \<in> set b. id_bytes n \<noteq> local \<and> bucket_index local (id_bytes n) = i)"

definition routing_ok :: "routing_table \<Rightarrow> bool" where
  "routing_ok t \<longleftrightarrow> length (buckets t) = KEY_BITS \<and>
     (\<forall>i < KEY_BITS. bucket_ok (local_id t) i (buckets t ! i))"

lemma routing_ok_new [inv_intro]: "routing_ok (routing_new local)"
  by (simp add: routing_ok_def routing_new_def bucket_ok_def)

lemma bucket_ok_insert:
  assumes "bucket_ok local i b" "id_bytes n \<noteq> local" "bucket_index local (id_bytes n) = i"
  shows "bucket_ok local i (fst (bucket_insert b n))"
proof (cases "n \<in> set b")
  case True
  then have "length (filter (\<lambda>x. x \<noteq> n) b) < length b" by (intro length_filter_less) auto
  with True assms show ?thesis by (auto simp: bucket_insert_def bucket_ok_def)
qed (use assms in \<open>auto simp: bucket_insert_def bucket_ok_def\<close>)

lemma routing_ok_insert [inv_intro]:
  assumes "routing_ok t" shows "routing_ok (fst (routing_insert t n))"
proof (cases "id_bytes n = local_id t")
  case True then show ?thesis using assms by (simp add: routing_insert_def)
next
  case False
  define idx where "idx = bucket_index (local_id t) (id_bytes n)"
  have idx: "idx < KEY_BITS" by (simp add: idx_def bucket_index_bound)
  have "bucket_ok (local_id t) idx (fst (bucket_insert (buckets t ! idx) n))"
    using assms idx False by (intro bucket_ok_insert) (auto simp: routing_ok_def idx_def)
  moreover have "fst (routing_insert t n) =
    t\<lparr>buckets := (buckets t)[idx := fst (bucket_insert (buckets t ! idx) n)]\<rparr>"
    using False by (simp add: routing_insert_def idx_def case_prod_unfold Let_def)
  ultimately show ?thesis using assms idx by (auto simp: routing_ok_def nth_list_update)
qed

lemma routing_ok_remove [inv_intro]: "routing_ok t \<Longrightarrow> routing_ok (routing_remove t n)"
  by (auto simp: routing_ok_def routing_remove_def bucket_ok_def intro: order_trans [OF length_filter_le])

lemma set_all_nodes: "set (all_nodes t) = (\<Union>b \<in> set (buckets t). set b)"
  by (simp add: all_nodes_def)

lemma routing_in_own_bucket:
  assumes "routing_ok t" "n \<in> set (all_nodes t)"
  shows "n \<in> set (buckets t ! bucket_index (local_id t) (id_bytes n))"
  using assms by (auto simp: set_all_nodes in_set_conv_nth [of _ "buckets t"] routing_ok_def bucket_ok_def)

lemma distinct_all_nodes: "routing_ok t \<Longrightarrow> distinct (all_nodes t)"
  unfolding all_nodes_def
  by (rule distinct_concat_nth)
    (auto simp: routing_ok_def bucket_ok_def disjoint_iff dest: less_trans, metis less_irrefl less_trans)

section \<open>Correctness\<close>

lemma routing_insert_nodes:
  assumes "routing_ok t"
  shows "set (all_nodes (fst (routing_insert t n))) =
    (if snd (routing_insert t n) then insert n (set (all_nodes t)) else set (all_nodes t))"
proof (cases "id_bytes n = local_id t")
  case True then show ?thesis by (simp add: routing_insert_def)
next
  case False
  define idx where "idx = bucket_index (local_id t) (id_bytes n)"
  define b where "b = buckets t ! idx"
  have idx: "idx < length (buckets t)" using assms by (simp add: idx_def bucket_index_bound routing_ok_def)
  have ins: "routing_insert t n = (t\<lparr>buckets := (buckets t)[idx := fst (bucket_insert b n)]\<rparr>, snd (bucket_insert b n))"
    using False by (simp add: routing_insert_def idx_def b_def case_prod_unfold Let_def)
  have b: "set (fst (bucket_insert b n)) = (if snd (bucket_insert b n) then insert n (set b) else set b)"
    by (auto simp: bucket_insert_def)
  have "all_nodes t = concat (take idx (buckets t)) @ b @ concat (drop (Suc idx) (buckets t))"
    unfolding all_nodes_def b_def by (subst id_take_nth_drop [OF idx]) simp
  moreover have "all_nodes (fst (routing_insert t n)) =
    concat (take idx (buckets t)) @ fst (bucket_insert b n) @ concat (drop (Suc idx) (buckets t))"
    using idx by (simp add: ins all_nodes_def upd_conv_take_nth_drop)
  ultimately show ?thesis using b by (auto simp: ins)
qed

lemma node_count_all: "node_count t = length (all_nodes t)"
  by (simp add: node_count_def all_nodes_def length_concat)

lemma routing_remove_nodes: "set (all_nodes (routing_remove t n)) = set (all_nodes t) - {n}"
  by (auto simp: all_nodes_def routing_remove_def)

lemma find_closest_nodes:
  assumes "routing_ok t"
  shows "distinct (find_closest t target k)" "set (find_closest t target k) \<subseteq> set (all_nodes t)"
    "length (find_closest t target k) = min k (node_count t)"
proof -
  let ?d = "\<lambda>n. xor_distance (id_bytes n) target"
  define ps where "ps = sort_key snd (map (\<lambda>n. (n, ?d n)) (all_nodes t))"
  have m: "mset ps = mset (map (\<lambda>n. (n, ?d n)) (all_nodes t))" by (simp add: ps_def)
  have "mset (map fst ps) = mset (all_nodes t)" using m by (simp add: multiset.map_comp comp_def)
  then have fst: "distinct (map fst ps)" "set (map fst ps) = set (all_nodes t)" "length ps = node_count t"
    using distinct_all_nodes [OF assms]
    by (metis mset_eq_imp_distinct_iff, metis set_mset_mset, metis length_map node_count_all size_mset)
  have fc: "find_closest t target k = take k (map fst ps)"
    by (simp add: find_closest_def ps_def all_nodes_def take_map)
  show "distinct (find_closest t target k)" using fst by (simp add: fc distinct_take)
  show "set (find_closest t target k) \<subseteq> set (all_nodes t)" using fst set_take_subset fc by metis
  show "length (find_closest t target k) = min k (node_count t)" using fst by (simp add: fc)
qed

lemma find_closest_sorted:
  "sorted (map (\<lambda>n. xor_distance (id_bytes n) target) (find_closest t target k))"
  and find_closest_best:
  "x \<in> set (find_closest t target k) \<Longrightarrow> y \<in> set (all_nodes t) - set (find_closest t target k)
    \<Longrightarrow> xor_distance (id_bytes x) target \<le> xor_distance (id_bytes y) target"
proof -
  let ?d = "\<lambda>n. xor_distance (id_bytes n) target"
  define ps where "ps = sort_key snd (map (\<lambda>n. (n, ?d n)) (all_nodes t))"
  have pd: "p \<in> set ps \<Longrightarrow> snd p = ?d (fst p)" for p by (auto simp: ps_def)
  have s: "sorted (map snd ps)" by (simp add: ps_def)
  have eq: "map snd ps = map ?d (map fst ps)" using pd by simp
  have fc: "find_closest t target k = take k (map fst ps)"
    by (simp add: find_closest_def ps_def all_nodes_def take_map)
  show "sorted (map ?d (find_closest t target k))"
    using s unfolding eq fc by (metis sorted_wrt_take take_map)
  show "?d x \<le> ?d y" if "x \<in> set (find_closest t target k)"
    "y \<in> set (all_nodes t) - set (find_closest t target k)"
  proof (rule sorted_take_drop_le [of ?d "map fst ps" x k y])
    show "sorted (map ?d (map fst ps))" using s eq by simp
    show "x \<in> set (take k (map fst ps))" using that fc by simp
    have "set (map fst ps) = set (all_nodes t)" by (force simp: ps_def)
    then show "y \<in> set (drop k (map fst ps))"
      using that fc by (metis Diff_iff Un_iff append_take_drop_id set_append)
  qed
qed

section \<open>Runs\<close>

text \<open>Whatever a node does with its table: learn a peer, or drop one.\<close>

datatype rt_op = RtInsert node_id | RtRemove node_id

fun rt_apply :: "routing_table \<Rightarrow> rt_op \<Rightarrow> routing_table" where
  "rt_apply t (RtInsert n) = fst (routing_insert t n)"
| "rt_apply t (RtRemove n) = routing_remove t n"

definition rt_run :: "bytes \<Rightarrow> rt_op list \<Rightarrow> routing_table" where
  "rt_run local ops = foldl rt_apply (routing_new local) ops"

lemma rt_apply_ok: "routing_ok t \<Longrightarrow> routing_ok (rt_apply t a) \<and> local_id (rt_apply t a) = local_id t"
  by (cases a) (auto simp: inv_intro, simp_all add: routing_insert_def routing_remove_def case_prod_unfold Let_def)

interpretation rt: kept rt_apply "\<lambda>t. routing_ok t \<and> local_id t = i" for i
  by unfold_locales (simp add: rt_apply_ok)

lemma rt_run_ok: "routing_ok (rt_run local ops) \<and> local_id (rt_run local ops) = local"
  unfolding rt_run_def by (rule rt.run) (use routing_ok_new [of local] in \<open>simp add: routing_new_def\<close>)

section \<open>Properties\<close>

text \<open>
  (C34) The routing table keeps the Kademlia shape. Whatever peers are learnt and dropped, in whatever
  order, the table has 256 buckets of at most 20 peers, holds no peer twice (in one bucket or in two),
  never holds the node itself, and every peer sits in the bucket of its XOR distance from the node.
\<close>

theorem routing_shape:
  "let t = rt_run local ops in
     length (buckets t) = 256 \<and> list_all (\<lambda>b. length b \<le> 20) (buckets t) \<and>
     distinct (all_nodes t) \<and> NodeId local \<notin> set (all_nodes t) \<and>
     list_all (\<lambda>n. n \<in> set (buckets t ! bucket_index local (id_bytes n))) (all_nodes t)"
proof -
  define t where "t = rt_run local ops"
  note ok = rt_run_ok [of local ops, folded t_def]
  then have "\<forall>b \<in> set (buckets t). length b \<le> 20"
    by (auto simp: routing_ok_def bucket_ok_def in_set_conv_nth K_BUCKET_SIZE_def)
  moreover have "NodeId local \<notin> set (all_nodes t)"
    using ok by (fastforce simp: set_all_nodes routing_ok_def bucket_ok_def in_set_conv_nth [of _ "buckets t"])
  ultimately show ?thesis
    using ok distinct_all_nodes routing_in_own_bucket [of t]
    by (auto simp: list_all_iff routing_ok_def KEY_BITS_def Let_def t_def)
qed

text \<open>
  A lookup finds the nearest peers. \<open>find_closest\<close> returns distinct peers of the table, as many as
  asked for or all there are, in order of XOR distance to the target, and every peer it left out is at
  least as far from the target as every peer it returned.
\<close>

theorem find_closest_nearest:
  "let t = rt_run local ops; ns = find_closest t target k; d = (\<lambda>n. xor_distance (id_bytes n) target) in
     distinct ns \<and> set ns \<subseteq> set (all_nodes t) \<and> length ns = min k (node_count t) \<and> sorted (map d ns) \<and>
     (\<forall>x \<in> set ns. \<forall>y \<in> set (all_nodes t) - set ns. d x \<le> d y)"
  using find_closest_nodes [of "rt_run local ops"] find_closest_sorted find_closest_best rt_run_ok
  unfolding Let_def by blast

definition w_peer :: "u8 \<Rightarrow> node_id" where "w_peer b = NodeId (b # replicate 31 0)"

theorem find_closest_nearest_witness:
  "set (find_closest (rt_run (replicate 32 0) [RtInsert (w_peer 1), RtInsert (w_peer 2), RtInsert (w_peer 1)]) (replicate 32 0) 1)
     \<subseteq> set (all_nodes (rt_run (replicate 32 0) [RtInsert (w_peer 1), RtInsert (w_peer 2), RtInsert (w_peer 1)])) \<and>
   length (find_closest (rt_run (replicate 32 0) [RtInsert (w_peer 1), RtInsert (w_peer 2), RtInsert (w_peer 1)]) (replicate 32 0) 1) = 1"
proof -
  let ?ops = "[RtInsert (w_peer 1), RtInsert (w_peer 2), RtInsert (w_peer 1)]"
  have "node_count (rt_run (replicate 32 0) ?ops) \<ge> 1" by code_simp
  then show ?thesis
    using find_closest_nearest [where ops = ?ops and local = "replicate 32 0" and target = "replicate 32 0" and k = 1]
    by (simp add: Let_def)
qed

end
