(* ===== verification/Storage.thy ===== *)
theory Storage
  imports Types
begin

text \<open>
  \<open>rtfsn-core/src/dht/storage.rs\<close>: the bounded key-value store of one DHT layer, with eviction of the
  entry with the oldest timestamp and expiry by epoch, and the four stores of a node.
\<close>

record stored_value =
  sv_data :: bytes
  sv_timestamp :: u64
  ttl_epochs :: u32
  origin_epoch :: u64

record layer_storage =
  store :: "(bytes, stored_value) hashmap"
  max_entries :: nat

definition storage_new :: "nat \<Rightarrow> layer_storage" where
  "storage_new n = \<lparr>store = [], max_entries = n\<rparr>"

definition evict_oldest :: "layer_storage \<Rightarrow> layer_storage" where
  "evict_oldest s =
     (case min_by_key (\<lambda>(k, v). sv_timestamp v) (store s) of
        None \<Rightarrow> s
      | Some (oldest_key, v) \<Rightarrow> s\<lparr>store := hm_remove oldest_key (store s)\<rparr>)"

definition storage_put :: "layer_storage \<Rightarrow> bytes \<Rightarrow> stored_value \<Rightarrow> layer_storage \<times> bool" where
  "storage_put s key value =
     (let s' = (if length (store s) \<ge> max_entries s \<and> hm_get (store s) key = None
                then evict_oldest s else s)
      in (s'\<lparr>store := hm_insert key value (store s')\<rparr>, True))"

definition storage_get :: "layer_storage \<Rightarrow> bytes \<Rightarrow> stored_value option" where
  "storage_get s key = hm_get (store s) key"

definition storage_remove :: "layer_storage \<Rightarrow> bytes \<Rightarrow> layer_storage \<times> bool" where
  "storage_remove s key = (s\<lparr>store := hm_remove key (store s)\<rparr>, hm_get (store s) key \<noteq> None)"

definition storage_len :: "layer_storage \<Rightarrow> nat" where
  "storage_len s = length (store s)"

definition storage_is_empty :: "layer_storage \<Rightarrow> bool" where
  "storage_is_empty s \<longleftrightarrow> store s = []"

definition live :: "u64 \<Rightarrow> stored_value \<Rightarrow> bool" where
  "live current v \<longleftrightarrow> origin_epoch v + ucast (ttl_epochs v) > current"

definition storage_expire :: "layer_storage \<Rightarrow> u64 \<Rightarrow> layer_storage" where
  "storage_expire s current = s\<lparr>store := hm_retain (\<lambda>_ v. live current v) (store s)\<rparr>"

definition storage_keys :: "layer_storage \<Rightarrow> bytes list" where
  "storage_keys s = map fst (store s)"

record four_layer_storage =
  st_layer0 :: layer_storage
  st_layer1 :: layer_storage
  st_layer2 :: layer_storage
  st_layer3 :: layer_storage

definition four_layer_new :: four_layer_storage where
  "four_layer_new = \<lparr>st_layer0 = storage_new 10000, st_layer1 = storage_new 50000,
     st_layer2 = storage_new 10000, st_layer3 = storage_new 1000\<rparr>"

definition expire_all :: "four_layer_storage \<Rightarrow> u64 \<Rightarrow> four_layer_storage" where
  "expire_all f current =
     \<lparr>st_layer0 = storage_expire (st_layer0 f) current, st_layer1 = storage_expire (st_layer1 f) current,
      st_layer2 = storage_expire (st_layer2 f) current, st_layer3 = storage_expire (st_layer3 f) current\<rparr>"

section \<open>The invariant: distinct keys, never more than the capacity (one, for capacity zero)\<close>

definition storage_ok :: "layer_storage \<Rightarrow> bool" where
  "storage_ok s \<longleftrightarrow> hm_ok (store s) \<and> length (store s) \<le> max 1 (max_entries s)"

lemma length_hm_insert:
  "length (hm_insert k v m) = (if hm_get m k = None then Suc (length m) else length m)"
  by (induction m) auto

lemma length_hm_remove: "hm_get m k \<noteq> None \<Longrightarrow> length (hm_remove k m) < length m"
proof -
  assume "hm_get m k \<noteq> None"
  then have "k \<in> fst ` set m" by (simp add: map_of_eq_None_iff)
  then obtain p where "p \<in> set m" "fst p = k" by auto
  then show ?thesis unfolding AList.delete_eq by (intro length_filter_less [of p]) (auto simp: case_prod_unfold)
qed

lemma max_entries_evict [simp]: "max_entries (evict_oldest s) = max_entries s"
  by (auto simp: evict_oldest_def split: option.splits)

lemma evict_oldest_ok:
  assumes "hm_ok (store s)" "store s \<noteq> []"
  shows "hm_ok (store (evict_oldest s)) \<and> length (store (evict_oldest s)) < length (store s)"
proof -
  obtain k v where kv: "min_by_key (\<lambda>(k, v). sv_timestamp v) (store s) = Some (k, v)"
    using assms(2) by (metis min_by_key_None not_Some_eq surj_pair)
  have "(k, v) \<in> set (store s)" using min_by_key_Some [OF kv] by blast
  then have "hm_get (store s) k \<noteq> None" by (metis weak_map_of_SomeI not_None_eq)
  then show ?thesis using kv assms by (simp add: evict_oldest_def hm.ok_remove length_hm_remove)
qed

lemma storage_ok_new [inv_intro]: "storage_ok (storage_new n)"
  by (simp add: storage_ok_def storage_new_def hm_ok_def)

lemma storage_ok_put [inv_intro]:
  assumes "storage_ok s" shows "storage_ok (fst (storage_put s k v))"
proof (cases "length (store s) \<ge> max_entries s \<and> hm_get (store s) k = None \<and> store s \<noteq> []")
  case True
  with assms have "hm_ok (store (evict_oldest s))" "length (store (evict_oldest s)) < length (store s)"
    using evict_oldest_ok [of s] by (auto simp: storage_ok_def)
  with True assms show ?thesis
    by (auto simp: storage_ok_def storage_put_def hm.ok_insert length_hm_insert Let_def)
next
  case False
  with assms show ?thesis
    by (auto simp: storage_ok_def storage_put_def hm.ok_insert length_hm_insert Let_def evict_oldest_def
        hm_ok_def [of "[_]"])
qed

lemma storage_ok_remove [inv_intro]: "storage_ok s \<Longrightarrow> storage_ok (fst (storage_remove s k))"
  using hm.ok_remove [of "store s" k]
  by (auto simp: storage_ok_def storage_remove_def AList.delete_eq intro: order_trans [OF length_filter_le])

lemma storage_ok_expire [inv_intro]: "storage_ok s \<Longrightarrow> storage_ok (storage_expire s e)"
  using hm.ok_retain [of "store s" "\<lambda>_ v. live e v"]
  by (auto simp: storage_ok_def storage_expire_def hm_retain_def intro: order_trans [OF length_filter_le])

section \<open>Correctness\<close>

text \<open>Whatever a node does with a store.\<close>

datatype storage_op = StPut bytes stored_value | StRemove bytes | StExpire u64

fun st_apply :: "layer_storage \<Rightarrow> storage_op \<Rightarrow> layer_storage" where
  "st_apply s (StPut k v) = fst (storage_put s k v)"
| "st_apply s (StRemove k) = fst (storage_remove s k)"
| "st_apply s (StExpire e) = storage_expire s e"

lemma st_apply_ok: "storage_ok s \<Longrightarrow> storage_ok (st_apply s a)"
  by (cases a) (simp_all add: inv_intro)

lemma st_apply_max: "max_entries (st_apply s a) = max_entries s"
  by (cases a) (simp_all add: storage_put_def storage_remove_def storage_expire_def Let_def)

interpretation st: kept st_apply "\<lambda>s. storage_ok s \<and> max_entries s = n" for n
  by unfold_locales (simp add: st_apply_ok st_apply_max)

lemma storage_get_expire:
  assumes "storage_ok s"
  shows "storage_get (storage_expire s e) k = Some v \<longleftrightarrow> storage_get s k = Some v \<and> live e v"
  using assms by (simp add: storage_get_def storage_expire_def storage_ok_def hm.retain_Some_iff)

lemma storage_get_put_same:
  assumes "storage_ok s" shows "storage_get (fst (storage_put s k v)) k = Some v"
  by (simp add: storage_get_def storage_put_def Let_def update_conv')

text \<open>A victim of eviction is no newer than anything kept.\<close>

lemma storage_get_put_other:
  assumes "storage_ok s" "k' \<noteq> k" "storage_get s k' = Some w"
  shows "storage_get (fst (storage_put s k v)) k' = Some w \<or>
    (storage_get (fst (storage_put s k v)) k' = None \<and> max_entries s \<le> storage_len s \<and>
     storage_get s k = None \<and>
     (\<forall>j u. storage_get s j = Some u \<longrightarrow> sv_timestamp w \<le> sv_timestamp u))"
proof (cases "length (store s) \<ge> max_entries s \<and> hm_get (store s) k = None")
  case False
  with assms show ?thesis by (auto simp: storage_get_def storage_put_def Let_def update_conv')
next
  case full: True
  have "store s \<noteq> []" using assms(3) by (auto simp: storage_get_def)
  then obtain o' u where o: "min_by_key (\<lambda>(k, v). sv_timestamp v) (store s) = Some (o', u)"
    by (metis min_by_key_None not_Some_eq surj_pair)
  have dist: "distinct (map fst (store s))" using assms(1) by (simp add: storage_ok_def hm_ok_def)
  have min: "(o', u) \<in> set (store s)" "\<forall>(j, x) \<in> set (store s). sv_timestamp u \<le> sv_timestamp x"
    using min_by_key_Some [OF o] by auto
  have put: "storage_get (fst (storage_put s k v)) k' = (if k' = o' then None else Some w)"
    using full o assms by (simp add: storage_get_def storage_put_def evict_oldest_def update_conv' delete_conv')
  show ?thesis
  proof (cases "k' = o'")
    case True
    then have "u = w" using min(1) assms(3) dist by (simp add: storage_get_def)
    then have "\<forall>j x. storage_get s j = Some x \<longrightarrow> sv_timestamp w \<le> sv_timestamp x"
      using min(2) by (auto simp: storage_get_def dest: map_of_SomeD)
    then show ?thesis using put full True by (auto simp: storage_get_def storage_len_def)
  qed (simp add: put)
qed

section \<open>Properties\<close>

text \<open>
  A put is read back, and disturbs at most one other entry. After any put the key reads as the new
  value; any other key reads as before, unless the store was full and the key was new, in which case the
  one entry lost is no newer than any entry there was. The store stays within its capacity.
\<close>

theorem put_get:
  assumes "storage_ok s"
  shows "storage_get (fst (storage_put s k v)) k = Some v \<and>
    storage_ok (fst (storage_put s k v)) \<and>
    (\<forall>k' w. k' \<noteq> k \<longrightarrow> storage_get s k' = Some w \<longrightarrow>
       storage_get (fst (storage_put s k v)) k' = Some w \<or>
       (storage_get (fst (storage_put s k v)) k' = None \<and> max_entries s \<le> storage_len s \<and> storage_get s k = None \<and>
        (\<forall>j u. storage_get s j = Some u \<longrightarrow> sv_timestamp w \<le> sv_timestamp u)))"
  using storage_get_put_same [OF assms] storage_ok_put [OF assms] storage_get_put_other [OF assms] by blast

definition w_value :: "u64 \<Rightarrow> stored_value" where
  "w_value t = \<lparr>sv_data = [], sv_timestamp = t, ttl_epochs = 3, origin_epoch = 5\<rparr>"

theorem put_get_witness:
  "storage_get (fst (storage_put (fst (storage_put (storage_new 1) [1] (w_value 7))) [2] (w_value 8))) [2] = Some (w_value 8) \<and>
   storage_get (fst (storage_put (fst (storage_put (storage_new 1) [1] (w_value 7))) [2] (w_value 8))) [1] = None"
proof -
  have "storage_ok (fst (storage_put (storage_new 1) [1] (w_value 7)))" by (intro inv_intro)
  from put_get [OF this, of "[2]" "w_value 8"] show ?thesis
    by (simp add: storage_put_def storage_new_def evict_oldest_def storage_get_def Let_def)
qed

text \<open>
  Expiry removes exactly the dead entries. After \<open>expire\<close> at an epoch, a key reads as a value iff it
  did before and the value's origin epoch plus its time to live is still ahead of that epoch (the sum is
  taken in 64 bits, so it wraps for origins in the last \<open>2^32\<close> epochs).
\<close>

theorem expire_exact:
  assumes "storage_ok s"
  shows "storage_get (storage_expire s e) k = Some v \<longleftrightarrow>
    storage_get s k = Some v \<and> unat e < (unat (origin_epoch v) + unat (ttl_epochs v)) mod 2 ^ 64"
  using storage_get_expire [OF assms, of e k v]
  by (auto simp: live_def word_less_nat_alt unat_word_ariths unat_u32_u64)

theorem expire_exact_witness:
  "storage_get (storage_expire (fst (storage_put (storage_new 1) [1] (w_value 7))) 7) [1] = Some (w_value 7)"
  using expire_exact [OF storage_ok_put [OF storage_ok_new], of 1 "[1]" "w_value 7" 7 "[1]" "w_value 7"]
  by (simp add: storage_put_def storage_new_def storage_get_def w_value_def Let_def)

end
