(* ===== verification/Chiral.thy ===== *)
theory Chiral
  imports Types
begin

text \<open>
  \<open>rtfsn-core/src/holonomy/chiral.rs\<close>: a node's integer clock state and its projections.
\<close>

unbundle bit_operations_syntax

datatype chirality = C0 | C1 | C2 | C3

fun chirality_as_u8 :: "chirality \<Rightarrow> u8" where
  "chirality_as_u8 C0 = 0"
| "chirality_as_u8 C1 = 1"
| "chirality_as_u8 C2 = 2"
| "chirality_as_u8 C3 = 3"

definition chirality_from_identity_hash :: "bytes \<Rightarrow> chirality" where
  "chirality_from_identity_hash h = (let b = h ! 0 AND 3 in
     if b = 0 then C0 else if b = 1 then C1 else if b = 2 then C2 else C3)"

definition project_once :: "chirality \<Rightarrow> u8" where
  "project_once c = chirality_as_u8 c AND 1"

definition project_twice :: "chirality \<Rightarrow> u8" where
  "project_twice c = (let _ = project_once c in 0)"

record chiral_frame =
  cf_offset_nanos :: i64
  cf_drift_ppb :: i64
  cf_confidence :: u32
  cf_chirality :: chirality

definition chiral_frame_new :: "i64 \<Rightarrow> i64 \<Rightarrow> u32 \<Rightarrow> chiral_frame" where
  "chiral_frame_new off drift conf =
     \<lparr>cf_offset_nanos = off, cf_drift_ppb = drift, cf_confidence = conf, cf_chirality = C0\<rparr>"

definition with_chirality :: "chiral_frame \<Rightarrow> chirality \<Rightarrow> chiral_frame" where
  "with_chirality f c = f\<lparr>cf_chirality := c\<rparr>"

definition cf_offset_secs :: "chiral_frame \<Rightarrow> f64" where
  "cf_offset_secs f = fdiv (of_i64 (cf_offset_nanos f)) (Fin 1000000000)"

definition cf_drift_rate :: "chiral_frame \<Rightarrow> f64" where
  "cf_drift_rate f = fdiv (of_i64 (cf_drift_ppb f)) (Fin 1000000000)"

definition predict_offset :: "chiral_frame \<Rightarrow> i64 \<Rightarrow> i64" where
  "predict_offset f delta =
     i64_wrap (cf_offset_nanos f + tdiv (i64_wrap (cf_drift_ppb f * delta)) 1000000000)"

record twist_value =
  tv_offset_diff :: i64
  tv_drift_diff :: i64

definition cf_twist :: "chiral_frame \<Rightarrow> chiral_frame \<Rightarrow> twist_value" where
  "cf_twist f g = \<lparr>tv_offset_diff = i64_wrap (cf_offset_nanos f - cf_offset_nanos g),
                   tv_drift_diff = i64_wrap (cf_drift_ppb f - cf_drift_ppb g)\<rparr>"

definition tv_magnitude :: "twist_value \<Rightarrow> u64" where
  "tv_magnitude t = unsigned_abs_i64 (tv_offset_diff t)"

definition tv_is_consistent :: "twist_value \<Rightarrow> u64 \<Rightarrow> u64 \<Rightarrow> bool" where
  "tv_is_consistent t rtt tol \<longleftrightarrow> unsigned_abs_i64 (tv_offset_diff t) \<le> rtt div 2 + tol"

section \<open>Lemmas\<close>

text \<open>One projection keeps one bit of the identity, two keep none.\<close>

lemma project_once_bit: "project_once c = (if c = C0 \<or> c = C2 then 0 else 1)"
  by (cases c) (auto simp: project_once_def)

lemma project_twice_trivial: "project_twice c = project_twice d"
  by (simp add: project_twice_def)

lemma predict_offset_exact:
  assumes "is_i64 (cf_drift_ppb f * delta)"
    and "is_i64 (cf_offset_nanos f + tdiv (cf_drift_ppb f * delta) 1000000000)"
  shows "predict_offset f delta = cf_offset_nanos f + tdiv (cf_drift_ppb f * delta) 1000000000"
  using assms by (simp add: predict_offset_def)

lemma cf_twist_antisym:
  "tv_offset_diff (cf_twist f g) = i64_wrap (- tv_offset_diff (cf_twist g f))"
  by (simp add: cf_twist_def)

lemma tv_consistent_mono:
  assumes "tv_is_consistent t rtt tol" "rtt div 2 + tol \<le> rtt' div 2 + tol'"
  shows "tv_is_consistent t rtt' tol'"
  using assms by (auto simp: tv_is_consistent_def)

end
