(* ===== verification/Twist.thy ===== *)
theory Twist
  imports Types "HOL-Library.Multiset"
begin

text \<open>
  \<open>rtfsn-core/src/holonomy/twist.rs\<close>: one four-timestamp exchange as an integer measurement, the
  table of the measurements of every edge, the holonomy of a loop and the latency profile of an
  edge. \<open>i128\<close> intermediates hold every value they are given and are plain integers.
\<close>

record twist_index =
  rtt_nanos :: u64
  tw_offset_nanos :: i64
  asymmetry_nanos :: i64
  quality :: u32
  epoch_measured :: u64

definition from_exchange :: "u64 \<Rightarrow> u64 \<Rightarrow> u64 \<Rightarrow> u64 \<Rightarrow> twist_index" where
  "from_exchange t1 t2 t3 t4 =
     (let rtt = (t4 - t1) - (t3 - t2);
          offset = tdiv ((uint t2 - uint t1) + (uint t3 - uint t4)) 2;
          forward = uint t2 - uint t1;
          backward = uint t4 - uint t3;
          asymmetry = forward - backward
      in \<lparr>rtt_nanos = rtt, tw_offset_nanos = i64_wrap offset, asymmetry_nanos = i64_wrap asymmetry,
          quality = 100, epoch_measured = 0\<rparr>)"

definition rtt_secs :: "twist_index \<Rightarrow> f64" where
  "rtt_secs t = fdiv (of_u64 (rtt_nanos t)) (Fin 1000000000)"

definition tw_offset_secs :: "twist_index \<Rightarrow> f64" where
  "tw_offset_secs t = fdiv (of_i64 (tw_offset_nanos t)) (Fin 1000000000)"

type_synonym twist_lut = "(node_id \<times> node_id, twist_index list) hashmap"

definition lut_new :: twist_lut where "lut_new = []"

definition edge_key :: "node_id \<Rightarrow> node_id \<Rightarrow> node_id \<times> node_id" where
  "edge_key a b = (if a < b then (a, b) else (b, a))"

definition orient :: "node_id \<Rightarrow> node_id \<Rightarrow> twist_index \<Rightarrow> twist_index" where
  "orient a b tw = (if fst (edge_key a b) \<noteq> a
     then tw\<lparr>tw_offset_nanos := saturating_neg_i64 (tw_offset_nanos tw),
             asymmetry_nanos := saturating_neg_i64 (asymmetry_nanos tw)\<rparr>
     else tw)"

definition lut_insert :: "node_id \<Rightarrow> node_id \<Rightarrow> twist_index \<Rightarrow> twist_lut \<Rightarrow> twist_lut" where
  "lut_insert a b tw lut = (let key = edge_key a b in
     hm_insert key ((case hm_get lut key of None \<Rightarrow> [] | Some v \<Rightarrow> v) @ [orient a b tw]) lut)"

definition lut_trim :: "nat \<Rightarrow> twist_lut \<Rightarrow> twist_lut" where
  "lut_trim n lut = map (\<lambda>(k, v). (k, if length v > n then drop (length v - n) v else v)) lut"

definition lut_get :: "twist_lut \<Rightarrow> node_id \<Rightarrow> node_id \<Rightarrow> twist_index list option" where
  "lut_get lut a b = hm_get lut (edge_key a b)"

definition lut_latest :: "twist_lut \<Rightarrow> node_id \<Rightarrow> node_id \<Rightarrow> twist_index option" where
  "lut_latest lut a b = Option.bind (lut_get lut a b) last_opt"

definition lut_neighbors :: "twist_lut \<Rightarrow> node_id \<Rightarrow> node_id list" where
  "lut_neighbors lut node =
     List.map_filter (\<lambda>(a, b). if a = node then Some b else if b = node then Some a else None)
       (map fst lut)"

fun holonomy_loop :: "twist_lut \<Rightarrow> (node_id \<times> node_id) list \<Rightarrow> i64 \<Rightarrow> i64 option" where
  "holonomy_loop lut [] tot = Some tot"
| "holonomy_loop lut ((a, b) # es) tot =
     (case lut_latest lut a b of
        None \<Rightarrow> None
      | Some tw \<Rightarrow> holonomy_loop lut es
          (if fst (edge_key a b) = a then i64_wrap (tot + tw_offset_nanos tw)
           else i64_wrap (tot - tw_offset_nanos tw)))"

definition loop_edges :: "node_id list \<Rightarrow> (node_id \<times> node_id) list" where
  "loop_edges path = map (\<lambda>i. (path ! i, path ! ((i + 1) mod length path))) [0..<length path]"

definition loop_holonomy :: "twist_lut \<Rightarrow> node_id list \<Rightarrow> i64 option" where
  "loop_holonomy lut path = (if length path < 3 then None else holonomy_loop lut (loop_edges path) 0)"

definition edge_count :: "twist_lut \<Rightarrow> nat" where
  "edge_count lut = length lut"

definition profile_trend :: "twist_index list \<Rightarrow> i64 outcome" where
  "profile_trend twists =
     (if length twists \<ge> 2 then
        let n = int (length twists);
            x = (\<lambda>t. u64_as_i64 (epoch_measured t));
            y = (\<lambda>t. u64_as_i64 (rtt_nanos t));
            sum_x = sum_i64 (map x twists);
            sum_y = sum_i64 (map y twists);
            sum_xy = sum_i64 (map (\<lambda>t. i64_wrap (x t * y t)) twists);
            sum_xx = sum_i64 (map (\<lambda>t. i64_wrap (x t * x t)) twists);
            denom = i64_wrap (i64_wrap (n * sum_xx) - i64_wrap (sum_x * sum_x))
        in if denom \<noteq> 0
           then div_i64 (i64_wrap (i64_wrap (n * sum_xy) - i64_wrap (sum_x * sum_y))) denom
           else Ret 0
      else Ret 0)"

definition lut_profile :: "twist_lut \<Rightarrow> node_id \<Rightarrow> node_id \<Rightarrow> latency_profile option outcome" where
  "lut_profile lut a b =
     (case lut_get lut a b of
        None \<Rightarrow> Ret None
      | Some twists \<Rightarrow>
          if twists = [] then Ret None
          else
            let n = int (length twists);
                ys = map (\<lambda>t. u64_as_i64 (rtt_nanos t)) twists;
                mean = tdiv (sum_i64 ys) n;
                variance = tdiv (sum_i64 (map (\<lambda>y. let d = i64_wrap (y - mean) in i64_wrap (d * d)) ys)) n;
                rtts = sort ys;
                p10 = rtts ! (length rtts div 10);
                p50 = rtts ! (length rtts div 2);
                p90 = rtts ! (length rtts * 9 div 10)
            in obind (profile_trend twists) (\<lambda>trend. Ret (Some
                 \<lparr>mean_nanos = mean, variance_nanos = variance, p10_nanos = p10, p50_nanos = p50,
                  p90_nanos = p90, trend_nanos_per_epoch = trend,
                  sample_count = of_nat (length twists),
                  epoch_first = epoch_measured (hd twists), epoch_last = epoch_measured (last twists)\<rparr>)))"

section \<open>One exchange\<close>

text \<open>Nanosecond timestamps below \<open>2^63\<close> (before the year 2262).\<close>

definition ts_ok :: "u64 \<Rightarrow> bool" where "ts_ok t \<longleftrightarrow> uint t < 2 ^ 62"

lemma ts_ok_int: "ts_ok t \<Longrightarrow> 0 \<le> uint t \<and> uint t < 2 ^ 62"
  unfolding ts_ok_def by simp

lemma exchange_offset:
  assumes "ts_ok t1" "ts_ok t2" "ts_ok t3" "ts_ok t4"
  shows "tw_offset_nanos (from_exchange t1 t2 t3 t4) =
      tdiv ((uint t2 - uint t1) + (uint t3 - uint t4)) 2"
    and "asymmetry_nanos (from_exchange t1 t2 t3 t4) =
      (uint t2 - uint t1) - (uint t4 - uint t3)"
proof -
  note b = ts_ok_int [OF assms(1)] ts_ok_int [OF assms(2)] ts_ok_int [OF assms(3)] ts_ok_int [OF assms(4)]
  let ?x = "(uint t2 - uint t1) + (uint t3 - uint t4)"
  have "\<bar>?x\<bar> \<le> 2 ^ 62 * 2" using b by (simp only: abs_le_iff) linarith
  then have "\<bar>tdiv ?x 2\<bar> \<le> 2 ^ 62" by (rule tdiv_abs_bound [rotated]) simp
  then have "is_i64 (tdiv ?x 2)" unfolding i64_defs abs_le_iff by simp
  then show "tw_offset_nanos (from_exchange t1 t2 t3 t4) = tdiv ?x 2"
    by (simp add: from_exchange_def Let_def)
  have "\<bar>(uint t2 - uint t1) - (uint t4 - uint t3)\<bar> < 2 ^ 63" 
  proof -
    have "(2 :: int) ^ 63 = 2 * 2 ^ 62" by simp
    then show ?thesis using b unfolding abs_less_iff by linarith
  qed
  then have "is_i64 ((uint t2 - uint t1) - (uint t4 - uint t3))" unfolding i64_defs abs_less_iff by simp
  then show "asymmetry_nanos (from_exchange t1 t2 t3 t4) = (uint t2 - uint t1) - (uint t4 - uint t3)"
    by (simp add: from_exchange_def Let_def)
qed

lemma exchange_rtt:
  assumes "uint t4 - uint t1 - (uint t3 - uint t2) = d" "0 \<le> d" "d < 2 ^ 64"
  shows "uint (rtt_nanos (from_exchange t1 t2 t3 t4)) = d"
proof -
  have "rtt_nanos (from_exchange t1 t2 t3 t4) = word_of_int (uint t4 - uint t1 - (uint t3 - uint t2))"
    by (simp add: from_exchange_def Let_def wi_hom_syms)
  then show ?thesis using assms by (simp add: uint_word_of_int)
qed

section \<open>The table\<close>

lemma edge_key_sym: "edge_key a b = edge_key b a"
  by (auto simp: edge_key_def)

lemma lut_get_sym: "lut_get lut a b = lut_get lut b a"
  by (simp add: lut_get_def edge_key_sym [of a b])

lemma lut_latest_sym: "lut_latest lut a b = lut_latest lut b a"
  by (simp add: lut_latest_def lut_get_sym [of lut a b])

lemma lut_latest_insert:
  "lut_latest (lut_insert a b tw lut) c d =
     (if edge_key c d = edge_key a b then Some (orient a b tw) else lut_latest lut c d)"
  by (auto simp: lut_latest_def lut_get_def lut_insert_def Let_def update_conv' split: option.splits)

definition lut_ok :: "twist_lut \<Rightarrow> bool" where
  "lut_ok lut \<longleftrightarrow> hm_ok lut \<and> (\<forall>p \<in> set lut. fst (fst p) \<le> snd (fst p) \<and> snd p \<noteq> [])"

lemma lut_ok_new [inv_intro]: "lut_ok lut_new"
  by (simp add: lut_ok_def lut_new_def hm_ok_def)

lemma lut_ok_insert [inv_intro]: "lut_ok lut \<Longrightarrow> lut_ok (lut_insert a b tw lut)"
proof -
  assume ok: "lut_ok lut"
  have sub: "set (hm_insert k v m) \<subseteq> insert (k, v) (set m)" for k and v :: "twist_index list" and m
    by (induction m) auto
  have key: "fst (edge_key a b) \<le> snd (edge_key a b)" by (auto simp: edge_key_def)
  define v where "v = (case hm_get lut (edge_key a b) of None \<Rightarrow> [] | Some v \<Rightarrow> v) @ [orient a b tw]"
  have v: "lut_insert a b tw lut = hm_insert (edge_key a b) v lut" "v \<noteq> []"
    by (simp_all add: lut_insert_def Let_def v_def)
  have "hm_ok (lut_insert a b tw lut)" using ok by (simp add: v lut_ok_def hm.ok_insert)
  moreover have "\<forall>p \<in> set (lut_insert a b tw lut). fst (fst p) \<le> snd (fst p) \<and> snd p \<noteq> []"
  proof
    fix p assume "p \<in> set (lut_insert a b tw lut)"
    then have "p = (edge_key a b, v) \<or> p \<in> set lut"
      using sub [of "edge_key a b" v lut] unfolding v(1) by auto
    then show "fst (fst p) \<le> snd (fst p) \<and> snd p \<noteq> []"
      using key v(2) ok unfolding lut_ok_def by fastforce
  qed
  ultimately show ?thesis unfolding lut_ok_def by blast
qed

lemma lut_ok_trim [inv_intro]: "0 < n \<Longrightarrow> lut_ok lut \<Longrightarrow> lut_ok (lut_trim n lut)"
  by (fastforce simp: lut_ok_def lut_trim_def hm_ok_def comp_def case_prod_unfold)

lemma lut_get_trim:
  "lut_get (lut_trim n lut) a b =
     map_option (\<lambda>v. drop (length v - n) v) (lut_get lut a b)"
proof -
  have "map_of (lut_trim n lut) k = map_option (\<lambda>v. drop (length v - n) v) (map_of lut k)" for k
    unfolding lut_trim_def by (induction lut) auto
  then show ?thesis by (simp add: lut_get_def)
qed

section \<open>Holonomy\<close>

text \<open>The signed offset of walking an edge, from the table's orientation.\<close>

definition edge_offset :: "twist_lut \<Rightarrow> node_id \<times> node_id \<Rightarrow> i64 option" where
  "edge_offset lut e = (case e of (a, b) \<Rightarrow>
     map_option (\<lambda>tw. if fst (edge_key a b) = a then tw_offset_nanos tw else - tw_offset_nanos tw)
       (lut_latest lut a b))"

lemma holonomy_loop_sum:
  assumes "\<And>e. e \<in> set es \<Longrightarrow> edge_offset lut e = Some (f e)"
  shows "holonomy_loop lut es (i64_wrap t) = Some (i64_wrap (t + sum_list (map f es)))"
  using assms
proof (induction es arbitrary: t)
  case (Cons e es)
  obtain a b where e: "e = (a, b)" by (cases e)
  from Cons.prems [of e] obtain tw where tw: "lut_latest lut a b = Some tw"
    "f e = (if fst (edge_key a b) = a then tw_offset_nanos tw else - tw_offset_nanos tw)"
    by (auto simp: e edge_offset_def)
  have "holonomy_loop lut (e # es) (i64_wrap t) = holonomy_loop lut es (i64_wrap (t + f e))"
    using tw by (simp add: e)
  also have "\<dots> = Some (i64_wrap (t + f e + sum_list (map f es)))"
    using Cons.prems by (intro Cons.IH) auto
  finally show ?case by (simp add: add.assoc)
qed simp

lemma loop_edges_zip: "loop_edges path = zip path (rotate1 path)"
proof (rule nth_equalityI)
  fix i assume "i < length (loop_edges path)"
  then show "loop_edges path ! i = zip path (rotate1 path) ! i"
    by (simp add: loop_edges_def nth_rotate1)
qed (simp add: loop_edges_def)

text \<open>A potential difference telescopes around a loop.\<close>

lemma coboundary_loop: "sum_list (map (\<lambda>(a, b). c b - c a) (loop_edges path)) = (0 :: int)"
proof -
  have "sum_list (map (\<lambda>(a, b). c b - c a) (zip xs ys)) = sum_list (map c ys) - sum_list (map c xs)"
    if "length xs = length ys" for xs ys :: "node_id list"
    using that by (induction xs ys rule: list_induct2) auto
  moreover have "sum_list (map c (rotate1 path)) = sum_list (map c path)"
    by (cases path) auto
  ultimately show ?thesis by (simp add: loop_edges_zip)
qed

text \<open>
  Reading an edge from the end opposite to the one that measured it: what a measurement of \<open>b\<close> by
  \<open>a\<close> contributes to a walk is its offset forwards and minus its offset backwards, whichever end
  has the smaller id.
\<close>

lemma edge_offset_insert:
  assumes "a \<noteq> b" "tw_offset_nanos tw \<noteq> i64_min" "is_i64 (tw_offset_nanos tw)"
  shows "edge_offset (lut_insert a b tw lut) (c, d) =
    (if (c, d) = (a, b) then Some (tw_offset_nanos tw)
     else if (c, d) = (b, a) then Some (- tw_offset_nanos tw)
     else edge_offset lut (c, d))"
  using assms i64_sat_uminus [OF assms(3,2)]
  by (auto simp: edge_offset_def lut_latest_insert orient_def edge_key_def saturating_neg_i64_def
      split: if_splits)

type_synonym measurement = "node_id \<times> node_id \<times> twist_index"

definition lut_of :: "measurement list \<Rightarrow> twist_lut" where
  "lut_of ms = foldl (\<lambda>lut (a, b, tw). lut_insert a b tw lut) lut_new ms"

interpretation lut: kept "\<lambda>lut (a, b, tw). lut_insert a b tw lut" lut_ok
  by unfold_locales (auto simp: inv_intro)

lemma lut_of_ok: "lut_ok (lut_of ms)"
  unfolding lut_of_def by (rule lut.run) (rule lut_ok_new)

definition honest :: "(node_id \<Rightarrow> int) \<Rightarrow> measurement \<Rightarrow> bool" where
  "honest c m = (case m of (a, b, tw) \<Rightarrow>
     a \<noteq> b \<and> tw_offset_nanos tw = c b - c a \<and> \<bar>c b - c a\<bar> < 2 ^ 63)"

lemma lut_of_snoc: "lut_of (ms @ [(a, b, tw)]) = lut_insert a b tw (lut_of ms)"
  by (simp add: lut_of_def)

lemma edge_offset_honest:
  assumes "\<forall>m \<in> set ms. honest c m" "edge_offset (lut_of ms) (a, b) \<noteq> None"
  shows "edge_offset (lut_of ms) (a, b) = Some (c b - c a)"
  using assms
proof (induction ms rule: rev_induct)
  case Nil
  then show ?case by (simp add: lut_of_def lut_new_def edge_offset_def lut_latest_def lut_get_def)
next
  case (snoc m ms)
  obtain x y tw where m: "m = (x, y, tw)" by (cases m)
  have h: "x \<noteq> y" "tw_offset_nanos tw = c y - c x" "\<bar>c y - c x\<bar> < 2 ^ 63"
    using snoc.prems(1) by (auto simp: m honest_def)
  then have i: "is_i64 (tw_offset_nanos tw)" "tw_offset_nanos tw \<noteq> i64_min"
    by (auto simp: i64_defs abs_less_iff)
  show ?case
    using snoc h edge_offset_insert [OF h(1) i(2,1), of "lut_of ms" a b]
    by (auto simp: m lut_of_snoc split: if_splits)
qed

section \<open>Properties\<close>

text \<open>
  One exchange bounds the clock offset. Whatever the peer's clock offset \<open>th\<close> and the one-way
  delays \<open>d1\<close> (there) and \<open>d2\<close> (back), the measured round trip is exactly \<open>d1 + d2\<close>, the measured
  offset misses \<open>th\<close> by at most half the delay asymmetry (and one truncated half nanosecond), and a
  symmetric path gives it exactly.
\<close>

theorem exchange_error_bound:
  assumes "ts_ok t1" "ts_ok t2" "ts_ok t3" "ts_ok t4"
    and "uint t2 = uint t1 + d1 + th" "uint t4 = uint t3 + d2 - th" "0 \<le> d1" "0 \<le> d2" "d1 + d2 < 2 ^ 64"
  shows "uint (rtt_nanos (from_exchange t1 t2 t3 t4)) = d1 + d2
    \<and> 2 * \<bar>tw_offset_nanos (from_exchange t1 t2 t3 t4) - th\<bar> \<le> \<bar>d1 - d2\<bar> + 1
    \<and> (d1 = d2 \<longrightarrow> tw_offset_nanos (from_exchange t1 t2 t3 t4) = th)"
proof -
  have x: "(uint t2 - uint t1) + (uint t3 - uint t4) = 2 * th + (d1 - d2)" using assms(5,6) by simp
  have r: "uint (rtt_nanos (from_exchange t1 t2 t3 t4)) = d1 + d2"
    using assms by (intro exchange_rtt) auto
  have o: "tw_offset_nanos (from_exchange t1 t2 t3 t4) = tdiv (2 * th + (d1 - d2)) 2"
    using exchange_offset(1) [OF assms(1-4)] by (simp add: x)
  have "2 * \<bar>tdiv (2 * th + (d1 - d2)) 2 - th\<bar> \<le> \<bar>d1 - d2\<bar> + 1"
  proof -
    have "2 * \<bar>q - th\<bar> \<le> \<bar>d1 - d2\<bar> + 1" if "\<bar>2 * q - (2 * th + (d1 - d2))\<bar> \<le> 1" for q :: int
      using that by arith
    then show ?thesis using tdiv_2_close .
  qed
  moreover have "tdiv (2 * th) 2 = th"
    by (cases "0 \<le> th") (auto simp: tdiv_nonneg tdiv_neg)
  ultimately show ?thesis using r o by auto
qed

theorem exchange_error_bound_witness:
  "tw_offset_nanos (from_exchange 1000 6500 6600 11100) = 500 \<and>
   uint (rtt_nanos (from_exchange 1000 6500 6600 11100)) = 10000"
  using exchange_error_bound [of 1000 6500 6600 11100 5000 500 5000] by (simp add: ts_ok_def)

text \<open>
  (C1) Honest clocks have no holonomy, whoever measured. If every measurement ever recorded, from
  either end of its edge and in any order, reads the difference of the two nodes' clocks, then the
  holonomy of every loop whose edges have been measured is zero.
\<close>

theorem honest_holonomy_zero:
  assumes "\<forall>m \<in> set ms. honest c m" "3 \<le> length path"
    and "\<forall>(a, b) \<in> set (loop_edges path). lut_latest (lut_of ms) a b \<noteq> None"
  shows "loop_holonomy (lut_of ms) path = Some 0"
proof -
  let ?f = "\<lambda>(a, b). c b - c a"
  have "edge_offset (lut_of ms) e = Some (?f e)" if "e \<in> set (loop_edges path)" for e
  proof -
    obtain a b where e: "e = (a, b)" by (cases e)
    have "edge_offset (lut_of ms) (a, b) \<noteq> None" using assms(3) that by (auto simp: e edge_offset_def)
    then show ?thesis using edge_offset_honest [OF assms(1)] by (simp add: e)
  qed
  then have "holonomy_loop (lut_of ms) (loop_edges path) (i64_wrap 0) =
      Some (i64_wrap (0 + sum_list (map ?f (loop_edges path))))"
    by (rule holonomy_loop_sum)
  then show ?thesis using assms(2) coboundary_loop [of c path] by (simp add: loop_holonomy_def)
qed

definition w_a :: node_id where "w_a = NodeId (replicate 32 1)"
definition w_b :: node_id where "w_b = NodeId (replicate 32 2)"
definition w_c :: node_id where "w_c = NodeId (replicate 32 3)"

definition w_twist :: "int \<Rightarrow> twist_index" where
  "w_twist off = \<lparr>rtt_nanos = 10, tw_offset_nanos = off, asymmetry_nanos = 0, quality = 100, epoch_measured = 1\<rparr>"

lemma replicate_32: "replicate 32 x = x # replicate 31 x"
  using replicate_Suc [of 31 x] by (simp del: replicate_Suc)

lemma w_nodes_order [simp]: "w_a < w_b" "w_b < w_c" "w_a < w_c"
  by (simp_all add: w_a_def w_b_def w_c_def less_node_id_def replicate_32)

lemma w_nodes_distinct [simp]: "w_a \<noteq> w_b" "w_b \<noteq> w_c" "w_a \<noteq> w_c" "w_b \<noteq> w_a" "w_c \<noteq> w_b" "w_c \<noteq> w_a"
  using w_nodes_order by (metis less_irrefl)+

lemma w_nodes_asym [simp]: "\<not> w_b < w_a" "\<not> w_c < w_b" "\<not> w_c < w_a"
  using w_nodes_order by (metis less_asym)+

theorem honest_holonomy_zero_witness:
  "loop_holonomy (lut_of [(w_b, w_a, w_twist (- 10)), (w_b, w_c, w_twist 20), (w_c, w_a, w_twist (- 30))])
     [w_a, w_b, w_c] = Some 0"
proof (rule honest_holonomy_zero [where c = "\<lambda>n. if n = w_a then 0 else if n = w_b then 10 else 30"])
  show "\<forall>(a, b) \<in> set (loop_edges [w_a, w_b, w_c]).
      lut_latest (lut_of [(w_b, w_a, w_twist (- 10)), (w_b, w_c, w_twist 20), (w_c, w_a, w_twist (- 30))]) a b \<noteq> None"
    by (simp add: loop_edges_zip lut_of_def lut_latest_insert edge_key_def)
qed (simp_all add: honest_def w_twist_def)

text \<open>
  A consistent lie is invisible to holonomy. If a second table reads every edge of a loop as the
  first one does but with each node's clock shifted by \<open>c\<close> of that node, the loop has the same
  holonomy in both: no loop tells the shifted clocks from the true ones.
\<close>

theorem holonomy_gauge_invariant:
  assumes "\<forall>e \<in> set (loop_edges path). \<exists>x. edge_offset lut e = Some x
      \<and> edge_offset lut' e = Some (x + c (snd e) - c (fst e))"
  shows "loop_holonomy lut' path = loop_holonomy lut path"
proof -
  obtain f where f: "\<And>e. e \<in> set (loop_edges path) \<Longrightarrow> edge_offset lut e = Some (f e)"
    "\<And>e. e \<in> set (loop_edges path) \<Longrightarrow> edge_offset lut' e = Some (f e + c (snd e) - c (fst e))"
    using bchoice [OF assms] by blast
  let ?g = "\<lambda>e. f e + c (snd e) - c (fst e)"
  have "sum_list (map ?g es) = sum_list (map f es) + sum_list (map (\<lambda>(a, b). c b - c a) es)" for es
    by (induction es) (auto simp: case_prod_unfold)
  then have "sum_list (map ?g (loop_edges path)) = sum_list (map f (loop_edges path))"
    by (simp add: coboundary_loop)
  moreover have "holonomy_loop lut (loop_edges path) (i64_wrap 0) =
      Some (i64_wrap (0 + sum_list (map f (loop_edges path))))"
    using f(1) by (rule holonomy_loop_sum)
  moreover have "holonomy_loop lut' (loop_edges path) (i64_wrap 0) =
      Some (i64_wrap (0 + sum_list (map ?g (loop_edges path))))"
    using f(2) by (rule holonomy_loop_sum)
  ultimately show ?thesis by (simp add: loop_holonomy_def)
qed

definition w_lut :: "int \<Rightarrow> int \<Rightarrow> int \<Rightarrow> twist_lut" where
  "w_lut x y z = lut_of [(w_a, w_b, w_twist x), (w_b, w_c, w_twist y), (w_a, w_c, w_twist z)]"

theorem holonomy_gauge_invariant_witness:
  "loop_holonomy (w_lut 17 20 30) [w_a, w_b, w_c] = loop_holonomy (w_lut 12 25 30) [w_a, w_b, w_c]"
proof (rule holonomy_gauge_invariant [where c = "\<lambda>n. if n = w_b then 5 else 0"])
  show "\<forall>e \<in> set (loop_edges [w_a, w_b, w_c]). \<exists>x. edge_offset (w_lut 12 25 30) e = Some x
      \<and> edge_offset (w_lut 17 20 30) e =
        Some (x + (if snd e = w_b then 5 else 0) - (if fst e = w_b then 5 else 0))"
    by (simp add: loop_edges_zip w_lut_def lut_of_def edge_offset_insert w_twist_def i64_defs)
qed

lemma sorted_nth_le: "sorted xs \<Longrightarrow> i \<le> j \<Longrightarrow> j < length xs \<Longrightarrow> xs ! i \<le> (xs ! j :: int)"
  by (rule sorted_nth_mono)

lemma half_le_nine_tenths: "n div 2 \<le> n * 9 div (10 :: nat)"
proof -
  have "n div 2 = n * 5 div 10" using div_mult_mult2 [of 5 n 2] by simp
  also have "\<dots> \<le> n * 9 div 10" by (rule div_le_mono) simp
  finally show ?thesis .
qed

text \<open>
  The percentiles of an edge's profile are ordered, and each is a round trip that was measured
  on that edge.
\<close>

theorem profile_percentiles:
  assumes "lut_profile lut a b = Ret (Some p)"
  shows "p10_nanos p \<le> p50_nanos p \<and> p50_nanos p \<le> p90_nanos p \<and>
    (\<exists>twists. lut_get lut a b = Some twists \<and> sample_count p = of_nat (length twists) \<and>
      {p10_nanos p, p50_nanos p, p90_nanos p} \<subseteq> (\<lambda>t. u64_as_i64 (rtt_nanos t)) ` set twists)"
proof -
  obtain tws tr where tws: "lut_get lut a b = Some tws" "tws \<noteq> []" "profile_trend tws = Ret tr"
    using assms by (cases "profile_trend (the (lut_get lut a b))")
      (auto simp: lut_profile_def Let_def split: option.splits if_splits)
  define ys where "ys = sort (map (\<lambda>t. u64_as_i64 (rtt_nanos t)) tws)"
  have p: "p10_nanos p = ys ! (length ys div 10)" "p50_nanos p = ys ! (length ys div 2)"
    "p90_nanos p = ys ! (length ys * 9 div 10)" "sample_count p = of_nat (length tws)"
    using assms tws by (auto simp: lut_profile_def Let_def ys_def)
  have len: "0 < length ys" using tws(2) by (simp add: ys_def)
  have s: "sorted ys" by (simp add: ys_def)
  have i: "length ys div 10 < length ys" "length ys div 2 < length ys" "length ys * 9 div 10 < length ys"
    using len by (simp_all add: less_mult_imp_div_less)
  have "p10_nanos p \<le> p50_nanos p" unfolding p using i by (intro sorted_nth_le [OF s]) (simp add: div_le_mono2)
  moreover have "p50_nanos p \<le> p90_nanos p"
    unfolding p by (rule sorted_nth_le [OF s half_le_nine_tenths i(3)])
  moreover have "{p10_nanos p, p50_nanos p, p90_nanos p} \<subseteq> set ys" unfolding p using i by simp
  ultimately show ?thesis using tws(1) p(4) by (auto simp: ys_def)
qed

theorem profile_percentiles_witness:
  "\<exists>p. lut_profile (w_lut 1 2 3) w_a w_b = Ret (Some p) \<and> p10_nanos p \<le> p50_nanos p \<and> p50_nanos p \<le> p90_nanos p"
proof -
  have "lut_get (w_lut 1 2 3) w_a w_b = Some [w_twist 1]"
    by (simp add: w_lut_def lut_of_def lut_get_def lut_insert_def lut_new_def edge_key_def orient_def Let_def update_conv')
  then obtain p where "lut_profile (w_lut 1 2 3) w_a w_b = Ret (Some p)"
    by (auto simp: lut_profile_def Let_def profile_trend_def)
  with profile_percentiles [OF this] show ?thesis by blast
qed

end
