(* ===== verification/Samr.thy ===== *)
theory Samr
  imports Types
begin

text \<open>
  \<open>rtfsn-core/src/holonomy/samr.rs\<close>: the prime channels, their classification of a clock, and the
  decoding of the channel values by the Chinese remainder theorem. The \<open>i128\<close> intermediates of
  \<open>mod_inverse\<close> never exceed its 64-bit arguments and are plain integers.
\<close>

record prime_channel =
  prime_of :: u32
  pc_value :: u32
  defect :: u64

definition prime_channel_new :: "u32 \<Rightarrow> prime_channel" where
  "prime_channel_new p = \<lparr>prime_of = p, pc_value = 0, defect = - 1\<rparr>"

definition prime_channel_set :: "prime_channel \<Rightarrow> u32 \<Rightarrow> u64 \<Rightarrow> prime_channel outcome" where
  "prime_channel_set ch v d = (if v < prime_of ch then Ret (ch\<lparr>pc_value := v, defect := d\<rparr>) else Panic)"

record samr_state = channels :: "prime_channel list"

definition clock_default :: samr_state where
  "clock_default = \<lparr>channels = map prime_channel_new [2, 3, 5, 7]\<rparr>"

definition total_resolution :: "samr_state \<Rightarrow> u64" where
  "total_resolution st = foldl (\<lambda>acc c. acc * ucast (prime_of c)) 1 (channels st)"

definition trem :: "int \<Rightarrow> int \<Rightarrow> int" where
  "trem a b = a - tdiv a b * b"

lemma trem_less: "b \<noteq> 0 \<Longrightarrow> \<bar>trem a b\<bar> < \<bar>b\<bar>"
proof -
  assume b: "b \<noteq> 0"
  have "trem a b = sgn a * (\<bar>a\<bar> mod \<bar>b\<bar>)"
    by (cases "0 < a"; cases "0 < b") (auto simp: trem_def tdiv_def minus_div_mult_eq_mod [symmetric] not_less sgn_if)
  then show ?thesis using b by (auto simp: abs_mult sgn_if)
qed

function euclid_loop :: "int \<Rightarrow> int \<Rightarrow> int \<Rightarrow> int \<Rightarrow> int \<times> int" where
  "euclid_loop old_r r old_s s =
     (if r = 0 then (old_r, old_s)
      else let q = tdiv old_r r in euclid_loop r (old_r - q * r) s (old_s - q * s))"
  by auto
termination
  by (relation "measure (\<lambda>(old_r, r, old_s, s). nat \<bar>r\<bar>)") (auto simp: trem_less [unfolded trem_def])

declare euclid_loop.simps [simp del]

definition mod_inverse :: "u64 \<Rightarrow> u64 \<Rightarrow> u64 option outcome" where
  "mod_inverse a m =
     (if m = 1 then Ret (Some 0)
      else case euclid_loop (uint a) (uint m) 1 0 of (old_r, old_s) \<Rightarrow>
        if old_r \<noteq> 1 then Ret None
        else if m = 0 then Panic
        else Ret (Some (word_of_int (trem (trem old_s (uint m) + uint m) (uint m)))))"

fun crt_loop :: "u64 \<Rightarrow> prime_channel list \<Rightarrow> u64 \<Rightarrow> u64 outcome" where
  "crt_loop n [] result = Ret result"
| "crt_loop n (ch # chs) result =
     (let p = ucast (prime_of ch) :: u64 in
      if p = 0 then Panic
      else let ni = n div p in
        obind (mod_inverse ni p) (\<lambda>y. let yi = case_option 0 id y in
          crt_loop n chs (result + ucast (pc_value ch) * ni * yi)))"

definition crt_decode :: "samr_state \<Rightarrow> u64 outcome" where
  "crt_decode st = (let n = total_resolution st in
     obind (crt_loop n (channels st) 0) (\<lambda>result. if n = 0 then Panic else Ret (result mod n)))"

definition next_channel_to_refine :: "samr_state \<Rightarrow> nat option" where
  "next_channel_to_refine st =
     map_option fst (max_by_key (\<lambda>(i, ch). defect ch) (enumerate 0 (channels st)))"

definition set_channel :: "nat \<Rightarrow> u32 \<Rightarrow> u64 \<Rightarrow> samr_state \<Rightarrow> samr_state outcome" where
  "set_channel i v d st =
     (if i < length (channels st)
      then obind (prime_channel_set (channels st ! i) v d)
        (\<lambda>ch. Ret (st\<lparr>channels := (channels st)[i := ch]\<rparr>))
      else Panic)"

definition classify_reachability :: "bool \<Rightarrow> samr_state \<Rightarrow> samr_state outcome" where
  "classify_reachability r = set_channel 0 (if r then 1 else 0) 0"

definition classify_tier :: "u64 \<Rightarrow> samr_state \<Rightarrow> samr_state outcome" where
  "classify_tier rtt = set_channel 1
     (if rtt < 10000000 then 0 else if rtt < 100000000 then 1 else 2) 0"

definition classify_offset :: "i64 \<Rightarrow> u64 \<Rightarrow> samr_state \<Rightarrow> samr_state outcome" where
  "classify_offset off unc = set_channel 2
     (if unc < 1000000 then 0 else if unc < 5000000 then 1 else if unc < 20000000 then 2
      else if unc < 100000000 then 3 else 4) unc"

definition classify_drift :: "i64 \<Rightarrow> samr_state \<Rightarrow> samr_state outcome" where
  "classify_drift drift = (let a = unsigned_abs_i64 drift in set_channel 3
     (if a < 10 then 3
      else if drift > 0 then (if a < 100 then 4 else if a < 1000 then 5 else 6)
      else if a < 100 then 2 else if a < 1000 then 1 else 0) a)"

section \<open>The extended Euclidean loop\<close>

lemma euclid_loop_spec:
  assumes "euclid_loop old_r r old_s s = (g, x)" "0 \<le> old_r" "0 \<le> r"
    "m dvd a * old_s - old_r" "m dvd a * s - r"
  shows "g = gcd old_r r \<and> m dvd a * x - g"
  using assms
proof (induction old_r r old_s s rule: euclid_loop.induct)
  case (1 old_r r old_s s)
  show ?case
  proof (cases "r = 0")
    case True
    with 1 show ?thesis by (simp add: euclid_loop.simps)
  next
    case False
    define q where "q = old_r div r"
    have q: "tdiv old_r r = q" using False 1 by (simp add: q_def tdiv_nonneg)
    have mod: "old_r - q * r = old_r mod r" by (simp add: q_def minus_div_mult_eq_mod)
    have "a * (old_s - q * s) - (old_r - q * r) = (a * old_s - old_r) - q * (a * s - r)"
      by (simp add: algebra_simps)
    then have d: "m dvd a * (old_s - q * s) - (old_r - q * r)"
      using 1(5,6) by (simp only: dvd_diff dvd_mult)
    have "euclid_loop r (old_r - q * r) s (old_s - q * s) = (g, x)"
      using 1(2) False q by (subst (asm) euclid_loop.simps) (simp add: Let_def)
    then have "g = gcd r (old_r - q * r) \<and> m dvd a * x - g"
      using 1 False d q mod by (intro 1(1)) (simp_all add: pos_mod_sign)
    moreover have "gcd old_r r = gcd r (old_r - q * r)" unfolding mod by (rule gcd_red_int)
    ultimately show ?thesis by metis
  qed
qed

lemma trem_nonneg: "0 \<le> a \<Longrightarrow> 0 < b \<Longrightarrow> trem a b = a mod b"
  by (simp add: trem_def tdiv_nonneg minus_div_mult_eq_mod)

lemma trem_fix: "0 < m \<Longrightarrow> trem (trem x m + m) m = x mod m"
proof -
  assume m: "0 < m"
  have "\<bar>trem x m\<bar> < m" using trem_less [of m x] m by simp
  then have "trem (trem x m + m) m = (trem x m + m) mod m" using m by (intro trem_nonneg) linarith+
  also have "\<dots> = x mod m" by (simp add: trem_def mod_diff_eq [symmetric])
  finally show ?thesis .
qed

lemma mod_inverse_spec:
  assumes "1 < m"
  shows "\<exists>r. mod_inverse a m = Ret r \<and>
    (case r of None \<Rightarrow> \<not> coprime (uint a) (uint m)
     | Some y \<Rightarrow> y < m \<and> uint a * uint y mod uint m = 1)"
proof -
  obtain g x where gx: "euclid_loop (uint a) (uint m) 1 0 = (g, x)" by fastforce
  have m: "1 < uint m" "m \<noteq> 1" "m \<noteq> 0" using assms by (auto simp: word_less_def)
  have s: "g = gcd (uint a) (uint m) \<and> uint m dvd uint a * x - g"
    using gx by (rule euclid_loop_spec) simp_all
  show ?thesis
  proof (cases "g = 1")
    case False
    then show ?thesis using gx m s by (auto simp: mod_inverse_def coprime_iff_gcd_eq_1)
  next
    case True
    have lt: "x mod uint m < uint m" "0 \<le> x mod uint m" using m by simp_all
    have "x mod uint m < 2 ^ 64" using lt uint_lt2p [of m] by simp
    then have u: "uint (word_of_int (x mod uint m) :: u64) = x mod uint m"
      using lt by (simp add: uint_word_of_int)
    have "uint a * (x mod uint m) mod uint m = uint a * x mod uint m" by (simp add: mod_mult_right_eq)
    also have "\<dots> = 1"
      using s m True by (metis mod_eq_dvd_iff mod_pos_pos_trivial zero_le_one)
    finally show ?thesis using gx m lt u True
      by (auto simp: mod_inverse_def trem_fix word_less_def)
  qed
qed

section \<open>Decoding\<close>

text \<open>The channels in natural numbers.\<close>

abbreviation pr :: "prime_channel \<Rightarrow> nat" where "pr c \<equiv> unat (prime_of c)"
abbreviation vl :: "prime_channel \<Rightarrow> nat" where "vl c \<equiv> unat (pc_value c)"

definition resolution :: "prime_channel list \<Rightarrow> nat" where
  "resolution cs = prod_list (map pr cs)"

lemma total_resolution_nat: "total_resolution st = of_nat (resolution (channels st))"
proof -
  have "foldl (\<lambda>acc c. acc * ucast (prime_of c)) (of_nat a) cs = (of_nat (a * resolution cs) :: u64)" for a cs
  proof (induction cs arbitrary: a)
    case (Cons c cs)
    have "(of_nat a * ucast (prime_of c) :: u64) = of_nat (a * pr c)"
      by (simp only: ucast_u32_u64 of_nat_mult)
    then have "foldl (\<lambda>acc c. acc * ucast (prime_of c)) (of_nat a) (c # cs) = (of_nat (a * pr c * resolution cs) :: u64)"
      using Cons [of "a * pr c"] by (simp only: foldl_Cons)
    then show ?case by (simp only: resolution_def list.map prod_list.Cons mult.assoc)
  qed (simp add: resolution_def)
  from this [of 1] show ?thesis by (simp add: total_resolution_def)
qed

text \<open>
  Channels the decoding is meant for: pairwise coprime moduli above one, a value below each, and a
  product small enough that the 64-bit sum does not wrap.
\<close>

definition channels_ok :: "prime_channel list \<Rightarrow> bool" where
  "channels_ok cs \<longleftrightarrow> (\<forall>c \<in> set cs. 1 < pr c \<and> vl c < pr c) \<and>
     sorted_wrt (\<lambda>c d. coprime (pr c) (pr d)) cs \<and>
     resolution cs * (\<Sum>c\<leftarrow>cs. pr c) < 2 ^ 64"

definition inv_of :: "nat \<Rightarrow> prime_channel \<Rightarrow> nat" where
  "inv_of N c = (case mod_inverse (of_nat (N div pr c)) (ucast (prime_of c)) of
     Ret (Some y) \<Rightarrow> unat y | _ \<Rightarrow> 0)"

definition crt_term :: "nat \<Rightarrow> prime_channel \<Rightarrow> nat" where
  "crt_term N c = vl c * (N div pr c) * inv_of N c"

lemma inv_of_spec:
  assumes "N < 2 ^ 64" "1 < pr c" "coprime (N div pr c) (pr c)"
  shows "mod_inverse (of_nat (N div pr c)) (ucast (prime_of c)) = Ret (Some (of_nat (inv_of N c)))"
    and "inv_of N c < pr c" and "(N div pr c) * inv_of N c mod pr c = 1"
proof -
  let ?a = "of_nat (N div pr c) :: u64" and ?m = "ucast (prime_of c) :: u64"
  have "N div pr c < 2 ^ 64" using assms(1) by (meson div_le_dividend le_less_trans)
  then have ua: "unat ?a = N div pr c" by (rule unat_of_nat_u64)
  have um: "unat ?m = pr c" by (rule unat_u32_u64)
  have "1 < ?m" using assms(2) um by (simp only: word_less_nat_alt unsigned_1)
  from mod_inverse_spec [OF this, of ?a] obtain r where "mod_inverse ?a ?m = Ret r \<and>
    (case r of None \<Rightarrow> \<not> coprime (uint ?a) (uint ?m)
     | Some y \<Rightarrow> y < ?m \<and> uint ?a * uint y mod uint ?m = 1)" ..
  note r = conjunct1 [OF this] conjunct2 [OF this]
  have ui: "uint ?a = int (N div pr c)" "uint ?m = int (pr c)"
    using uint_unat [of ?a] uint_unat [of ?m] by (simp_all only: ua um)
  have "coprime (uint ?a) (uint ?m)" using assms(3) unfolding ui by (simp only: coprime_int_iff)
  then obtain y where y: "r = Some y" "y < ?m" "uint ?a * uint y mod uint ?m = 1"
    using r(2) by (cases r) (simp_all only: option.case, blast)
  have i: "inv_of N c = unat y" by (simp add: inv_of_def r(1) y(1))
  have "of_nat (unat y) = y" by simp
  then show "mod_inverse ?a ?m = Ret (Some (of_nat (inv_of N c)))" by (simp only: r(1) y(1) i)
  show "inv_of N c < pr c" using y(2) unfolding um [symmetric] i by (simp only: word_less_nat_alt)
  have "int ((N div pr c) * unat y mod pr c) = int 1"
    using y(3) unfolding ui uint_unat [of y] by (simp only: of_nat_mult of_nat_mod of_nat_1)
  then show "(N div pr c) * inv_of N c mod pr c = 1" unfolding i by (simp only: of_nat_eq_iff)
qed

lemma crt_loop_sum:
  assumes "N < 2 ^ 64" "\<And>c. c \<in> set cs \<Longrightarrow> 1 < pr c \<and> coprime (N div pr c) (pr c)"
  shows "crt_loop (of_nat N) cs (of_nat a) = Ret (of_nat (a + (\<Sum>c\<leftarrow>cs. crt_term N c)))"
  using assms(2)
proof (induction cs arbitrary: a)
  case (Cons c cs)
  have c: "1 < pr c" "coprime (N div pr c) (pr c)" using Cons.prems by auto
  have p: "ucast (prime_of c) \<noteq> (0 :: u64)"
    using c(1) by (metis unat_u32_u64 unsigned_0 not_one_less_zero)
  have N: "unat (of_nat N :: u64) = N" using assms(1) by (rule unat_of_nat_u64)
  have d: "(of_nat N :: u64) div ucast (prime_of c) = of_nat (N div pr c)"
  proof (rule unsigned_word_eqI)
    have "N div pr c < 2 ^ 64" using assms(1) by (meson div_le_dividend le_less_trans)
    then show "unat ((of_nat N :: u64) div ucast (prime_of c)) = unat (of_nat (N div pr c) :: u64)"
      by (simp only: unat_div N unat_u32_u64 unat_of_nat_u64)
  qed
  have "crt_loop (of_nat N) (c # cs) (of_nat a) = crt_loop (of_nat N) cs (of_nat (a + crt_term N c))"
    using p inv_of_spec(1) [OF assms(1) c] by (simp add: Let_def d crt_term_def)
  also have "\<dots> = Ret (of_nat (a + crt_term N c + (\<Sum>c\<leftarrow>cs. crt_term N c)))"
    using Cons.prems by (intro Cons.IH) auto
  finally show ?case by (simp add: add.assoc)
qed simp

lemma resolution_split: "resolution (xs @ c # ys) = pr c * resolution (xs @ ys)"
  by (simp add: resolution_def ac_simps)

lemma coprime_resolution: "(\<And>d. d \<in> set cs \<Longrightarrow> coprime (pr d) k) \<Longrightarrow> coprime (resolution cs) k"
  by (induction cs) (auto simp: resolution_def)

lemma channels_ok_split:
  assumes "channels_ok (xs @ c # ys)"
  shows "resolution (xs @ c # ys) div pr c = resolution (xs @ ys)"
    and "coprime (resolution (xs @ ys)) (pr c)"
proof -
  have "1 < pr c" using assms by (simp add: channels_ok_def)
  then show "resolution (xs @ c # ys) div pr c = resolution (xs @ ys)" by (simp add: resolution_split)
  show "coprime (resolution (xs @ ys)) (pr c)"
    using assms by (intro coprime_resolution) (auto simp: channels_ok_def sorted_wrt_append coprime_commute)
qed

lemma resolution_coprime:
  assumes "channels_ok cs" "c \<in> set cs"
  shows "coprime (resolution cs div pr c) (pr c)"
proof -
  obtain xs ys where "cs = xs @ c # ys" using assms(2) by (meson split_list)
  with channels_ok_split assms(1) show ?thesis by metis
qed

lemma crt_term_other:
  assumes "channels_ok (xs @ c # ys)" "d \<in> set (xs @ ys)"
  shows "pr c dvd crt_term (resolution (xs @ c # ys)) d"
proof -
  obtain us vs where uv: "xs @ ys = us @ d # vs" using assms(2) by (meson split_list)
  have "1 < pr d" using assms by (auto simp: channels_ok_def)
  moreover have "resolution (xs @ c # ys) = pr d * (pr c * resolution (us @ vs))"
    unfolding resolution_split uv by (simp only: ac_simps)
  ultimately have "resolution (xs @ c # ys) div pr d = pr c * resolution (us @ vs)" by simp
  then show ?thesis by (simp add: crt_term_def)
qed

lemma crt_sum_mod:
  assumes ok: "channels_ok cs" and "c \<in> set cs" and N: "resolution cs < 2 ^ 64"
  shows "(\<Sum>d\<leftarrow>cs. crt_term (resolution cs) d) mod pr c = vl c"
proof -
  obtain xs ys where cs: "cs = xs @ c # ys" using assms(2) by (meson split_list)
  let ?t = "crt_term (resolution cs)"
  have c: "1 < pr c" "vl c < pr c" using assms by (auto simp: channels_ok_def)
  have dvd: "pr c dvd ?t d" if "d \<in> set (xs @ ys)" for d
    using crt_term_other [of xs c ys d] ok that by (simp add: cs)
  have "pr c dvd (\<Sum>d\<leftarrow>ds. ?t d)" if "set ds \<subseteq> set (xs @ ys)" for ds
    using that dvd by (induction ds) auto
  then have others: "pr c dvd (\<Sum>d\<leftarrow>xs. ?t d)" "pr c dvd (\<Sum>d\<leftarrow>ys. ?t d)" by simp_all
  have "?t c mod pr c = vl c * ((resolution cs div pr c) * inv_of (resolution cs) c mod pr c) mod pr c"
    by (simp add: crt_term_def mod_mult_right_eq mult.assoc)
  also have "\<dots> = vl c"
    using inv_of_spec(3) [OF N c(1) resolution_coprime [OF ok assms(2)]] c(2) by simp
  finally have "?t c mod pr c = vl c" .
  moreover have "(\<Sum>d\<leftarrow>cs. ?t d) = ?t c + ((\<Sum>d\<leftarrow>xs. ?t d) + (\<Sum>d\<leftarrow>ys. ?t d))" by (simp add: cs)
  moreover have "(x + y) mod p = v" if "x mod p = v" "p dvd y" for x y p v :: nat
    using that by (metis add_0_right mod_add_right_eq mod_mod_trivial dvd_eq_mod_eq_0)
  ultimately show ?thesis using others by (metis dvd_add)
qed

lemma crt_sum_bound:
  assumes "channels_ok cs" "resolution cs < 2 ^ 64"
  shows "(\<Sum>d\<leftarrow>cs. crt_term (resolution cs) d) \<le> resolution cs * (\<Sum>d\<leftarrow>cs. pr d)"
proof -
  have "crt_term (resolution cs) d \<le> resolution cs * pr d" if "d \<in> set cs" for d
  proof -
    have d: "1 < pr d" "vl d < pr d" using assms that by (auto simp: channels_ok_def)
    have "vl d * (resolution cs div pr d) \<le> pr d * (resolution cs div pr d)" using d by simp
    also have "\<dots> \<le> resolution cs" by simp
    finally show ?thesis
      using inv_of_spec(2) [OF assms(2) d(1) resolution_coprime [OF assms(1) that]]
      unfolding crt_term_def by (intro mult_le_mono) simp_all
  qed
  then have "(\<Sum>d\<leftarrow>cs. crt_term (resolution cs) d) \<le> (\<Sum>d\<leftarrow>cs. resolution cs * pr d)"
    by (rule sum_list_mono)
  then show ?thesis by (simp add: sum_list_const_mult)
qed

lemma channels_ok_resolution:
  assumes "channels_ok cs" "cs \<noteq> []"
  shows "0 < resolution cs" "resolution cs < 2 ^ 64"
proof -
  have "0 < pr c" if "c \<in> set cs" for c using assms that by (auto simp: channels_ok_def)
  then show "0 < resolution cs" unfolding resolution_def by (induction cs) auto
  obtain c ds where c: "cs = c # ds" using assms(2) by (cases cs) auto
  have "1 < pr c" using assms by (simp add: channels_ok_def c)
  then have "1 \<le> (\<Sum>d\<leftarrow>cs. pr d)" by (simp add: c)
  then have "resolution cs * 1 \<le> resolution cs * (\<Sum>d\<leftarrow>cs. pr d)" by (intro mult_le_mono) simp_all
  then show "resolution cs < 2 ^ 64" using assms(1) unfolding channels_ok_def mult_1_right by linarith
qed

lemma crt_decode_value:
  assumes "channels_ok (channels st)"
  shows "\<exists>x. crt_decode st = Ret x \<and> unat x < resolution (channels st) \<and>
    (\<forall>c \<in> set (channels st). unat x mod pr c = vl c)"
proof (cases "channels st = []")
  case True
  then show ?thesis by (simp add: crt_decode_def total_resolution_def resolution_def)
next
  case False
  let ?cs = "channels st" and ?N = "resolution (channels st)"
  let ?s = "\<Sum>d\<leftarrow>?cs. crt_term ?N d"
  note N = channels_ok_resolution [OF assms False]
  have "1 < pr c \<and> coprime (?N div pr c) (pr c)" if "c \<in> set ?cs" for c
    using assms that resolution_coprime [OF assms that] by (simp add: channels_ok_def)
  from crt_loop_sum [OF N(2) this, of ?cs 0]
  have l: "crt_loop (of_nat ?N) ?cs 0 = Ret (of_nat ?s)" by simp
  have n0: "(of_nat ?N :: u64) \<noteq> 0" using N unat_of_nat_u64 [OF N(2)] by (metis unsigned_0 less_irrefl)
  have "?s < 2 ^ 64" using crt_sum_bound [OF assms N(2)] assms unfolding channels_ok_def by linarith
  then have u: "unat ((of_nat ?s :: u64) mod of_nat ?N) = ?s mod ?N"
    by (simp only: unat_mod unat_of_nat_u64 N(2))
  have "?s mod ?N mod pr c = vl c" if c: "c \<in> set ?cs" for c
  proof -
    have "pr c dvd ?N" using split_list [OF c] resolution_split by fastforce
    then show ?thesis using crt_sum_mod [OF assms c N(2)] by (simp add: mod_mod_cancel)
  qed
  then show ?thesis using l n0 u N(1) by (simp add: crt_decode_def total_resolution_nat Let_def)
qed

section \<open>Properties\<close>

text \<open>
  (C22) The channel code is decoded by the Chinese remainder theorem, with the source's machine
  arithmetic: for pairwise coprime moduli whose weighted product fits 64 bits, \<open>crt_decode\<close> returns
  (no panic, no wrap-around) a number below the total resolution that leaves every channel's value
  as its remainder by that channel's modulus, and two states with the same moduli and the same
  code have the same channel values.
\<close>

theorem crt_decode_correct:
  assumes "channels_ok (channels st)"
  shows "\<exists>x. crt_decode st = Ret x \<and> x < total_resolution st \<and>
    (\<forall>c \<in> set (channels st). x mod ucast (prime_of c) = ucast (pc_value c)) \<and>
    (\<forall>st'. channels_ok (channels st') \<longrightarrow> map prime_of (channels st') = map prime_of (channels st) \<longrightarrow>
      crt_decode st' = Ret x \<longrightarrow> map pc_value (channels st') = map pc_value (channels st))"
proof -
  obtain x where x: "crt_decode st = Ret x" "unat x < resolution (channels st)"
    "\<And>c. c \<in> set (channels st) \<Longrightarrow> unat x mod pr c = vl c"
    using crt_decode_value [OF assms] by blast
  have lt: "x < total_resolution st"
  proof (cases "channels st = []")
    case True
    then show ?thesis using x(2) by (simp add: total_resolution_def resolution_def word_less_nat_alt)
  next
    case False
    then show ?thesis using x(2) channels_ok_resolution [OF assms False]
      by (simp add: total_resolution_nat word_less_nat_alt unat_of_nat_u64)
  qed
  have m: "x mod ucast (prime_of c) = ucast (pc_value c)" if "c \<in> set (channels st)" for c
  proof (rule unsigned_word_eqI)
    show "unat (x mod ucast (prime_of c)) = unat (ucast (pc_value c) :: u64)"
      by (simp only: unat_mod unat_u32_u64 x(3) [OF that])
  qed
  have inj: "map pc_value (channels st') = map pc_value (channels st)"
    if st': "channels_ok (channels st')" "map prime_of (channels st') = map prime_of (channels st)"
      "crt_decode st' = Ret x" for st'
  proof (rule nth_equalityI)
    show len: "length (map pc_value (channels st')) = length (map pc_value (channels st))"
      using map_eq_imp_length_eq [OF st'(2)] by simp
    fix i assume i: "i < length (map pc_value (channels st'))"
    let ?c = "channels st ! i" and ?d = "channels st' ! i"
    have "unat x mod pr ?d = vl ?d" using crt_decode_value [OF st'(1)] st'(3) i by auto
    moreover have "unat x mod pr ?c = vl ?c" using x(3) i len by simp
    moreover have "prime_of ?d = prime_of ?c" using st'(2) i len by (metis length_map nth_map)
    ultimately have "vl ?d = vl ?c" by simp
    then show "map pc_value (channels st') ! i = map pc_value (channels st) ! i"
      using i len by (simp add: unsigned_word_eqI)
  qed
  show ?thesis using x(1) lt m inj by blast
qed

text \<open>Every reachable clock classification has the four default moduli and values below them.\<close>

definition samr_ok :: "samr_state \<Rightarrow> bool" where
  "samr_ok st \<longleftrightarrow> map prime_of (channels st) = [2, 3, 5, 7] \<and> (\<forall>c \<in> set (channels st). pc_value c < prime_of c)"

lemma samr_ok_default: "samr_ok clock_default"
  by (simp add: samr_ok_def clock_default_def prime_channel_new_def)

lemma samr_ok_set:
  assumes "samr_ok st" "i < 4" "v < [2, 3, 5, 7] ! i"
  shows "\<exists>st'. set_channel i v d st = Ret st' \<and> samr_ok st' \<and> pc_value (channels st' ! i) = v \<and>
    (\<forall>j. j \<noteq> i \<longrightarrow> channels st' ! j = channels st ! j)"
proof -
  have len: "length (channels st) = 4" using assms(1) by (auto simp: samr_ok_def dest: arg_cong [where f = length])
  have p: "prime_of (channels st ! i) = [2, 3, 5, 7] ! i"
    using assms(1,2) len unfolding samr_ok_def by (metis nth_map)
  have "map prime_of ((channels st)[i := (channels st ! i)\<lparr>pc_value := v, defect := d\<rparr>]) = map prime_of (channels st)"
    by (simp add: map_update list_update_same_conv len assms(2))
  then show ?thesis using assms p len
    by (auto simp: set_channel_def prime_channel_set_def samr_ok_def dest!: set_update_subset_insert [THEN subsetD])
qed

lemma classify_reachability_ok: "samr_ok st \<Longrightarrow> \<exists>st'. classify_reachability r st = Ret st' \<and> samr_ok st'"
  using samr_ok_set [of st 0 "if r then 1 else 0" 0] by (auto simp: classify_reachability_def)

lemma classify_tier_ok: "samr_ok st \<Longrightarrow> \<exists>st'. classify_tier rtt st = Ret st' \<and> samr_ok st'"
  using samr_ok_set [of st 1 "if rtt < 10000000 then 0 else if rtt < 100000000 then 1 else 2" 0]
  by (auto simp: classify_tier_def)

lemma classify_offset_ok: "samr_ok st \<Longrightarrow> \<exists>st'. classify_offset off unc st = Ret st' \<and> samr_ok st'"
  using samr_ok_set [of st 2 "if unc < 1000000 then 0 else if unc < 5000000 then 1
      else if unc < 20000000 then 2 else if unc < 100000000 then 3 else 4" unc]
  by (auto simp: classify_offset_def)

lemma classify_drift_ok: "samr_ok st \<Longrightarrow> \<exists>st'. classify_drift drift st = Ret st' \<and> samr_ok st'"
proof -
  assume ok: "samr_ok st"
  define v :: u32 where "v = (let a = unsigned_abs_i64 drift in if a < 10 then 3
      else if drift > 0 then (if a < 100 then 4 else if a < 1000 then 5 else 6)
      else if a < 100 then 2 else if a < 1000 then 1 else 0)"
  have "v < 7" by (auto simp: v_def Let_def)
  then show ?thesis using samr_ok_set [OF ok, of 3 v "unsigned_abs_i64 drift"] by (auto simp: classify_drift_def Let_def v_def)
qed

lemma samr_ok_channels: "samr_ok st \<Longrightarrow> channels_ok (channels st)"
proof -
  assume a: "samr_ok st"
  then obtain c0 c1 c2 c3 where cs: "channels st = [c0, c1, c2, c3]"
    "prime_of c0 = 2" "prime_of c1 = 3" "prime_of c2 = 5" "prime_of c3 = 7"
    by (auto simp: samr_ok_def map_eq_Cons_conv)
  have "coprime (2 :: nat) 3" "coprime (2 :: nat) 5" "coprime (2 :: nat) 7" "coprime (3 :: nat) 5"
    "coprime (3 :: nat) 7" "coprime (5 :: nat) 7" by code_simp+
  with a cs show ?thesis by (simp add: samr_ok_def channels_ok_def resolution_def word_less_nat_alt)
qed

lemma samr_code_bound:
  assumes "samr_ok st"
  shows "\<exists>x. crt_decode st = Ret x \<and> unat x < 210"
proof -
  have "resolution (channels st) = 210"
    using assms by (auto simp: samr_ok_def resolution_def map_eq_Cons_conv)
  then show ?thesis using crt_decode_value [OF samr_ok_channels [OF assms]] by auto
qed

definition w_samr :: samr_state where
  "w_samr = \<lparr>channels = [\<lparr>prime_of = 2, pc_value = 1, defect = 0\<rparr>, \<lparr>prime_of = 3, pc_value = 2, defect = 0\<rparr>,
     \<lparr>prime_of = 5, pc_value = 3, defect = 0\<rparr>, \<lparr>prime_of = 7, pc_value = 2, defect = 0\<rparr>]\<rparr>"

theorem crt_decode_correct_witness:
  "samr_ok w_samr \<and> (\<exists>x. crt_decode w_samr = Ret x \<and> x mod 7 = 2)"
proof -
  have ok: "samr_ok w_samr" by (simp add: samr_ok_def w_samr_def)
  from crt_decode_correct [OF samr_ok_channels [OF ok]] ok show ?thesis by (auto simp: w_samr_def)
qed

text \<open>
  Classification is total on the default channels: from any state with the moduli 2, 3, 5, 7, the
  four \<open>classify\<close> operations with any arguments stay clear of the assertion in \<open>set\<close> and of the
  index checks, whatever their order, keep the state well formed, and the result still decodes to a
  code below 210.
\<close>

theorem classify_total:
  assumes "samr_ok st"
  shows "\<exists>st'. obind (obind (obind (classify_reachability r st) (classify_tier rtt))
      (classify_offset off unc)) (classify_drift drift) = Ret st' \<and>
    samr_ok st' \<and> (\<exists>x. crt_decode st' = Ret x \<and> unat x < 210) \<and>
    (pc_value (channels st' ! 3) = 3 \<longleftrightarrow> unsigned_abs_i64 drift < 10)"
proof -
  obtain s1 where s1: "classify_reachability r st = Ret s1" "samr_ok s1"
    using classify_reachability_ok [OF assms] by blast
  obtain s2 where s2: "classify_tier rtt s1 = Ret s2" "samr_ok s2" using classify_tier_ok [OF s1(2)] by blast
  obtain s3 where s3: "classify_offset off unc s2 = Ret s3" "samr_ok s3" using classify_offset_ok [OF s2(2)] by blast
  define v :: u32 where "v = (let a = unsigned_abs_i64 drift in if a < 10 then 3
      else if drift > 0 then (if a < 100 then 4 else if a < 1000 then 5 else 6)
      else if a < 100 then 2 else if a < 1000 then 1 else 0)"
  have v: "v < 7" "v = 3 \<longleftrightarrow> unsigned_abs_i64 drift < 10" by (auto simp: v_def Let_def)
  obtain s4 where s4: "classify_drift drift s3 = Ret s4" "samr_ok s4" "pc_value (channels s4 ! 3) = v"
    using samr_ok_set [OF s3(2), of 3 v "unsigned_abs_i64 drift"] v(1)
    by (auto simp: classify_drift_def Let_def v_def)
  have "resolution (channels s4) = 210"
    using s4(2) by (auto simp: samr_ok_def resolution_def map_eq_Cons_conv)
  then show ?thesis using s1 s2 s3 s4 v(2) crt_decode_value [OF samr_ok_channels [OF s4(2)]] by auto
qed

theorem classify_total_witness:
  "\<exists>st' x. obind (obind (obind (classify_reachability True clock_default) (classify_tier 5000000))
      (classify_offset 0 7000000)) (classify_drift (- 50)) = Ret st' \<and> crt_decode st' = Ret x \<and> unat x < 210"
  using classify_total [OF samr_ok_default, of True 5000000 0 7000000 "- 50"] by blast

end
