(* ===== verification/Mirror.thy ===== *)
theory Mirror
  imports Types
begin

text \<open>
  \<open>rtfsn-core/src/holonomy/temporal_mirror.rs\<close>: the forward and the backward estimate of an epoch
  boundary are moved towards each other until they agree within a microsecond.
\<close>

record temporal_mirror =
  predictive_time_nanos :: u64
  retrodictive_time_nanos :: u64
  fixed_point_nanos :: u64
  disagreement_nanos :: u64
  iterations_to_converge :: u32

text \<open>One damped move: \<open>x + ((midpoint - x) as f64 * 0.5) as i64\<close>.\<close>

definition towards :: "i64 \<Rightarrow> i64 \<Rightarrow> i64" where
  "towards midpoint x =
     i64_wrap (x + f64_as_i64 (fmul (of_i64 (i64_wrap (midpoint - x))) (Fin (1 / 2))))"

fun mirror_loop :: "nat \<Rightarrow> u32 \<Rightarrow> i64 \<Rightarrow> i64 \<Rightarrow> i64 \<times> i64 \<times> u32" where
  "mirror_loop 0 i predictive retrodictive = (predictive, retrodictive, i)"
| "mirror_loop (Suc n) i predictive retrodictive =
     (let midpoint = tdiv (i64_wrap (predictive + retrodictive)) 2;
          predictive' = towards midpoint predictive;
          retrodictive' = towards midpoint retrodictive
      in if unsigned_abs_i64 (i64_wrap (predictive' - retrodictive')) < 1000
         then (predictive', retrodictive', i + 1)
         else mirror_loop n (i + 1) predictive' retrodictive')"

definition mean_i64 :: "i64 list \<Rightarrow> i64" where
  "mean_i64 xs = tdiv (sum_i64 xs) (int (length xs))"

definition find_fixed_point :: "i64 list \<Rightarrow> i64 list \<Rightarrow> u32 \<Rightarrow> temporal_mirror" where
  "find_fixed_point forward backward max_iterations =
     (if forward = [] \<or> backward = [] then
        \<lparr>predictive_time_nanos = 0, retrodictive_time_nanos = 0, fixed_point_nanos = 0,
         disagreement_nanos = - 1, iterations_to_converge = 0\<rparr>
      else
        (case mirror_loop (unat max_iterations) 0 (mean_i64 forward) (mean_i64 backward) of
           (predictive, retrodictive, iterations) \<Rightarrow>
             \<lparr>predictive_time_nanos = i64_as_u64 predictive,
              retrodictive_time_nanos = i64_as_u64 retrodictive,
              fixed_point_nanos = i64_as_u64 (tdiv (i64_wrap (predictive + retrodictive)) 2),
              disagreement_nanos = unsigned_abs_i64 (i64_wrap (predictive - retrodictive)),
              iterations_to_converge = iterations\<rparr>))"

definition is_consistent :: "temporal_mirror \<Rightarrow> u64 \<Rightarrow> bool" where
  "is_consistent m tolerance \<longleftrightarrow> disagreement_nanos m \<le> tolerance"

record epoch_boundary_solver =
  ebs_epoch_duration_nanos :: u64
  mirrors :: "temporal_mirror list"

definition ebs_new :: "u64 \<Rightarrow> epoch_boundary_solver" where
  "ebs_new d = \<lparr>ebs_epoch_duration_nanos = d, mirrors = []\<rparr>"

definition solve_boundary ::
  "i64 list \<Rightarrow> i64 list \<Rightarrow> u64 \<Rightarrow> epoch_boundary_solver \<Rightarrow> epoch_boundary_solver \<times> temporal_mirror" where
  "solve_boundary offsets drifts prev s =
     (let dt = u64_as_i64 (ebs_epoch_duration_nanos s);
          base = i64_wrap (u64_as_i64 prev + dt);
          forward = map (\<lambda>(off, drift). i64_wrap (i64_wrap (base + off) +
            tdiv (i64_wrap (drift * dt)) 1000000000)) (zip offsets drifts);
          backward = map (\<lambda>off. i64_wrap (base + off)) offsets;
          m = find_fixed_point forward backward 50
      in (s\<lparr>mirrors := mirrors s @ [m]\<rparr>, m))"

definition latest_mirror :: "epoch_boundary_solver \<Rightarrow> temporal_mirror option" where
  "latest_mirror s = last_opt (mirrors s)"

section \<open>One iteration\<close>

lemma half_i64:
  assumes "\<bar>d\<bar> \<le> 2 ^ 53"
  shows "f64_as_i64 (fmul (of_i64 d) (Fin (1 / 2))) = tdiv d 2"
proof (cases "d = 0")
  case True
  then show ?thesis by (simp add: of_i64_def f64_as_i64_zero fmul_def is_zero_def)
next
  case False
  have "rr (of_int d * 2 powi - 1) = of_int d * 2 powi - 1" using assms by (intro rr_dyadic) simp_all
  then have r: "rr (of_int d / 2) = of_int d / 2" by simp
  have "\<bar>of_int d :: rat\<bar> < f_huge" using is_f64_of_int [OF assms] by (simp add: is_f64_def)
  moreover have "\<bar>of_int d / 2 :: rat\<bar> \<le> \<bar>of_int d\<bar>" by simp
  ultimately have "is_f64 (Fin (of_int d / 2))" using r unfolding is_f64_def f64.case by linarith
  then have "fmul (of_i64 d) (Fin (1 / 2)) = Fin (of_int d / 2)"
    using False rnd_id by (simp add: of_i64_def rnd_of_int [OF assms] fmul_def is_zero_def is_inf_def)
  moreover have "trunc_rat (of_int d / 2) = tdiv d 2"
  proof (cases "0 \<le> d")
    case True
    have "\<lfloor>of_int d / (of_int 2 :: rat)\<rfloor> = d div 2" by (rule floor_divide_of_int_eq)
    with True show ?thesis by (simp add: trunc_rat_def tdiv_nonneg)
  next
    case False
    have "\<lfloor>of_int (- d) / (of_int 2 :: rat)\<rfloor> = (- d) div 2" by (rule floor_divide_of_int_eq)
    with False show ?thesis by (simp add: trunc_rat_def tdiv_neg ceiling_def)
  qed
  moreover have "is_i64 (tdiv d 2)"
    using tdiv_abs_bound [of 2 d "2 ^ 52"] assms by (simp add: i64_defs abs_le_iff)
  ultimately show ?thesis by (simp add: f64_as_i64_def)
qed

lemma tdiv_2_between: "p \<le> (r :: int) \<Longrightarrow> p \<le> tdiv (p + r) 2 \<and> tdiv (p + r) 2 \<le> r"
  by (cases "0 \<le> p + r") (auto simp: tdiv_nonneg tdiv_neg)

lemma is_i64_62: "\<bar>x\<bar> \<le> 2 ^ 62 \<Longrightarrow> \<bar>y\<bar> < 2 ^ 62 \<Longrightarrow> is_i64 (x + y)"
  by (simp add: i64_defs abs_le_iff abs_less_iff)

lemma towards_half:
  assumes "\<bar>m\<bar> < 2 ^ 62" "\<bar>x\<bar> < 2 ^ 62" "\<bar>m - x\<bar> \<le> 2 ^ 53"
  shows "towards m x = x + tdiv (m - x) 2"
proof -
  have d: "is_i64 (m - x)" using assms(1,2) is_i64_62 [of m "- x"] by simp
  have h: "\<bar>tdiv (m - x) 2\<bar> \<le> 2 ^ 62" using tdiv_abs_bound [of 2 "m - x" "2 ^ 62"] assms(3) by simp
  show ?thesis
    using d half_i64 [OF assms(3)] is_i64_62 [OF h assms(2)] by (simp add: towards_def add.commute)
qed

lemma mirror_step:
  assumes "p \<le> r" "r - p \<le> D" "D \<le> 2 ^ 53" "\<bar>p\<bar> < 2 ^ 62" "\<bar>r\<bar> < 2 ^ 62"
  defines "m \<equiv> tdiv (i64_wrap (p + r)) 2"
  shows "p \<le> towards m p" "towards m p \<le> towards m r" "towards m r \<le> r"
    and "2 * (towards m r - towards m p) \<le> r - p + 4"
proof -
  have s: "is_i64 (p + r)" using assms by (intro is_i64_62) simp_all
  then have m: "m = tdiv (p + r) 2" by (simp add: m_def)
  have b: "p \<le> m" "m \<le> r" using tdiv_2_between [OF assms(1)] by (simp_all add: m)
  have mb: "\<bar>m\<bar> < 2 ^ 62" using b assms(4,5) unfolding abs_less_iff by linarith
  have d: "\<bar>m - p\<bar> \<le> 2 ^ 53" "\<bar>m - r\<bar> \<le> 2 ^ 53" using b assms(2,3) unfolding abs_le_iff by linarith+
  have t: "towards m p = p + tdiv (m - p) 2" "towards m r = r + tdiv (m - r) 2"
    using towards_half mb assms(4,5) d by auto
  have q: "0 \<le> tdiv (m - p) 2" "2 * tdiv (m - p) 2 \<le> m - p" "m - p \<le> 2 * tdiv (m - p) 2 + 1"
    "tdiv (m - r) 2 \<le> 0" "m - r \<le> 2 * tdiv (m - r) 2" "2 * tdiv (m - r) 2 \<le> m - r + 1"
  proof -
    have 1: "tdiv (m - p) 2 = (m - p) div 2" using b by (simp add: tdiv_nonneg)
    show "0 \<le> tdiv (m - p) 2" "2 * tdiv (m - p) 2 \<le> m - p" "m - p \<le> 2 * tdiv (m - p) 2 + 1"
      unfolding 1 using b by presburger+
    have "tdiv (- (r - m)) 2 = - tdiv (r - m) 2" by (rule tdiv_minus)
    then have 2: "tdiv (m - r) 2 = - ((r - m) div 2)" using b by (simp add: tdiv_nonneg)
    show "tdiv (m - r) 2 \<le> 0" "m - r \<le> 2 * tdiv (m - r) 2" "2 * tdiv (m - r) 2 \<le> m - r + 1"
      unfolding 2 using b by presburger+
  qed
  show "p \<le> towards m p" "towards m p \<le> towards m r" "towards m r \<le> r"
    unfolding t using q b by linarith+
  show "2 * (towards m r - towards m p) \<le> r - p + 4"
    unfolding t right_diff_distrib distrib_left using q(3,6) by linarith
qed

lemma unsigned_abs_swap: "unsigned_abs_i64 (i64_wrap (x - y)) = unsigned_abs_i64 (i64_wrap (y - x))"
proof -
  define z where "z = i64_wrap (y - x)"
  have w: "i64_wrap (x - y) = i64_wrap (- z)" by (simp add: z_def)
  have i: "is_i64 z" by (simp add: z_def)
  have "\<bar>i64_wrap (- z)\<bar> = \<bar>z\<bar>"
  proof (cases "z = i64_min")
    case False
    with i have "is_i64 (- z)" by (auto simp: i64_defs)
    then show ?thesis by simp
  qed (simp add: i64_wrap_def i64_min_def)
  then show ?thesis by (simp add: unsigned_abs_i64_def w z_def [symmetric])
qed

lemma mirror_step_sym: "mirror_loop n i r p = (a, b, k) \<longleftrightarrow> mirror_loop n i p r = (b, a, k)"
proof (induction n arbitrary: i p r)
  case (Suc n)
  then show ?case by (auto simp: Let_def add.commute [of p r] unsigned_abs_swap [of "towards _ r"])
qed auto

section \<open>Convergence\<close>

lemma mirror_loop_converges:
  assumes "p \<le> r" "r - p \<le> 900 * 2 ^ k + 4" "r - p \<le> 2 ^ 53" "\<bar>p\<bar> < 2 ^ 62" "\<bar>r\<bar> < 2 ^ 62" "k < n"
  shows "\<exists>p' r' j. mirror_loop n i p r = (p', r', i + of_nat j) \<and> p \<le> p' \<and> p' \<le> r' \<and> r' \<le> r \<and>
    r' - p' < 1000 \<and> j \<le> Suc k"
  using assms
proof (induction n arbitrary: i p r k)
  case (Suc n)
  define m where "m = tdiv (i64_wrap (p + r)) 2"
  define p1 where "p1 = towards m p"
  define r1 where "r1 = towards m r"
  have s: "p \<le> p1" "p1 \<le> r1" "r1 \<le> r" "2 * (r1 - p1) \<le> r - p + 4"
    using mirror_step [OF Suc.prems(1) order_refl Suc.prems(3,4,5)] by (simp_all add: p1_def r1_def m_def)
  have b: "\<bar>p1\<bar> < 2 ^ 62" "\<bar>r1\<bar> < 2 ^ 62" using s Suc.prems(4,5) unfolding abs_less_iff by linarith+
  then have "is_i64 (p1 - r1)" using is_i64_62 [of p1 "- r1"] by simp
  then have u: "uint (unsigned_abs_i64 (i64_wrap (p1 - r1))) = r1 - p1"
    using s by (simp add: uint_unsigned_abs)
  have "mirror_loop (Suc n) i p r = (if r1 - p1 < 1000 then (p1, r1, i + 1) else mirror_loop n (i + 1) p1 r1)"
    using u by (simp add: Let_def p1_def r1_def m_def word_less_def)
  then show ?case
  proof (cases "r1 - p1 < 1000")
    case False
    with s Suc.prems(2) have "k \<noteq> 0" by (intro notI) simp
    then obtain l where k: "k = Suc l" by (cases k) auto
    have "r1 - p1 \<le> 900 * 2 ^ l + 4" "r1 - p1 \<le> 2 ^ 53" using s Suc.prems(2,3) by (simp_all add: k)
    then obtain p' r' j where j: "mirror_loop n (i + 1) p1 r1 = (p', r', i + 1 + of_nat j)" "p1 \<le> p'"
      "p' \<le> r'" "r' \<le> r1" "r' - p' < 1000" "j \<le> Suc l"
      using Suc.IH [OF s(2) _ _ b, of l "i + 1"] Suc.prems(6) by (auto simp: k)
    have "mirror_loop (Suc n) i p r = (p', r', i + of_nat (Suc j))"
      using \<open>mirror_loop (Suc n) i p r = _\<close> False j(1) by (simp add: add.assoc)
    then show ?thesis using j(2-6) s k by (intro exI [of _ p'] exI [of _ r'] exI [of _ "Suc j"]) simp
  qed (use s in \<open>auto intro!: exI [of _ "1 :: nat"]\<close>)
qed simp

lemma mirror_loop_any_order:
  assumes "\<bar>p - r\<bar> \<le> 2 ^ 53" "\<bar>p\<bar> < 2 ^ 62" "\<bar>r\<bar> < 2 ^ 62" "45 \<le> n"
  shows "\<exists>p' r' j. mirror_loop n i p r = (p', r', i + of_nat j) \<and> min p r \<le> min p' r' \<and> max p' r' \<le> max p r \<and>
    \<bar>p' - r'\<bar> < 1000 \<and> j \<le> 45"
proof (cases "p \<le> r")
  case True
  with assms obtain p' r' j where "mirror_loop n i p r = (p', r', i + of_nat j)" "p \<le> p'" "p' \<le> r'" "r' \<le> r"
    "r' - p' < 1000" "j \<le> Suc 44"
    using mirror_loop_converges [OF True, of 44 n i] by auto
  then show ?thesis using True by (intro exI [of _ p'] exI [of _ r'] exI [of _ j]) auto
next
  case False
  then have rp: "r \<le> p" by simp
  with assms obtain p' r' j where "mirror_loop n i r p = (p', r', i + of_nat j)" "r \<le> p'" "p' \<le> r'" "r' \<le> p"
    "r' - p' < 1000" "j \<le> Suc 44"
    using mirror_loop_converges [OF rp, of 44 n i] by auto
  then show ?thesis using rp mirror_step_sym [of n i r p p' r' "i + of_nat j"]
    by (intro exI [of _ r'] exI [of _ p'] exI [of _ j]) auto
qed

text \<open>
  (C29) The temporal mirror converges. When the two mean estimates are ordinary times (below \<open>2^62\<close>
  nanoseconds) within \<open>2^53\<close> nanoseconds (104 days) of each other, at most 45 iterations bring
  them within a microsecond, whichever is larger, in the 64-bit and floating-point arithmetic of
  the code, and the fixed point lies between the two means.
\<close>

theorem find_fixed_point_converges:
  assumes "fwd \<noteq> []" "bwd \<noteq> []" "\<bar>mean_i64 fwd\<bar> < 2 ^ 62" "\<bar>mean_i64 bwd\<bar> < 2 ^ 62"
    and "\<bar>mean_i64 fwd - mean_i64 bwd\<bar> \<le> 2 ^ 53" "45 \<le> unat max_iterations"
  shows "is_consistent (find_fixed_point fwd bwd max_iterations) 999 \<and>
    unat (iterations_to_converge (find_fixed_point fwd bwd max_iterations)) \<le> 45 \<and>
    (\<exists>t. fixed_point_nanos (find_fixed_point fwd bwd max_iterations) = i64_as_u64 t \<and>
      min (mean_i64 fwd) (mean_i64 bwd) \<le> t \<and> t \<le> max (mean_i64 fwd) (mean_i64 bwd))"
proof -
  obtain p r j where l: "mirror_loop (unat max_iterations) 0 (mean_i64 fwd) (mean_i64 bwd) = (p, r, of_nat j)"
    "min (mean_i64 fwd) (mean_i64 bwd) \<le> min p r" "max p r \<le> max (mean_i64 fwd) (mean_i64 bwd)"
    "\<bar>p - r\<bar> < 1000" "j \<le> 45"
    using mirror_loop_any_order [OF assms(5,3,4,6), of 0] by auto
  have b: "\<bar>p\<bar> < 2 ^ 62" "\<bar>r\<bar> < 2 ^ 62"
    using l(2,3) assms(3,4) unfolding min_def max_def abs_less_iff by (auto split: if_splits)
  then have i: "is_i64 (p - r)" "is_i64 (p + r)" using is_i64_62 [of p "- r"] is_i64_62 [of p r] by simp_all
  have f: "find_fixed_point fwd bwd max_iterations =
      \<lparr>predictive_time_nanos = i64_as_u64 p, retrodictive_time_nanos = i64_as_u64 r,
       fixed_point_nanos = i64_as_u64 (tdiv (p + r) 2), disagreement_nanos = unsigned_abs_i64 (p - r),
       iterations_to_converge = of_nat j\<rparr>"
    using assms(1,2) l(1) i by (simp add: find_fixed_point_def)
  have "unat (of_nat j :: u32) \<le> 45"
    using l(5) by (simp add: unsigned_of_nat take_bit_nat_eq_self)
  moreover have "unsigned_abs_i64 (p - r) \<le> 999"
    using l(4) i by (simp add: word_le_def uint_unsigned_abs)
  moreover have "min p r \<le> tdiv (p + r) 2 \<and> tdiv (p + r) 2 \<le> max p r"
    using tdiv_2_between [of p r] tdiv_2_between [of r p] by (cases "p \<le> r") (auto simp: add.commute)
  ultimately show ?thesis using l(2,3) by (auto simp: f is_consistent_def intro: order_trans)
qed

theorem find_fixed_point_converges_witness:
  "is_consistent (find_fixed_point [1000000000, 1000001000] [1000000500, 1000002500] 50) 999"
  using find_fixed_point_converges [of "[1000000000, 1000001000]" "[1000000500, 1000002500]" 50]
  by (simp add: mean_i64_def sum_i64_eq tdiv_def i64_wrap_def)

end
