(* ===== verification/Solver.thy ===== *)
theory Solver
  imports Twist Chiral
begin

text \<open>
  \<open>rtfsn-core/src/holonomy/solver.rs\<close>: the damped relaxation of the node offsets over the table of
  measurements. The node map is iterated in its list order, any order.
\<close>

record holonomy_solver =
  hs_nodes :: "(node_id, chiral_frame) hashmap"
  hs_lut :: twist_lut
  hs_iteration :: u32
  hs_damping :: f64

record solve_result =
  sr_iterations :: u32
  max_defect_nanos :: u64
  mean_defect_nanos :: u64
  sr_converged :: bool

definition solver_new :: holonomy_solver where
  "solver_new = \<lparr>hs_nodes = [], hs_lut = lut_new, hs_iteration = 0, hs_damping = flit (3 / 10)\<rparr>"

definition add_node :: "node_id \<Rightarrow> chiral_frame \<Rightarrow> holonomy_solver \<Rightarrow> holonomy_solver" where
  "add_node n f s = s\<lparr>hs_nodes := hm_insert n f (hs_nodes s)\<rparr>"

definition add_measurement :: "node_id \<Rightarrow> node_id \<Rightarrow> twist_index \<Rightarrow> holonomy_solver \<Rightarrow> holonomy_solver" where
  "add_measurement a b tw s = s\<lparr>hs_lut := lut_insert a b tw (hs_lut s)\<rparr>"

text \<open>The offset a neighbour's frame and the edge between them predict for a node, and the error.\<close>

definition expected_offset :: "node_id \<Rightarrow> node_id \<Rightarrow> chiral_frame \<Rightarrow> twist_index \<Rightarrow> i64" where
  "expected_offset n nb nb_frame tw =
     (if nb < n then saturating_add_i64 (cf_offset_nanos nb_frame) (tw_offset_nanos tw)
      else saturating_sub_i64 (cf_offset_nanos nb_frame) (tw_offset_nanos tw))"

definition edge_errors :: "holonomy_solver \<Rightarrow> node_id \<Rightarrow> chiral_frame \<Rightarrow> (i64 \<times> u32) list" where
  "edge_errors s n frame = List.map_filter (\<lambda>nb.
     case lut_latest (hs_lut s) n nb of None \<Rightarrow> None | Some tw \<Rightarrow>
     case hm_get (hs_nodes s) nb of None \<Rightarrow> None | Some nb_frame \<Rightarrow>
       Some (saturating_sub_i64 (expected_offset n nb nb_frame tw) (cf_offset_nanos frame), quality tw))
     (lut_neighbors (hs_lut s) n)"

definition weight_of :: "u32 \<Rightarrow> f64" where
  "weight_of q = fdiv (of_u32 q) (Fin 100)"

definition correction_sum :: "(i64 \<times> u32) list \<Rightarrow> i64" where
  "correction_sum es = foldl (\<lambda>c (e, q).
     saturating_add_i64 c (f64_as_i64 (fmul (of_i64 e) (weight_of q)))) 0 es"

definition weight_sum :: "(i64 \<times> u32) list \<Rightarrow> f64" where
  "weight_sum es = foldl (\<lambda>w (e, q). fadd w (weight_of q)) (Fin 0) es"

definition correction :: "f64 \<Rightarrow> (i64 \<times> u32) list \<Rightarrow> i64 option" where
  "correction damping es = (let w = weight_sum es in
     if flt (Fin 0) w
     then Some (f64_as_i64 (fmul (fdiv (of_i64 (correction_sum es)) w) damping))
     else None)"

definition move_offset :: "chiral_frame \<Rightarrow> i64 option \<Rightarrow> chiral_frame" where
  "move_offset f c = (case c of None \<Rightarrow> f
     | Some d \<Rightarrow> f\<lparr>cf_offset_nanos := saturating_add_i64 (cf_offset_nanos f) d\<rparr>)"

definition all_defects :: "holonomy_solver \<Rightarrow> u64 list" where
  "all_defects s = concat (map (\<lambda>(n, f). map (\<lambda>(e, q). unsigned_abs_i64 e) (edge_errors s n f)) (hs_nodes s))"

definition max_u64 :: "u64 list \<Rightarrow> u64" where
  "max_u64 ds = foldl max 0 ds"

definition mean_u64 :: "u64 list \<Rightarrow> u64" where
  "mean_u64 ds = (if ds = [] then 0 else foldl (+) 0 ds div of_nat (length ds))"

definition solver_step :: "holonomy_solver \<Rightarrow> holonomy_solver \<times> solve_result" where
  "solver_step s =
     (let defects = all_defects s;
          nodes' = map (\<lambda>(n, f). (n, move_offset f (correction (hs_damping s) (edge_errors s n f)))) (hs_nodes s);
          it = hs_iteration s + 1;
          max_defect = max_u64 defects
      in (s\<lparr>hs_nodes := nodes', hs_iteration := it\<rparr>,
          \<lparr>sr_iterations = it, max_defect_nanos = max_defect, mean_defect_nanos = mean_u64 defects,
           sr_converged = (max_defect < 1000)\<rparr>))"

fun expansion_loop :: "nat \<Rightarrow> holonomy_solver \<Rightarrow>
    (solve_result \<times> (node_id, chiral_frame) hashmap) option \<Rightarrow>
    holonomy_solver \<times> (solve_result \<times> (node_id, chiral_frame) hashmap) option" where
  "expansion_loop 0 s best = (s, best)"
| "expansion_loop (Suc k) s best =
     (case solver_step s of (s', result) \<Rightarrow>
        let is_better = (case best of None \<Rightarrow> True | Some (b, _) \<Rightarrow> max_defect_nanos result < max_defect_nanos b)
        in expansion_loop k (s'\<lparr>hs_nodes := hs_nodes s\<rparr>)
             (if is_better then Some (result, hs_nodes s') else best))"

definition step_spatial_expansion :: "nat \<Rightarrow> holonomy_solver \<Rightarrow> holonomy_solver \<times> solve_result" where
  "step_spatial_expansion attempts s =
     (case expansion_loop attempts s None of
        (s', Some (result, best)) \<Rightarrow> (s'\<lparr>hs_nodes := best, hs_iteration := hs_iteration s' + 1\<rparr>, result)
      | (s', None) \<Rightarrow> (s', \<lparr>sr_iterations = hs_iteration s', max_defect_nanos = - 1,
                            mean_defect_nanos = - 1, sr_converged = False\<rparr>))"

fun solve_loop :: "nat \<Rightarrow> u64 \<Rightarrow> holonomy_solver \<Rightarrow> solve_result \<Rightarrow> holonomy_solver \<times> solve_result" where
  "solve_loop 0 tol s result = (s, result)"
| "solve_loop (Suc k) tol s result =
     (case solver_step s of (s', r) \<Rightarrow>
        if max_defect_nanos r \<le> tol then (s', r\<lparr>sr_converged := True\<rparr>)
        else solve_loop k tol s' r)"

definition solve :: "u32 \<Rightarrow> u64 \<Rightarrow> holonomy_solver \<Rightarrow> holonomy_solver \<times> solve_result" where
  "solve max_iterations tol s = solve_loop (unat max_iterations) tol s
     \<lparr>sr_iterations = 0, max_defect_nanos = - 1, mean_defect_nanos = - 1, sr_converged = False\<rparr>"

definition is_defective :: "u64 \<Rightarrow> holonomy_solver \<Rightarrow> node_id \<times> chiral_frame \<Rightarrow> bool" where
  "is_defective threshold s nf = (case nf of (n, f) \<Rightarrow>
     if length (lut_neighbors (hs_lut s) n) < 2 then False
     else let es = edge_errors s n f;
              total_defect = foldl (\<lambda>t (e, q). t + unsigned_abs_i64 e) 0 es;
              cnt = (of_nat (length es) :: u32)
          in cnt > 0 \<and> total_defect div ucast cnt > threshold)"

definition detect_defective_nodes :: "u64 \<Rightarrow> holonomy_solver \<Rightarrow> node_id list" where
  "detect_defective_nodes threshold s = map fst (filter (is_defective threshold s) (hs_nodes s))"

section \<open>Consistent measurements\<close>

text \<open>
  A potential \<open>c\<close> explains the table when every edge, read in its stored direction, is a potential
  difference; the spread of the nodes is then how far each offset is from its potential.
\<close>

definition explains :: "(node_id \<Rightarrow> int) \<Rightarrow> holonomy_solver \<Rightarrow> bool" where
  "explains c s \<longleftrightarrow> (\<forall>((a, b), tws) \<in> set (hs_lut s). \<forall>tw \<in> set tws.
     tw_offset_nanos tw = c b - c a \<and> quality tw = 100)"

definition near :: "(node_id \<Rightarrow> int) \<Rightarrow> int \<Rightarrow> (node_id, chiral_frame) hashmap \<Rightarrow> bool" where
  "near c E nodes \<longleftrightarrow> (\<forall>(n, f) \<in> set nodes. \<bar>cf_offset_nanos f - c n\<bar> \<le> E)"

lemma latest_in_lut:
  assumes "lut_latest lut a b = Some tw"
  shows "\<exists>tws. (edge_key a b, tws) \<in> set lut \<and> tw \<in> set tws"
  using assms unfolding lut_latest_def lut_get_def last_opt_def
  by (auto split: option.splits if_splits bind_splits dest!: map_of_SomeD)

lemma explains_latest:
  assumes "explains c s" "lut_latest (hs_lut s) n nb = Some tw"
  shows "quality tw = 100" "tw_offset_nanos tw = (if n < nb then c nb - c n else c n - c nb)"
  using latest_in_lut [OF assms(2)] assms(1) unfolding explains_def edge_key_def by (auto split: if_splits)

text \<open>No saturation takes place when the potentials and offsets are below \<open>2^60\<close>.\<close>

definition tame :: "(node_id \<Rightarrow> int) \<Rightarrow> bool" where
  "tame c \<longleftrightarrow> (\<forall>n. \<bar>c n\<bar> < 2 ^ 60)"

lemma is_i64_61: "\<bar>x\<bar> < 2 ^ 63 \<Longrightarrow> is_i64 x"
  by (simp add: i64_defs abs_less_iff)

lemma edge_error_value:
  assumes "explains c s" "tame c" "lut_latest (hs_lut s) n nb = Some tw"
    and "\<bar>cf_offset_nanos f\<bar> < 2 ^ 61" "\<bar>cf_offset_nanos g\<bar> < 2 ^ 61"
  shows "saturating_sub_i64 (expected_offset n nb g tw) (cf_offset_nanos f) =
    (cf_offset_nanos g - c nb) - (cf_offset_nanos f - c n)"
proof -
  note tw = explains_latest(2) [OF assms(1,3)]
  have c: "\<bar>c n\<bar> < 2 ^ 60" "\<bar>c nb\<bar> < 2 ^ 60" using assms(2) by (simp_all add: tame_def)
  have x: "expected_offset n nb g tw = cf_offset_nanos g + c n - c nb"
  proof (cases "nb < n")
    case True
    have "is_i64 (cf_offset_nanos g + (c n - c nb))"
      using c assms(5) by (intro is_i64_61) (simp add: abs_less_iff)
    with True show ?thesis
      by (simp add: expected_offset_def tw saturating_add_i64_def less_not_sym [OF True])
  next
    case False
    have d: "tw_offset_nanos tw = c nb - c n" using tw False by (cases "n < nb") auto
    have "is_i64 (cf_offset_nanos g - (c nb - c n))"
      using c assms(5) by (intro is_i64_61) (simp add: abs_less_iff)
    with False show ?thesis by (simp add: expected_offset_def d saturating_sub_i64_def)
  qed
  have "is_i64 (cf_offset_nanos g + c n - c nb - cf_offset_nanos f)"
    using c assms(4,5) by (intro is_i64_61) (simp add: abs_less_iff)
  then show ?thesis unfolding x saturating_sub_i64_def by simp
qed

definition resolvable :: "int \<Rightarrow> holonomy_solver \<Rightarrow> bool" where
  "resolvable E s \<longleftrightarrow> 0 \<le> E \<and> E \<le> 2 ^ 52 \<and> (2 * E + 1) * int (length (hs_lut s)) \<le> 2 ^ 53"

lemma near_offset_bound:
  assumes "tame c" "near c E nodes" "E \<le> 2 ^ 52" "(n, f) \<in> set nodes"
  shows "\<bar>cf_offset_nanos f\<bar> < 2 ^ 61"
proof -
  have "\<bar>c n\<bar> < 2 ^ 60" "\<bar>cf_offset_nanos f - c n\<bar> \<le> 2 ^ 52"
    using assms by (auto simp: tame_def near_def)
  then show ?thesis by simp
qed

lemma edge_errors_cases:
  assumes "(e, q) \<in> set (edge_errors s n f)"
  obtains nb tw g where "lut_latest (hs_lut s) n nb = Some tw" "(nb, g) \<in> set (hs_nodes s)"
    "e = saturating_sub_i64 (expected_offset n nb g tw) (cf_offset_nanos f)" "q = quality tw"
proof -
  from assms obtain nb where "(case lut_latest (hs_lut s) n nb of None \<Rightarrow> None | Some tw \<Rightarrow>
     case hm_get (hs_nodes s) nb of None \<Rightarrow> None | Some g \<Rightarrow>
       Some (saturating_sub_i64 (expected_offset n nb g tw) (cf_offset_nanos f), quality tw)) = Some (e, q)"
    unfolding edge_errors_def map_filter_mem by blast
  then show thesis
    using that map_of_SomeD [of "hs_nodes s" nb]
    by (cases "lut_latest (hs_lut s) n nb"; cases "hm_get (hs_nodes s) nb") auto
qed

lemma edge_errors_near:
  assumes "explains c s" "tame c" "near c E (hs_nodes s)" "resolvable E s" "(n, f) \<in> set (hs_nodes s)"
    and "(e, q) \<in> set (edge_errors s n f)"
  shows "q = 100" "- E - (cf_offset_nanos f - c n) \<le> e" "e \<le> E - (cf_offset_nanos f - c n)"
proof -
  from assms(6) obtain nb tw g where nb: "lut_latest (hs_lut s) n nb = Some tw" "(nb, g) \<in> set (hs_nodes s)"
    "e = saturating_sub_i64 (expected_offset n nb g tw) (cf_offset_nanos f)" "q = quality tw"
    by (rule edge_errors_cases)
  have E: "E \<le> 2 ^ 52" using assms(4) by (simp add: resolvable_def)
  have "e = (cf_offset_nanos g - c nb) - (cf_offset_nanos f - c n)"
    unfolding nb(3) using assms(1,2) nb(1)
    by (rule edge_error_value) (use near_offset_bound [OF assms(2,3) E] assms(5) nb(2) in auto)
  moreover have "\<bar>cf_offset_nanos g - c nb\<bar> \<le> E" using assms(3) nb(2) by (auto simp: near_def)
  ultimately show "- E - (cf_offset_nanos f - c n) \<le> e" "e \<le> E - (cf_offset_nanos f - c n)" by linarith+
  show "q = 100" using explains_latest(1) [OF assms(1) nb(1)] nb(4) by simp
qed

lemma length_edge_errors: "length (edge_errors s n f) \<le> length (hs_lut s)"
proof -
  have "length (edge_errors s n f) \<le> length (lut_neighbors (hs_lut s) n)"
    unfolding edge_errors_def by (rule length_map_filter)
  also have "\<dots> \<le> length (map fst (hs_lut s))" unfolding lut_neighbors_def by (rule length_map_filter)
  finally show ?thesis by simp
qed

section \<open>The correction of one node\<close>

lemma weight_of_100: "weight_of 100 = Fin 1"
proof -
  have "of_u32 100 = Fin (of_int 100)" using rnd_of_int [of 100] by (simp add: of_u32_def)
  moreover have "rnd 1 = Fin 1" using rnd_of_int [of 1] by simp
  ultimately show ?thesis by (simp add: weight_of_def fdiv_def is_inf_def is_zero_def)
qed

lemma weigh_100: "\<bar>e\<bar> \<le> 2 ^ 53 \<Longrightarrow> f64_as_i64 (fmul (of_i64 e) (weight_of 100)) = e"
proof (cases "e = 0")
  case False
  assume "\<bar>e\<bar> \<le> 2 ^ 53"
  with False have "fmul (of_i64 e) (weight_of 100) = of_i64 e"
    by (simp add: weight_of_100 of_i64_def rnd_of_int fmul_def is_zero_def is_inf_def)
  then show ?thesis using \<open>\<bar>e\<bar> \<le> 2 ^ 53\<close> by (simp add: f64_as_i64_of_i64)
qed (simp add: weight_of_100 of_i64_def f64_as_i64_zero fmul_def is_zero_def)

lemma weight_sum_100:
  assumes "\<And>e q. (e, q) \<in> set es \<Longrightarrow> q = 100" "length es \<le> 2 ^ 53"
  shows "weight_sum es = Fin (of_nat (length es))"
proof -
  have "foldl (\<lambda>w (e, q). fadd w (weight_of q)) (Fin (of_int a)) es = Fin (of_int (a + int (length es)))"
    if "0 \<le> a" "a + int (length es) \<le> 2 ^ 53" for a
    using that assms(1)
  proof (induction es arbitrary: a)
    case (Cons x es)
    obtain e where x: "x = (e, 100)" using Cons.prems(3) [of "fst x" "snd x"] by (cases x) simp
    have IH: "\<And>e q. (e, q) \<in> set es \<Longrightarrow> q = 100" using Cons.prems(3) by (meson list.set_intros(2))
    have "rnd (of_int (a + 1)) = Fin (of_int (a + 1))" using Cons.prems(1,2) by (intro rnd_of_int) simp
    then have "fadd (Fin (of_int a)) (Fin 1) = Fin (of_int (a + 1))"
      using Cons.prems(1) by (simp add: fadd_def is_inf_def is_zero_def)
    moreover have "0 \<le> a + 1" "a + 1 + int (length es) \<le> 2 ^ 53" using Cons.prems(1,2) by simp_all
    ultimately show ?case using Cons.IH [OF _ _ IH, of "a + 1"] by (simp add: x weight_of_100 add.assoc)
  qed simp
  from this [of 0] show ?thesis using assms(2) by (simp add: weight_sum_def)
qed

lemma correction_sum_100:
  assumes "\<And>e q. (e, q) \<in> set es \<Longrightarrow> q = 100 \<and> \<bar>e\<bar> \<le> B" "0 \<le> B" "B * int (length es) \<le> 2 ^ 53" "B \<le> 2 ^ 53"
  shows "correction_sum es = (\<Sum>(e, q)\<leftarrow>es. e)"
proof -
  have "foldl (\<lambda>c (e, q). saturating_add_i64 c (f64_as_i64 (fmul (of_i64 e) (weight_of q)))) a es =
      a + (\<Sum>(e, q)\<leftarrow>es. e)"
    if "\<bar>a\<bar> + B * int (length es) \<le> 2 ^ 53" for a
    using that assms(1)
  proof (induction es arbitrary: a)
    case (Cons x es)
    obtain e where x: "x = (e, 100)" "\<bar>e\<bar> \<le> B"
      using Cons.prems(2) [of "fst x" "snd x"] by (cases x) simp
    have IH: "\<And>e q. (e, q) \<in> set es \<Longrightarrow> q = 100 \<and> \<bar>e\<bar> \<le> B" using Cons.prems(2) by (meson list.set_intros(2))
    have l: "B * int (length (x # es)) = B + B * int (length es)" by (simp add: distrib_left)
    have a: "\<bar>a + e\<bar> + B * int (length es) \<le> 2 ^ 53" using Cons.prems(1) x(2) l by linarith
    have "0 \<le> B * int (length es)" using assms(2) by simp
    then have "\<bar>a + e\<bar> \<le> 2 ^ 53" using a by linarith
    then have "is_i64 (a + e)" by (intro is_i64_61) (auto simp: abs_less_iff)
    moreover have "\<bar>e\<bar> \<le> 2 ^ 53" using x(2) assms(4) by linarith
    ultimately show ?case using Cons.IH [OF a IH]
      by (simp add: x(1) weigh_100 saturating_add_i64_def)
  qed simp
  from this [of 0] show ?thesis using assms(3) by (simp add: correction_sum_def)
qed

lemma sum_list_between:
  assumes "\<And>e q. (e, q) \<in> set es \<Longrightarrow> lo \<le> e \<and> e \<le> (hi :: int)"
  shows "lo * int (length es) \<le> (\<Sum>(e, q)\<leftarrow>es. e) \<and> (\<Sum>(e, q)\<leftarrow>es. e) \<le> hi * int (length es)"
  using assms by (induction es) (fastforce simp: distrib_left)+

definition damping_ok :: "f64 \<Rightarrow> bool" where
  "damping_ok d \<longleftrightarrow> is_f64 d \<and> is_finite d \<and> 0 \<le> nval d \<and> nval d \<le> 1"

lemma damped_between:
  assumes "damping_ok d" "is_f64 x" "is_finite x" "lo \<le> 0" "0 \<le> hi" "\<bar>lo\<bar> \<le> 2 ^ 53" "\<bar>hi\<bar> \<le> 2 ^ 53"
    "of_int lo \<le> nval x" "nval x \<le> of_int hi"
  shows "lo \<le> f64_as_i64 (fmul x d) \<and> f64_as_i64 (fmul x d) \<le> hi"
proof -
  have d: "is_finite d" "0 \<le> nval d" "nval d \<le> 1" using assms(1) by (simp_all add: damping_ok_def)
  have v: "nval (fmul x d) = nclamp (rr (nval x * nval d))" using assms(3) d(1) by (rule nval_fmul)
  have p: "of_int lo \<le> nval x * nval d \<and> nval x * nval d \<le> of_int hi"
  proof (cases "0 \<le> nval x")
    case True
    then have "0 \<le> nval x * nval d" "nval x * nval d \<le> nval x" using d by (simp_all add: mult_left_le)
    moreover have "(of_int lo :: rat) \<le> 0" using assms(4) by simp
    ultimately show ?thesis using assms(9) by linarith
  next
    case False
    then have "nval x * nval d \<le> 0" "nval x \<le> nval x * nval d"
      using d by (simp_all add: mult_nonpos_nonneg mult_le_cancel_left1)
    moreover have "(0 :: rat) \<le> of_int hi" using assms(5) by simp
    ultimately show ?thesis using assms(8) by linarith
  qed
  have "nval (fmul x d) \<le> nval (Fin (of_int hi))" "nval (Fin (of_int lo)) \<le> nval (fmul x d)"
    unfolding v using p assms(6,7) by (intro rnd_le rnd_ge; simp)+
  then have "f64_as_i64 (fmul x d) \<le> f64_as_i64 (Fin (of_int hi))" "f64_as_i64 (Fin (of_int lo)) \<le> f64_as_i64 (fmul x d)"
    by (simp_all only: f64_as_i64_mono)
  moreover have "is_i64 lo" "is_i64 hi" using assms(6,7) by (auto intro!: is_i64_61)
  ultimately show ?thesis by (simp add: f64_as_i64_def)
qed

lemma correction_between:
  assumes es: "\<And>e q. (e, q) \<in> set es \<Longrightarrow> q = 100 \<and> lo \<le> e \<and> e \<le> hi"
    and "damping_ok d" "lo \<le> 0" "0 \<le> hi" "(hi - lo + 1) * int (length es) \<le> 2 ^ 53" "hi - lo \<le> 2 ^ 53"
    and c: "correction d es = Some k"
  shows "lo \<le> k \<and> k \<le> hi"
proof -
  let ?n = "int (length es)" and ?S = "\<Sum>(e, q)\<leftarrow>es. e"
  have n: "?n \<le> 2 ^ 53" "(hi - lo) * ?n \<le> 2 ^ 53"
  proof -
    have "0 \<le> (hi - lo) * ?n" "(hi - lo + 1) * ?n = (hi - lo) * ?n + ?n"
      using assms(3,4) by (simp_all add: distrib_right)
    then show "?n \<le> 2 ^ 53" "(hi - lo) * ?n \<le> 2 ^ 53" using assms(5) by linarith+
  qed
  have w: "weight_sum es = Fin (of_nat (length es))" using es n(1) by (intro weight_sum_100) auto
  have cs: "correction_sum es = ?S"
    using es assms(3,4,6) n(2) by (intro correction_sum_100 [where B = "hi - lo"]) fastforce+
  note b = sum_list_between [of es lo hi]
  have "es \<noteq> []" using c w by (auto simp: correction_def flt_def Let_def split: if_splits)
  then have pos: "0 < ?n" by simp
  have "lo * ?n \<le> ?S" "?S \<le> hi * ?n" using b es by auto
  moreover have "- (hi - lo) * ?n \<le> lo * ?n" "hi * ?n \<le> (hi - lo) * ?n"
    using assms(3,4) by (intro mult_right_mono; simp)+
  ultimately have S: "\<bar>?S\<bar> \<le> 2 ^ 53" "of_int lo * of_int ?n \<le> (of_int ?S :: rat)" "(of_int ?S :: rat) \<le> of_int hi * of_int ?n"
    using n(2) unfolding abs_le_iff of_int_mult [symmetric] of_int_le_iff by linarith+
  have rat: "of_int lo \<le> (of_int ?S / of_int ?n :: rat)" "(of_int ?S / of_int ?n :: rat) \<le> of_int hi"
    using S pos by (simp_all add: pos_le_divide_eq pos_divide_le_eq)
  have bd: "\<bar>lo\<bar> \<le> 2 ^ 53" "\<bar>hi\<bar> \<le> 2 ^ 53" using assms(3,4,6) by auto
  let ?x = "fdiv (of_i64 (correction_sum es)) (weight_sum es)"
  have v: "nval ?x = nclamp (rr (of_int ?S / of_int ?n))" "\<not> is_nan ?x"
    using pos by (simp_all add: cs w of_i64_def rnd_of_int [OF S(1)] nval_fdiv nan_fdiv)
  have lo: "of_int lo \<le> nval ?x" and hi: "nval ?x \<le> of_int hi"
    using rnd_ge [of "Fin (of_int lo)"] rnd_le [of "Fin (of_int hi)"] bd rat unfolding v by auto
  have fin: "is_finite ?x"
    by (rule finite_between [of _ "Fin (of_int lo)" "Fin (of_int hi)"]) (use bd lo hi v in simp_all)
  have "k = f64_as_i64 (fmul ?x d)" using c by (auto simp: correction_def Let_def split: if_splits)
  then show ?thesis using damped_between [OF assms(2) _ fin assms(3,4) bd lo hi] by simp
qed

section \<open>One step\<close>

lemma solver_step_frame [simp]:
  "hs_lut (fst (solver_step s)) = hs_lut s" "hs_damping (fst (solver_step s)) = hs_damping s"
  "hs_iteration (fst (solver_step s)) = hs_iteration s + 1"
  "map fst (hs_nodes (fst (solver_step s))) = map fst (hs_nodes s)"
  by (simp_all add: solver_step_def Let_def comp_def case_prod_unfold)

lemma step_near:
  assumes "explains c s" "tame c" "near c E (hs_nodes s)" "resolvable E s" "damping_ok (hs_damping s)"
  shows "near c E (hs_nodes (fst (solver_step s)))"
proof -
  have "\<bar>cf_offset_nanos (move_offset f (correction (hs_damping s) (edge_errors s n f))) - c n\<bar> \<le> E"
    if nf: "(n, f) \<in> set (hs_nodes s)" for n f
  proof (cases "correction (hs_damping s) (edge_errors s n f)")
    case None
    then show ?thesis using assms(3) nf by (auto simp: near_def move_offset_def)
  next
    case (Some k)
    let ?d = "cf_offset_nanos f - c n" and ?es = "edge_errors s n f"
    have d: "\<bar>?d\<bar> \<le> E" using assms(3) nf by (auto simp: near_def)
    have E: "0 \<le> E" "E \<le> 2 ^ 52" "(2 * E + 1) * int (length (hs_lut s)) \<le> 2 ^ 53"
      using assms(4) by (simp_all add: resolvable_def)
    have "(2 * E + 1) * int (length ?es) \<le> (2 * E + 1) * int (length (hs_lut s))"
      using E(1) length_edge_errors [of s n f] by (intro mult_left_mono) simp_all
    then have len: "((E - ?d) - (- E - ?d) + 1) * int (length ?es) \<le> 2 ^ 53" using E(3) by simp
    have lo: "- E - ?d \<le> 0" and hi: "0 \<le> E - ?d" using d by linarith+
    have "- E - ?d \<le> k \<and> k \<le> E - ?d"
      by (rule correction_between [OF _ assms(5) lo hi len _ Some])
        (use edge_errors_near [OF assms(1-4) nf] E in \<open>blast, simp\<close>)
    moreover have "\<bar>c n\<bar> < 2 ^ 60" using assms(2) by (simp add: tame_def)
    ultimately have k: "\<bar>cf_offset_nanos f + k - c n\<bar> \<le> E" "is_i64 (cf_offset_nanos f + k)"
      using E(2) by (auto simp: i64_defs abs_le_iff abs_less_iff)
    then show ?thesis using Some by (simp add: move_offset_def saturating_add_i64_def)
  qed
  then show ?thesis by (auto simp: near_def solver_step_def Let_def)
qed

lemma max_u64_le: "(\<forall>d \<in> set ds. d \<le> b) \<Longrightarrow> max_u64 ds \<le> b"
proof -
  have "(\<forall>d \<in> set ds. d \<le> b) \<Longrightarrow> a \<le> b \<Longrightarrow> foldl max a ds \<le> b" for a
    by (induction ds arbitrary: a) auto
  then show "(\<forall>d \<in> set ds. d \<le> b) \<Longrightarrow> max_u64 ds \<le> b" by (simp add: max_u64_def)
qed

lemma unsigned_abs_le:
  assumes "\<bar>e\<bar> \<le> B" "B < 2 ^ 63" shows "unsigned_abs_i64 e \<le> word_of_int B"
proof -
  have i: "is_i64 e" using assms by (intro is_i64_61) linarith
  have "uint (word_of_int B :: u64) = B"
    using assms by (simp add: uint_word_of_int mod_pos_pos_trivial)
  then show ?thesis using assms(1) by (simp add: word_le_def uint_unsigned_abs [OF i])
qed

lemma step_max_defect:
  assumes "explains c s" "tame c" "near c E (hs_nodes s)" "resolvable E s"
  shows "max_defect_nanos (snd (solver_step s)) \<le> word_of_int (2 * E)"
proof -
  have "unsigned_abs_i64 e \<le> word_of_int (2 * E)"
    if nf: "(n, f) \<in> set (hs_nodes s)" and e: "(e, q) \<in> set (edge_errors s n f)" for n f e q
  proof (rule unsigned_abs_le)
    have "\<bar>cf_offset_nanos f - c n\<bar> \<le> E" using assms(3) nf by (auto simp: near_def)
    then show "\<bar>e\<bar> \<le> 2 * E" using edge_errors_near(2,3) [OF assms nf e] by linarith
    show "2 * E < 2 ^ 63" using assms(4) by (simp add: resolvable_def)
  qed
  then have "\<forall>d \<in> set (all_defects s). d \<le> word_of_int (2 * E)" by (auto simp: all_defects_def)
  then show ?thesis by (simp add: solver_step_def Let_def max_u64_le)
qed

lemma damping_ok_new: "damping_ok (flit (3 / 10))"
proof -
  have "nval (Fin 0) \<le> nclamp (rr (3 / 10))" by (rule rnd_ge) simp_all
  moreover have "nclamp (rr (3 / 10)) \<le> nval (Fin 1)" by (rule rnd_le) simp_all
  moreover have "is_finite (rnd (3 / 10))" by (rule finite_of_small) simp
  ultimately show ?thesis by (simp add: damping_ok_def nval_rnd)
qed

lemma solver_step_consistent:
  assumes "explains c s" "tame c" "near c 0 (hs_nodes s)" "resolvable 0 s" "damping_ok (hs_damping s)"
  shows "hs_nodes (fst (solver_step s)) = hs_nodes s" "max_defect_nanos (snd (solver_step s)) = 0"
proof -
  have "max_defect_nanos (snd (solver_step s)) \<le> 0" using step_max_defect [OF assms(1-4)] by simp
  then show "max_defect_nanos (snd (solver_step s)) = 0" by simp
  have *: "move_offset f (correction (hs_damping s) (edge_errors s n f)) = f"
    if nf: "(n, f) \<in> set (hs_nodes s)" for n f
  proof -
    let ?f' = "move_offset f (correction (hs_damping s) (edge_errors s n f))"
    have "(n, ?f') \<in> set (hs_nodes (fst (solver_step s)))"
      using nf by (force simp: solver_step_def Let_def)
    then have "cf_offset_nanos ?f' = c n" using step_near [OF assms] by (auto simp: near_def)
    moreover have "cf_offset_nanos f = c n" using assms(3) nf by (auto simp: near_def)
    ultimately show ?thesis by (auto simp: move_offset_def split: option.splits)
  qed
  then show "hs_nodes (fst (solver_step s)) = hs_nodes s"
    by (auto simp: solver_step_def Let_def intro!: map_idI)
qed

section \<open>Properties\<close>


definition w_solver :: "int \<Rightarrow> int \<Rightarrow> int \<Rightarrow> holonomy_solver" where
  "w_solver x y z = \<lparr>hs_nodes = [(w_a, chiral_frame_new x 0 100), (w_b, chiral_frame_new y 0 100),
     (w_c, chiral_frame_new z 0 100)],
     hs_lut = [((w_a, w_b), [w_twist 1000000]), ((w_b, w_c), [w_twist 2000000])],
     hs_iteration = 0, hs_damping = flit (3 / 10)\<rparr>"

definition w_potential :: "node_id \<Rightarrow> int" where
  "w_potential n = (if n = w_b then 1000000 else if n = w_c then 3000000 else 0)"

lemma w_solver_ok: "explains w_potential (w_solver x y z)" "tame w_potential"
  "damping_ok (hs_damping (w_solver x y z))"
  using damping_ok_new by (simp_all add: explains_def w_solver_def w_potential_def tame_def w_twist_def)


text \<open>
  A consistent network is a fixed point, found at once. When every offset equals its potential,
  \<open>solve\<close> with any tolerance stops after one iteration, reports convergence with zero defect, and
  changes no frame; and \<open>detect_defective_nodes\<close> accuses nobody.
\<close>

theorem solve_consistent:
  assumes "explains c s" "tame c" "near c 0 (hs_nodes s)" "resolvable 0 s" "damping_ok (hs_damping s)" "0 < n"
  shows "fst (solve n tol s) = s\<lparr>hs_iteration := hs_iteration s + 1\<rparr> \<and>
    sr_converged (snd (solve n tol s)) \<and> max_defect_nanos (snd (solve n tol s)) = 0 \<and>
    sr_iterations (snd (solve n tol s)) = hs_iteration s + 1 \<and> detect_defective_nodes threshold s = []"
proof -
  obtain k where k: "unat n = Suc k" using assms(6) by (cases "unat n") (auto simp: word_less_nat_alt)
  obtain s' r where s': "solver_step s = (s', r)" by fastforce
  have r: "hs_nodes s' = hs_nodes s" "max_defect_nanos r = 0"
    using solver_step_consistent [OF assms(1-5)] s' by simp_all
  have "s' = s\<lparr>hs_nodes := hs_nodes s', hs_iteration := hs_iteration s + 1\<rparr>" "sr_iterations r = hs_iteration s + 1"
    using s' by (auto simp: solver_step_def Let_def)
  then have s: "s' = s\<lparr>hs_iteration := hs_iteration s + 1\<rparr>" "sr_iterations r = hs_iteration s + 1" by (simp_all add: r(1))
  have zero: "e = 0" if "(n, f) \<in> set (hs_nodes s)" "(e, q) \<in> set (edge_errors s n f)" for n f e q
    using edge_errors_near(2,3) [OF assms(1-4) that] assms(3) that(1) by (fastforce simp: near_def)
  have tot: "foldl (\<lambda>t (e, q). t + unsigned_abs_i64 e) 0 es = 0"
    if "\<forall>x \<in> set es. fst x = 0" for es :: "(i64 \<times> u32) list"
    using that by (induction es) (auto simp: unsigned_abs_i64_def)
  have "\<not> is_defective threshold s (n, f)" if "(n, f) \<in> set (hs_nodes s)" for n f
  proof -
    have "\<forall>x \<in> set (edge_errors s n f). fst x = 0" using zero [OF that] by auto
    from tot [OF this] show ?thesis by (simp add: is_defective_def Let_def)
  qed
  then have "detect_defective_nodes threshold s = []"
    by (auto simp: detect_defective_nodes_def filter_empty_conv)
  with k s' r s show ?thesis by (simp add: solve_def)
qed

theorem solve_consistent_witness:
  "fst (solve 500 0 (w_solver 0 1000000 3000000)) = (w_solver 0 1000000 3000000)\<lparr>hs_iteration := 1\<rparr>"
  using solve_consistent [OF w_solver_ok(1,2) _ _ w_solver_ok(3), of 0 1000000 3000000 500 0]
  by (simp add: near_def resolvable_def w_solver_def w_potential_def chiral_frame_new_def)

text \<open>
  Spatial expansion is one step. However many attempts it is given, \<open>step_spatial_expansion\<close>
  keeps the nodes and the result of a single \<open>step\<close>: every attempt starts from the same saved nodes,
  so none can be better than the first; only the iteration counter tells the attempts apart.
\<close>

theorem spatial_expansion_is_step:
  "hs_nodes (fst (step_spatial_expansion (Suc k) s)) = hs_nodes (fst (solver_step s)) \<and>
   snd (step_spatial_expansion (Suc k) s) = snd (solver_step s) \<and>
   hs_iteration (fst (step_spatial_expansion (Suc k) s)) = hs_iteration s + of_nat k + 2"
proof -
  obtain s1 r1 where s1: "solver_step s = (s1, r1)" by fastforce
  have loop: "\<exists>s2. expansion_loop j t (Some (r1, hs_nodes s1)) = (s2, Some (r1, hs_nodes s1)) \<and>
      hs_iteration s2 = hs_iteration t + of_nat j"
    if "hs_nodes t = hs_nodes s" "hs_lut t = hs_lut s" "hs_damping t = hs_damping s" for j t
    using that
  proof (induction j arbitrary: t)
    case (Suc j)
    obtain t' r where t': "solver_step t = (t', r)" by fastforce
    have "all_defects t = all_defects s" unfolding all_defects_def edge_errors_def Suc.prems ..
    then have "max_defect_nanos r = max_defect_nanos r1" using t' s1 by (auto simp: solver_step_def Let_def)
    then have e: "expansion_loop (Suc j) t (Some (r1, hs_nodes s1)) =
        expansion_loop j (t'\<lparr>hs_nodes := hs_nodes t\<rparr>) (Some (r1, hs_nodes s1))"
      by (simp add: t')
    have "hs_lut t' = hs_lut s" "hs_damping t' = hs_damping s" "hs_iteration t' = hs_iteration t + 1"
      using solver_step_frame [of t] t' Suc.prems by simp_all
    then show ?case using Suc.IH [of "t'\<lparr>hs_nodes := hs_nodes t\<rparr>"] Suc.prems(1) e by (auto simp: add.assoc)
  qed simp
  have f: "hs_lut s1 = hs_lut s" "hs_damping s1 = hs_damping s" "hs_iteration s1 = hs_iteration s + 1"
    using solver_step_frame [of s] s1 by simp_all
  obtain s2 where "expansion_loop k (s1\<lparr>hs_nodes := hs_nodes s\<rparr>) (Some (r1, hs_nodes s1)) =
      (s2, Some (r1, hs_nodes s1))" "hs_iteration s2 = hs_iteration s1 + of_nat k"
    using loop [of "s1\<lparr>hs_nodes := hs_nodes s\<rparr>" k] f by auto
  then show ?thesis using s1 f by (simp add: step_spatial_expansion_def)
qed

end
