(* ===== verification/Kalman.thy ===== *)
theory Kalman
  imports Types
begin

text \<open>
  \<open>rtfsn-core/src/sync/kalman.rs\<close>: the two-state clock filter, in floating point as written. The
  covariance is the triple \<open>p00, p01, p11\<close>.
\<close>

record clock_kalman =
  kx0 :: f64
  kx1 :: f64
  kp00 :: f64
  kp01 :: f64
  kp11 :: f64
  kq_offset :: f64
  kq_drift :: f64

definition kalman_new :: clock_kalman where
  "kalman_new = \<lparr>kx0 = Fin 0, kx1 = Fin 0, kp00 = Fin 1, kp01 = Fin 0, kp11 = flit (1 / 10 ^ 6),
     kq_offset = flit (1 / 10 ^ 8), kq_drift = flit (1 / 10 ^ 12)\<rparr>"

definition kalman_offset :: "clock_kalman \<Rightarrow> f64" where "kalman_offset k = kx0 k"
definition kalman_drift_rate :: "clock_kalman \<Rightarrow> f64" where "kalman_drift_rate k = kx1 k"
definition kalman_uncertainty :: "clock_kalman \<Rightarrow> f64" where "kalman_uncertainty k = fsqrt (kp00 k)"

definition kalman_predict :: "f64 \<Rightarrow> clock_kalman \<Rightarrow> clock_kalman" where
  "kalman_predict dt k = k\<lparr>
     kx0 := fadd (kx0 k) (fmul (kx1 k) dt),
     kp00 := fadd (fadd (fadd (kp00 k) (fmul (fmul (Fin 2) dt) (kp01 k))) (fmul (fmul dt dt) (kp11 k)))
                  (fmul (kq_offset k) dt),
     kp01 := fadd (kp01 k) (fmul dt (kp11 k)),
     kp11 := fadd (kp11 k) (fmul (kq_drift k) dt)\<rparr>"

definition kalman_update :: "f64 \<Rightarrow> f64 \<Rightarrow> clock_kalman \<Rightarrow> clock_kalman" where
  "kalman_update z r k =
     (let innovation = fsub z (kx0 k); s = fadd (kp00 k) r
      in if flt (fabs s) (flit (1 / 10 ^ 30)) then k
         else let k0 = fdiv (kp00 k) s; k1 = fdiv (kp01 k) s
           in k\<lparr>kx0 := fadd (kx0 k) (fmul k0 innovation),
                kx1 := fadd (kx1 k) (fmul k1 innovation),
                kp00 := fmul (fsub (Fin 1) k0) (kp00 k),
                kp01 := fmul (fsub (Fin 1) k0) (kp01 k),
                kp11 := fsub (kp11 k) (fmul k1 (kp01 k))\<rparr>)"

definition kalman_step :: "f64 \<Rightarrow> f64 \<Rightarrow> f64 \<Rightarrow> clock_kalman \<Rightarrow> clock_kalman" where
  "kalman_step dt z r k = kalman_update z r (kalman_predict dt k)"

section \<open>Properties\<close>

text \<open>
  (C35) A measurement never makes the filter less certain. For a finite variance and measurement noise
  at or above zero whose sum does not overflow, the rounded gain lies in the unit interval, so after
  \<open>update\<close> the offset variance is again a finite number at or above zero and at most what it was, the
  cross term keeps its sign and does not grow, and \<open>uncertainty\<close> is a number.
\<close>

theorem kalman_update_contracts:
  assumes "nonneg (kp00 k)" "nonneg r" "is_finite (fadd (kp00 k) r)" "nonneg (kp01 k)"
  shows "nonneg (kp00 (kalman_update z r k)) \<and> nval (kp00 (kalman_update z r k)) \<le> nval (kp00 k) \<and>
    nonneg (kp01 (kalman_update z r k)) \<and> nval (kp01 (kalman_update z r k)) \<le> nval (kp01 k) \<and>
    is_finite (kalman_uncertainty (kalman_update z r k))"
proof -
  have "nonneg (kp00 (kalman_update z r k)) \<and> nval (kp00 (kalman_update z r k)) \<le> nval (kp00 k) \<and>
    nonneg (kp01 (kalman_update z r k)) \<and> nval (kp01 (kalman_update z r k)) \<le> nval (kp01 k)"
  proof (cases "flt (fabs (fadd (kp00 k) r)) (flit (1 / 10 ^ 30))")
    case True
    then show ?thesis using assms by (simp add: kalman_update_def)
  next
    case False
    have "nval (kp00 k) \<le> nval (fadd (kp00 k) r)" using assms(1,2) by (rule fadd_nonneg_ge)
    moreover have "nval (flit (1 / 10 ^ 30)) \<le> \<bar>nval (fadd (kp00 k) r)\<bar>"
      using False assms(3) by (simp add: flt_def finite_not_nan)
    ultimately have "0 < nval (fadd (kp00 k) r)" using tiny_pos assms(1) unfolding nonneg_def by linarith
    note u = unit_one_minus [OF fraction_unit [OF assms(1-3) this]]
    show ?thesis using False unit_fmul [OF u assms(1)] unit_fmul [OF u assms(4)]
      by (simp add: kalman_update_def Let_def)
  qed
  then show ?thesis using fsqrt_nonneg by (simp add: kalman_uncertainty_def nonneg_def)
qed

theorem kalman_update_contracts_witness:
  "nval (kp00 (kalman_update (Fin 3) (Fin 1) kalman_new)) \<le> 1"
proof -
  have "fadd (Fin 1) (Fin 1) = Fin 2"
    using rnd_of_int [of 2] by (simp add: fadd_def is_inf_def is_zero_def)
  then show ?thesis
    using kalman_update_contracts [of kalman_new "Fin 1" "Fin 3"] by (simp add: nonneg_def kalman_new_def)
qed

text \<open>
  Waiting never makes the filter more certain: when the covariance terms, the noise terms and the
  elapsed time are numbers at or above zero and nothing overflows, \<open>predict\<close> keeps them so and
  neither the offset nor the drift variance shrinks.
\<close>

theorem kalman_predict_grows:
  assumes "nonneg (kp00 k)" "nonneg (kp01 k)" "nonneg (kp11 k)" "nonneg (kq_offset k)" "nonneg (kq_drift k)" "nonneg dt"
    and "is_finite (kp00 (kalman_predict dt k))" "is_finite (kp01 (kalman_predict dt k))"
      "is_finite (kp11 (kalman_predict dt k))"
  shows "nonneg (kp00 (kalman_predict dt k)) \<and> nval (kp00 k) \<le> nval (kp00 (kalman_predict dt k)) \<and>
    nonneg (kp01 (kalman_predict dt k)) \<and> nonneg (kp11 (kalman_predict dt k)) \<and>
    nval (kp11 k) \<le> nval (kp11 (kalman_predict dt k))"
proof -
  define a where "a = fmul (fmul (Fin 2) dt) (kp01 k)"
  define b where "b = fmul (fmul dt dt) (kp11 k)"
  define c where "c = fmul (kq_offset k) dt"
  have p00: "kp00 (kalman_predict dt k) = fadd (fadd (fadd (kp00 k) a) b) c"
    by (simp add: kalman_predict_def a_def b_def c_def)
  have f: "is_finite (fadd (fadd (kp00 k) a) b)" "is_finite (fadd (kp00 k) a)" "is_finite a" "is_finite b" "is_finite c"
    using assms(7) unfolding p00 by (blast dest: fadd_finite_args)+
  have "is_finite (fmul (Fin 2) dt)" "is_finite (fmul dt dt)"
    using f(3,4) unfolding a_def b_def by (blast dest: fmul_finite_args)+
  moreover have "nonneg (Fin 2)" by (simp add: nonneg_def)
  ultimately have "nonneg (fmul (Fin 2) dt)" "nonneg (fmul dt dt)" by (simp_all only: nonneg_fmul assms(6))
  then have n: "nonneg a" "nonneg b" "nonneg c"
    using f(3-5) unfolding a_def b_def c_def by (simp_all only: nonneg_fmul assms(2-4,6))
  have s: "nonneg (fadd (kp00 k) a)" "nonneg (fadd (fadd (kp00 k) a) b)"
    using nonneg_fadd assms(1) n f by blast+
  have g: "nval (kp00 k) \<le> nval (fadd (fadd (fadd (kp00 k) a) b) c)"
    using fadd_nonneg_ge(1) [OF assms(1) n(1)] fadd_nonneg_ge(1) [OF s(1) n(2)] fadd_nonneg_ge(1) [OF s(2) n(3)]
    by linarith
  have "is_finite (fadd (kp01 k) (fmul dt (kp11 k)))" "is_finite (fadd (kp11 k) (fmul (kq_drift k) dt))"
    using assms(8,9) by (simp_all add: kalman_predict_def)
  then have "is_finite (fmul dt (kp11 k))" "is_finite (fmul (kq_drift k) dt)" by (blast dest: fadd_finite_args)+
  then have e: "nonneg (fmul dt (kp11 k))" "nonneg (fmul (kq_drift k) dt)"
    by (simp_all only: nonneg_fmul assms(3,5,6))
  show ?thesis
    using nonneg_fadd [OF s(2) n(3)] nonneg_fadd [OF assms(2) e(1)] nonneg_fadd [OF assms(3) e(2)]
      fadd_nonneg_ge(1) [OF assms(3) e(2)] g assms(7-9) p00
    by (simp add: kalman_predict_def)
qed

theorem kalman_predict_grows_witness:
  "nval (kp00 (kalman_new\<lparr>kp11 := Fin 1, kq_offset := Fin 0, kq_drift := Fin 1\<rparr>)) \<le>
   nval (kp00 (kalman_predict (Fin 1) (kalman_new\<lparr>kp11 := Fin 1, kq_offset := Fin 0, kq_drift := Fin 1\<rparr>)))"
proof -
  let ?k = "kalman_new\<lparr>kp11 := Fin 1, kq_offset := Fin 0, kq_drift := Fin 1\<rparr>"
  have r: "rnd 1 = Fin 1" "rnd 2 = Fin 2" using rnd_of_int [of 1] rnd_of_int [of 2] by simp_all
  have p: "kp00 (kalman_predict (Fin 1) ?k) = Fin 2" "kp01 (kalman_predict (Fin 1) ?k) = Fin 1"
    "kp11 (kalman_predict (Fin 1) ?k) = Fin 2"
    using r by (simp_all add: kalman_predict_def kalman_new_def fadd_def fmul_def f64_class fzero_def)
  then show ?thesis
    using kalman_predict_grows [of ?k "Fin 1"] by (simp add: nonneg_def) (simp add: kalman_new_def)
qed

end
