(* ===== verification/Clock.thy ===== *)
theory Clock
  imports Types
begin

text \<open>
  \<open>rtfsn-core/src/sync/clock.rs\<close>: an exchange in seconds and the clock state fitted to the last 64
  of them by weighted linear regression.
\<close>

record time_exchange =
  ex_t1 :: f64
  ex_t2 :: f64
  ex_t3 :: f64
  ex_t4 :: f64

definition time_exchange_new :: "f64 \<Rightarrow> f64 \<Rightarrow> f64 \<Rightarrow> f64 \<Rightarrow> time_exchange" where
  "time_exchange_new t1 t2 t3 t4 = \<lparr>ex_t1 = t1, ex_t2 = t2, ex_t3 = t3, ex_t4 = t4\<rparr>"

definition ex_offset :: "time_exchange \<Rightarrow> f64" where
  "ex_offset e = fdiv (fadd (fsub (ex_t2 e) (ex_t1 e)) (fsub (ex_t3 e) (ex_t4 e))) (Fin 2)"

definition round_trip_delay :: "time_exchange \<Rightarrow> f64" where
  "round_trip_delay e = fsub (fsub (ex_t4 e) (ex_t1 e)) (fsub (ex_t3 e) (ex_t2 e))"

definition asymmetry_bound :: "time_exchange \<Rightarrow> f64" where
  "asymmetry_bound e = fdiv (round_trip_delay e) (Fin 2)"

record clock_sample =
  smp_time :: f64
  smp_offset :: f64
  smp_weight :: f64

record clock_state =
  cs_offset :: f64
  cs_drift_rate :: f64
  cs_uncertainty :: f64
  cs_last_update :: f64
  cs_samples :: "clock_sample list"

definition f64_MAX :: f64 where
  "f64_MAX = Fin ((2 - 2 powi - 52) * 2 powi 1023)"

definition clock_state_new :: clock_state where
  "clock_state_new = \<lparr>cs_offset = Fin 0, cs_drift_rate = Fin 0, cs_uncertainty = f64_MAX,
     cs_last_update = Fin 0, cs_samples = []\<rparr>"

definition clock_recompute :: "clock_state \<Rightarrow> clock_state" where
  "clock_recompute st = (let ss = cs_samples st in
     if ss = [] then st
     else if length ss = 1 then
       st\<lparr>cs_offset := smp_offset (ss ! 0), cs_drift_rate := Fin 0,
          cs_uncertainty := fdiv (Fin 1) (smp_weight (ss ! 0))\<rparr>
     else
       let total_weight = fsum (map smp_weight ss);
           mean_t = fdiv (fsum (map (\<lambda>s. fmul (smp_weight s) (smp_time s)) ss)) total_weight;
           mean_o = fdiv (fsum (map (\<lambda>s. fmul (smp_weight s) (smp_offset s)) ss)) total_weight;
           ss_tt = foldl (\<lambda>acc s. let dt = fsub (smp_time s) mean_t
             in fadd acc (fmul (fmul (smp_weight s) dt) dt)) (Fin 0) ss;
           ss_to = foldl (\<lambda>acc s. let dt = fsub (smp_time s) mean_t; d = fsub (smp_offset s) mean_o
             in fadd acc (fmul (fmul (smp_weight s) dt) d)) (Fin 0) ss;
           steep = flt (flit (1 / 10 ^ 20)) (fabs ss_tt);
           drift = (if steep then fdiv ss_to ss_tt else Fin 0);
           off = (if steep then fsub mean_o (fmul drift mean_t) else mean_o);
           ss_residual = foldl (\<lambda>acc s.
             let residual = fsub (smp_offset s) (fadd off (fmul drift (smp_time s)))
             in fadd acc (fmul (fmul (smp_weight s) residual) residual)) (Fin 0) ss
       in st\<lparr>cs_offset := off, cs_drift_rate := drift,
             cs_uncertainty := fmax (fsqrt (fdiv ss_residual total_weight)) (flit (1 / 10 ^ 9))\<rparr>)"

definition MAX_SAMPLES :: nat where "MAX_SAMPLES = 64"

definition sample_of :: "time_exchange \<Rightarrow> f64 \<Rightarrow> clock_sample" where
  "sample_of e local_time = \<lparr>smp_time = local_time, smp_offset = ex_offset e,
     smp_weight = fdiv (Fin 1) (round_trip_delay e)\<rparr>"

definition add_exchange :: "time_exchange \<Rightarrow> f64 \<Rightarrow> clock_state \<Rightarrow> clock_state" where
  "add_exchange e local_time st =
     (if fle (round_trip_delay e) (Fin 0) then st
      else let ss = cs_samples st @ [sample_of e local_time];
               ss' = (if length ss > MAX_SAMPLES then drop 1 ss else ss)
           in (clock_recompute (st\<lparr>cs_samples := ss'\<rparr>))\<lparr>cs_last_update := local_time\<rparr>)"

definition clock_predict :: "clock_state \<Rightarrow> f64 \<Rightarrow> f64" where
  "clock_predict st t = fadd (cs_offset st) (fmul (cs_drift_rate st) t)"

section \<open>The window\<close>

lemma recompute_samples [simp]: "cs_samples (clock_recompute st) = cs_samples st"
  by (simp add: clock_recompute_def Let_def)

definition last_n :: "nat \<Rightarrow> 'a list \<Rightarrow> 'a list" where
  "last_n n xs = drop (length xs - n) xs"

lemma last_n_snoc:
  assumes "0 < n"
  shows "last_n n (xs @ [x]) = (if length (last_n n xs @ [x]) > n then drop 1 (last_n n xs @ [x]) else last_n n xs @ [x])"
  using assms by (auto simp: last_n_def Suc_diff_le)

definition accepted :: "time_exchange \<times> f64 \<Rightarrow> bool" where
  "accepted et \<longleftrightarrow> \<not> fle (round_trip_delay (fst et)) (Fin 0)"

lemma add_exchange_samples:
  "cs_samples (add_exchange e t st) = (if accepted (e, t)
     then (if length (cs_samples st @ [sample_of e t]) > MAX_SAMPLES then drop 1 (cs_samples st @ [sample_of e t])
           else cs_samples st @ [sample_of e t])
     else cs_samples st)"
  by (simp add: add_exchange_def accepted_def Let_def)

text \<open>
  (C37) The regression window is exactly the last 64 accepted exchanges, in order of arrival: whatever
  exchanges a fresh clock is given, those with a round trip at or below zero are ignored and every
  other one enters the window, pushing out the oldest only when 64 are there.
\<close>

theorem clock_window:
  "cs_samples (foldl (\<lambda>st (e, t). add_exchange e t st) clock_state_new ets) =
   last_n MAX_SAMPLES (map (\<lambda>(e, t). sample_of e t) (filter accepted ets))"
proof (induction ets rule: rev_induct)
  case Nil
  then show ?case by (simp add: clock_state_new_def last_n_def)
next
  case (snoc et ets)
  obtain e t where et: "et = (e, t)" by fastforce
  have "0 < MAX_SAMPLES" by (simp add: MAX_SAMPLES_def)
  note l = last_n_snoc [OF this, of "map (\<lambda>(e, t). sample_of e t) (filter accepted ets)" "sample_of e t"]
  show ?case
  proof (cases "accepted et")
    case True
    then show ?thesis using snoc l by (simp add: et add_exchange_samples)
  next
    case False
    then show ?thesis using snoc by (simp add: et add_exchange_samples)
  qed
qed

end
