(* ===== verification/Geometry.thy ===== *)
theory Geometry
  imports Types
begin

text \<open>
  \<open>rtfsn-core/src/sync/geometry.rs\<close>: the Vivaldi embedding. The 24 random bytes of a new coordinate
  (\<open>rand::fill\<close>) are an argument.
\<close>

record coordinate_state =
  position :: coordinates
  co_error :: f64

definition u32_from_le :: "bytes \<Rightarrow> u32" where
  "u32_from_le bs = word_of_nat (be_val (rev bs))"

definition coordinate_state_new :: "bytes \<Rightarrow> coordinate_state" where
  "coordinate_state_new rnd_bytes =
     \<lparr>position = \<lparr>dims = map (\<lambda>i.
        let v = fdiv (of_u32 (u32_from_le (take 4 (drop (i * 4) rnd_bytes)))) (of_u32 (- 1))
        in fmul (fsub v (Fin (1 / 2))) (flit (1 / 1000))) [0..<COORDINATE_DIMENSIONS]\<rparr>,
      co_error = Fin 1\<rparr>"

definition predicted_rtt :: "coordinate_state \<Rightarrow> coordinate_state \<Rightarrow> f64" where
  "predicted_rtt a b = coords_distance (position a) (position b)"

definition relative_error_of :: "f64 \<Rightarrow> f64 \<Rightarrow> f64" where
  "relative_error_of measured_rtt error =
     (if flt (flit (1 / 10 ^ 12)) measured_rtt then fdiv (fabs error) measured_rtt else fabs error)"

definition trust_weight :: "f64 \<Rightarrow> f64 \<Rightarrow> f64" where
  "trust_weight e pe = (if flt (flit (1 / 10 ^ 12)) (fadd e pe) then fdiv e (fadd e pe) else Fin (1 / 2))"

definition coord_update :: "coordinate_state \<Rightarrow> f64 \<Rightarrow> coordinate_state \<Rightarrow> coordinate_state \<times> f64" where
  "coord_update peer measured_rtt st =
     (let dist = coords_distance (position st) (position peer);
          error = fsub measured_rtt dist;
          relative_error = relative_error_of measured_rtt error;
          weight = trust_weight (co_error st) (co_error peer);
          ce = Fin (1 / 4);
          error' = fadd (fmul (fmul relative_error ce) weight)
                        (fmul (co_error st) (fsub (Fin 1) (fmul ce weight)));
          delta = fmul (Fin (1 / 4)) weight;
          away = coords_subtract (position st) (position peer);
          dir_mag = coords_magnitude away;
          pos' = (if flt (flit (1 / 10 ^ 12)) dir_mag
                  then coords_add_scaled (position st) (coords_normalize away) (fmul error delta)
                  else if flt (flit (1 / 10 ^ 12)) (fabs error)
                  then coords_add_scaled (position st)
                    \<lparr>dims = (replicate COORDINATE_DIMENSIONS (Fin 0))
                       [0 := fmul (fmul (fsignum error) measured_rtt) delta]\<rparr> (Fin 1)
                  else position st)
      in (\<lparr>position = pos', co_error = error'\<rparr>, relative_error))"

record geometry_engine =
  ge_local :: coordinate_state
  ge_peers :: "(node_id, coordinate_state) hashmap"

definition geometry_engine_new :: "bytes \<Rightarrow> geometry_engine" where
  "geometry_engine_new rnd_bytes = \<lparr>ge_local = coordinate_state_new rnd_bytes, ge_peers = []\<rparr>"

definition observe_peer ::
  "node_id \<Rightarrow> coordinate_state \<Rightarrow> f64 \<Rightarrow> geometry_engine \<Rightarrow> geometry_engine \<times> f64" where
  "observe_peer peer_id peer measured_rtt g =
     (case coord_update peer measured_rtt (ge_local g) of (l, err) \<Rightarrow>
        (g\<lparr>ge_local := l, ge_peers := hm_insert peer_id peer (ge_peers g)\<rparr>, err))"

definition predicted_rtt_to :: "geometry_engine \<Rightarrow> node_id \<Rightarrow> f64 option" where
  "predicted_rtt_to g peer_id = map_option (predicted_rtt (ge_local g)) (hm_get (ge_peers g) peer_id)"

definition geo_residual :: "geometry_engine \<Rightarrow> node_id \<Rightarrow> f64 \<Rightarrow> f64 option" where
  "geo_residual g peer_id measured_rtt =
     map_option (\<lambda>p. fabs (fsub measured_rtt p)) (predicted_rtt_to g peer_id)"

section \<open>The error estimate stays a number at or above zero\<close>

lemma pos_lit: "is_f64 (Fin (2 powi - 100))" "0 < nval (flit (1 / 10 ^ 12))"
proof -
  have "(2 :: rat) powi - 100 < 1" by simp
  also have "1 < f_huge" by (simp add: f_huge_def)
  finally show f: "is_f64 (Fin (2 powi - 100))" using rr_pow2 [of "- 100"] by (simp add: is_f64_def)
  have "nval (Fin (2 powi - 100)) \<le> nclamp (rr (1 / 10 ^ 12))"
    using f by (rule rnd_ge) (simp add: power_int_minus)
  moreover have "0 < nval (Fin (2 powi - 100))" by simp
  ultimately show "0 < nval (flit (1 / 10 ^ 12))" unfolding nval_rnd by linarith
qed

lemma trust_weight_unit:
  assumes "nonneg e" "nonneg pe" "is_finite (fadd e pe)"
  shows "unit_f64 (trust_weight e pe)"
proof (cases "flt (flit (1 / 10 ^ 12)) (fadd e pe)")
  case True
  then have "0 < nval (fadd e pe)" using pos_lit(2) by (simp add: flt_def)
  with True show ?thesis using fraction_unit [OF assms] by (simp add: trust_weight_def)
next
  case False
  have "is_f64 (Fin (1 / 2))" using rr_pow2 [of "- 1"] by (simp add: is_f64_def f_huge_def)
  with False show ?thesis by (simp add: trust_weight_def unit_f64_def nonneg_def)
qed

lemma quarter: "unit_f64 (Fin (1 / 4))"
  using rr_pow2 [of "- 2"] by (simp add: unit_f64_def nonneg_def is_f64_def f_huge_def)

lemma relative_error_nonneg:
  assumes "is_finite (relative_error_of m e)" "is_finite m" "is_f64 e"
  shows "nonneg (relative_error_of m e)"
proof (cases "flt (flit (1 / 10 ^ 12)) m")
  case True
  then have m: "0 < nval m" using pos_lit(2) by (simp add: flt_def)
  have eq: "relative_error_of m e = fdiv (fabs e) m" using True by (simp add: relative_error_of_def)
  have e: "is_finite e" using assms(1) m assms(2) unfolding eq
    by (cases e; cases m) (auto simp: fdiv_def fabs_def fneg_def f64_class finf_def split: if_splits)
  have "nval (fdiv (fabs e) m) = nclamp (rr (\<bar>nval e\<bar> / nval m))"
    using e assms(2) m by (simp add: nval_fdiv)
  then show ?thesis using assms(1) m unfolding eq nonneg_def by (simp add: rnd_nonneg)
next
  case False
  then show ?thesis using assms by (simp add: relative_error_of_def nonneg_def)
qed

section \<open>One update is a step of the spring\<close>

lemma quarter_near: "\<bar>w - W\<bar> \<le> 1 / 2 ^ 50 \<Longrightarrow> \<bar>1 / 4 * w - W / 4 :: rat\<bar> \<le> 1 / 2 ^ 52"
proof -
  assume w: "\<bar>w - W\<bar> \<le> 1 / 2 ^ 50"
  have "1 / 4 * w - W / 4 = (w - W) / 4" by (simp add: diff_divide_distrib)
  then have "\<bar>1 / 4 * w - W / 4\<bar> = \<bar>w - W\<bar> / 4" by (simp only: abs_divide abs_numeral)
  then show ?thesis using w by simp
qed

lemma spring_numbers:
  fixes K :: rat
  assumes K: "1 \<le> K" and d: "1 / 2 ^ 41 \<le> d" "d \<le> 32 * K" and x: "\<bar>x\<bar> \<le> K" and m: "\<bar>m\<bar> \<le> K"
    and W: "0 \<le> W" "W \<le> 1" "\<bar>w - W\<bar> \<le> 1 / 2 ^ 50"
    and c: "rounds_to (x - y) c" "\<bar>c\<bar> \<le> 2 * d"
    and r: "rounds_to (m - d) E" "rounds_to (1 / 4 * w) \<delta>" "rounds_to (c / d) u" "rounds_to (E * \<delta>) s" "rounds_to (u * s) p" "rounds_to (x + p) X"
  shows "\<bar>X - (x + (m - d) * (W / 4) * ((x - y) / d))\<bar> \<le> K / 2 ^ 40"
proof -
  have d0: "0 < d" using d(1) by (simp add: less_le_trans)
  have G: "\<bar>m - d\<bar> \<le> 33 * K" using m d d0 by linarith
  have E: "\<bar>E - (m - d)\<bar> \<le> 34 * K / 2 ^ 53" by (rule order_trans [OF rounds_abs [OF r(1) G]]) (use K in simp)
  have w: "\<bar>1 / 4 * w - W / 4\<bar> \<le> 1 / 2 ^ 52" "\<bar>W / 4\<bar> \<le> 1" using quarter_near [OF W(3)] W by simp_all
  have \<delta>: "\<bar>\<delta> - W / 4\<bar> \<le> 1 / 2 ^ 51" by (rule order_trans [OF rounds_near [OF r(2) w]]) simp
  have \<delta>2: "\<bar>\<delta>\<bar> \<le> 1" using near_abs [OF \<delta>, of "1 / 4"] W by simp
  have s1: "\<bar>E * \<delta> - (m - d) * (W / 4)\<bar> \<le> 34 * K / 2 ^ 53 * 1 + 33 * K * (1 / 2 ^ 51)"
    by (rule prod_close [OF E \<delta> \<delta>2 G])
  have t2: "\<bar>(m - d) * (W / 4)\<bar> \<le> 33 * K * 1" unfolding abs_mult by (rule mult_mono [OF G]) (use W K in simp_all)
  have s: "\<bar>s - (m - d) * (W / 4)\<bar> \<le> K / 2 ^ 45" by (rule order_trans [OF rounds_near [OF r(4) s1 t2]]) (use K in simp)
  have s2: "\<bar>s\<bar> \<le> 34 * K" by (rule order_trans [OF near_abs [OF s t2]]) (use K in simp)
  have cx: "\<bar>c - (x - y)\<bar> \<le> \<bar>x - y\<bar> / 2 ^ 53 + 1 / 2 ^ 200" using c(1) by (simp only: rounds_to_def)
  then have "\<bar>x - y\<bar> \<le> \<bar>c\<bar> + (\<bar>x - y\<bar> / 2 ^ 53 + 1 / 2 ^ 200)" by linarith
  then have xy: "\<bar>x - y\<bar> \<le> 3 * d" using c(2) d(1) by simp
  then have t1: "\<bar>(x - y) / d\<bar> \<le> 3" using d0 by (simp add: pos_divide_le_eq)
  have "\<bar>c - (x - y)\<bar> \<le> 4 / 2 ^ 53 * d" by (rule order_trans [OF rounds_abs [OF c(1) xy]]) (use d(1) in simp)
  then have "\<bar>(c - (x - y)) / d\<bar> \<le> 4 / 2 ^ 53" using d0 by (simp add: pos_divide_le_eq)
  then have cd: "\<bar>c / d - (x - y) / d\<bar> \<le> 4 / 2 ^ 53" by (simp only: diff_divide_distrib)
  have u: "\<bar>u - (x - y) / d\<bar> \<le> 1 / 2 ^ 50" by (rule order_trans [OF rounds_near [OF r(3) cd t1]]) simp
  have p1: "\<bar>u * s - (x - y) / d * ((m - d) * (W / 4))\<bar> \<le> 1 / 2 ^ 50 * (34 * K) + 3 * (K / 2 ^ 45)"
    by (rule prod_close [OF u s s2 t1])
  have t: "\<bar>(x - y) / d * ((m - d) * (W / 4))\<bar> \<le> 3 * (33 * K * 1)" unfolding abs_mult [of "(x - y) / d"]
    by (rule mult_mono [OF t1 t2]) simp_all
  have p: "\<bar>p - (x - y) / d * ((m - d) * (W / 4))\<bar> \<le> K / 2 ^ 42" by (rule order_trans [OF rounds_near [OF r(5) p1 t]]) (use K in simp)
  have "\<bar>x + p - (x + (x - y) / d * ((m - d) * (W / 4)))\<bar> \<le> K / 2 ^ 42" using p by (simp add: add_diff_eq diff_diff_eq)
  moreover have "\<bar>x + (x - y) / d * ((m - d) * (W / 4))\<bar> \<le> 100 * K" by (rule order_trans [OF abs_sum_le [OF x t]]) simp
  ultimately have "\<bar>X - (x + (x - y) / d * ((m - d) * (W / 4)))\<bar> \<le> (K / 2 ^ 42 + 100 * K) / 2 ^ 53 + 1 / 2 ^ 200 + K / 2 ^ 42"
    by (rule rounds_near [OF r(6)])
  also have "\<dots> \<le> K / 2 ^ 40" using K by simp
  finally show ?thesis by (simp only: mult.commute [of "(x - y) / d"])
qed

lemma spring_error:
  assumes e: "0 \<le> e" and r: "0 \<le> r" and W: "0 \<le> W" "W \<le> 1" "\<bar>w - W\<bar> \<le> 1 / 2 ^ 50" "0 \<le> w" "w \<le> 1"
    and f: "rounds_to (r * (1 / 4)) a" "rounds_to (a * w) b" "rounds_to (1 / 4 * w) c" "rounds_to (1 - c) q" "rounds_to (e * q) t" "rounds_to (b + t) v"
  shows "\<bar>v - (r * (W / 4) + e * (1 - W / 4))\<bar> \<le> (r + e) / 2 ^ 48 + 1 / 2 ^ 190"
proof -
  have r4: "\<bar>r * (1 / 4)\<bar> \<le> r" using r by simp
  have a: "\<bar>a - r * (1 / 4)\<bar> \<le> r / 2 ^ 53 + 1 / 2 ^ 200" by (rule rounds_abs [OF f(1) r4])
  have w1: "\<bar>w\<bar> \<le> 1" using W by simp
  have b1: "\<bar>a * w - r * (1 / 4) * W\<bar> \<le> (r / 2 ^ 53 + 1 / 2 ^ 200) * 1 + r * (1 / 2 ^ 50)" by (rule prod_close [OF a W(3) w1 r4])
  have rW: "\<bar>r * (1 / 4) * W\<bar> \<le> r * 1" unfolding abs_mult [of _ W] by (rule mult_mono [OF r4]) (use W r in simp_all)
  have b: "\<bar>b - r * (1 / 4) * W\<bar> \<le> r / 2 ^ 49 + 1 / 2 ^ 195" by (rule order_trans [OF rounds_near [OF f(2) b1 rW]]) (use r in \<open>simp add: add_divide_distrib\<close>)
  have w: "\<bar>1 / 4 * w - W / 4\<bar> \<le> 1 / 2 ^ 52" "\<bar>W / 4\<bar> \<le> 1" using quarter_near [OF W(3)] W by simp_all
  have c: "\<bar>c - W / 4\<bar> \<le> 1 / 2 ^ 51" by (rule order_trans [OF rounds_near [OF f(3) w]]) simp
  then have c1: "\<bar>1 - c - (1 - W / 4)\<bar> \<le> 1 / 2 ^ 51" by (simp add: abs_minus_commute)
  have q1: "\<bar>1 - W / 4\<bar> \<le> 1" using W by simp
  have q: "\<bar>q - (1 - W / 4)\<bar> \<le> 1 / 2 ^ 50" by (rule order_trans [OF rounds_near [OF f(4) c1 q1]]) simp
  have q2: "\<bar>q\<bar> \<le> 2" by (rule order_trans [OF near_abs [OF q q1]]) simp
  have e0: "\<bar>e - e\<bar> \<le> 0" "\<bar>e\<bar> \<le> e" using e by simp_all
  have t1: "\<bar>e * q - e * (1 - W / 4)\<bar> \<le> 0 * 2 + e * (1 / 2 ^ 50)" by (rule prod_close [OF e0(1) q q2 e0(2)])
  have eW: "\<bar>e * (1 - W / 4)\<bar> \<le> e * 1" unfolding abs_mult by (rule mult_mono [OF e0(2) q1]) (use e in simp_all)
  have t: "\<bar>t - e * (1 - W / 4)\<bar> \<le> e / 2 ^ 49 + 1 / 2 ^ 199" by (rule order_trans [OF rounds_near [OF f(5) t1 eW]]) (use e in simp)
  have "\<bar>r * (1 / 4) * W + e * (1 - W / 4)\<bar> \<le> r + e"
    using abs_sum_le [OF rW eW] by simp
  then have "\<bar>v - (r * (1 / 4) * W + e * (1 - W / 4))\<bar> \<le>
      (r / 2 ^ 49 + 1 / 2 ^ 195 + (e / 2 ^ 49 + 1 / 2 ^ 199) + (r + e)) / 2 ^ 53 + 1 / 2 ^ 200 + (r / 2 ^ 49 + 1 / 2 ^ 195 + (e / 2 ^ 49 + 1 / 2 ^ 199))"
    by (rule rounds_near [OF f(6) near_add [OF b t]])
  also have "\<dots> \<le> (r + e) / 2 ^ 48 + 1 / 2 ^ 190" using r e by (simp add: add_divide_distrib)
  finally show ?thesis by simp
qed


lemma quarter_off: "\<bar>t - s\<bar> \<le> s / 4 + c \<Longrightarrow> 8 * c \<le> t \<Longrightarrow> 0 \<le> c \<Longrightarrow> 4 * c \<le> s \<and> s \<le> 2 * (t :: rat)"
  by linarith

lemma weight_numbers:
  assumes "0 \<le> e" "0 \<le> pe" "rounds_to (e + pe) T" "1 / 2 ^ 40 \<le> T" "rounds_to (e / T) w"
  shows "\<bar>w - e / (e + pe)\<bar> \<le> 1 / 2 ^ 50"
proof -
  let ?S = "e + pe"
  have r: "\<bar>T - ?S\<bar> \<le> ?S / 2 ^ 53 + 1 / 2 ^ 200" using rounds_abs [OF assms(3), of ?S] assms(1,2) by simp
  also have "\<dots> \<le> ?S / 4 + 1 / 2 ^ 43" using assms(1,2) by (intro add_mono divide_left_mono) simp_all
  finally have S: "1 / 2 ^ 41 \<le> ?S" "?S \<le> 2 * T" using quarter_off [of T ?S "1 / 2 ^ 43"] assms(4) by simp_all
  have T0: "0 < T" and S0: "0 < ?S" using assms(4) S(1) by (simp_all add: less_le_trans)
  have "?S / 2 ^ 53 + 1 / 2 ^ 200 \<le> 1 / 2 ^ 52 * T + 1 / 2 ^ 100 * T" using S(2) assms(4) by (intro add_mono) simp_all
  also have "\<dots> \<le> 1 / 2 ^ 51 * T" using T0 by simp
  finally have "\<bar>T - ?S\<bar> \<le> 1 / 2 ^ 51 * T" by (rule order_trans [OF r])
  then have t: "\<bar>(?S - T) / T\<bar> \<le> 1 / 2 ^ 51" using T0 by (simp add: pos_divide_le_eq abs_minus_commute)
  have f: "\<bar>e / ?S\<bar> \<le> 1" using assms(1,2) S0 by simp
  have "e / T - e / ?S = e / ?S * ((?S - T) / T)" using T0 S0 by (simp add: field_simps)
  also have "\<bar>\<dots>\<bar> \<le> 1 * (1 / 2 ^ 51)" unfolding abs_mult by (rule mult_mono [OF f t]) simp_all
  finally have "\<bar>e / T - e / ?S\<bar> \<le> 1 / 2 ^ 51" by simp
  from rounds_near [OF assms(5) this f] show ?thesis by (rule order_trans) simp
qed

lemma lit_12: "1 / 2 ^ 40 \<le> nval (flit (1 / 10 ^ 12))"
proof -
  have "(2 :: rat) powi - 40 < 1" by simp
  also have "1 < f_huge" by (simp add: f_huge_def)
  finally have f: "is_f64 (Fin (2 powi - 40))" using rr_pow2 [of "- 40"] by (simp add: is_f64_def)
  have "nval (Fin (2 powi - 40)) \<le> nclamp (rr (1 / 10 ^ 12))" by (rule rnd_ge [OF f]) (simp add: power_int_minus)
  then show ?thesis by (simp add: nval_rnd power_int_minus)
qed

lemma distance_via_subtract:
  assumes "length (dims a) = COORDINATE_DIMENSIONS" "length (dims b) = COORDINATE_DIMENSIONS"
  shows "coords_magnitude (coords_subtract a b) = coords_distance a b"
proof -
  have "map fsq (dims (coords_subtract a b)) = map (\<lambda>(x, y). fsq (fsub x y)) (zip (dims a) (dims b))"
    using assms by (auto simp: coords_subtract_def intro!: nth_equalityI)
  then show ?thesis by (simp add: coords_magnitude_def coords_distance_def)
qed

lemma distance_facts:
  assumes "length (dims a) = COORDINATE_DIMENSIONS" "length (dims b) = COORDINATE_DIMENSIONS"
    "\<forall>x \<in> set (dims a). fbound k x" "\<forall>x \<in> set (dims b). fbound k x" "k \<le> 100"
  defines "D \<equiv> coords_distance a b"
  shows "is_f64 D" "is_finite D" "0 \<le> nval D" "nval D \<le> 32 * 2 ^ k"
    and "\<lbrakk>1 / 2 ^ 40 \<le> nval D; i < COORDINATE_DIMENSIONS\<rbrakk> \<Longrightarrow> \<bar>nval (fsub (dims a ! i) (dims b ! i))\<bar> \<le> 2 * nval D"
proof -
  define qs where "qs = map (\<lambda>(x, y). fsq (fsub x y)) (zip (dims a) (dims b))"
  define S where "S = fsum qs"
  have D: "D = fsqrt S" by (simp add: D_def S_def qs_def coords_distance_def)
  have sub: "fbound (k + 1) (fsub x y)" if "(x, y) \<in> set (zip (dims a) (dims b))" for x y
    using that assms(3-5) by (intro fbound_fsub) (auto dest: set_zip_leftD set_zip_rightD)
  have q: "fbound (k + 1 + (k + 1)) (fsq (fsub x y)) \<and> nonneg (fsq (fsub x y))" if "(x, y) \<in> set (zip (dims a) (dims b))" for x y
  proof
    show f: "fbound (k + 1 + (k + 1)) (fsq (fsub x y))"
      unfolding fsq_def using sub [OF that] assms(5) by (intro fbound_fmul) simp_all
    show "nonneg (fsq (fsub x y))" using f sub [OF that]
      by (simp add: nonneg_def fbound_def fsq_def nval_fmul rnd_nonneg)
  qed
  have len: "length qs = 6" using assms(1,2) by (simp add: qs_def COORDINATE_DIMENSIONS_def)
  have S: "fbound (k + 1 + (k + 1) + 6) S" unfolding S_def len [symmetric]
    using q assms(1,2,5) by (intro fbound_fsum) (auto simp: qs_def COORDINATE_DIMENSIONS_def)
  then have fin: "is_finite (fsum qs)" by (simp add: fbound_def S_def)
  have nn: "\<forall>x \<in> set qs. nonneg x" using q by (auto simp: qs_def)
  note ge = fsum_ge [OF fin nn, folded S_def]
  show f: "is_f64 D" by (simp add: D_def)
  show fd: "is_finite D" "0 \<le> nval D" unfolding D using fsqrt_nonneg [of S] ge(1) by (auto simp: nonneg_def)
  have zero: "nval D = 0" if "nval S = 0" using that ge(1) by (cases S) (auto simp: D fsqrt_def f64_class nonneg_def)
  have sq: "nval S \<le> 2 * nval D ^ 2 \<and> nval D ^ 2 \<le> 2 * nval S" if n: "nval S \<noteq> 0"
    using n ge(1) fsqrt_square [of "nval S"] by (cases S) (auto simp: D nonneg_def)
  show "nval D \<le> 32 * 2 ^ k"
  proof (cases "nval S = 0")
    case False
    have "nval S \<le> 2 ^ (k + 1 + (k + 1) + 6)" using S by (simp add: fbound_def abs_le_iff)
    also have "k + 1 + (k + 1) + 6 = 8 + k * 2" by simp
    also have "(2 :: rat) ^ (8 + k * 2) = 256 * (2 ^ k) ^ 2" by (simp add: power_add power_mult)
    finally have "nval D ^ 2 \<le> (32 * 2 ^ k) ^ 2" using sq [OF False] zero_le_power2 [of "2 ^ k :: rat"]
      by (simp add: power_mult_distrib del: zero_le_power2)
    then show ?thesis by (rule power2_le_imp_le) simp
  qed (simp add: zero)
  show "\<bar>nval (fsub (dims a ! i) (dims b ! i))\<bar> \<le> 2 * nval D" if d: "1 / 2 ^ 40 \<le> nval D" and i: "i < COORDINATE_DIMENSIONS"
  proof -
    define c where "c = nval (fsub (dims a ! i) (dims b ! i))"
    have m: "(dims a ! i, dims b ! i) \<in> set (zip (dims a) (dims b))"
      using i assms(1,2) by (auto simp: set_zip)
    have "rounds_to (c * c) (nval (fsq (fsub (dims a ! i) (dims b ! i))))"
    proof (rule rounds_op)
      have "\<bar>c\<bar> \<le> 2 ^ (k + 1)" using sub [OF m] by (simp add: fbound_def c_def)
      then have "\<bar>c\<bar> * \<bar>c\<bar> \<le> 2 ^ (k + 1) * 2 ^ (k + 1)" by (intro mult_mono) simp_all
      then show "\<bar>c * c\<bar> \<le> 2 ^ (k + 1 + (k + 1))" by (simp add: abs_mult power_add)
    qed (use sub [OF m] assms(5) in \<open>simp_all add: fsq_def nval_fmul fbound_def c_def\<close>)
    then have r: "c * c - (c * c / 2 ^ 53 + 1 / 2 ^ 200) \<le> nval (fsq (fsub (dims a ! i) (dims b ! i)))"
      by (simp add: rounds_to_def abs_le_iff)
    moreover have "nval (fsq (fsub (dims a ! i) (dims b ! i))) \<le> nval S"
      by (rule ge(2)) (use m in \<open>force simp: qs_def\<close>)
    moreover have "nval S \<le> 2 * nval D ^ 2" using sq zero by fastforce
    ultimately have le: "c * c - (c * c / 2 ^ 53 + 1 / 2 ^ 200) \<le> 2 * nval D ^ 2" by linarith
    have "(1 / 2 ^ 40) * (1 / 2 ^ 40) \<le> nval D * nval D" using d by (intro mult_mono) simp_all
    then have "1 / 2 ^ 200 \<le> nval D ^ 2" by (simp add: power2_eq_square)
    with le have "c * c \<le> 4 * nval D ^ 2" by simp
    then have "c ^ 2 \<le> (2 * nval D) ^ 2" by (simp add: power2_eq_square)
    then have "\<bar>c\<bar> ^ 2 \<le> (2 * nval D) ^ 2" by simp
    then show ?thesis unfolding c_def by (rule power2_le_imp_le) (use fd in simp)
  qed
qed


lemma trust_weight_close:
  assumes "nonneg e" "nonneg pe" "fbound k e" "fbound k pe" "k < 1000" "flt (flit (1 / 10 ^ 12)) (fadd e pe)"
  shows "unit_f64 (trust_weight e pe)" "\<bar>nval (trust_weight e pe) - nval e / (nval e + nval pe)\<bar> \<le> 1 / 2 ^ 50"
proof -
  have f: "fbound (k + 1) (fadd e pe)" using assms by (intro fbound_fadd)
  then show u: "unit_f64 (trust_weight e pe)" using assms(1,2) by (intro trust_weight_unit) (simp_all add: fbound_def)
  have T: "1 / 2 ^ 40 \<le> nval (fadd e pe)" using assms(6) lit_12 by (simp add: flt_def)
  have T0: "0 < nval (fadd e pe)" using T by (simp add: less_le_trans)
  have w: "trust_weight e pe = fdiv e (fadd e pe)" using assms(6) by (simp add: trust_weight_def)
  have "nval e \<le> nval (fadd e pe)" using assms(1,2) by (rule fadd_nonneg_ge)
  then have "\<bar>nval e / nval (fadd e pe)\<bar> \<le> 2 ^ 0" using assms(1) T0 by (simp add: nonneg_def)
  then have "rounds_to (nval e / nval (fadd e pe)) (nval (trust_weight e pe))"
    unfolding w using fdiv_rounds(1) [OF assms(3), of "fadd e pe" 0] f T0 by (simp add: fbound_def)
  then show "\<bar>nval (trust_weight e pe) - nval e / (nval e + nval pe)\<bar> \<le> 1 / 2 ^ 50"
    using assms(1,2) rounds_fadd [OF assms(3,4,5)] T by (intro weight_numbers) (simp_all add: nonneg_def)
qed


lemma relative_error_close:
  assumes "fbound k m" "fbound (k + 6) E" "k \<le> 100"
  defines "r \<equiv> relative_error_of m E"
  shows "fbound (k + 46) r" "nonneg r"
    and "flt (flit (1 / 10 ^ 12)) m \<Longrightarrow> \<bar>nval r * nval m - \<bar>nval E\<bar>\<bar> \<le> \<bar>nval E\<bar> / 2 ^ 53 + nval m / 2 ^ 200"
proof -
  have big: "0 < nval m" "rounds_to (\<bar>nval E\<bar> / nval m) (nval r)" "fbound (k + 46) r" if "flt (flit (1 / 10 ^ 12)) m"
  proof -
    have m: "1 / 2 ^ 40 \<le> nval m" using that lit_12 by (simp add: flt_def)
    then show m0: "0 < nval m" by (simp add: less_le_trans)
    have "\<bar>nval E\<bar> \<le> 2 ^ (k + 6)" using assms(2) by (simp add: fbound_def)
    also have "\<dots> = 2 ^ (k + 46) * (1 / 2 ^ 40)" by (simp add: power_add)
    also have "\<dots> \<le> 2 ^ (k + 46) * nval m" using m by (intro mult_left_mono) simp_all
    finally have "\<bar>nval (fabs E) / nval m\<bar> \<le> 2 ^ (k + 46)" using m0 by (simp add: pos_divide_le_eq)
    from fdiv_rounds [OF fbound_fabs [OF assms(2)] _ _ this] m0 assms(1,3) that
    show "rounds_to (\<bar>nval E\<bar> / nval m) (nval r)" "fbound (k + 46) r"
      by (simp_all add: r_def relative_error_of_def fbound_def)
  qed
  show f: "fbound (k + 46) r"
  proof (cases "flt (flit (1 / 10 ^ 12)) m")
    case False
    then show ?thesis using assms(2) fbound_le [OF fbound_fabs [OF assms(2)], of "k + 46"] by (simp add: r_def relative_error_of_def)
  qed (rule big(3))
  show "nonneg r" unfolding r_def by (rule relative_error_nonneg) (use f assms(1,2) in \<open>simp_all add: fbound_def r_def\<close>)
  show "\<bar>nval r * nval m - \<bar>nval E\<bar>\<bar> \<le> \<bar>nval E\<bar> / 2 ^ 53 + nval m / 2 ^ 200" if l: "flt (flit (1 / 10 ^ 12)) m"
  proof -
    note b = big [OF l]
    have "\<bar>nval r - \<bar>nval E\<bar> / nval m\<bar> * nval m \<le> (\<bar>nval E\<bar> / nval m / 2 ^ 53 + 1 / 2 ^ 200) * nval m"
      using b(1,2) by (intro mult_right_mono) (simp_all add: rounds_to_def)
    moreover have "\<bar>nval r - \<bar>nval E\<bar> / nval m\<bar> * nval m = \<bar>nval r * nval m - \<bar>nval E\<bar>\<bar>"
    proof -
      have "nval r * nval m - \<bar>nval E\<bar> = (nval r - \<bar>nval E\<bar> / nval m) * nval m" using b(1) by (simp add: algebra_simps)
      then show ?thesis using b(1) by (simp only: abs_mult)
    qed
    moreover have "(\<bar>nval E\<bar> / nval m / 2 ^ 53 + 1 / 2 ^ 200) * nval m = \<bar>nval E\<bar> / 2 ^ 53 + nval m / 2 ^ 200"
      using b(1) by (simp add: algebra_simps)
    ultimately show ?thesis by simp
  qed
qed

text \<open>
  The range in which the update is described: six coordinates per node, everything at most \<open>2^k\<close>, the two nodes and the two error estimates
  above the thresholds of the code.
\<close>

definition spring_range :: "nat \<Rightarrow> coordinate_state \<Rightarrow> coordinate_state \<Rightarrow> f64 \<Rightarrow> bool" where
  "spring_range k st peer measured_rtt \<longleftrightarrow> k \<le> 100 \<and> fbound k measured_rtt \<and>
     (\<forall>s \<in> {st, peer}. length (dims (position s)) = COORDINATE_DIMENSIONS \<and> (\<forall>x \<in> set (dims (position s)). fbound k x) \<and>
        nonneg (co_error s) \<and> fbound k (co_error s)) \<and>
     flt (flit (1 / 10 ^ 12)) (fadd (co_error st) (co_error peer)) \<and>
     flt (flit (1 / 10 ^ 12)) (coords_distance (position st) (position peer))"

lemma spring_rangeD:
  assumes "spring_range k st peer m"
  shows "k \<le> 100" "fbound k m" "length (dims (position st)) = COORDINATE_DIMENSIONS" "length (dims (position peer)) = COORDINATE_DIMENSIONS"
    "\<forall>x \<in> set (dims (position st)). fbound k x" "\<forall>x \<in> set (dims (position peer)). fbound k x"
    "nonneg (co_error st)" "nonneg (co_error peer)" "fbound k (co_error st)" "fbound k (co_error peer)"
    "flt (flit (1 / 10 ^ 12)) (fadd (co_error st) (co_error peer))" "flt (flit (1 / 10 ^ 12)) (coords_distance (position st) (position peer))"
  using assms by (simp_all add: spring_range_def)

lemma spring_weight:
  assumes "spring_range k st peer m"
  defines "w \<equiv> trust_weight (co_error st) (co_error peer)" and "W \<equiv> nval (co_error st) / (nval (co_error st) + nval (co_error peer))"
  shows "unit_f64 w" "\<bar>nval w - W\<bar> \<le> 1 / 2 ^ 50" "0 \<le> W" "W \<le> 1" "0 \<le> nval w" "nval w \<le> 1" "fbound 0 w"
    "unit_f64 (fmul (Fin (1 / 4)) w)" "rounds_to (1 / 4 * nval w) (nval (fmul (Fin (1 / 4)) w))"
proof -
  note a = spring_rangeD [OF assms(1)]
  have k: "k < 1000" using a(1) by simp
  note w = trust_weight_close [OF a(7-10) k a(11), folded w_def W_def]
  show "unit_f64 w" "\<bar>nval w - W\<bar> \<le> 1 / 2 ^ 50" by (rule w)+
  show "0 \<le> W" "W \<le> 1" using a(7,8) by (simp_all add: W_def nonneg_def divide_le_eq_1) linarith
  show "0 \<le> nval w" "nval w \<le> 1" using w(1) by (simp_all add: unit_f64_def nonneg_def)
  show f: "fbound 0 w" by (rule fbound_unit [OF w(1)])
  show "unit_f64 (fmul (Fin (1 / 4)) w)" using unit_fmul [OF quarter, of w] w by (auto simp: unit_f64_def)
  show "rounds_to (1 / 4 * nval w) (nval (fmul (Fin (1 / 4)) w))" using rounds_fmul [OF fbound_unit [OF quarter] f] by simp
qed

lemma spring_prediction:
  assumes "spring_range k st peer m"
  defines "D \<equiv> coords_distance (position st) (position peer)"
  shows "is_finite D" "1 / 2 ^ 40 \<le> nval D" "nval D \<le> 32 * 2 ^ k" "fbound (k + 6) (fsub m D)" "rounds_to (nval m - nval D) (nval (fsub m D))"
    "i < COORDINATE_DIMENSIONS \<Longrightarrow> \<bar>nval (fsub (dims (position st) ! i) (dims (position peer) ! i))\<bar> \<le> 2 * nval D"
proof -
  note a = spring_rangeD [OF assms(1)]
  note D = distance_facts [OF a(3-6,1), folded D_def]
  show lo: "1 / 2 ^ 40 \<le> nval D" using a(12) lit_12 by (simp add: flt_def D_def)
  show "is_finite D" "nval D \<le> 32 * 2 ^ k" by (rule D)+
  have f: "fbound (k + 5) D" using D by (simp add: fbound_def power_add)
  have k: "k + 5 < 1000" and m: "fbound (k + 5) m" using a(1) fbound_le [OF a(2), of "k + 5"] by simp_all
  show "fbound (k + 6) (fsub m D)" using fbound_fsub [OF m f k] by (simp add: add.commute)
  show "rounds_to (nval m - nval D) (nval (fsub m D))" by (rule rounds_fsub [OF m f k])
  show "i < COORDINATE_DIMENSIONS \<Longrightarrow> \<bar>nval (fsub (dims (position st) ! i) (dims (position peer) ! i))\<bar> \<le> 2 * nval D" by (rule D(5) [OF lo])
qed

lemma spring_position:
  assumes "spring_range k st peer m" "i < COORDINATE_DIMENSIONS"
  defines "d \<equiv> nval (coords_distance (position st) (position peer))"
    and "W \<equiv> nval (co_error st) / (nval (co_error st) + nval (co_error peer))"
    and "x \<equiv> nval (dims (position st) ! i)" and "y \<equiv> nval (dims (position peer) ! i)"
  shows "\<bar>nval (dims (position (fst (coord_update peer m st))) ! i) - (x + (nval m - d) * (W / 4) * ((x - y) / d))\<bar> \<le> 2 ^ k / 2 ^ 40"
proof -
  define D where "D = coords_distance (position st) (position peer)"
  define E where "E = fsub m D"
  define \<delta> where "\<delta> = fmul (Fin (1 / 4)) (trust_weight (co_error st) (co_error peer))"
  let ?x = "dims (position st) ! i" and ?y = "dims (position peer) ! i"
  let ?u = "fdiv (fsub ?x ?y) D"
  note a = spring_rangeD [OF assms(1)] and w = spring_weight [OF assms(1), folded \<delta>_def W_def]
  note D = spring_prediction [OF assms(1), folded D_def, folded E_def] and c2 = spring_prediction(6) [OF assms(1,2), folded D_def]
  have xy: "fbound k ?x" "fbound k ?y" using a(3-6) assms(2) by simp_all
  have s: "fbound (k + 6) (fmul E \<delta>)" "rounds_to (nval E * nval \<delta>) (nval (fmul E \<delta>))"
    using fbound_fmul [OF D(4) fbound_unit [OF w(8)]] rounds_fmul [OF D(4) fbound_unit [OF w(8)]] a(1) by simp_all
  have c: "fbound (k + 1) (fsub ?x ?y)" "rounds_to (nval ?x - nval ?y) (nval (fsub ?x ?y))"
    using fbound_fsub [OF xy] rounds_fsub [OF xy] a(1) by simp_all
  have d0: "0 < nval D" using D(2) by (simp add: less_le_trans)
  then have "\<bar>nval (fsub ?x ?y) / nval D\<bar> \<le> 2 ^ 1" using c2 by (simp add: pos_divide_le_eq)
  from fdiv_rounds [OF c(1) D(1) _ this] d0
  have u: "rounds_to (nval (fsub ?x ?y) / nval D) (nval ?u)" "fbound 1 ?u" by simp_all
  have f7: "fbound (1 + (k + 6)) (fmul ?u (fmul E \<delta>))" and p: "rounds_to (nval ?u * nval (fmul E \<delta>)) (nval (fmul ?u (fmul E \<delta>)))"
    using fbound_fmul [OF u(2) s(1)] rounds_fmul [OF u(2) s(1)] a(1) by simp_all
  have X: "rounds_to (nval ?x + nval (fmul ?u (fmul E \<delta>))) (nval (fadd ?x (fmul ?u (fmul E \<delta>))))"
    by (rule rounds_fadd [OF fbound_le [OF xy(1)] f7]) (use a(1) in simp_all)
  have mag: "coords_magnitude (coords_subtract (position st) (position peer)) = D" by (simp add: D_def distance_via_subtract a(3,4))
  have "\<not> flt D (flit (1 / 10 ^ 12))" using a(12) by (auto simp: flt_def D_def)
  then have "dims (position (fst (coord_update peer m st))) ! i = fadd ?x (fmul ?u (fmul E \<delta>))"
    using a(12) assms(2) by (simp add: coord_update_def Let_def mag coords_add_scaled_def coords_normalize_def E_def \<delta>_def D_def [symmetric])
      (simp add: coords_subtract_def)
  then show ?thesis
    using spring_numbers [OF _ _ D(3) _ _ w(3,4,2) c(2) c2 D(5) w(9) u(1) s(2) p X] D(2) xy(1) a(2) by (simp add: fbound_def x_def y_def d_def D_def)
qed

lemma spring_relative_error:
  assumes "spring_range k st peer m"
  defines "r \<equiv> snd (coord_update peer m st)" and "d \<equiv> nval (coords_distance (position st) (position peer))"
  shows "fbound (k + 46) r" "nonneg r" "flt (flit (1 / 10 ^ 12)) m \<Longrightarrow> \<bar>nval r * nval m - \<bar>nval m - d\<bar>\<bar> \<le> 2 ^ k / 2 ^ 40"
proof -
  define D where "D = coords_distance (position st) (position peer)"
  note a = spring_rangeD [OF assms(1)] and D = spring_prediction [OF assms(1), folded D_def]
  have r: "r = relative_error_of m (fsub m D)" by (simp add: r_def coord_update_def Let_def D_def)
  note rel = relative_error_close [OF a(2) D(4) a(1), folded r]
  show "fbound (k + 46) r" "nonneg r" by (rule rel)+
  let ?K = "(2 :: rat) ^ k" and ?E = "fsub m D"
  assume l: "flt (flit (1 / 10 ^ 12)) m"
  have m: "\<bar>nval m\<bar> \<le> ?K" using a(2) by (simp add: fbound_def)
  have e: "\<bar>nval ?E\<bar> \<le> 64 * ?K" using D(4) by (simp add: fbound_def power_add)
  have "0 \<le> nval D" using D(2) by (rule order_trans [rotated]) simp
  then have g: "\<bar>nval m - d\<bar> \<le> 33 * ?K" using m D(3) by (simp add: d_def D_def abs_le_iff)
  have "\<bar>\<bar>nval ?E\<bar> - \<bar>nval m - d\<bar>\<bar> \<le> \<bar>nval ?E - (nval m - d)\<bar>" by (rule abs_triangle_ineq3)
  also have "\<dots> \<le> 33 * ?K / 2 ^ 53 + 1 / 2 ^ 200" using rounds_abs [OF _ g] D(5) by (simp add: d_def D_def)
  finally have 1: "\<bar>\<bar>nval ?E\<bar> - \<bar>nval m - d\<bar>\<bar> \<le> 33 * ?K / 2 ^ 53 + 1 / 2 ^ 200" .
  have "\<bar>nval r * nval m - \<bar>nval ?E\<bar>\<bar> \<le> \<bar>nval ?E\<bar> / 2 ^ 53 + nval m / 2 ^ 200" by (rule rel(3) [OF l])
  also have "\<dots> \<le> 64 * ?K / 2 ^ 53 + ?K / 2 ^ 200" using e m by (intro add_mono divide_right_mono) auto
  finally have 2: "\<bar>nval r * nval m - \<bar>nval ?E\<bar>\<bar> \<le> 64 * ?K / 2 ^ 53 + ?K / 2 ^ 200" .
  have "64 * K / 2 ^ 53 + K / 2 ^ 200 + (33 * K / 2 ^ 53 + 1 / 2 ^ 200) \<le> K / 2 ^ 40" if "1 \<le> K" for K :: rat using that by simp
  from order_trans [OF near_trans [OF 2 1] this] show "\<bar>nval r * nval m - \<bar>nval m - d\<bar>\<bar> \<le> ?K / 2 ^ 40" by simp
qed

lemma spring_error_estimate:
  assumes "spring_range k st peer m"
  defines "r \<equiv> snd (coord_update peer m st)" and "e \<equiv> co_error st" and "v \<equiv> co_error (fst (coord_update peer m st))"
    and "W \<equiv> nval (co_error st) / (nval (co_error st) + nval (co_error peer))"
  shows "nonneg v" "\<bar>nval v - (nval r * (W / 4) + nval e * (1 - W / 4))\<bar> \<le> (nval r + nval e) / 2 ^ 48 + 1 / 2 ^ 190"
proof -
  define w where "w = trust_weight (co_error st) (co_error peer)"
  define \<delta> where "\<delta> = fmul (Fin (1 / 4)) w"
  note sa = spring_rangeD [OF assms(1), folded e_def] and w = spring_weight [OF assms(1), folded w_def, folded \<delta>_def W_def]
  note rel = spring_relative_error(1,2) [OF assms(1), folded r_def]
  let ?a = "fmul r (Fin (1 / 4))" and ?q = "fsub (Fin 1) \<delta>"
  have ce: "fbound 0 (Fin (1 / 4))" using quarter by (rule fbound_unit)
  have a: "fbound (k + 46) ?a" "rounds_to (nval r * (1 / 4)) (nval ?a)"
    using fbound_fmul [OF rel(1) ce] rounds_fmul [OF rel(1) ce] sa(1) by simp_all
  have b: "fbound (k + 46) (fmul ?a w)" "rounds_to (nval ?a * nval w) (nval (fmul ?a w))"
    using fbound_fmul [OF a(1) w(7)] rounds_fmul [OF a(1) w(7)] sa(1) by simp_all
  have q: "fbound 0 ?q" "rounds_to (1 - nval \<delta>) (nval ?q)"
    using fbound_unit [OF unit_one_minus [OF w(8)]] rounds_fsub [OF _ fbound_unit [OF w(8)], of "Fin 1"] by (simp_all add: fbound_def)
  have t: "fbound (k + 46) (fmul e ?q)" "rounds_to (nval e * nval ?q) (nval (fmul e ?q))"
    using fbound_le [OF fbound_fmul [OF sa(9) q(1)]] rounds_fmul [OF sa(9) q(1)] sa(1) by simp_all
  have v: "v = fadd (fmul ?a w) (fmul e ?q)" by (simp add: v_def coord_update_def Let_def r_def \<delta>_def w_def e_def)
  have "nonneg ?a" using rel(2) quarter a(1) by (intro nonneg_fmul) (simp_all add: unit_f64_def fbound_def)
  then have n: "nonneg (fmul ?a w)" "nonneg (fmul e ?q)"
    using nonneg_fmul [of ?a w] nonneg_fmul [OF sa(7), of ?q] b(1) t(1) w(1) unit_one_minus [OF w(8)] by (simp_all add: fbound_def unit_f64_def)
  have "fbound (k + 46 + 1) v" unfolding v using b(1) t(1) sa(1) by (intro fbound_fadd) simp_all
  then show "nonneg v" unfolding v by (intro nonneg_fadd [OF n]) (simp add: fbound_def)
  have "rounds_to (nval (fmul ?a w) + nval (fmul e ?q)) (nval v)" unfolding v using rounds_fadd [OF b(1) t(1)] sa(1) by simp
  from spring_error [OF _ _ w(3,4,2,5,6) a(2) b(2) w(9) q(2) t(2) this] sa(7) rel(2)
  show "\<bar>nval v - (nval r * (W / 4) + nval e * (1 - W / 4))\<bar> \<le> (nval r + nval e) / 2 ^ 48 + 1 / 2 ^ 190" by (simp add: nonneg_def)
qed

text \<open>
  (C36) One update is one step of the Vivaldi spring. Take two nodes more than a picosecond apart in the embedding, whose error estimates are not both
  negligible, with coordinates, estimates and a measured round trip at most \<open>2^k\<close> (\<open>spring_range\<close>).
  With \<open>d\<close> the distance the embedding predicts and \<open>W\<close> this node's share of the two error estimates:
  every coordinate moves by \<open>(measured - d) * W / 4\<close> along the unit vector from the peer, away from it when the prediction was short and
  towards it when it was long, up to rounding of \<open>2^(k - 40)\<close>; the relative error returned is that of the prediction; the new
  error estimate is the mixture of the returned error, with weight \<open>W / 4\<close>, and the old estimate, and it is a number at or above zero.
\<close>

theorem coord_update_spring:
  assumes "spring_range k st peer measured_rtt"
  shows "let (st', r) = coord_update peer measured_rtt st; m = nval measured_rtt; e = nval (co_error st);
      d = nval (coords_distance (position st) (position peer)); W = e / (e + nval (co_error peer));
      x = \<lambda>i. nval (dims (position st) ! i); y = \<lambda>i. nval (dims (position peer) ! i) in
    coords_ok (position st') \<and>
    (\<forall>i < COORDINATE_DIMENSIONS. \<bar>nval (dims (position st') ! i) - (x i + (m - d) * (W / 4) * ((x i - y i) / d))\<bar> \<le> 2 ^ k / 2 ^ 40) \<and>
    nonneg r \<and> (flt (flit (1 / 10 ^ 12)) measured_rtt \<longrightarrow> \<bar>nval r * m - \<bar>m - d\<bar>\<bar> \<le> 2 ^ k / 2 ^ 40) \<and>
    nonneg (co_error st') \<and> \<bar>nval (co_error st') - (nval r * (W / 4) + e * (1 - W / 4))\<bar> \<le> (nval r + e) / 2 ^ 48 + 1 / 2 ^ 190"
proof -
  have "coords_ok (position st)" using spring_rangeD(3,5) [OF assms] by (simp add: coords_ok_def fbound_def)
  then have "coords_ok (position (fst (coord_update peer measured_rtt st)))" by (simp add: coord_update_def Let_def)
  then show ?thesis
    using spring_position [OF assms] spring_relative_error(2,3) [OF assms] spring_error_estimate [OF assms] by (simp only: Let_def case_prod_beta) blast
qed

text \<open>
  Two nodes half a unit apart with equal confidence, and a measurement of a quarter: the node moves from the origin towards its peer,
  by an eighth of the quarter by which the prediction is too long.
\<close>

definition w_spring_self :: coordinate_state where "w_spring_self = \<lparr>position = coords_origin, co_error = Fin 1\<rparr>"
definition w_spring_peer :: coordinate_state where
  "w_spring_peer = \<lparr>position = \<lparr>dims = (replicate COORDINATE_DIMENSIONS (Fin 0))[0 := Fin (1 / 2)]\<rparr>, co_error = Fin 1\<rparr>"

lemma w_distance: "coords_distance (position w_spring_self) (position w_spring_peer) = Fin (1 / 2)"
proof -
  have r: "rnd (1 / 2) = Fin (1 / 2)" "rnd (- (1 / 2)) = Fin (- (1 / 2))" "rnd (1 / 4) = Fin (1 / 4)"
    using rr_pow2 [of "- 1"] rr_pow2 [of "- 2"] rr_minus [of "1 / 2"] by (auto intro!: rnd_id simp: is_f64_def f_huge_def)
  have "flog2 (1 / 4) = - 2" by (rule flog2_unique) simp_all
  then have "sqrt_exp (1 / 4) = - 53" by (simp add: sqrt_exp_def)
  moreover have "sqrt_even (1 / 4 / 4 powi (- 53)) = 2 ^ 52" using sqrt_even_square [of "2 ^ 52"] by simp
  ultimately have "fsqrt (Fin (1 / 4)) = Fin (1 / 2)" by (simp add: fsqrt_def f64_class Let_def)
  then show ?thesis
    by (simp add: coords_distance_def w_spring_self_def w_spring_peer_def coords_origin_def COORDINATE_DIMENSIONS_def numeral_eq_Suc fsum_def
        fsub_def fneg_def fadd_def f64_class fsq_def fmul_def fzero_def r)
qed

theorem coord_update_spring_witness:
  "\<bar>nval (dims (position (fst (coord_update w_spring_peer (Fin (1 / 4)) w_spring_self))) ! 0) - 1 / 32\<bar> \<le> 1 / 2 ^ 40"
proof -
  have f: "is_f64 (Fin (1 / 2))" "is_f64 (Fin (1 / 4))" using rr_pow2 [of "- 1"] rr_pow2 [of "- 2"] by (simp_all add: is_f64_def f_huge_def)
  have d: "coords_distance (position w_spring_self) (position w_spring_peer) = Fin (1 / 2)" by (rule w_distance)
  have "nval (flit (1 / 10 ^ 12)) \<le> 1 / 4" using rnd_le [OF f(2), of "1 / 10 ^ 12"] by (simp add: nval_rnd)
  moreover have "fadd (Fin 1) (Fin 1) = Fin 2" using rnd_of_int [of 2] by (simp add: fadd_def f64_class)
  ultimately have "flt (flit (1 / 10 ^ 12)) (Fin (1 / 2))" "flt (flit (1 / 10 ^ 12)) (fadd (Fin 1) (Fin 1))" by (simp_all add: flt_def)
  then have "spring_range 0 w_spring_self w_spring_peer (Fin (1 / 4))"
    using f d by (auto simp: spring_range_def w_spring_self_def w_spring_peer_def coords_origin_def fbound_def nonneg_def COORDINATE_DIMENSIONS_def numeral_eq_Suc)
  from coord_update_spring [OF this] have "\<forall>i < COORDINATE_DIMENSIONS. \<bar>nval (dims (position (fst (coord_update w_spring_peer (Fin (1 / 4)) w_spring_self))) ! i) -
      (nval (dims (position w_spring_self) ! i) + (1 / 4 - 1 / 2) * (1 / (1 + 1) / 4) *
        ((nval (dims (position w_spring_self) ! i) - nval (dims (position w_spring_peer) ! i)) / (1 / 2)))\<bar> \<le> 2 ^ 0 / 2 ^ 40"
    by (simp only: Let_def case_prod_beta d) (simp add: w_spring_self_def w_spring_peer_def)
  from this [rule_format, of 0] show ?thesis
    by (simp add: w_spring_self_def w_spring_peer_def coords_origin_def COORDINATE_DIMENSIONS_def numeral_eq_Suc)
qed

end
