(* ===== verification/Outlier.thy ===== *)
theory Outlier
  imports Types
begin

text \<open>
  \<open>rtfsn-core/src/sync/outlier.rs\<close>: Marzullo's interval intersection and the rejection of estimates
  that do not fit the latency geometry. The counters of the sweep are machine words, as an interval
  with its ends swapped takes them below zero.
\<close>

record time_interval =
  low :: f64
  high :: f64

definition from_measurement :: "f64 \<Rightarrow> f64 \<Rightarrow> time_interval" where
  "from_measurement off unc = \<lparr>low = fsub off unc, high = fadd off unc\<rparr>"

definition midpoint :: "time_interval \<Rightarrow> f64" where
  "midpoint iv = fdiv (fadd (low iv) (high iv)) (Fin 2)"

definition width :: "time_interval \<Rightarrow> f64" where
  "width iv = fsub (high iv) (low iv)"

datatype event_type = Start | End

type_synonym event = "f64 \<times> event_type"

definition event_le :: "event \<Rightarrow> event \<Rightarrow> bool" where
  "event_le a b = (if flt (fst a) (fst b) then True else if flt (fst b) (fst a) then False
     else \<not> (snd a = End \<and> snd b = Start))"

record sweep =
  best_start :: f64
  best_end :: f64
  best_count :: u64
  sw_count :: u64
  current_start :: f64

definition sweep_step :: "u64 \<Rightarrow> event \<Rightarrow> sweep \<Rightarrow> sweep" where
  "sweep_step threshold ev sw = (case ev of
     (point, Start) \<Rightarrow>
       let c = sw_count sw + 1 in
       if c \<ge> threshold \<and> c > best_count sw then sw\<lparr>sw_count := c, current_start := point\<rparr>
       else sw\<lparr>sw_count := c\<rparr>
   | (point, End) \<Rightarrow>
       let sw' = (if sw_count sw \<ge> threshold \<and> sw_count sw > best_count sw
                  then sw\<lparr>best_start := current_start sw, best_end := point, best_count := sw_count sw\<rparr>
                  else sw)
       in sw'\<lparr>sw_count := sw_count sw - 1\<rparr>)"

definition events_of :: "time_interval list \<Rightarrow> event list" where
  "events_of ivs = concat (map (\<lambda>iv. [(low iv, Start), (high iv, End)]) ivs)"

definition sweep_init :: sweep where
  "sweep_init = \<lparr>best_start = NaN, best_end = NaN, best_count = 0, sw_count = 0, current_start = NaN\<rparr>"

definition marzullo :: "time_interval list \<Rightarrow> time_interval option" where
  "marzullo ivs =
     (if ivs = [] then None
      else let threshold = of_nat (length ivs div 2 + 1);
               sw = foldl (\<lambda>sw ev. sweep_step threshold ev sw) sweep_init (sort_by event_le (events_of ivs))
           in if best_count sw \<ge> threshold then Some \<lparr>low = best_start sw, high = best_end sw\<rparr> else None)"

definition reject_geometric_outliers :: "(f64 \<times> f64) list \<Rightarrow> f64 \<Rightarrow> nat list" where
  "reject_geometric_outliers offsets max_residual =
     (let filtered = map fst (filter (\<lambda>(_, r). fle r max_residual) offsets) in
      if filtered = [] then []
      else let n = of_usize (length filtered);
               mean = fdiv (fsum filtered) n;
               variance = fdiv (fsum (map (\<lambda>x. fsq (fsub x mean)) filtered)) n;
               threshold = fmul (Fin (5 / 2)) (fsqrt variance)
           in map fst (filter (\<lambda>(_, offset, residual).
                flt max_residual residual \<or> flt threshold (fabs (fsub offset mean)))
                (enumerate 0 offsets)))"

section \<open>The sweep counts the covering intervals\<close>

text \<open>How many intervals contain a point, and the same number read off the events before it.\<close>

definition cover :: "time_interval list \<Rightarrow> rat \<Rightarrow> nat" where
  "cover ivs x = length (filter (\<lambda>iv. nval (low iv) \<le> x \<and> x \<le> nval (high iv)) ivs)"

definition interval_ok :: "time_interval \<Rightarrow> bool" where
  "interval_ok iv \<longleftrightarrow> \<not> is_nan (low iv) \<and> \<not> is_nan (high iv) \<and> nval (low iv) \<le> nval (high iv)"

definition cnt :: "event list \<Rightarrow> int" where
  "cnt evs = (\<Sum>ev\<leftarrow>evs. case snd ev of Start \<Rightarrow> 1 | End \<Rightarrow> - 1)"

definition before :: "rat \<Rightarrow> event \<Rightarrow> bool" where
  "before x ev = (case ev of (p, Start) \<Rightarrow> nval p \<le> x | (p, End) \<Rightarrow> nval p < x)"

lemma cnt_simps [simp]: "cnt [] = 0" "cnt ((p, Start) # evs) = 1 + cnt evs" "cnt ((p, End) # evs) = cnt evs - 1"
  "cnt (xs @ ys) = cnt xs + cnt ys"
  by (simp_all add: cnt_def)

lemma cnt_mset: "mset xs = mset ys \<Longrightarrow> cnt xs = cnt ys"
proof -
  have "cnt zs = (\<Sum>ev \<in># mset zs. case snd ev of Start \<Rightarrow> 1 | End \<Rightarrow> - 1)" for zs
    by (induction zs) (auto simp: cnt_def)
  then show "mset xs = mset ys \<Longrightarrow> cnt xs = cnt ys" by simp
qed

lemma cnt_cover:
  "\<forall>iv \<in> set ivs. interval_ok iv \<Longrightarrow> cnt (filter (before x) (events_of ivs)) = int (cover ivs x)"
  by (induction ivs) (auto simp: events_of_def cover_def before_def interval_ok_def)

lemma event_le_before:
  assumes "event_le a b" "before x b" "\<not> is_nan (fst a)" "\<not> is_nan (fst b)" shows "before x a"
  using assms by (cases a; cases b) (auto simp: event_le_def before_def flt_def split: event_type.splits if_splits)

lemma event_le_preorder:
  assumes "\<forall>ev \<in> S. \<not> is_nan (fst ev)" shows "preorder_on_list event_le S"
  unfolding preorder_on_list_def
proof (intro conjI ballI impI)
  fix a b assume "a \<in> S" "b \<in> S"
  then show "event_le a b \<or> event_le b a"
    using assms by (cases "snd a"; cases "snd b") (auto simp: event_le_def flt_def)
next
  fix a b c assume s: "a \<in> S" "b \<in> S" "c \<in> S" and l: "event_le a b" "event_le b c"
  then have n: "\<not> is_nan (fst a)" "\<not> is_nan (fst b)" "\<not> is_nan (fst c)" using assms by auto
  from l n show "event_le a c"
    by (cases "snd a"; cases "snd b"; cases "snd c") (auto simp: event_le_def flt_def split: if_splits)
qed

lemma sorted_split_before:
  assumes "sorted_wrt event_le evs" "\<forall>ev \<in> set evs. \<not> is_nan (fst ev)"
  shows "filter (before x) evs = takeWhile (before x) evs"
  using assms
proof (induction evs)
  case (Cons e evs)
  show ?case
  proof (cases "before x e")
    case False
    then have "\<not> before x b" if "b \<in> set evs" for b
      using event_le_before [of e b x] Cons.prems that by auto
    with False show ?thesis by (simp add: filter_empty_conv)
  qed (use Cons in simp)
qed simp

lemma events_not_nan: "\<forall>iv \<in> set ivs. interval_ok iv \<Longrightarrow> \<forall>ev \<in> set (events_of ivs). \<not> is_nan (fst ev)"
  by (auto simp: events_of_def interval_ok_def)

lemma cover_takeWhile:
  assumes "\<forall>iv \<in> set ivs. interval_ok iv"
  shows "int (cover ivs x) = cnt (takeWhile (before x) (sort_by event_le (events_of ivs)))"
proof -
  let ?evs = "sort_by event_le (events_of ivs)"
  have nn: "\<forall>ev \<in> set ?evs. \<not> is_nan (fst ev)" using events_not_nan [OF assms] by simp
  have "sorted_wrt event_le ?evs"
    using events_not_nan [OF assms] by (intro sorted_sort_by event_le_preorder)
  then have "takeWhile (before x) ?evs = filter (before x) ?evs" using nn by (simp add: sorted_split_before)
  moreover have "cnt (filter (before x) ?evs) = cnt (filter (before x) (events_of ivs))"
    by (rule cnt_mset) (simp add: mset_filter)
  ultimately show ?thesis using cnt_cover [OF assms] by simp
qed

section \<open>No prefix of the events closes more intervals than it opens\<close>

abbreviation starts_upto :: "rat \<Rightarrow> event list \<Rightarrow> nat" where
  "starts_upto p evs \<equiv> length (filter (\<lambda>ev. snd ev = Start \<and> nval (fst ev) \<le> p) evs)"

abbreviation ends_upto :: "rat \<Rightarrow> event list \<Rightarrow> nat" where
  "ends_upto p evs \<equiv> length (filter (\<lambda>ev. snd ev = End \<and> nval (fst ev) \<le> p) evs)"

lemma cnt_ge: "(\<forall>ev \<in> set q. snd ev = End \<longrightarrow> nval (fst ev) \<le> p) \<Longrightarrow>
    int (starts_upto p q) - int (ends_upto p q) \<le> cnt q"
proof (induction q)
  case (Cons ev q)
  obtain v k where "ev = (v, k)" by fastforce
  with Cons show ?case by (cases k) auto
qed simp

lemma ends_le_starts: "\<forall>iv \<in> set ivs. interval_ok iv \<Longrightarrow> ends_upto p (events_of ivs) \<le> starts_upto p (events_of ivs)"
  by (induction ivs) (auto simp: events_of_def interval_ok_def)

lemma length_filter_sort: "length (filter P (sort_by le xs)) = length (filter P xs)"
  by (metis mset_filter mset_sort_by size_mset)

lemma prefix_nonneg:
  assumes "\<forall>iv \<in> set ivs. interval_ok iv" "sort_by event_le (events_of ivs) = q @ r"
  shows "0 \<le> cnt q"
  using assms(2)
proof (induction q arbitrary: r rule: rev_induct)
  case (snoc b q)
  obtain v k where b: "b = (v, k)" by fastforce
  show ?case
  proof (cases k)
    case Start
    then show ?thesis using snoc.IH [of "b # r"] snoc.prems by (simp add: b)
  next
    case End
    let ?evs = "sort_by event_le (events_of ivs)" and ?p = "nval v"
    have nn: "\<forall>ev \<in> set ?evs. \<not> is_nan (fst ev)" using events_not_nan [OF assms(1)] by simp
    have srt: "sorted_wrt event_le ((q @ [b]) @ r)"
      using events_not_nan [OF assms(1)] snoc.prems by (metis sorted_sort_by event_le_preorder)
    have nanb: "\<not> is_nan v" using nn snoc.prems by (simp add: b)
    have "nval (fst ev) \<le> ?p" if "ev \<in> set (q @ [b])" "snd ev = End" for ev
    proof -
      have "ev = b \<or> event_le ev b" using srt that(1) by (auto simp: sorted_wrt_append)
      moreover have "\<not> is_nan (fst ev)" using nn that(1) snoc.prems by (metis UnCI set_append)
      ultimately show ?thesis using nanb by (auto simp: event_le_def b flt_def split: if_splits)
    qed
    then have "int (starts_upto ?p (q @ [b])) - int (ends_upto ?p (q @ [b])) \<le> cnt (q @ [b])"
      by (intro cnt_ge) blast
    moreover have "filter (\<lambda>ev. snd ev = Start \<and> nval (fst ev) \<le> ?p) r = []"
    proof -
      have "\<not> (snd ev = Start \<and> nval (fst ev) \<le> ?p)" if "ev \<in> set r" for ev
      proof -
        have "event_le b ev" using srt that by (auto simp: sorted_wrt_append)
        moreover have "\<not> is_nan (fst ev)" using nn that snoc.prems by (metis UnCI set_append)
        ultimately show ?thesis using nanb by (auto simp: event_le_def b End flt_def split: if_splits)
      qed
      then show ?thesis by (simp add: filter_empty_conv)
    qed
    then have "starts_upto ?p ?evs = starts_upto ?p (q @ [b])" unfolding snoc.prems by simp
    moreover have "ends_upto ?p (q @ [b]) \<le> ends_upto ?p ?evs" unfolding snoc.prems by simp
    ultimately show ?thesis using ends_le_starts [OF assms(1), of ?p] unfolding length_filter_sort by linarith
  qed
qed simp

section \<open>The sweep finds the deepest stretch\<close>

text \<open>What the state says of the events processed so far.\<close>

definition best_at :: "int \<Rightarrow> event list \<Rightarrow> sweep \<Rightarrow> bool" where
  "best_at th pre sw \<longleftrightarrow> best_count sw = 0 \<or> th \<le> uint (best_count sw) \<and>
     (\<exists>p1 p2. pre = p1 @ [(best_start sw, Start), (best_end sw, End)] @ p2 \<and> uint (best_count sw) = cnt p1 + 1)"

definition sweep_inv :: "int \<Rightarrow> event list \<Rightarrow> sweep \<Rightarrow> bool" where
  "sweep_inv th pre sw \<longleftrightarrow> uint (sw_count sw) = cnt pre \<and>
     best_at th pre sw \<and>
     (\<forall>q r. pre = q @ r \<longrightarrow> th \<le> cnt q \<longrightarrow> cnt q \<le> max (uint (best_count sw)) (cnt pre)) \<and>
     (th \<le> cnt pre \<longrightarrow> uint (best_count sw) < cnt pre \<longrightarrow> (\<exists>p1. pre = p1 @ [(current_start sw, Start)]))"

lemma best_at_snoc: "best_at th pre sw \<Longrightarrow> best_at th (pre @ [e]) sw"
  unfolding best_at_def by (metis append.assoc)

lemma best_at_cong:
  "best_at th pre sw \<Longrightarrow> best_count sw' = best_count sw \<Longrightarrow> best_start sw' = best_start sw \<Longrightarrow>
    best_end sw' = best_end sw \<Longrightarrow> best_at th pre sw'"
  by (simp add: best_at_def)

lemma snoc_split: "pre @ [e] = q @ r \<Longrightarrow> (r = [] \<and> q = pre @ [e]) \<or> (\<exists>r'. r = r' @ [e] \<and> pre = q @ r')"
  by (cases r rule: rev_cases) auto

lemma sweep_inv_start:
  assumes inv: "sweep_inv th pre sw" and th: "0 < th" "uint threshold = th"
    and c: "0 \<le> cnt pre" "cnt pre + 1 < 2 ^ 64"
  shows "sweep_inv th (pre @ [(p, Start)]) (sweep_step threshold (p, Start) sw)"
proof -
  define sw' where "sw' = sweep_step threshold (p, Start) sw"
  have u: "uint (sw_count sw + 1) = cnt pre + 1"
    using inv c by (simp add: sweep_inv_def uint_word_ariths mod_pos_pos_trivial)
  have sw': "sw_count sw' = sw_count sw + 1" "best_count sw' = best_count sw" "best_start sw' = best_start sw"
    "best_end sw' = best_end sw"
    "th \<le> cnt pre + 1 \<Longrightarrow> uint (best_count sw) < cnt pre + 1 \<Longrightarrow> current_start sw' = p"
    using u th by (auto simp: sw'_def sweep_step_def Let_def word_le_def word_less_def)
  have all: "cnt q \<le> max (uint (best_count sw)) (cnt pre)" if "pre = q @ r" "th \<le> cnt q" for q r
    using inv that unfolding sweep_inv_def by blast
  have "cnt q \<le> max (uint (best_count sw)) (cnt pre + 1)"
    if "pre @ [(p, Start)] = q @ r" "th \<le> cnt q" for q r
    using snoc_split [OF that(1)] all [OF _ that(2)] by (elim disjE conjE exE) (simp, force)
  moreover have "best_at th (pre @ [(p, Start)]) sw'"
    using inv sw' best_at_snoc best_at_cong [of th "pre @ [(p, Start)]" sw sw'] unfolding sweep_inv_def by blast
  moreover have c1: "cnt (pre @ [(p, Start)]) = cnt pre + 1" by simp
  moreover have "\<exists>p1. pre @ [(p, Start)] = p1 @ [(current_start sw', Start)]"
    if "th \<le> cnt pre + 1" "uint (best_count sw) < cnt pre + 1"
    using sw'(5) [OF that] by simp
  ultimately have "sweep_inv th (pre @ [(p, Start)]) sw'"
    unfolding sweep_inv_def c1 sw'(1,2) u by blast
  then show ?thesis by (simp add: sw'_def)
qed

lemma sweep_inv_end:
  assumes inv: "sweep_inv th pre sw" and th: "0 < th" "uint threshold = th"
    and c: "1 \<le> cnt pre" "cnt pre < 2 ^ 64"
  shows "sweep_inv th (pre @ [(p, End)]) (sweep_step threshold (p, End) sw)"
proof -
  define sw' where "sw' = sweep_step threshold (p, End) sw"
  have cp: "uint (sw_count sw) = cnt pre" using inv by (simp add: sweep_inv_def)
  have "uint (sw_count sw - 1) = cnt pre - 1"
    using cp c by (simp add: uint_word_ariths mod_pos_pos_trivial)
  then have cnt': "uint (sw_count sw') = cnt (pre @ [(p, End)])"
    by (simp add: sw'_def sweep_step_def Let_def)
  have all: "cnt q \<le> max (uint (best_count sw)) (cnt pre)" if "pre = q @ r" "th \<le> cnt q" for q r
    using inv that unfolding sweep_inv_def by blast
  show ?thesis
  proof (cases "th \<le> cnt pre \<and> uint (best_count sw) < cnt pre")
    case True
    then have sw': "best_count sw' = sw_count sw" "best_start sw' = current_start sw" "best_end sw' = p"
      using th(2) cp by (simp_all add: sw'_def sweep_step_def Let_def word_le_def word_less_def)
    obtain p1 where p1: "pre = p1 @ [(current_start sw, Start)]" using inv True unfolding sweep_inv_def by blast
    have "best_at th (pre @ [(p, End)]) sw'"
      unfolding best_at_def sw' cp using p1 True by (intro disjI2 conjI exI [of _ p1] exI [of _ "[]"]) simp_all
    moreover have "cnt q \<le> cnt pre" if "pre @ [(p, End)] = q @ r" "th \<le> cnt q" for q r
      using snoc_split [OF that(1)] all [OF _ that(2)] True by (elim disjE conjE exE) (simp, force)
    ultimately have "sweep_inv th (pre @ [(p, End)]) sw'"
      using cnt' cp True unfolding sweep_inv_def sw' by (auto simp: le_max_iff_disj)
    then show ?thesis by (simp add: sw'_def)
  next
    case False
    then have sw': "sw' = sw\<lparr>sw_count := sw_count sw - 1\<rparr>"
      using th(2) cp by (auto simp: sw'_def sweep_step_def Let_def word_le_def word_less_def)
    have best: "best_at th (pre @ [(p, End)]) sw'"
      using inv best_at_snoc best_at_cong [of th "pre @ [(p, End)]" sw sw'] unfolding sweep_inv_def sw' by simp
    have "cnt q \<le> uint (best_count sw)" if "pre @ [(p, End)] = q @ r" "th \<le> cnt q" for q r
    proof -
      have "th \<le> cnt pre \<Longrightarrow> cnt pre \<le> uint (best_count sw)" using False by linarith
      with snoc_split [OF that(1)] all [OF _ that(2)] that(2) show ?thesis
        by (elim disjE conjE exE) (simp, force simp: max_def split: if_splits)
    qed
    with best False have "sweep_inv th (pre @ [(p, End)]) sw'"
      using cnt' unfolding sweep_inv_def sw' by (auto simp: le_max_iff_disj)
    then show ?thesis by (simp add: sw'_def)
  qed
qed

lemma sweep_inv_all:
  assumes "evs = pre @ suf" "\<And>q r. evs = q @ r \<Longrightarrow> 0 \<le> cnt q" "int (length evs) < 2 ^ 63"
    and "0 < th" "uint threshold = th"
  shows "sweep_inv th pre (foldl (\<lambda>sw ev. sweep_step threshold ev sw) sweep_init pre)"
  using assms(1)
proof (induction pre arbitrary: suf rule: rev_induct)
  case Nil
  then show ?case using assms(4) by (simp add: sweep_inv_def best_at_def sweep_init_def)
next
  case (snoc e pre)
  have le: "cnt q \<le> int (length q)" for q
    by (induction q) (auto simp: cnt_def split: event_type.splits)
  have c: "0 \<le> cnt pre" "0 \<le> cnt (pre @ [e])"
    using assms(2) [of pre "e # suf"] assms(2) [of "pre @ [e]" suf] snoc.prems by simp_all
  have l: "cnt pre + 1 < 2 ^ 64" using le [of pre] assms(3) snoc.prems by simp
  have inv: "sweep_inv th pre (foldl (\<lambda>sw ev. sweep_step threshold ev sw) sweep_init pre)"
    using snoc.IH [of "e # suf"] snoc.prems by simp
  obtain p k where e: "e = (p, k)" by fastforce
  show ?case
  proof (cases k)
    case Start
    then show ?thesis using sweep_inv_start [OF inv assms(4,5) c(1) l] by (simp add: e)
  next
    case End
    then have "1 \<le> cnt pre" "cnt pre < 2 ^ 64" using c(2) l by (simp_all add: e)
    then show ?thesis using sweep_inv_end [OF inv assms(4,5)] End by (simp add: e)
  qed
qed

lemma cnt_events: "cnt (events_of ivs) = 0"
  by (induction ivs) (auto simp: events_of_def)

lemma length_events [simp]: "length (events_of ivs) = 2 * length ivs"
  by (induction ivs) (auto simp: events_of_def)

lemma stretch_cover:
  assumes ok: "\<forall>iv \<in> set ivs. interval_ok iv"
    and evs: "sort_by event_le (events_of ivs) = p1 @ [(s, Start), (e, End)] @ p2"
    and x: "nval s \<le> x" "x \<le> nval e"
  shows "int (cover ivs x) = cnt p1 + 1"
proof -
  have nn: "\<forall>ev \<in> set (p1 @ [(s, Start), (e, End)] @ p2). \<not> is_nan (fst ev)"
    using events_not_nan [OF ok] evs by (metis set_sort_by)
  have srt: "sorted_wrt event_le (p1 @ [(s, Start), (e, End)] @ p2)"
    using events_not_nan [OF ok] evs by (metis sorted_sort_by event_le_preorder)
  have bs: "before x (s, Start)" "\<not> before x (e, End)" using x by (simp_all add: before_def)
  have "\<forall>a \<in> set p1. before x a"
    using srt nn bs(1) by (auto simp: sorted_wrt_append intro: event_le_before)
  then have "takeWhile (before x) (p1 @ [(s, Start), (e, End)] @ p2) = p1 @ [(s, Start)]" using bs by simp
  then show ?thesis using cover_takeWhile [OF ok, of x] by (simp add: evs)
qed

section \<open>Properties\<close>

text \<open>
  (C14) Marzullo's algorithm is correct. For intervals whose ends are numbers in order, the sweep
  returns an interval exactly when some point lies in a strict majority of the intervals, and then
  every point of it lies in the same number of intervals, which no point exceeds.
\<close>

theorem marzullo_correct:
  assumes ok: "\<forall>iv \<in> set ivs. interval_ok iv" and len: "length ivs < 2 ^ 61"
  shows "case marzullo ivs of
      None \<Rightarrow> \<forall>x. 2 * cover ivs x \<le> length ivs
    | Some iv \<Rightarrow> nval (low iv) \<le> nval (high iv) \<and> (\<exists>k. length ivs < 2 * k \<and>
        (\<forall>x. nval (low iv) \<le> x \<and> x \<le> nval (high iv) \<longrightarrow> cover ivs x = k) \<and> (\<forall>y. cover ivs y \<le> k))"
proof (cases "ivs = []")
  case True
  then show ?thesis by (simp add: marzullo_def cover_def)
next
  case False
  define evs where "evs = sort_by event_le (events_of ivs)"
  define th where "th = int (length ivs div 2 + 1)"
  define threshold :: u64 where "threshold = of_nat (length ivs div 2 + 1)"
  define sw where "sw = foldl (\<lambda>sw ev. sweep_step threshold ev sw) sweep_init evs"
  have "length ivs div 2 + 1 < 2 ^ 64" using len by simp
  then have "unat threshold = length ivs div 2 + 1" unfolding threshold_def by (rule unat_of_nat_u64)
  then have t: "0 < th" "uint threshold = th" by (simp_all only: th_def uint_unat)
  have l: "int (length evs) < 2 ^ 63" using len by (simp add: evs_def)
  have nonneg: "0 \<le> cnt q" if "evs = q @ r" for q r using prefix_nonneg [OF ok, of q r] that by (simp add: evs_def)
  have inv: "sweep_inv th evs sw" unfolding sw_def
    by (rule sweep_inv_all [of evs _ "[]"]) (use nonneg l t in auto)
  have c0: "cnt evs = 0" using cnt_mset [of evs "events_of ivs"] cnt_events by (simp add: evs_def)
  have deep: "int (cover ivs x) \<le> uint (best_count sw)" if "th \<le> int (cover ivs x)" for x
  proof -
    have "evs = takeWhile (before x) evs @ dropWhile (before x) evs" by simp
    then have "cnt (takeWhile (before x) evs) \<le> max (uint (best_count sw)) 0"
      using inv that c0 cover_takeWhile [OF ok, of x] unfolding sweep_inv_def evs_def [symmetric] by metis
    then show ?thesis using cover_takeWhile [OF ok, of x] by (simp add: evs_def [symmetric])
  qed
  have m: "marzullo ivs = (if th \<le> uint (best_count sw) then Some \<lparr>low = best_start sw, high = best_end sw\<rparr> else None)"
    using False t(2) by (simp add: marzullo_def Let_def sw_def evs_def threshold_def word_le_def)
  show ?thesis
  proof (cases "th \<le> uint (best_count sw)")
    case False
    then have "\<not> th \<le> int (cover ivs x)" for x using deep [of x] by linarith
    then have "cover ivs x \<le> length ivs div 2" for x using not_le [of th "int (cover ivs x)"] unfolding th_def by auto
    then have "2 * cover ivs x \<le> length ivs" for x by (metis mult.commute less_eq_div_iff_mult_less_eq zero_less_numeral)
    with False m show ?thesis by simp
  next
    case True
    then have "best_count sw \<noteq> 0" using t(1) by auto
    then obtain p1 p2 where p: "evs = p1 @ [(best_start sw, Start), (best_end sw, End)] @ p2"
      "uint (best_count sw) = cnt p1 + 1"
      using inv unfolding sweep_inv_def best_at_def by blast
    define k where "k = nat (uint (best_count sw))"
    have k: "int k = uint (best_count sw)" by (simp add: k_def)
    have st: "cover ivs x = k" if "nval (best_start sw) \<le> x" "x \<le> nval (best_end sw)" for x
      using stretch_cover [OF ok p(1) [unfolded evs_def] that] p(2) k by linarith
    have "cover ivs y \<le> k" for y
      using deep [of y] k True by (cases "th \<le> int (cover ivs y)") linarith+
    moreover have "length ivs < 2 * k" using True k unfolding th_def by presburger
    moreover have "nval (best_start sw) \<le> nval (best_end sw)"
    proof -
      have "sorted_wrt event_le evs"
        using events_not_nan [OF ok] unfolding evs_def by (intro sorted_sort_by event_le_preorder)
      then have "event_le (best_start sw, Start) (best_end sw, End)" by (simp add: p(1) sorted_wrt_append)
      moreover have "\<not> is_nan (best_start sw)" "\<not> is_nan (best_end sw)"
        using events_not_nan [OF ok] p(1) set_sort_by [of event_le "events_of ivs"] unfolding evs_def by force+
      ultimately show ?thesis by (auto simp: event_le_def flt_def split: if_splits)
    qed
    ultimately show ?thesis using m True st by auto
  qed
qed

theorem marzullo_correct_witness:
  "marzullo [\<lparr>low = Fin 0, high = Fin 2\<rparr>, \<lparr>low = Fin 1, high = Fin 3\<rparr>, \<lparr>low = Fin 5, high = Fin 6\<rparr>] =
     Some \<lparr>low = Fin 1, high = Fin 2\<rparr> \<and>
   (\<forall>y. cover [\<lparr>low = Fin 0, high = Fin 2\<rparr>, \<lparr>low = Fin 1, high = Fin 3\<rparr>, \<lparr>low = Fin 5, high = Fin 6\<rparr>] y \<le>
      cover [\<lparr>low = Fin 0, high = Fin 2\<rparr>, \<lparr>low = Fin 1, high = Fin 3\<rparr>, \<lparr>low = Fin 5, high = Fin 6\<rparr>] 1)"
proof -
  let ?ivs = "[\<lparr>low = Fin 0, high = Fin 2\<rparr>, \<lparr>low = Fin 1, high = Fin 3\<rparr>, \<lparr>low = Fin 5, high = Fin 6\<rparr>]"
  have m: "marzullo ?ivs = Some \<lparr>low = Fin 1, high = Fin 2\<rparr>"
    by (simp add: marzullo_def events_of_def sort_by_def event_le_def flt_def sweep_step_def sweep_init_def Let_def
        word_le_def word_less_def)
  have "case marzullo ?ivs of
      None \<Rightarrow> \<forall>x. 2 * cover ?ivs x \<le> length ?ivs
    | Some iv \<Rightarrow> nval (low iv) \<le> nval (high iv) \<and> (\<exists>k. length ?ivs < 2 * k \<and>
        (\<forall>x. nval (low iv) \<le> x \<and> x \<le> nval (high iv) \<longrightarrow> cover ?ivs x = k) \<and> (\<forall>y. cover ?ivs y \<le> k))"
    by (rule marzullo_correct) (simp_all add: interval_ok_def)
  then obtain k where "\<forall>x. 1 \<le> x \<and> x \<le> 2 \<longrightarrow> cover ?ivs x = k" "\<forall>y. cover ?ivs y \<le> k"
    unfolding m by auto
  then have "\<forall>y. cover ?ivs y \<le> cover ?ivs 1" by simp
  with m show ?thesis by blast
qed

text \<open>
  When no estimate fits the geometry, none is rejected: if every residual exceeds the limit,
  \<open>reject_geometric_outliers\<close> returns no index at all; if one fits, every index whose residual
  exceeds the limit is returned.
\<close>

theorem reject_outliers_residual:
  "(if \<forall>(x, r) \<in> set offsets. \<not> fle r max_residual then reject_geometric_outliers offsets max_residual = []
    else \<forall>i < length offsets. flt max_residual (snd (offsets ! i)) \<longrightarrow>
      i \<in> set (reject_geometric_outliers offsets max_residual))"
proof (cases "\<forall>(x, r) \<in> set offsets. \<not> fle r max_residual")
  case True
  then have "filter (\<lambda>(_, r). fle r max_residual) offsets = []" by (auto simp: filter_empty_conv)
  with True show ?thesis by (simp add: reject_geometric_outliers_def Let_def)
next
  case False
  then have ne: "filter (\<lambda>(_, r). fle r max_residual) offsets \<noteq> []" by (auto simp: filter_empty_conv)
  have "i \<in> set (reject_geometric_outliers offsets max_residual)"
    if i: "i < length offsets" "flt max_residual (snd (offsets ! i))" for i
  proof -
    obtain x r where xr: "offsets ! i = (x, r)" by fastforce
    then have "(i, x, r) \<in> set (enumerate 0 offsets)" using i(1) by (auto simp: in_set_enumerate_eq)
    moreover have "flt max_residual r" using i(2) xr by simp
    ultimately show ?thesis using ne
      by (auto simp: reject_geometric_outliers_def Let_def image_iff case_prod_unfold)
  qed
  with False show ?thesis by auto
qed

theorem reject_outliers_residual_witness:
  "reject_geometric_outliers [(Fin 1, Fin 5), (Fin 2, Fin 7)] (Fin 1) = []"
  using reject_outliers_residual [of "[(Fin 1, Fin 5), (Fin 2, Fin 7)]" "Fin 1"] by (simp add: fle_def)

end
