(* ===== verification/Ntp.thy ===== *)
theory Ntp
  imports Types
begin

text \<open>
  \<open>rtfsn-core/src/sync/ntp.rs\<close>: NTP packets, timestamps and the check of a server's reply. \<open>i8\<close>
  fields are their eight bits.
\<close>

unbundle bit_operations_syntax

definition PACKET_LEN :: nat where "PACKET_LEN = 48"
definition UNIX_TO_NTP_S :: u64 where "UNIX_TO_NTP_S = 2208988800"
definition ERA_S :: u64 where "ERA_S = 4294967296"
definition MODE_CLIENT :: u8 where "MODE_CLIENT = 3"
definition MODE_SERVER :: u8 where "MODE_SERVER = 4"
definition LEAP_UNSYNCHRONIZED :: u8 where "LEAP_UNSYNCHRONIZED = 3"

record packet =
  leap :: u8
  version :: u8
  mode :: u8
  stratum :: u8
  poll :: "8 word"
  precision :: "8 word"
  root_delay :: u32
  root_dispersion :: u32
  reference_id :: bytes
  reference_ts :: u64
  origin_ts :: u64
  receive_ts :: u64
  transmit_ts :: u64

datatype ntp_error = Short | NotServer u8 | WrongOrigin | KissOfDeath bytes | Unsynchronized | ZeroTimestamp

definition packet_encode :: "packet \<Rightarrow> bytes" where
  "packet_encode p =
     [push_bit 6 (leap p AND 3) OR push_bit 3 (version p AND 7) OR (mode p AND 7),
      stratum p, poll p, precision p]
     @ u32_be (root_delay p) @ u32_be (root_dispersion p) @ reference_id p
     @ u64_be (reference_ts p) @ u64_be (origin_ts p) @ u64_be (receive_ts p) @ u64_be (transmit_ts p)"

definition sub_bytes :: "nat \<Rightarrow> nat \<Rightarrow> 'a list \<Rightarrow> 'a list" where
  "sub_bytes i n xs = take n (drop i xs)"

definition packet_decode :: "bytes \<Rightarrow> ntp_error + packet" where
  "packet_decode b =
     (if length b < PACKET_LEN then Inl Short
      else Inr \<lparr>leap = drop_bit 6 (b ! 0), version = drop_bit 3 (b ! 0) AND 7, mode = b ! 0 AND 7,
                stratum = b ! 1, poll = b ! 2, precision = b ! 3,
                root_delay = u32_from_be (sub_bytes 4 4 b), root_dispersion = u32_from_be (sub_bytes 8 4 b),
                reference_id = sub_bytes 12 4 b, reference_ts = u64_from_be (sub_bytes 16 8 b),
                origin_ts = u64_from_be (sub_bytes 24 8 b), receive_ts = u64_from_be (sub_bytes 32 8 b),
                transmit_ts = u64_from_be (sub_bytes 40 8 b)\<rparr>)"

definition to_ntp :: "u64 \<Rightarrow> u64" where
  "to_ntp unix_ns =
     (let secs = unix_ns div 1000000000 + UNIX_TO_NTP_S;
          frac = push_bit 32 (unix_ns mod 1000000000) div 1000000000
      in push_bit 32 (secs mod ERA_S) OR frac)"

definition from_ntp :: "u64 \<Rightarrow> u64 \<Rightarrow> u64" where
  "from_ntp ts near_unix_ns =
     (let secs = drop_bit 32 ts;
          frac_ns = drop_bit 32 ((ts AND 0xFFFFFFFF) * 1000000000 + 0x80000000);
          near_ntp = near_unix_ns div 1000000000 + UNIX_TO_NTP_S;
          era = near_ntp div ERA_S;
          best = the (min_by_key (\<lambda>s. abs_diff_u64 s near_ntp)
            (map (\<lambda>e. e * ERA_S + secs) [saturating_sub_u64 era 1, era, era + 1]))
      in saturating_sub_u64 best UNIX_TO_NTP_S * 1000000000 + frac_ns)"

definition short_to_ns :: "u32 \<Rightarrow> u64" where
  "short_to_ns v = drop_bit 16 (ucast v * 1000000000)"

definition request_packet :: "u64 \<Rightarrow> packet" where
  "request_packet cookie = \<lparr>leap = 0, version = 4, mode = MODE_CLIENT, stratum = 0, poll = 4, precision = - 20,
     root_delay = 0, root_dispersion = 0, reference_id = [0, 0, 0, 0], reference_ts = 0, origin_ts = 0,
     receive_ts = 0, transmit_ts = cookie\<rparr>"

definition request :: "u64 \<Rightarrow> bytes" where
  "request cookie = packet_encode (request_packet cookie)"

record reply =
  t2_ns :: u64
  t3_ns :: u64
  rp_stratum :: u8
  rp_leap :: u8
  rp_reference_id :: bytes
  root_delay_ns :: u64
  root_dispersion_ns :: u64

definition root_distance_ns :: "reply \<Rightarrow> f64" where
  "root_distance_ns r = fadd (fdiv (of_u64 (root_delay_ns r)) (Fin 2)) (of_u64 (root_dispersion_ns r))"

fun dec_digits :: "nat \<Rightarrow> string" where
  "dec_digits n = (if n < 10 then [char_of (48 + n)] else dec_digits (n div 10) @ [char_of (48 + n mod 10)])"

declare dec_digits.simps [simp del]

definition is_ascii_graphic :: "u8 \<Rightarrow> bool" where
  "is_ascii_graphic c \<longleftrightarrow> 33 \<le> c \<and> c \<le> 126"

definition reference :: "reply \<Rightarrow> string" where
  "reference r = (let i = rp_reference_id r in
     if rp_stratum r \<le> 1 \<and> (\<forall>c \<in> set i. is_ascii_graphic c \<or> c = 0)
     then map (\<lambda>c. char_of (unat c)) (takeWhile (\<lambda>c. c \<noteq> 0) i)
     else dec_digits (unat (i ! 0)) @ ''.'' @ dec_digits (unat (i ! 1)) @ ''.'' @
          dec_digits (unat (i ! 2)) @ ''.'' @ dec_digits (unat (i ! 3)))"

definition parse_reply :: "bytes \<Rightarrow> u64 \<Rightarrow> u64 \<Rightarrow> ntp_error + reply" where
  "parse_reply b cookie near =
     (case packet_decode b of Inl e \<Rightarrow> Inl e | Inr p \<Rightarrow>
      if mode p \<noteq> MODE_SERVER then Inl (NotServer (mode p))
      else if origin_ts p \<noteq> cookie then Inl WrongOrigin
      else if stratum p = 0 then Inl (KissOfDeath (reference_id p))
      else if leap p = LEAP_UNSYNCHRONIZED \<or> stratum p \<ge> 16 then Inl Unsynchronized
      else if receive_ts p = 0 \<or> transmit_ts p = 0 then Inl ZeroTimestamp
      else Inr \<lparr>t2_ns = from_ntp (receive_ts p) near, t3_ns = from_ntp (transmit_ts p) near,
                rp_stratum = stratum p, rp_leap = leap p, rp_reference_id = reference_id p,
                root_delay_ns = short_to_ns (root_delay p),
                root_dispersion_ns = short_to_ns (root_dispersion p)\<rparr>)"

section \<open>Packets\<close>

definition packet_ok :: "packet \<Rightarrow> bool" where
  "packet_ok p \<longleftrightarrow> leap p < 4 \<and> version p < 8 \<and> mode p < 8 \<and> length (reference_id p) = 4"

lemma header_byte:
  "\<forall>l \<in> {0, 1, 2, 3 :: u8}. \<forall>v \<in> {0, 1, 2, 3, 4, 5, 6, 7 :: u8}. \<forall>m \<in> {0, 1, 2, 3, 4, 5, 6, 7 :: u8}.
    (let b = push_bit 6 (l AND 3) OR push_bit 3 (v AND 7) OR (m AND 7)
     in drop_bit 6 b = l \<and> drop_bit 3 b AND 7 = v \<and> b AND 7 = m)"
  by code_simp

lemma u8_below:
  "(w :: u8) < 4 \<longleftrightarrow> w \<in> {0, 1, 2, 3}" "(w :: u8) < 8 \<longleftrightarrow> w \<in> {0, 1, 2, 3, 4, 5, 6, 7}"
proof -
  have "(w :: u8) = of_nat (unat w)" by simp
  moreover have "n < 4 \<longleftrightarrow> n \<in> {0, 1, 2, 3}" "n < 8 \<longleftrightarrow> n \<in> {0, 1, 2, 3, 4, 5, 6, 7}" for n :: nat by auto
  ultimately show "(w :: u8) < 4 \<longleftrightarrow> w \<in> {0, 1, 2, 3}" "(w :: u8) < 8 \<longleftrightarrow> w \<in> {0, 1, 2, 3, 4, 5, 6, 7}"
    by (auto simp: word_less_nat_alt word_unat_eq_iff)
qed

lemma header_byte_fields:
  assumes "l < 4" "v < 8" "m < 8"
  defines "b \<equiv> push_bit 6 (l AND 3) OR push_bit 3 (v AND 7) OR (m AND 7) :: u8"
  shows "drop_bit 6 b = l \<and> drop_bit 3 b AND 7 = v \<and> b AND 7 = m"
  using bspec [OF bspec [OF bspec [OF header_byte]], of l v m] assms(1-3)
  unfolding u8_below Let_def b_def by blast

lemma sub_bytes_skip: "length xs \<le> i \<Longrightarrow> sub_bytes i n (xs @ ys) = sub_bytes (i - length xs) n ys"
  by (simp add: sub_bytes_def)

lemma sub_bytes_here: "length xs = n \<Longrightarrow> sub_bytes 0 n (xs @ ys) = xs"
  by (simp add: sub_bytes_def)

lemma packet_encode_split:
  "\<exists>hdr. length hdr = 4 \<and> packet_encode p = hdr @ u32_be (root_delay p) @ u32_be (root_dispersion p) @ reference_id p
    @ u64_be (reference_ts p) @ u64_be (origin_ts p) @ u64_be (receive_ts p) @ u64_be (transmit_ts p)"
  by (intro exI [of _ "take 4 (packet_encode p)"]) (simp add: packet_encode_def)

lemma packet_roundtrip:
  assumes "packet_ok p" shows "packet_decode (packet_encode p @ ext) = Inr p"
proof -
  let ?b = "packet_encode p @ ext"
  have hb: "drop_bit 6 (?b ! 0) = leap p" "drop_bit 3 (?b ! 0) AND 7 = version p" "?b ! 0 AND 7 = mode p"
    using header_byte_fields [of "leap p" "version p" "mode p"] assms
    unfolding packet_ok_def packet_encode_def append.simps nth_Cons_0 by blast+
  have len: "\<not> length ?b < PACKET_LEN" using assms by (simp add: packet_encode_def PACKET_LEN_def packet_ok_def)
  have rid: "length (reference_id p) = 4" using assms by (simp add: packet_ok_def)
  have f: "sub_bytes 4 4 ?b = u32_be (root_delay p)" "sub_bytes 8 4 ?b = u32_be (root_dispersion p)"
    "sub_bytes 12 4 ?b = reference_id p" "sub_bytes 16 8 ?b = u64_be (reference_ts p)" "sub_bytes 24 8 ?b = u64_be (origin_ts p)"
    "sub_bytes 32 8 ?b = u64_be (receive_ts p)" "sub_bytes 40 8 ?b = u64_be (transmit_ts p)"
  proof -
    obtain hdr where "length hdr = 4" "?b = hdr @ u32_be (root_delay p) @ u32_be (root_dispersion p) @ reference_id p
        @ u64_be (reference_ts p) @ u64_be (origin_ts p) @ u64_be (receive_ts p) @ u64_be (transmit_ts p) @ ext"
      using packet_encode_split [of p] by (auto simp only: append.assoc)
    with rid show "sub_bytes 4 4 ?b = u32_be (root_delay p)" "sub_bytes 8 4 ?b = u32_be (root_dispersion p)"
      "sub_bytes 12 4 ?b = reference_id p" "sub_bytes 16 8 ?b = u64_be (reference_ts p)"
      "sub_bytes 24 8 ?b = u64_be (origin_ts p)" "sub_bytes 32 8 ?b = u64_be (receive_ts p)"
      "sub_bytes 40 8 ?b = u64_be (transmit_ts p)"
      by (simp_all add: sub_bytes_skip sub_bytes_here)
  qed
  have "?b ! 1 = stratum p" "?b ! 2 = poll p" "?b ! 3 = precision p" by (simp_all add: packet_encode_def)
  then show ?thesis using len unfolding packet_decode_def f hb by simp
qed

section \<open>Timestamps\<close>

lemma unat_plus_small: "unat a + unat b < 2 ^ 64 \<Longrightarrow> unat (a + b :: u64) = unat a + unat b"
  using unat_add_lem [of a b] by simp

lemma unat_times_small: "unat a * unat b < 2 ^ 64 \<Longrightarrow> unat (a * b :: u64) = unat a * unat b"
  using unat_mult_lem [of a b] by simp

lemma unat_shift_small: "unat a * 2 ^ k < 2 ^ 64 \<Longrightarrow> unat (push_bit k a :: u64) = unat a * 2 ^ k"
proof -
  assume a: "unat a * 2 ^ k < 2 ^ 64"
  have "unat (push_bit k a) = take_bit LENGTH(64) (push_bit k (unat a))" by (rule unsigned_push_bit_eq)
  also have "\<dots> = unat a * 2 ^ k" using a by (simp add: push_bit_eq_mult [of k "unat a"] take_bit_nat_eq_self)
  finally show ?thesis .
qed

lemma ns_secs: "unat (ns div 1000000000 + UNIX_TO_NTP_S) = unat ns div 1000000000 + 2208988800"
proof -
  have "unat ns < 2 ^ 64" using unsigned_less [of ns] by simp
  then have "unat ns div 1000000000 + 2208988800 < 2 ^ 64" by simp
  then show ?thesis by (subst unat_plus_small) (simp_all add: unat_div UNIX_TO_NTP_S_def)
qed

lemma or_low_high:
  assumes "unat (f :: u64) < 2 ^ 32" shows "push_bit 32 a OR f = push_bit 32 a + f"
proof -
  have t: "take_bit 32 f = f"
    using assms by (metis take_bit_nat_eq_self unsigned_take_bit_eq unsigned_word_eqI)
  have "push_bit 32 a AND take_bit 32 f = 0"
    by (rule bit_eqI) (auto simp: bit_simps)
  then show ?thesis using disjunctive_add_eq_or [of "push_bit 32 a" f] t by simp
qed

lemma unat_to_ntp:
  "unat (to_ntp ns) = (unat ns div 1000000000 + 2208988800) mod 2 ^ 32 * 2 ^ 32
     + unat ns mod 1000000000 * 2 ^ 32 div 1000000000"
proof -
  let ?s = "(ns div 1000000000 + UNIX_TO_NTP_S) mod ERA_S"
  let ?f = "push_bit 32 (ns mod 1000000000) div 1000000000"
  have s: "unat ?s = (unat ns div 1000000000 + 2208988800) mod 2 ^ 32"
    by (simp only: unat_mod ns_secs) (simp add: ERA_S_def)
  have m: "unat (ns mod 1000000000) < 1000000000" by (simp add: unat_mod)
  then have "unat (push_bit 32 (ns mod 1000000000)) = unat ns mod 1000000000 * 2 ^ 32"
    by (subst unat_shift_small) (simp_all add: unat_mod)
  then have f: "unat ?f = unat ns mod 1000000000 * 2 ^ 32 div 1000000000" by (simp add: unat_div)
  have "unat ns mod 1000000000 * 2 ^ 32 < 1000000000 * 2 ^ 32" by simp
  then have f32: "unat ?f < 2 ^ 32" unfolding f by (simp add: less_mult_imp_div_less)
  have "unat ?s < 2 ^ 32" unfolding s by simp
  then have "unat ?s * 2 ^ 32 + 2 ^ 32 \<le> 2 ^ 64" by simp
  moreover from this have sh: "unat (push_bit 32 ?s) = unat ?s * 2 ^ 32" by (intro unat_shift_small) simp
  ultimately have "unat (push_bit 32 ?s + ?f) = unat ?s * 2 ^ 32 + unat ?f"
    using f32 by (subst unat_plus_small) linarith+
  then show ?thesis unfolding to_ntp_def Let_def or_low_high [OF f32] s f .
qed

text \<open>The rounded fraction of a whole number of nanoseconds is that number.\<close>

lemma frac_roundtrip:
  assumes "f < (1000000000 :: nat)"
  shows "(f * 2 ^ 32 div 1000000000 * 1000000000 + 2 ^ 31) div 2 ^ 32 = f"
proof -
  define q where "q = f * 2 ^ 32 div 1000000000"
  have "f * 2 ^ 32 = q * 1000000000 + f * 2 ^ 32 mod 1000000000" unfolding q_def by (rule div_mult_mod_eq [symmetric])
  moreover have "f * 2 ^ 32 mod 1000000000 < 1000000000" by simp
  ultimately have "f * 2 ^ 32 \<le> q * 1000000000 + 2 ^ 31" "q * 1000000000 + 2 ^ 31 < (f + 1) * 2 ^ 32"
    by simp_all
  then show ?thesis unfolding q_def [symmetric] by (intro div_nat_eqI) (simp_all add: mult.commute)
qed

lemma and_low_32: "unat (ts AND 0xFFFFFFFF :: u64) = unat ts mod 2 ^ 32"
proof -
  have "ts AND 0xFFFFFFFF = take_bit 32 ts" by (simp add: take_bit_eq_mask mask_eq_exp_minus_1)
  then show ?thesis by (simp add: take_bit_eq_mod unat_mod)
qed

lemma frac_ns_of:
  assumes "unat ts mod 2 ^ 32 = f * 2 ^ 32 div 1000000000" "f < 1000000000"
  shows "unat (drop_bit 32 ((ts AND 0xFFFFFFFF) * 1000000000 + 0x80000000) :: u64) = f"
proof -
  let ?l = "ts AND 0xFFFFFFFF"
  have l: "unat ?l < 2 ^ 32" by (simp add: and_low_32)
  then have m: "unat (?l * 1000000000) = unat ?l * 1000000000" by (subst unat_times_small) simp_all
  with l have "unat (?l * 1000000000 + 0x80000000) = unat ?l * 1000000000 + 2 ^ 31"
    by (subst unat_plus_small) simp_all
  then have "unat (drop_bit 32 (?l * 1000000000 + 0x80000000)) = (unat ?l * 1000000000 + 2 ^ 31) div 2 ^ 32"
    using trans [OF unat_drop_bit_eq drop_bit_eq_div] by metis
  also have "\<dots> = f" unfolding and_low_32 assms(1) using assms(2) by (rule frac_roundtrip)
  finally show ?thesis .
qed

lemma div_close:
  assumes "0 < M" "a < b + M" shows "a div M \<le> b div M + (1 :: nat)"
proof -
  have "a div M \<le> (b + M) div M" using assms(2) by (intro div_le_mono) simp
  then show ?thesis using assms(1) by simp
qed

lemma mod_close_eq:
  assumes "x mod M = y mod M" "x < y + M" "y < x + (M :: nat)" shows "x = y"
proof -
  have "x \<le> y" if "x mod M = y mod M" "x < y + M" for x y
  proof (rule ccontr)
    assume "\<not> x \<le> y"
    then have "M dvd x - y" "0 < x - y" "x - y < M"
      using that mod_eq_dvd_iff_nat [of y x M] by auto
    then show False using nat_dvd_not_less by blast
  qed
  from this [OF assms(1,2)] this [OF assms(1) [symmetric] assms(3)] show ?thesis by simp
qed

text \<open>The era nearest to a clock within 68 years is the right one.\<close>

lemma era_choice:
  assumes N: "unat near_ntp = N" "N < 2 ^ 36" and s: "unat secs = S mod 2 ^ 32"
    and d: "\<bar>int S - int N\<bar> < 2 ^ 31"
  defines "era \<equiv> near_ntp div ERA_S"
  defines "cands \<equiv> map (\<lambda>e. e * ERA_S + secs) [saturating_sub_u64 era 1, era, era + 1]"
  shows "unat (the (min_by_key (\<lambda>s. abs_diff_u64 s near_ntp) cands)) = S"
proof -
  have era: "unat era = N div 2 ^ 32" by (simp add: era_def unat_div ERA_S_def N(1))
  have eb: "N div 2 ^ 32 < 16" using N(2) by (simp add: less_mult_imp_div_less)
  have e1: "unat (saturating_sub_u64 era 1) = N div 2 ^ 32 - 1"
    using era by (cases "era = 0") (auto simp: saturating_sub_u64_def word_less_nat_alt unat_sub word_le_nat_alt)
  have e3: "unat (era + 1) = N div 2 ^ 32 + 1" using era eb by (subst unat_plus_small) simp_all
  have cand: "unat (e * ERA_S + secs) = unat e * 2 ^ 32 + S mod 2 ^ 32" if "unat e < 17" for e
  proof -
    have m: "unat (e * ERA_S) = unat e * 2 ^ 32" using that by (subst unat_times_small) (simp_all add: ERA_S_def)
    then show ?thesis using that s by (subst unat_plus_small) simp_all
  qed
  let ?k = "\<lambda>s. abs_diff_u64 s near_ntp"
  have key: "int (unat (?k c)) = \<bar>int (unat c) - int N\<bar>" for c
  proof (cases "c < near_ntp")
    case True
    then have "unat (near_ntp - c) = N - unat c" "unat c < N"
      using N(1) by (simp_all add: unat_sub less_imp_le word_less_nat_alt)
    with True show ?thesis by (simp add: abs_diff_u64_def del: of_nat_unat)
  next
    case False
    then have "unat (c - near_ntp) = unat c - N" "N \<le> unat c"
      using N(1) by (simp_all add: unat_sub not_less word_le_nat_alt)
    with False show ?thesis by (simp add: abs_diff_u64_def del: of_nat_unat)
  qed
  have "cands \<noteq> []" by (simp add: cands_def)
  then obtain b where b: "min_by_key ?k cands = Some b" using min_by_key_None [of ?k cands] by blast
  have bc: "b \<in> set cands" "\<And>c. c \<in> set cands \<Longrightarrow> ?k b \<le> ?k c" using min_by_key_Some [OF b] by simp_all
  have "\<exists>c \<in> set cands. unat c = S"
  proof -
    have "S div 2 ^ 32 = N div 2 ^ 32 - 1 \<or> S div 2 ^ 32 = N div 2 ^ 32 \<or> S div 2 ^ 32 = N div 2 ^ 32 + 1"
    proof -
      have "S < N + 2 ^ 32" "N < S + 2 ^ 32" using d by (simp_all add: abs_less_iff)
      then have "S div 2 ^ 32 \<le> N div 2 ^ 32 + 1" "N div 2 ^ 32 \<le> S div 2 ^ 32 + 1"
        using div_close [of "2 ^ 32"] by simp_all
      then show ?thesis by linarith
    qed
    moreover have "S = S div 2 ^ 32 * 2 ^ 32 + S mod 2 ^ 32" by simp
    moreover have "unat (saturating_sub_u64 era 1 * ERA_S + secs) = (N div 2 ^ 32 - 1) * 2 ^ 32 + S mod 2 ^ 32"
      "unat (era * ERA_S + secs) = N div 2 ^ 32 * 2 ^ 32 + S mod 2 ^ 32"
      "unat ((era + 1) * ERA_S + secs) = (N div 2 ^ 32 + 1) * 2 ^ 32 + S mod 2 ^ 32"
    proof -
      have "unat (saturating_sub_u64 era 1) < 17" "unat era < 17" "unat (era + 1) < 17"
        unfolding e1 era e3 using eb by linarith+
      note c = cand [OF this(1)] cand [OF this(2)] cand [OF this(3)]
      show "unat (saturating_sub_u64 era 1 * ERA_S + secs) = (N div 2 ^ 32 - 1) * 2 ^ 32 + S mod 2 ^ 32"
        "unat (era * ERA_S + secs) = N div 2 ^ 32 * 2 ^ 32 + S mod 2 ^ 32"
        "unat ((era + 1) * ERA_S + secs) = (N div 2 ^ 32 + 1) * 2 ^ 32 + S mod 2 ^ 32"
        using c by (simp_all only: e1 era e3)
    qed
    ultimately show ?thesis
      unfolding cands_def list.map list.set by (elim disjE) (metis insertCI)+
  qed
  then obtain c where c: "c \<in> set cands" "unat c = S" by blast
  have "int (unat (?k b)) \<le> int (unat (?k c))" using bc(2) [OF c(1)] by (simp only: word_le_nat_alt of_nat_le_iff)
  then have near: "\<bar>int (unat b) - int N\<bar> < 2 ^ 31" unfolding key c(2) using d by linarith
  have "\<forall>e \<in> {saturating_sub_u64 era 1, era, era + 1}. unat e < 17" using e1 era e3 eb by simp
  moreover obtain e' where "e' \<in> {saturating_sub_u64 era 1, era, era + 1}" "b = e' * ERA_S + secs"
    using bc(1) unfolding cands_def by auto
  ultimately obtain e where "unat b = e * 2 ^ 32 + S mod 2 ^ 32" using cand by blast
  then have "unat b mod 2 ^ 32 = S mod 2 ^ 32" by simp
  then have "unat b = S" by (rule mod_close_eq) (use near d in \<open>simp_all add: abs_less_iff del: of_nat_unat\<close>)
  then show ?thesis by (simp add: b)
qed

lemma ntp_timestamp_roundtrip:
  assumes "\<bar>int (unat ns div 1000000000) - int (unat near div 1000000000)\<bar> < 2 ^ 31"
  shows "from_ntp (to_ntp ns) near = ns"
proof (rule unsigned_word_eqI)
  let ?ts = "to_ntp ns" and ?near = "near div 1000000000 + UNIX_TO_NTP_S"
  define S where "S = unat ns div 1000000000 + 2208988800"
  define f where "f = unat ns mod 1000000000"
  have f: "f < 1000000000" by (simp add: f_def)
  define F where "F = f * 2 ^ 32 div 1000000000"
  have ts: "unat ?ts = S mod 2 ^ 32 * 2 ^ 32 + F"
    unfolding F_def S_def f_def by (rule unat_to_ntp)
  have "f * 2 ^ 32 < 1000000000 * 2 ^ 32" using f by simp
  then have F: "F < 2 ^ 32" unfolding F_def by (simp add: less_mult_imp_div_less)
  then have "unat ?ts div 2 ^ 32 = S mod 2 ^ 32" "unat ?ts mod 2 ^ 32 = F" unfolding ts by simp_all
  moreover have "unat (drop_bit 32 ?ts) = unat ?ts div 2 ^ 32" by (rule trans [OF unat_drop_bit_eq drop_bit_eq_div])
  ultimately have secs: "unat (drop_bit 32 ?ts) = S mod 2 ^ 32"
    and frac: "unat (drop_bit 32 ((?ts AND 0xFFFFFFFF) * 1000000000 + 0x80000000)) = f"
    using frac_ns_of [of ?ts f] f by (simp_all only: F_def)
  define N where "N = unat near div 1000000000 + 2208988800"
  have b: "unat near < 2 ^ 64" "unat ns < 2 ^ 64" using unsigned_less [of near] unsigned_less [of ns] by simp_all
  have N: "unat ?near = N" unfolding N_def by (rule ns_secs)
  have "N < 2 ^ 36" using b(1) unfolding N_def by simp
  moreover have "\<bar>int S - int N\<bar> < 2 ^ 31" using assms by (simp add: S_def N_def)
  ultimately have best: "unat (the (min_by_key (\<lambda>s. abs_diff_u64 s ?near)
      (map (\<lambda>e. e * ERA_S + drop_bit 32 ?ts) [saturating_sub_u64 (?near div ERA_S) 1, ?near div ERA_S, ?near div ERA_S + 1]))) = S"
    (is "unat ?best = S") using era_choice [OF N _ secs] by blast
  have sub: "unat (saturating_sub_u64 ?best UNIX_TO_NTP_S) = unat ns div 1000000000"
  proof -
    have "UNIX_TO_NTP_S \<le> ?best" unfolding word_le_nat_alt best by (simp add: UNIX_TO_NTP_S_def S_def)
    then show ?thesis using unat_sub [of UNIX_TO_NTP_S ?best] best
      by (simp add: saturating_sub_u64_def not_less UNIX_TO_NTP_S_def S_def)
  qed
  have "unat ns = unat ns div 1000000000 * 1000000000 + f" unfolding f_def by simp
  moreover from this have "unat ns div 1000000000 * 1000000000 + f < 2 ^ 64" using b(2) by simp
  moreover from this have m: "unat (saturating_sub_u64 ?best UNIX_TO_NTP_S * 1000000000) = unat ns div 1000000000 * 1000000000"
    using sub by (subst unat_times_small) simp_all
  ultimately show "unat (from_ntp ?ts near) = unat ns"
    unfolding from_ntp_def Let_def using frac by (subst unat_plus_small) simp_all
qed

section \<open>Properties\<close>

text \<open>
  (C28) An NTP timestamp carries a nanosecond exactly. Encoding a Unix time and decoding it near any
  clock within 68 years gives back the same nanosecond, through the 32-bit fraction and the dropped
  era.
\<close>

theorem ntp_time_roundtrip:
  assumes "\<bar>int (unat ns div 1000000000) - int (unat near div 1000000000)\<bar> < 2 ^ 31"
  shows "from_ntp (to_ntp ns) near = ns"
  using assms by (rule ntp_timestamp_roundtrip)

theorem ntp_time_roundtrip_witness:
  "from_ntp (to_ntp 1791324000250000001) 1700000000000000000 = 1791324000250000001"
  by (rule ntp_time_roundtrip) simp

text \<open>
  A packet survives the wire: decoding the encoding of a packet whose fields fit their bits gives
  the packet back, whatever extension fields or MAC follow, and a client request carries its cookie.
\<close>

theorem ntp_packet_roundtrip:
  assumes "packet_ok p"
  shows "length (packet_encode p) = PACKET_LEN \<and> packet_decode (packet_encode p @ ext) = Inr p \<and>
    packet_decode (request cookie @ ext) = Inr (request_packet cookie)"
proof -
  have "length (packet_encode p) = PACKET_LEN" using assms by (simp add: packet_encode_def packet_ok_def PACKET_LEN_def)
  moreover have "packet_ok (request_packet cookie)" by (simp add: packet_ok_def request_packet_def MODE_CLIENT_def)
  ultimately show ?thesis using packet_roundtrip assms by (simp add: request_def)
qed

definition w_server :: packet where
  "w_server = \<lparr>leap = 0, version = 4, mode = 4, stratum = 1, poll = 4, precision = - 20, root_delay = 65536,
     root_dispersion = 655, reference_id = [71, 80, 83, 0], reference_ts = 7, origin_ts = 99,
     receive_ts = to_ntp 1791324000250000000, transmit_ts = to_ntp 1791324000250000500\<rparr>"

theorem ntp_packet_roundtrip_witness:
  "packet_decode (packet_encode w_server) = Inr w_server"
  using ntp_packet_roundtrip [of w_server "[]"] by (simp add: packet_ok_def w_server_def)

text \<open>
  (C30) A server's answer is read exactly or refused. The reply of a synchronised server (mode 4,
  stratum 1 to 15, leap indicator not 3) that received the request at \<open>t2\<close> and answered at \<open>t3\<close>
  parses to those two times when it echoes the request's cookie, and is refused as \<open>WrongOrigin\<close>
  under every other cookie, so a late or forged reply is never used.
\<close>

theorem ntp_reply_exact:
  assumes "packet_ok p" "mode p = MODE_SERVER" "0 < stratum p" "stratum p < 16" "leap p \<noteq> LEAP_UNSYNCHRONIZED"
    and "receive_ts p = to_ntp t2" "transmit_ts p = to_ntp t3" "to_ntp t2 \<noteq> 0" "to_ntp t3 \<noteq> 0"
    and "\<bar>int (unat t2 div 1000000000) - int (unat near div 1000000000)\<bar> < 2 ^ 31"
    and "\<bar>int (unat t3 div 1000000000) - int (unat near div 1000000000)\<bar> < 2 ^ 31"
  shows "parse_reply (packet_encode p @ ext) cookie near =
    (if cookie = origin_ts p
     then Inr \<lparr>t2_ns = t2, t3_ns = t3, rp_stratum = stratum p, rp_leap = leap p, rp_reference_id = reference_id p,
               root_delay_ns = short_to_ns (root_delay p), root_dispersion_ns = short_to_ns (root_dispersion p)\<rparr>
     else Inl WrongOrigin)"
proof -
  have "stratum p \<noteq> 0" "\<not> 16 \<le> stratum p" using assms(3,4) by auto
  then show ?thesis
    using assms(2,5-9) packet_roundtrip [OF assms(1), of ext] ntp_timestamp_roundtrip [OF assms(10)]
      ntp_timestamp_roundtrip [OF assms(11)]
    by (simp add: parse_reply_def)
qed

lemma to_ntp_pos: "(unat ns div 1000000000 + 2208988800) mod 2 ^ 32 \<noteq> 0 \<Longrightarrow> to_ntp ns \<noteq> 0"
  using unat_to_ntp [of ns] by auto

theorem ntp_reply_exact_witness:
  "\<exists>r. parse_reply (packet_encode w_server) 99 1700000000000000000 = Inr r \<and> t2_ns r = 1791324000250000000"
proof -
  have "to_ntp 1791324000250000000 \<noteq> 0" "to_ntp 1791324000250000500 \<noteq> 0" by (rule to_ntp_pos, simp)+
  then show ?thesis
    using ntp_reply_exact [of w_server 1791324000250000000 1791324000250000500 1700000000000000000 "[]" 99]
    by (simp add: packet_ok_def w_server_def MODE_SERVER_def LEAP_UNSYNCHRONIZED_def)
qed

end
