(* ===== verification/PeerTrack.thy ===== *)
theory PeerTrack
  imports Twist Kalman
begin

text \<open>
  \<open>rtfsn-core/src/sync/relational.rs\<close>, lines 38 to 336: the tuning, the relation to a peer, and the
  track that absorbs or rejects each exchange. Every early return of \<open>observe\<close> is a branch; the
  \<open>expect\<close> at its end is the \<open>Panic\<close> outcome.
\<close>

record track_config =
  stamp_noise_ns :: f64
  q_offset :: f64
  q_drift :: f64
  prior_drift :: f64
  floor_window :: nat
  popcorn_ns :: f64
  popcorn_ratio :: f64
  warmup :: u64
  history :: nat
  step_ns :: f64

definition track_config_default :: track_config where
  "track_config_default = \<lparr>stamp_noise_ns = Fin 20000, q_offset = flit (1 / 10 ^ 16), q_drift = flit (1 / 10 ^ 18),
     prior_drift = flit (1 / 10 ^ 4), floor_window = 64, popcorn_ns = Fin 100000, popcorn_ratio = Fin (1 / 2),
     warmup = 8, history = 256, step_ns = Fin 5000000\<rparr>"

record relation =
  at_ns :: u64
  rl_offset_ns :: f64
  rl_drift :: f64
  rl_sigma_offset_ns :: f64
  rl_sigma_drift :: f64

definition offset_at :: "relation \<Rightarrow> f64 \<Rightarrow> f64" where
  "offset_at r t = fadd (rl_offset_ns r) (fmul (rl_drift r) (fsub t (of_u64 (at_ns r))))"

definition sigma_at :: "relation \<Rightarrow> f64 \<Rightarrow> f64" where
  "sigma_at r t = (let age = fsub t (of_u64 (at_ns r)) in
     fsqrt (fadd (fsq (rl_sigma_offset_ns r)) (fsq (fmul (rl_sigma_drift r) age))))"

datatype reject = NonPositiveRtt | Popcorn u64 | OutOfOrder | Step i64

datatype observation = Accepted twist_index relation bool | Rejected reject

record peer_track =
  pt_cfg :: track_config
  anchor_ns :: u64
  base_offset_ns :: i64
  last_ns :: u64
  kalman :: clock_kalman
  rtts :: "u64 list"
  pt_accepted :: u64
  pt_rejected :: u64
  pt_last :: "twist_index option"
  pt_steps :: u64
  pt_suspect :: u32

definition peer_track_new :: "track_config \<Rightarrow> peer_track" where
  "peer_track_new cfg = \<lparr>pt_cfg = cfg, anchor_ns = 0, base_offset_ns = 0, last_ns = 0, kalman = kalman_new,
     rtts = [], pt_accepted = 0, pt_rejected = 0, pt_last = None, pt_steps = 0, pt_suspect = 0\<rparr>"

definition rtt_floor :: "peer_track \<Rightarrow> u64 option" where
  "rtt_floor t = min_by_key id (rtts t)"

definition nano :: f64 where "nano = flit (1 / 10 ^ 9)"
definition giga :: f64 where "giga = Fin 1000000000"

definition pt_relation :: "peer_track \<Rightarrow> relation option" where
  "pt_relation t =
     (if pt_accepted t = 0 then None
      else Some \<lparr>at_ns = last_ns t,
        rl_offset_ns = fadd (of_i64 (base_offset_ns t)) (fmul (kx0 (kalman t)) giga),
        rl_drift = kx1 (kalman t),
        rl_sigma_offset_ns = fmul (fsqrt (fmax (kp00 (kalman t)) (Fin 0))) giga,
        rl_sigma_drift = fsqrt (fmax (kp11 (kalman t)) (Fin 0))\<rparr>)"

text \<open>The jump of an exchange from the track's prediction, and whether it counts as a step.\<close>

definition jump_of :: "u64 \<Rightarrow> twist_index \<Rightarrow> peer_track \<Rightarrow> f64" where
  "jump_of mid tw t =
     (let dt = fmul (of_u64 (mid - last_ns t)) nano;
          predicted = fadd (of_i64 (base_offset_ns t))
            (fmul (fadd (kx0 (kalman t)) (fmul (kx1 (kalman t)) dt)) giga)
      in fsub (of_i64 (tw_offset_nanos tw)) predicted)"

definition is_step :: "u64 \<Rightarrow> f64 \<Rightarrow> twist_index \<Rightarrow> peer_track \<Rightarrow> bool" where
  "is_step mid excess tw t =
     (let dt = fmul (of_u64 (mid - last_ns t)) nano;
          k = kalman t;
          var = fadd (fadd (kp00 k) (fmul (fmul (Fin 2) dt) (kp01 k))) (fmul (fmul dt dt) (kp11 k));
          spread = fadd (fadd (fmul (fsqrt (fmax var (Fin 0))) giga) (stamp_noise_ns (pt_cfg t)))
                        (fdiv excess (Fin 2))
      in flt (fmax (step_ns (pt_cfg t)) (fmul (Fin 50) spread)) (fabs (jump_of mid tw t)))"

definition measurement_noise :: "u64 \<Rightarrow> f64 \<Rightarrow> peer_track \<Rightarrow> f64" where
  "measurement_noise rtt excess t =
     (let bias_bound = (if pt_accepted t < warmup (pt_cfg t) then fdiv (of_u64 rtt) (Fin 2)
                        else fdiv excess (Fin 2));
          sigma_s = fmul (fadd (stamp_noise_ns (pt_cfg t)) bias_bound) nano
      in fmul sigma_s sigma_s)"

text \<open>The tail of \<open>observe\<close>: the exchange enters the filter.\<close>

definition absorb :: "u64 \<Rightarrow> u64 \<Rightarrow> f64 \<Rightarrow> twist_index \<Rightarrow> bool \<Rightarrow> peer_track \<Rightarrow> (peer_track \<times> observation) outcome" where
  "absorb mid rtt excess tw restarted t =
     (let r = measurement_noise rtt excess t;
          t1 = (if pt_accepted t = 0
                then t\<lparr>anchor_ns := mid, base_offset_ns := tw_offset_nanos tw,
                       kalman := \<lparr>kx0 = Fin 0, kx1 = Fin 0, kp00 = r, kp01 = Fin 0,
                         kp11 = fmul (prior_drift (pt_cfg t)) (prior_drift (pt_cfg t)),
                         kq_offset = q_offset (pt_cfg t), kq_drift = q_drift (pt_cfg t)\<rparr>\<rparr>
                else let dt = fmul (of_u64 (mid - last_ns t)) nano;
                         measured = fmul (of_i64 (i64_wrap (tw_offset_nanos tw - base_offset_ns t))) nano
                     in t\<lparr>kalman := kalman_step dt measured r (kalman t)\<rparr>);
          t2 = t1\<lparr>last_ns := mid, pt_accepted := pt_accepted t1 + 1, pt_last := Some tw\<rparr>
      in case pt_relation t2 of None \<Rightarrow> Panic | Some rel \<Rightarrow> Ret (t2, Accepted tw rel restarted))"

definition reject_with :: "reject \<Rightarrow> peer_track \<Rightarrow> (peer_track \<times> observation) outcome" where
  "reject_with why t = Ret (t\<lparr>pt_rejected := pt_rejected t + 1\<rparr>, Rejected why)"

definition push_rtt :: "u64 \<Rightarrow> peer_track \<Rightarrow> peer_track" where
  "push_rtt rtt t = (let q = rtts t @ [rtt]; w = max (floor_window (pt_cfg t)) 1 in t\<lparr>rtts := drop (length q - w) q\<rparr>)"

text \<open>The part of \<open>observe\<close> after the popcorn test.\<close>

definition judge_step :: "u64 \<Rightarrow> u64 \<Rightarrow> f64 \<Rightarrow> twist_index \<Rightarrow> peer_track \<Rightarrow> (peer_track \<times> observation) outcome" where
  "judge_step mid rtt excess tw t =
     (if warmup (pt_cfg t) \<le> pt_accepted t then
        if is_step mid excess tw t then
          let t1 = t\<lparr>pt_suspect := pt_suspect t + 1\<rparr> in
          if pt_suspect t1 < 2 then reject_with (Step (f64_as_i64 (jump_of mid tw t))) t1
          else absorb mid rtt excess tw True
            (t1\<lparr>pt_steps := pt_steps t1 + 1, pt_accepted := 0, rtts := [rtt], pt_suspect := 0\<rparr>)
        else absorb mid rtt excess tw False (t\<lparr>pt_suspect := 0\<rparr>)
      else absorb mid rtt excess tw False t)"

definition pt_observe :: "u64 \<Rightarrow> u64 \<Rightarrow> u64 \<Rightarrow> u64 \<Rightarrow> peer_track \<Rightarrow> (peer_track \<times> observation) outcome" where
  "pt_observe t1 t2 t3 t4 t =
     (let rtt = (uint t4 - uint t1) - (uint t3 - uint t2) in
      if rtt \<le> 0 \<or> t4 < t1 then reject_with NonPositiveRtt t
      else
        let rtt = word_of_int rtt; mid = t1 + (t4 - t1) div 2 in
        if 0 < pt_accepted t \<and> mid \<le> last_ns t then reject_with OutOfOrder t
        else
          let t' = push_rtt rtt t;
              flr = (case rtt_floor t' of None \<Rightarrow> rtt | Some f \<Rightarrow> f);
              excess = of_u64 (rtt - flr);
              limit = fmax (popcorn_ns (pt_cfg t')) (fmul (popcorn_ratio (pt_cfg t')) (of_u64 flr))
          in if warmup (pt_cfg t') \<le> pt_accepted t' \<and> flt limit excess
             then reject_with (Popcorn (f64_as_u64 excess)) t'
             else judge_step mid rtt excess (from_exchange t1 t2 t3 t4) t')"

section \<open>What an observation changes\<close>

lemma push_rtt_frame [simp]:
  "pt_accepted (push_rtt r t) = pt_accepted t" "last_ns (push_rtt r t) = last_ns t" "pt_cfg (push_rtt r t) = pt_cfg t"
  "kalman (push_rtt r t) = kalman t" "anchor_ns (push_rtt r t) = anchor_ns t"
  "base_offset_ns (push_rtt r t) = base_offset_ns t" "pt_last (push_rtt r t) = pt_last t"
  "pt_rejected (push_rtt r t) = pt_rejected t" "pt_steps (push_rtt r t) = pt_steps t" "pt_suspect (push_rtt r t) = pt_suspect t"
  by (simp_all add: push_rtt_def Let_def)

text \<open>The estimate of a track: everything a rejection must leave alone.\<close>

definition estimate :: "peer_track \<Rightarrow> u64 \<times> i64 \<times> u64 \<times> clock_kalman \<times> u64 \<times> twist_index option \<times> u64" where
  "estimate t = (anchor_ns t, base_offset_ns t, last_ns t, kalman t, pt_accepted t, pt_last t, pt_steps t)"

lemma absorb_result:
  assumes "pt_accepted t \<noteq> - 1"
  obtains t' rel where "absorb mid rtt excess tw rs t = Ret (t', Accepted tw rel rs)"
    "last_ns t' = mid" "pt_accepted t' = pt_accepted t + 1" "at_ns rel = mid" "pt_relation t' = Some rel"
    "pt_cfg t' = pt_cfg t" "rtts t' = rtts t" "pt_last t' = Some tw" "pt_rejected t' = pt_rejected t"
    "pt_suspect t' = pt_suspect t" "pt_steps t' = pt_steps t"
proof -
  define r where "r = measurement_noise rtt excess t"
  define t1 where "t1 = (if pt_accepted t = 0
      then t\<lparr>anchor_ns := mid, base_offset_ns := tw_offset_nanos tw,
             kalman := \<lparr>kx0 = Fin 0, kx1 = Fin 0, kp00 = r, kp01 = Fin 0,
               kp11 = fmul (prior_drift (pt_cfg t)) (prior_drift (pt_cfg t)),
               kq_offset = q_offset (pt_cfg t), kq_drift = q_drift (pt_cfg t)\<rparr>\<rparr>
      else let dt = fmul (of_u64 (mid - last_ns t)) nano;
               measured = fmul (of_i64 (i64_wrap (tw_offset_nanos tw - base_offset_ns t))) nano
           in t\<lparr>kalman := kalman_step dt measured r (kalman t)\<rparr>)"
  define t2 where "t2 = t1\<lparr>last_ns := mid, pt_accepted := pt_accepted t1 + 1, pt_last := Some tw\<rparr>"
  have f: "pt_accepted t1 = pt_accepted t" "pt_cfg t1 = pt_cfg t" "rtts t1 = rtts t" "pt_rejected t1 = pt_rejected t"
    "pt_suspect t1 = pt_suspect t" "pt_steps t1 = pt_steps t"
    by (simp_all add: t1_def Let_def)
  have "pt_accepted t + 1 \<noteq> 0" using assms by (metis add.commute add_eq_0_iff minus_equation_iff)
  then have "pt_accepted t2 \<noteq> 0" using f(1) by (simp add: t2_def)
  then obtain rel where rel: "pt_relation t2 = Some rel" "at_ns rel = mid" by (simp add: pt_relation_def t2_def)
  have "absorb mid rtt excess tw rs t = Ret (t2, Accepted tw rel rs)"
  proof -
    have "absorb mid rtt excess tw rs t = (case pt_relation t2 of None \<Rightarrow> Panic | Some rel \<Rightarrow> Ret (t2, Accepted tw rel rs))"
      unfolding absorb_def t2_def t1_def r_def Let_def by (rule refl)
    then show ?thesis by (simp add: rel(1))
  qed
  then show thesis by (rule that) (simp_all add: rel, simp_all add: t2_def f)
qed

text \<open>
  The outcomes of \<open>observe\<close>: a rejection that leaves the estimate alone, or an acceptance at an
  instant after the last one.
\<close>

lemma reject_with_result:
  "reject_with why t = Ret (t', ob) \<Longrightarrow> ob = Rejected why \<and> estimate t' = estimate t \<and> pt_cfg t' = pt_cfg t \<and>
    pt_rejected t' = pt_rejected t + 1 \<and> rtts t' = rtts t \<and> pt_suspect t' = pt_suspect t"
  by (auto simp: reject_with_def estimate_def)

definition accepts :: "u64 \<Rightarrow> peer_track \<Rightarrow> peer_track \<Rightarrow> relation \<Rightarrow> bool \<Rightarrow> bool" where
  "accepts mid t t' rel rs \<longleftrightarrow> last_ns t' = mid \<and> at_ns rel = mid \<and> pt_relation t' = Some rel \<and> pt_cfg t' = pt_cfg t \<and>
     pt_rejected t' = pt_rejected t \<and> pt_accepted t' = (if rs then 1 else pt_accepted t + 1) \<and>
     pt_steps t' = (if rs then pt_steps t + 1 else pt_steps t) \<and> (rs \<longrightarrow> 2 \<le> pt_suspect t + 1) \<and>
     rtts t' \<noteq> [] \<and> length (rtts t') \<le> max 1 (length (rtts t)) \<and> pt_suspect t' = (if warmup (pt_cfg t) \<le> pt_accepted t then 0 else pt_suspect t) \<and>
     (rs \<longrightarrow> warmup (pt_cfg t) \<le> pt_accepted t)"

definition rejects :: "peer_track \<Rightarrow> peer_track \<Rightarrow> bool" where
  "rejects t t' \<longleftrightarrow> estimate t' = estimate t \<and> pt_cfg t' = pt_cfg t \<and> pt_rejected t' = pt_rejected t + 1"

lemma judge_step_cases:
  assumes "pt_accepted t \<noteq> - 1" "rtts t \<noteq> []"
  obtains (rej) v t' where "judge_step mid rtt excess tw t = Ret (t', Rejected (Step v))" "rejects t t'" "rtts t' = rtts t"
      "warmup (pt_cfg t) \<le> pt_accepted t" "pt_suspect t + 1 < 2" "pt_suspect t' = pt_suspect t + 1"
  | (acc) t' rel rs where "judge_step mid rtt excess tw t = Ret (t', Accepted tw rel rs)" "accepts mid t t' rel rs"
proof (cases "warmup (pt_cfg t) \<le> pt_accepted t \<and> is_step mid excess tw t")
  case step: True
  show thesis
  proof (cases "pt_suspect t + 1 < 2")
    case True
    with step show thesis
      by (intro rej [of "t\<lparr>pt_suspect := pt_suspect t + 1, pt_rejected := pt_rejected t + 1\<rparr>" "f64_as_i64 (jump_of mid tw t)"])
        (simp_all add: judge_step_def reject_with_def rejects_def estimate_def)
  next
    case False
    define t1 where "t1 = t\<lparr>pt_suspect := pt_suspect t + 1, pt_steps := pt_steps t + 1, pt_accepted := 0, rtts := [rtt]\<rparr>
        \<lparr>pt_suspect := 0\<rparr>"
    have "pt_accepted t1 \<noteq> - 1" by (simp add: t1_def)
    then obtain t' rel where r: "absorb mid rtt excess tw True t1 = Ret (t', Accepted tw rel True)"
      "last_ns t' = mid" "pt_accepted t' = pt_accepted t1 + 1" "at_ns rel = mid" "pt_relation t' = Some rel"
      "pt_cfg t' = pt_cfg t1" "rtts t' = rtts t1" "pt_last t' = Some tw" "pt_rejected t' = pt_rejected t1"
      "pt_suspect t' = pt_suspect t1" "pt_steps t' = pt_steps t1"
      by (rule absorb_result)
    have "judge_step mid rtt excess tw t = absorb mid rtt excess tw True t1"
      using step False by (simp add: judge_step_def Let_def t1_def)
    then show thesis using r False step by (intro acc [of t' rel True]) (simp_all add: accepts_def t1_def not_less)
  qed
next
  case False
  define t1 where "t1 = (if warmup (pt_cfg t) \<le> pt_accepted t then t\<lparr>pt_suspect := 0\<rparr> else t)"
  have "pt_accepted t1 \<noteq> - 1" using assms by (simp add: t1_def)
  then obtain t' rel where r: "absorb mid rtt excess tw False t1 = Ret (t', Accepted tw rel False)"
    "last_ns t' = mid" "pt_accepted t' = pt_accepted t1 + 1" "at_ns rel = mid" "pt_relation t' = Some rel"
    "pt_cfg t' = pt_cfg t1" "rtts t' = rtts t1" "pt_last t' = Some tw" "pt_rejected t' = pt_rejected t1"
    "pt_suspect t' = pt_suspect t1" "pt_steps t' = pt_steps t1"
    by (rule absorb_result)
  have "judge_step mid rtt excess tw t = absorb mid rtt excess tw False t1"
    using False by (auto simp: judge_step_def t1_def)
  then show thesis using r assms(2) by (intro acc [of t' rel False]) (simp_all add: accepts_def t1_def)
qed

lemma push_rtt_window: "rtts (push_rtt r t) \<noteq> [] \<and> length (rtts (push_rtt r t)) \<le> max (floor_window (pt_cfg t)) 1"
  by (simp add: push_rtt_def Let_def)

lemma rejects_push: "rejects (push_rtt r t) t' \<longleftrightarrow> rejects t t'"
  by (simp add: rejects_def estimate_def)

lemma observe_cases:
  assumes "pt_accepted t \<noteq> - 1"
  obtains (rej) why t' where "pt_observe t1 t2 t3 t4 t = Ret (t', Rejected why)" "rejects t t'"
      "rtts t' = rtts t \<or> length (rtts t') \<le> max (floor_window (pt_cfg t)) 1"
      "case why of Step _ \<Rightarrow> warmup (pt_cfg t) \<le> pt_accepted t \<and> pt_suspect t + 1 < 2 \<and> pt_suspect t' = pt_suspect t + 1 | _ \<Rightarrow> pt_suspect t' = pt_suspect t"
  | (acc) t' rel rs s where "pt_observe t1 t2 t3 t4 t = Ret (t', Accepted (from_exchange t1 t2 t3 t4) rel rs)"
      "accepts (t1 + (t4 - t1) div 2) s t' rel rs" "estimate s = estimate t" "pt_cfg s = pt_cfg t"
      "pt_rejected s = pt_rejected t" "pt_suspect s = pt_suspect t"
      "length (rtts s) \<le> max (floor_window (pt_cfg t)) 1"
      "pt_accepted t = 0 \<or> last_ns t < at_ns rel"
proof -
  let ?rtt = "(uint t4 - uint t1) - (uint t3 - uint t2)" and ?mid = "t1 + (t4 - t1) div 2"
  define t' where "t' = push_rtt (word_of_int ?rtt) t"
  define flr where "flr = (case rtt_floor t' of None \<Rightarrow> word_of_int ?rtt | Some f \<Rightarrow> f)"
  define excess where "excess = of_u64 (word_of_int ?rtt - flr)"
  consider (bad) "?rtt \<le> 0 \<or> t4 < t1" | (late) "\<not> (?rtt \<le> 0 \<or> t4 < t1)" "0 < pt_accepted t" "?mid \<le> last_ns t"
    | (pop) "\<not> (?rtt \<le> 0 \<or> t4 < t1)" "\<not> (0 < pt_accepted t \<and> ?mid \<le> last_ns t)"
        "warmup (pt_cfg t') \<le> pt_accepted t' \<and> flt (fmax (popcorn_ns (pt_cfg t')) (fmul (popcorn_ratio (pt_cfg t')) (of_u64 flr))) excess"
    | (judge) "\<not> (?rtt \<le> 0 \<or> t4 < t1)" "\<not> (0 < pt_accepted t \<and> ?mid \<le> last_ns t)"
        "\<not> (warmup (pt_cfg t') \<le> pt_accepted t' \<and> flt (fmax (popcorn_ns (pt_cfg t')) (fmul (popcorn_ratio (pt_cfg t')) (of_u64 flr))) excess)"
    by blast
  then show thesis
  proof cases
    case bad
    then show thesis by (intro rej [of "t\<lparr>pt_rejected := pt_rejected t + 1\<rparr>" NonPositiveRtt])
        (simp_all add: pt_observe_def reject_with_def rejects_def estimate_def)
  next
    case late
    then show thesis by (intro rej [of "t\<lparr>pt_rejected := pt_rejected t + 1\<rparr>" OutOfOrder])
        (auto simp: pt_observe_def reject_with_def rejects_def estimate_def Let_def)
  next
    case pop
    then have "pt_observe t1 t2 t3 t4 t = reject_with (Popcorn (f64_as_u64 excess)) t'"
      unfolding pt_observe_def Let_def t'_def [symmetric] flr_def [symmetric] excess_def [symmetric] by auto
    then show thesis using push_rtt_window [of "word_of_int ?rtt" t]
      by (intro rej [of "t'\<lparr>pt_rejected := pt_rejected t' + 1\<rparr>" "Popcorn (f64_as_u64 excess)"])
        (simp_all add: reject_with_def rejects_def estimate_def t'_def)
  next
    case judge
    have o: "pt_observe t1 t2 t3 t4 t = judge_step ?mid (word_of_int ?rtt) excess (from_exchange t1 t2 t3 t4) t'"
      using judge unfolding pt_observe_def Let_def t'_def [symmetric] flr_def [symmetric] excess_def [symmetric] by auto
    have a: "pt_accepted t' \<noteq> - 1" "rtts t' \<noteq> []" using assms push_rtt_window by (simp_all add: t'_def)
    show thesis
    proof (rule judge_step_cases [OF a, of ?mid "word_of_int ?rtt" excess "from_exchange t1 t2 t3 t4"])
      fix v t'' assume "judge_step ?mid (word_of_int ?rtt) excess (from_exchange t1 t2 t3 t4) t' = Ret (t'', Rejected (Step v))"
        "rejects t' t''" "rtts t'' = rtts t'" "warmup (pt_cfg t') \<le> pt_accepted t'" "pt_suspect t' + 1 < 2" "pt_suspect t'' = pt_suspect t' + 1"
      then show thesis using o push_rtt_window [of "word_of_int ?rtt" t]
        by (intro rej [of t'' "Step v"]) (simp_all add: t'_def rejects_push)
    next
      fix t'' rel rs assume "judge_step ?mid (word_of_int ?rtt) excess (from_exchange t1 t2 t3 t4) t' = Ret (t'', Accepted (from_exchange t1 t2 t3 t4) rel rs)"
        "accepts ?mid t' t'' rel rs"
      moreover from this(2) have "at_ns rel = ?mid" by (simp add: accepts_def)
      ultimately show thesis using o judge(2) push_rtt_window [of "word_of_int ?rtt" t]
        by (intro acc [of t'' rel rs t']) (auto simp: t'_def estimate_def not_le word_gt_0)
    qed
  qed
qed

section \<open>Runs\<close>

definition pt_run :: "(u64 \<times> u64 \<times> u64 \<times> u64) list \<Rightarrow> peer_track \<Rightarrow> (peer_track \<times> observation list) outcome" where
  "pt_run xs t = foldl (\<lambda>r (t1, t2, t3, t4). obind r (\<lambda>(t, obs).
     obind (pt_observe t1 t2 t3 t4 t) (\<lambda>(t', ob). Ret (t', obs @ [ob])))) (Ret (t, [])) xs"

definition accepted_at :: "observation list \<Rightarrow> u64 list" where
  "accepted_at obs = List.map_filter (\<lambda>ob. case ob of Accepted tw rel rs \<Rightarrow> Some (at_ns rel) | Rejected why \<Rightarrow> None) obs"

fun is_rejected :: "observation \<Rightarrow> bool" where
  "is_rejected (Rejected why) = True"
| "is_rejected (Accepted tw rel rs) = False"

text \<open>The observations so far end with a rejected step, then rejections only.\<close>

definition step_pending :: "observation list \<Rightarrow> bool" where
  "step_pending obs \<longleftrightarrow> (\<exists>xs v ys. obs = xs @ Rejected (Step v) # ys \<and> (\<forall>ob \<in> set ys. is_rejected ob))"

definition restarts_justified :: "observation list \<Rightarrow> bool" where
  "restarts_justified obs \<longleftrightarrow> (\<forall>xs tw rel ys. obs = xs @ Accepted tw rel True # ys \<longrightarrow> step_pending xs)"

definition run_inv :: "track_config \<Rightarrow> peer_track \<Rightarrow> observation list \<Rightarrow> bool" where
  "run_inv cfg t obs \<longleftrightarrow> pt_cfg t = cfg \<and> unat (pt_accepted t) \<le> length obs \<and>
     sorted_wrt (<) (accepted_at obs) \<and>
     (if pt_accepted t = 0 then accepted_at obs = [] else accepted_at obs \<noteq> [] \<and> last (accepted_at obs) = last_ns t) \<and>
     length (rtts t) \<le> max (floor_window cfg) 1 \<and>
     pt_suspect t < 2 \<and> (pt_suspect t = 1 \<longrightarrow> warmup cfg \<le> pt_accepted t \<and> step_pending obs) \<and>
     restarts_justified obs"

lemma accepted_at_snoc [simp]:
  "accepted_at (obs @ [Rejected why]) = accepted_at obs"
  "accepted_at (obs @ [Accepted tw rel rs]) = accepted_at obs @ [at_ns rel]"
proof -
  have "List.map_filter f (xs @ ys) = List.map_filter f xs @ List.map_filter f ys" for f :: "observation \<Rightarrow> u64 option" and xs ys
    by (induction xs) (simp_all add: map_filter_simps split: option.splits)
  then show "accepted_at (obs @ [Rejected why]) = accepted_at obs"
    "accepted_at (obs @ [Accepted tw rel rs]) = accepted_at obs @ [at_ns rel]"
    by (simp_all add: accepted_at_def map_filter_simps)
qed

lemma step_pending_rejected: "step_pending obs \<Longrightarrow> step_pending (obs @ [Rejected why])"
  unfolding step_pending_def by fastforce

lemma step_pending_step: "step_pending (obs @ [Rejected (Step v)])"
  unfolding step_pending_def by fastforce

lemma snoc_eq_append_Cons:
  "obs @ [ob] = xs @ y # ys \<longleftrightarrow> (ys = [] \<and> ob = y \<and> obs = xs) \<or> (\<exists>zs. ys = zs @ [ob] \<and> obs = xs @ y # zs)"
  by (cases ys rule: rev_cases) auto

lemma restarts_justified_rejected: "restarts_justified obs \<Longrightarrow> restarts_justified (obs @ [Rejected why])"
  unfolding restarts_justified_def by (auto simp: snoc_eq_append_Cons)

lemma restarts_justified_accepted:
  "restarts_justified obs \<Longrightarrow> (rs \<Longrightarrow> step_pending obs) \<Longrightarrow> restarts_justified (obs @ [Accepted tw rel rs])"
  unfolding restarts_justified_def by (auto simp: snoc_eq_append_Cons)

lemma suspect_cases: "(s :: u32) < 2 \<Longrightarrow> s = 0 \<or> s = 1"
  by (auto simp: word_less_nat_alt word_unat_eq_iff)

lemma run_inv_step:
  assumes inv: "run_inv cfg t obs" and len: "length obs < 2 ^ 64 - 1"
  shows "\<exists>t' ob. pt_observe t1 t2 t3 t4 t = Ret (t', ob) \<and> run_inv cfg t' (obs @ [ob])"
proof -
  have "unat (pt_accepted t) < 2 ^ 64 - 1" using inv len by (simp add: run_inv_def)
  then have acc: "pt_accepted t \<noteq> - 1" by (auto simp: unsigned_minus_1_eq_mask mask_eq_exp_minus_1)
  show ?thesis
  proof (rule observe_cases [OF acc, of t1 t2 t3 t4])
    fix why t' assume o: "pt_observe t1 t2 t3 t4 t = Ret (t', Rejected why)" "rejects t t'"
      "rtts t' = rtts t \<or> length (rtts t') \<le> max (floor_window (pt_cfg t)) 1"
      "case why of Step _ \<Rightarrow> warmup (pt_cfg t) \<le> pt_accepted t \<and> pt_suspect t + 1 < 2 \<and> pt_suspect t' = pt_suspect t + 1 | _ \<Rightarrow> pt_suspect t' = pt_suspect t"
    have e: "pt_cfg t' = cfg" "pt_accepted t' = pt_accepted t" "last_ns t' = last_ns t"
      using o(2) inv by (simp_all add: rejects_def estimate_def run_inv_def)
    have w: "pt_suspect t' < 2 \<and> (pt_suspect t' = 1 \<longrightarrow> warmup cfg \<le> pt_accepted t \<and> step_pending (obs @ [Rejected why]))"
    proof (cases "\<exists>v. why = Step v")
      case True
      then show ?thesis using o(4) suspect_cases [of "pt_suspect t"] inv
        by (auto simp: run_inv_def step_pending_step)
    next
      case False
      then have "pt_suspect t' = pt_suspect t" using o(4) by (cases why) auto
      then show ?thesis using inv by (simp add: run_inv_def step_pending_rejected)
    qed
    have "run_inv cfg t' (obs @ [Rejected why])"
      using inv o(3) e w unfolding run_inv_def by (auto simp: restarts_justified_rejected)
    then show ?thesis using o(1) by blast
  next
    fix t' rel rs s assume o: "pt_observe t1 t2 t3 t4 t = Ret (t', Accepted (from_exchange t1 t2 t3 t4) rel rs)"
      "accepts (t1 + (t4 - t1) div 2) s t' rel rs" "estimate s = estimate t" "pt_cfg s = pt_cfg t"
      "pt_rejected s = pt_rejected t" "pt_suspect s = pt_suspect t"
      "length (rtts s) \<le> max (floor_window (pt_cfg t)) 1" "pt_accepted t = 0 \<or> last_ns t < at_ns rel"
    have a: "last_ns t' = at_ns rel" "pt_cfg t' = cfg" "pt_accepted t' = (if rs then 1 else pt_accepted t + 1)"
      "rs \<Longrightarrow> 2 \<le> pt_suspect t + 1" "length (rtts t') \<le> max (floor_window cfg) 1"
      "pt_suspect t' = (if warmup cfg \<le> pt_accepted t then 0 else pt_suspect t)"
      using o inv by (auto simp: accepts_def estimate_def run_inv_def)
    have n: "unat (pt_accepted t + 1) = unat (pt_accepted t) + 1" "unat (pt_accepted t) \<le> length obs"
      using \<open>unat (pt_accepted t) < _\<close> inv unat_add_lem [of "pt_accepted t" 1] by (simp_all add: run_inv_def)
    then have acc': "pt_accepted t' \<noteq> 0" "unat (pt_accepted t') \<le> length (obs @ [Accepted tw rel rs])" for tw
      using a(3) by auto
    have "\<forall>x \<in> set (accepted_at obs). x < at_ns rel"
    proof (cases "pt_accepted t = 0")
      case False
      then have "accepted_at obs \<noteq> []" "last (accepted_at obs) < at_ns rel" "sorted_wrt (<) (accepted_at obs)"
        using inv o(8) by (auto simp: run_inv_def)
      then show ?thesis
        by (cases "accepted_at obs" rule: rev_cases) (auto simp: sorted_wrt_append intro: less_trans)
    qed (use inv in \<open>simp add: run_inv_def\<close>)
    then have srt: "sorted_wrt (<) (accepted_at obs @ [at_ns rel])" using inv by (simp add: run_inv_def sorted_wrt_append)
    have "pt_suspect t = 0 \<or> pt_suspect t = 1" using inv suspect_cases by (simp add: run_inv_def)
    then have sus: "pt_suspect t' = 0" "rs \<Longrightarrow> step_pending obs" using a(4,6) inv by (auto simp: run_inv_def word_le_def)
    have "run_inv cfg t' (obs @ [Accepted (from_exchange t1 t2 t3 t4) rel rs])"
      using inv a(1,2,5) acc' srt sus restarts_justified_accepted unfolding run_inv_def by auto
    then show ?thesis using o(1) by blast
  qed
qed

lemma run_inv_run:
  assumes "length xs < 2 ^ 64 - 1"
  shows "\<exists>t obs. pt_run xs (peer_track_new cfg) = Ret (t, obs) \<and> length obs = length xs \<and> run_inv cfg t obs"
  using assms
proof (induction xs rule: rev_induct)
  case Nil
  have "run_inv cfg (peer_track_new cfg) []"
    by (simp add: run_inv_def peer_track_new_def accepted_at_def map_filter_simps restarts_justified_def)
  then show ?case by (simp add: pt_run_def)
next
  case (snoc x xs)
  obtain t1 t2 t3 t4 where x: "x = (t1, t2, t3, t4)" by (cases x)
  from snoc obtain t obs where r: "pt_run xs (peer_track_new cfg) = Ret (t, obs)" "length obs = length xs" "run_inv cfg t obs"
    by auto
  obtain t' ob where "pt_observe t1 t2 t3 t4 t = Ret (t', ob)" "run_inv cfg t' (obs @ [ob])"
    using run_inv_step [OF r(3)] snoc.prems r(2) by fastforce
  then show ?case using r by (simp add: pt_run_def x)
qed

section \<open>Properties\<close>

text \<open>
  (C20) A track orders the past. Whatever exchanges a fresh track is fed, and however the peer or the
  network distorts them, it never panics, the instants of the exchanges it absorbs strictly increase,
  it holds at most the configured window of round trips, and it starts afresh only after a step that
  it rejected first, with nothing absorbed in between.
\<close>

theorem track_run_ordered:
  assumes "length xs < 2 ^ 64 - 1"
  shows "\<exists>t obs. pt_run xs (peer_track_new cfg) = Ret (t, obs) \<and> length obs = length xs \<and>
    sorted_wrt (<) (accepted_at obs) \<and> length (rtts t) \<le> max (floor_window cfg) 1 \<and>
    (\<forall>as tw rel bs. obs = as @ Accepted tw rel True # bs \<longrightarrow>
      (\<exists>cs v ds. as = cs @ Rejected (Step v) # ds \<and> (\<forall>ob \<in> set ds. is_rejected ob)))"
  using run_inv_run [OF assms, of cfg] unfolding run_inv_def restarts_justified_def step_pending_def by blast

theorem track_run_ordered_witness:
  "\<exists>t obs. pt_run [(100, 160, 170, 200), (50, 20, 70, 60), (100, 160, 170, 200)] (peer_track_new track_config_default) = Ret (t, obs) \<and>
     length obs = 3 \<and> sorted_wrt (<) (accepted_at obs)"
  using track_run_ordered [of "[(100, 160, 170, 200), (50, 20, 70, 60), (100, 160, 170, 200)]" track_config_default] by auto

text \<open>
  A rejected exchange changes no estimate: the filter, the anchor, the last instant and the
  relation handed to clients are what they were, and only the counters and the window of round trips
  can differ.
\<close>

theorem reject_keeps_estimate:
  assumes "pt_observe t1 t2 t3 t4 t = Ret (t', Rejected why)" "pt_accepted t \<noteq> - 1"
  shows "pt_relation t' = pt_relation t \<and> kalman t' = kalman t \<and> pt_accepted t' = pt_accepted t \<and>
    last_ns t' = last_ns t \<and> pt_rejected t' = pt_rejected t + 1"
proof (rule observe_cases [OF assms(2), of t1 t2 t3 t4])
  fix why' s assume "pt_observe t1 t2 t3 t4 t = Ret (s, Rejected why')" "rejects t s"
  with assms(1) have "rejects t t'" by simp
  then show ?thesis by (auto simp: rejects_def estimate_def pt_relation_def)
qed (use assms(1) in simp)

theorem reject_keeps_estimate_witness:
  "\<exists>t'. pt_observe 100 160 290 200 (peer_track_new track_config_default) = Ret (t', Rejected NonPositiveRtt) \<and>
     pt_relation t' = None"
proof -
  let ?t = "peer_track_new track_config_default"
  have "pt_observe 100 160 290 200 ?t = Ret (?t\<lparr>pt_rejected := pt_rejected ?t + 1\<rparr>, Rejected NonPositiveRtt)"
    by (simp add: pt_observe_def reject_with_def)
  from this reject_keeps_estimate [OF this] show ?thesis by (simp add: peer_track_new_def pt_relation_def)
qed

end
