(* ===== verification/Frame.thy ===== *)
theory Frame
  imports PeerTrack Chiral "HOL-Library.Product_Lexorder"
begin

text \<open>
  \<open>rtfsn-core/src/sync/relational.rs\<close>, the network frame: \<open>spd_solve\<close>, \<open>laplacian_solve\<close>,
  \<open>solve_frame\<close> and the types they return. Nodes are numbered by their position in the sorted list of
  identifiers. \<open>ln_1p\<close>, \<open>exp_m1\<close> and \<open>exp\<close> come from the platform's mathematical library and are
  arguments. A result \<open>None\<close> stands for a panic (a failed \<open>expect\<close>, a missing key of \<open>pairs\<close>) or for a
  walk to the common ancestor that never ends.
\<close>

record edge_estimate =
  e_from :: node_id
  e_to :: node_id
  e_relation :: relation
  e_rtt_floor_ns :: u64
  e_samples :: u64

record node_frame =
  nf_id :: node_id
  nf_offset_ns :: f64
  nf_drift :: f64
  nf_sigma_offset_ns :: f64
  nf_sigma_drift :: f64

definition node_frame_chiral :: "node_frame \<Rightarrow> chiral_frame" where
  "node_frame_chiral n =
     (let confidence = f64_as_u32 (fmin (fdiv (Fin 1000000) (fmax (nf_sigma_offset_ns n) (Fin 1))) (of_u32 (- 1)))
      in chiral_frame_new (f64_as_i64 (fround (nf_offset_ns n))) (f64_as_i64 (fround (fmul (nf_drift n) giga))) confidence)"

record edge_residual =
  er_from :: node_id
  er_to :: node_id
  er_offset_ns :: f64
  er_drift :: f64
  z_offset :: f64
  z_drift :: f64

record cycle_defect =
  cd_nodes :: "node_id list"
  cd_offset_ns :: f64
  cd_drift :: f64
  cd_sigma_offset_ns :: f64
  cd_sigma_drift :: f64
  cd_z :: f64

record network_frame =
  fr_reference :: node_id
  fr_solver :: node_id
  fr_at_ns :: u64
  instant_mapped :: bool
  fr_nodes :: "node_frame list"
  unreachable :: "node_id list"
  fr_edges :: "edge_residual list"
  fr_cycles :: "cycle_defect list"
  rms_offset_ns :: f64
  rms_drift :: f64
  falsetickers :: "node_id list"
  outliers :: "node_id list"
  selection_jitter_ns :: f64

definition UTC :: node_id where "UTC = NodeId (replicate 32 255)"

definition frame_node :: "network_frame \<Rightarrow> node_id \<Rightarrow> node_frame option" where
  "frame_node fr i = List.find (\<lambda>n. nf_id n = i) (fr_nodes fr)"

definition is_absolute :: "network_frame \<Rightarrow> bool" where
  "is_absolute fr \<longleftrightarrow> fr_reference fr = UTC"

definition MIN_SIGMA_NS :: f64 where "MIN_SIGMA_NS = Fin 1"
definition MIN_SIGMA_DRIFT :: f64 where "MIN_SIGMA_DRIFT = flit (1 / 10 ^ 13)"

section \<open>Least squares\<close>

definition chol_cell :: "f64 list \<Rightarrow> nat \<Rightarrow> nat \<times> nat \<Rightarrow> f64 list \<Rightarrow> f64 list option" where
  "chol_cell a n ij l = (case ij of (i, j) \<Rightarrow>
     let s = foldl (\<lambda>s k. fsub s (fmul (l ! (i * n + k)) (l ! (j * n + k)))) (a ! (i * n + j)) [0..<j]
     in if i = j then (if fle s (Fin 0) \<or> \<not> is_finite s then None else Some (l[i * n + i := fsqrt s]))
        else Some (l[i * n + j := fdiv s (l ! (j * n + j))]))"

definition cholesky :: "f64 list \<Rightarrow> nat \<Rightarrow> f64 list option" where
  "cholesky a n = foldl (\<lambda>acc ij. Option.bind acc (chol_cell a n ij)) (Some (replicate (n * n) (Fin 0)))
     (concat (map (\<lambda>i. map (Pair i) [0..<Suc i]) [0..<n]))"

definition chol_solve :: "f64 list \<Rightarrow> nat \<Rightarrow> f64 list \<Rightarrow> f64 list" where
  "chol_solve l n rhs =
     (let y = foldl (\<lambda>y i. y[i := fdiv (foldl (\<lambda>s k. fsub s (fmul (l ! (i * n + k)) (y ! k))) (rhs ! i) [0..<i])
                (l ! (i * n + i))]) (replicate n (Fin 0)) [0..<n]
      in foldl (\<lambda>x i. x[i := fdiv (foldl (\<lambda>s k. fsub s (fmul (l ! (k * n + i)) (x ! k))) (y ! i) [Suc i..<n])
                (l ! (i * n + i))]) (replicate n (Fin 0)) (rev [0..<n]))"

definition spd_solve :: "f64 list \<Rightarrow> f64 list \<Rightarrow> nat \<Rightarrow> (f64 list \<times> f64 list) option" where
  "spd_solve a b n = map_option (\<lambda>l.
     (chol_solve l n b,
      map (\<lambda>i. chol_solve l n ((replicate n (Fin 0))[i := Fin 1]) ! i) [0..<n])) (cholesky a n)"

record obs =
  ob_a :: nat
  ob_b :: nat
  ob_m :: f64
  ob_sigma :: f64

definition position_in :: "nat list \<Rightarrow> nat \<Rightarrow> nat option" where
  "position_in us i = (let p = length (takeWhile (\<lambda>u. u \<noteq> i) us) in if p < length us then Some p else None)"

definition bump :: "nat \<Rightarrow> (f64 \<Rightarrow> f64) \<Rightarrow> f64 list \<Rightarrow> f64 list" where
  "bump i f xs = xs[i := f (xs ! i)]"

definition add_obs :: "nat list \<Rightarrow> obs \<Rightarrow> f64 list \<times> f64 list \<Rightarrow> f64 list \<times> f64 list" where
  "add_obs us ob mr = (case mr of (mat, rhs) \<Rightarrow>
     let w = fdiv (Fin 1) (fsq (ob_sigma ob)); k = length us;
         pa = position_in us (ob_a ob); pb = position_in us (ob_b ob);
         wm = fmul w (ob_m ob);
         (mat1, rhs1) = (case pa of None \<Rightarrow> (mat, rhs)
           | Some i \<Rightarrow> (bump (i * k + i) (\<lambda>x. fadd x w) mat, bump i (\<lambda>x. fsub x wm) rhs));
         (mat2, rhs2) = (case pb of None \<Rightarrow> (mat1, rhs1)
           | Some i \<Rightarrow> (bump (i * k + i) (\<lambda>x. fadd x w) mat1, bump i (\<lambda>x. fadd x wm) rhs1));
         mat3 = (case (pa, pb) of (Some i, Some j) \<Rightarrow>
             bump (j * k + i) (\<lambda>x. fsub x w) (bump (i * k + j) (\<lambda>x. fsub x w) mat2)
           | _ \<Rightarrow> mat2)
     in (mat3, rhs2))"

definition laplacian_solve :: "nat \<Rightarrow> nat \<Rightarrow> nat list \<Rightarrow> obs list \<Rightarrow> f64 list \<times> f64 list" where
  "laplacian_solve n fixed members os =
     (let us = filter (\<lambda>i. i \<noteq> fixed) members; k = length us;
          (mat, rhs) = foldl (\<lambda>mr ob. add_obs us ob mr) (replicate (k * k) (Fin 0), replicate k (Fin 0)) os
      in case spd_solve mat rhs k of
           None \<Rightarrow> (replicate n (Fin 0), replicate n (Fin 0))
         | Some (x, diag) \<Rightarrow>
             (foldl (\<lambda>v (p, i). v[i := x ! p]) (replicate n (Fin 0)) (enumerate 0 us),
              foldl (\<lambda>v (p, i). v[i := fsqrt (fmax (diag ! p) (Fin 0))]) (replicate n (Fin 0)) (enumerate 0 us)))"

section \<open>The component of the reference\<close>

definition frame_ids :: "node_id \<Rightarrow> node_id \<Rightarrow> edge_estimate list \<Rightarrow> node_id list" where
  "frame_ids solver ref es = sorted_list_of_set (set (solver # ref # concat (map (\<lambda>e. [e_from e, e_to e]) es)))"

definition index_of :: "node_id list \<Rightarrow> node_id \<Rightarrow> nat" where
  "index_of ids i = length (takeWhile (\<lambda>x. x \<noteq> i) ids)"

definition usable :: "edge_estimate \<Rightarrow> bool" where
  "usable e \<longleftrightarrow> e_from e \<noteq> e_to e \<and> is_finite (rl_offset_ns (e_relation e)) \<and> is_finite (rl_drift (e_relation e)) \<and>
     flt (Fin (- 1)) (rl_drift (e_relation e))"

definition adjacent :: "(nat \<times> nat) list \<Rightarrow> nat \<Rightarrow> nat list" where
  "adjacent prs u = sorted_list_of_set (set (concat (map (\<lambda>(a, b).
     (if a = u then [b] else []) @ (if b = u then [a] else [])) prs)))"

type_synonym bfs_state = "nat list \<times> nat list \<times> nat option list"

fun bfs_visit :: "nat \<Rightarrow> nat list \<Rightarrow> bfs_state \<Rightarrow> bfs_state" where
  "bfs_visit u [] st = st"
| "bfs_visit u (v # vs) (members, queue, parent) =
     (if v \<in> set members then bfs_visit u vs (members, queue, parent)
      else bfs_visit u vs (v # members, queue @ [v], parent[v := Some u]))"

definition endpoints :: "(nat \<times> nat) list \<Rightarrow> nat set" where
  "endpoints prs = fst ` set prs \<union> snd ` set prs"

lemma mem_adjacent: "v \<in> set (adjacent prs u) \<longleftrightarrow> (u, v) \<in> set prs \<or> (v, u) \<in> set prs"
proof -
  have "set (adjacent prs u) = set (concat (map (\<lambda>(a, b). (if a = u then [b] else []) @ (if b = u then [a] else [])) prs))"
    unfolding adjacent_def by (rule set_sorted_list_of_set) (rule finite_set)
  moreover have "v \<in> set (concat (map (\<lambda>(a, b). (if a = u then [b] else []) @ (if b = u then [a] else [])) ps)) \<longleftrightarrow>
      (u, v) \<in> set ps \<or> (v, u) \<in> set ps" for ps
    by (induction ps) auto
  ultimately show ?thesis by simp
qed

lemma adjacent_endpoints: "set (adjacent prs u) \<subseteq> endpoints prs"
  by (force simp: mem_adjacent endpoints_def)

lemma bfs_visit_measure:
  assumes "set vs \<subseteq> V" "finite V" "bfs_visit u vs (ms, q, par) = (ms', q', par')"
  shows "2 * card (V - set ms') + length q' \<le> 2 * card (V - set ms) + length q"
  using assms
proof (induction u vs "(ms, q, par)" arbitrary: ms q par rule: bfs_visit.induct)
  case (2 u v vs ms q par)
  show ?case
  proof (cases "v \<in> set ms")
    case False
    have "card (V - set (v # ms)) < card (V - set ms)"
      using 2(3,4) False by (intro psubset_card_mono) auto
    with 2(2) [OF False] 2(3-5) False show ?thesis by simp
  qed (use 2 in simp)
qed simp

function bfs :: "(nat \<times> nat) list \<Rightarrow> bfs_state \<Rightarrow> nat list \<Rightarrow> bfs_state \<times> nat list" where
  "bfs prs (members, [], parent) order = ((members, [], parent), order)"
| "bfs prs (members, u # queue, parent) order =
     bfs prs (bfs_visit u (adjacent prs u) (members, queue, parent)) (order @ [u])"
  by pat_completeness auto
termination
proof (relation "measure (\<lambda>(prs, (ms, q, par), order). 2 * card (endpoints prs - set ms) + length q)")
  fix prs ms u q par order
  obtain ms' q' par' where b: "bfs_visit u (adjacent prs u) (ms, q, par) = (ms', q', par')" by (metis prod_cases3)
  have "2 * card (endpoints prs - set ms') + length q' \<le> 2 * card (endpoints prs - set ms) + length q"
    by (rule bfs_visit_measure [OF adjacent_endpoints _ b]) (simp add: endpoints_def)
  then show "((prs, bfs_visit u (adjacent prs u) (ms, q, par), order @ [u]), (prs, (ms, u # q, par), order)) \<in>
      measure (\<lambda>(prs, (ms, q, par), order). 2 * card (endpoints prs - set ms) + length q)"
    by (simp add: b)
qed simp

section \<open>Cycles\<close>

record pair_sum =
  o_sum :: f64
  o_w :: f64
  d_sum :: f64
  d_w :: f64

definition orient_pair :: "nat \<Rightarrow> nat \<Rightarrow> nat \<times> nat \<times> f64" where
  "orient_pair a b = (if a < b then (a, b, Fin 1) else (b, a, Fin (- 1)))"

definition add_pair :: "obs \<times> obs \<Rightarrow> (nat \<times> nat, pair_sum) btreemap \<Rightarrow> (nat \<times> nat, pair_sum) btreemap" where
  "add_pair ood m = (case ood of (oo, od) \<Rightarrow> case orient_pair (ob_a oo) (ob_b oo) of (lo, hi, sign) \<Rightarrow>
     let p = (case map_of m (lo, hi) of None \<Rightarrow> \<lparr>o_sum = Fin 0, o_w = Fin 0, d_sum = Fin 0, d_w = Fin 0\<rparr> | Some p \<Rightarrow> p);
         wo = fdiv (Fin 1) (fsq (ob_sigma oo));
         wd = fdiv (Fin 1) (fsq (ob_sigma od))
     in bt_insert (lo, hi) \<lparr>o_sum = fadd (o_sum p) (fmul (fmul sign (ob_m oo)) wo), o_w = fadd (o_w p) wo,
          d_sum = fadd (d_sum p) (fmul (fmul sign (ob_m od)) wd), d_w = fadd (d_w p) wd\<rparr> m)"

definition pairs_of :: "obs list \<Rightarrow> obs list \<Rightarrow> (nat \<times> nat, pair_sum) btreemap" where
  "pairs_of oos ods = foldl (\<lambda>m ood. add_pair ood m) [] (zip oos ods)"

definition walk_edge :: "(nat \<times> nat, pair_sum) btreemap \<Rightarrow> nat \<times> nat \<Rightarrow> (f64 \<times> f64 \<times> f64 \<times> f64) option" where
  "walk_edge prs ab = (case orient_pair (fst ab) (snd ab) of (lo, hi, sign) \<Rightarrow>
     map_option (\<lambda>p. (fdiv (fmul sign (o_sum p)) (o_w p), fdiv (Fin 1) (o_w p),
                     fdiv (fmul sign (d_sum p)) (d_w p), fdiv (Fin 1) (d_w p))) (map_of prs (lo, hi)))"

definition depths :: "nat \<Rightarrow> nat option list \<Rightarrow> nat list \<Rightarrow> nat list" where
  "depths n parent order = foldl (\<lambda>d u. case parent ! u of None \<Rightarrow> d | Some p \<Rightarrow> d[u := d ! p + 1]) (replicate n 0) order"

partial_function (option) climb :: "nat option list \<Rightarrow> nat list \<Rightarrow> nat \<Rightarrow> nat \<Rightarrow> nat list \<Rightarrow> nat list \<Rightarrow>
    (nat list \<times> nat list) option" where
  "climb parent depth x y up_u up_v =
     (if x = y then Some (up_u, up_v)
      else if depth ! y \<le> depth ! x
      then (case parent ! x of None \<Rightarrow> None | Some x' \<Rightarrow> climb parent depth x' y (up_u @ [x']) up_v)
      else (case parent ! y of None \<Rightarrow> None | Some y' \<Rightarrow> climb parent depth x y' up_u (up_v @ [y'])))"

declare climb.simps [code]

definition cycle_nodes :: "nat list \<Rightarrow> nat list \<Rightarrow> nat list" where
  "cycle_nodes up_u up_v = [hd up_u, hd up_v] @ drop 1 up_v @ take (length up_u - 2) (drop 1 (rev up_u))"

definition ring :: "nat list \<Rightarrow> (nat \<times> nat) list" where
  "ring ns = map (\<lambda>i. (ns ! i, ns ! ((i + 1) mod length ns))) [0..<length ns]"

fun walk_sum :: "(nat \<times> nat, pair_sum) btreemap \<Rightarrow> (nat \<times> nat) list \<Rightarrow> f64 \<times> f64 \<times> f64 \<times> f64 \<Rightarrow>
    (f64 \<times> f64 \<times> f64 \<times> f64) option" where
  "walk_sum prs [] acc = Some acc"
| "walk_sum prs (ab # es) (o1, so, d, sd) =
     Option.bind (walk_edge prs ab) (\<lambda>(wo, wso, wd, wsd).
       walk_sum prs es (fadd o1 wo, fadd so wso, fadd d wd, fadd sd wsd))"

definition cycle_of :: "node_id list \<Rightarrow> nat option list \<Rightarrow> nat list \<Rightarrow> (nat \<times> nat, pair_sum) btreemap \<Rightarrow> nat \<times> nat \<Rightarrow>
    cycle_defect option" where
  "cycle_of ids parent depth prs uv = (case uv of (u, v) \<Rightarrow>
     Option.bind (climb parent depth u v [u] [v]) (\<lambda>(up_u, up_v).
       let ns = cycle_nodes up_u up_v in
       map_option (\<lambda>(o1, so, d, sd). let so' = fsqrt so; sd' = fsqrt sd in
         \<lparr>cd_nodes = map (\<lambda>i. ids ! i) ns, cd_offset_ns = o1, cd_drift = d, cd_sigma_offset_ns = so', cd_sigma_drift = sd',
          cd_z = fmax (fabs (fdiv o1 so')) (fabs (fdiv d sd'))\<rparr>)
         (walk_sum prs (ring ns) (Fin 0, Fin 0, Fin 0, Fin 0))))"

fun collect :: "('a \<Rightarrow> 'b option) \<Rightarrow> 'a list \<Rightarrow> 'b list option" where
  "collect f [] = Some []"
| "collect f (x # xs) = Option.bind (f x) (\<lambda>y. map_option (Cons y) (collect f xs))"

definition non_tree :: "nat option list \<Rightarrow> nat \<times> nat \<Rightarrow> bool" where
  "non_tree parent uv \<longleftrightarrow> \<not> (parent ! snd uv = Some (fst uv) \<or> parent ! fst uv = Some (snd uv))"

definition cycles_of :: "node_id list \<Rightarrow> nat option list \<Rightarrow> nat list \<Rightarrow> (nat \<times> nat, pair_sum) btreemap \<Rightarrow>
    cycle_defect list option" where
  "cycles_of ids parent depth prs = map_option (sort_by (\<lambda>a b. total_le (cd_z b) (cd_z a)))
     (collect (cycle_of ids parent depth prs) (filter (non_tree parent) (map fst prs)))"

section \<open>The frame\<close>

definition drift_obs :: "(f64 \<Rightarrow> f64) \<Rightarrow> node_id list \<Rightarrow> edge_estimate \<Rightarrow> obs" where
  "drift_obs ln_1p ids e = \<lparr>ob_a = index_of ids (e_from e), ob_b = index_of ids (e_to e),
     ob_m = ln_1p (rl_drift (e_relation e)),
     ob_sigma = fmax (fdiv (rl_sigma_drift (e_relation e)) (fadd (Fin 1) (rl_drift (e_relation e)))) MIN_SIGMA_DRIFT\<rparr>"

definition offset_obs :: "node_id list \<Rightarrow> nat \<Rightarrow> bool \<Rightarrow> u64 \<Rightarrow> f64 list \<Rightarrow> edge_estimate \<Rightarrow> obs" where
  "offset_obs ids me mapped instant off e =
     (let a = index_of ids (e_from e);
          t = (if mapped then fsub (fadd (of_u64 instant) (off ! a)) (off ! me) else of_u64 (at_ns (e_relation e)))
      in \<lparr>ob_a = a, ob_b = index_of ids (e_to e), ob_m = offset_at (e_relation e) t,
          ob_sigma = fmax (sigma_at (e_relation e) t) MIN_SIGMA_NS\<rparr>)"

definition residual_of :: "f64 list \<Rightarrow> f64 list \<Rightarrow> edge_estimate \<times> obs \<times> obs \<Rightarrow> edge_residual" where
  "residual_of off rate eod = (case eod of (e, oo, od) \<Rightarrow>
     let ro = fsub (ob_m oo) (fsub (off ! ob_b oo) (off ! ob_a oo));
         rd = fsub (ob_m od) (fsub (rate ! ob_b od) (rate ! ob_a od))
     in \<lparr>er_from = e_from e, er_to = e_to e, er_offset_ns = ro, er_drift = rd,
         z_offset = fdiv ro (ob_sigma oo), z_drift = fdiv rd (ob_sigma od)\<rparr>)"

definition residual_z :: "edge_residual \<Rightarrow> f64" where
  "residual_z r = fmax (fabs (z_offset r)) (fabs (z_drift r))"

definition rms :: "f64 list \<Rightarrow> f64" where
  "rms xs = fsqrt (fdiv (fsum (map fsq xs)) (of_usize (max (length xs) 1)))"

definition offset_pass :: "node_id list \<Rightarrow> nat \<Rightarrow> nat \<Rightarrow> nat list \<Rightarrow> bool \<Rightarrow> u64 \<Rightarrow> edge_estimate list \<Rightarrow>
    f64 list \<times> f64 list \<times> obs list \<Rightarrow> f64 list \<times> f64 list \<times> obs list" where
  "offset_pass ids r me members mapped instant es st = (case st of (off, _, _) \<Rightarrow>
     let os = map (offset_obs ids me mapped instant off) es;
         (o', s') = laplacian_solve (length ids) r members os
     in (o', s', os))"

definition solve_frame :: "(f64 \<Rightarrow> f64) \<Rightarrow> (f64 \<Rightarrow> f64) \<Rightarrow> (f64 \<Rightarrow> f64) \<Rightarrow> node_id \<Rightarrow> node_id \<Rightarrow> u64 \<Rightarrow>
    edge_estimate list \<Rightarrow> network_frame option" where
  "solve_frame ln_1p exp_m1 exp_f solver ref instant es =
     (let ids = frame_ids solver ref es; n = length ids;
          us = filter usable es;
          r = index_of ids ref; me = index_of ids solver;
          ((members, _, parent), order) =
            bfs (map (\<lambda>e. (index_of ids (e_from e), index_of ids (e_to e))) us) ([r], [r], replicate n None) [];
          mapped = (me \<in> set members);
          inside = filter (\<lambda>e. index_of ids (e_from e) \<in> set members) us;
          ms = sort members;
          ods = map (drift_obs ln_1p ids) inside;
          (rate, sigma_rate) = laplacian_solve n r ms ods;
          pass = offset_pass ids r me ms mapped instant inside;
          (off, sigma_off, oos) = pass (pass (pass (replicate n (Fin 0), replicate n (Fin 0), [])));
          residuals = map (residual_of off rate) (zip inside (zip oos ods))
      in map_option (\<lambda>cycles.
           \<lparr>fr_reference = ref, fr_solver = solver, fr_at_ns = instant, instant_mapped = mapped,
            fr_nodes = map (\<lambda>i. \<lparr>nf_id = ids ! i, nf_offset_ns = off ! i, nf_drift = exp_m1 (rate ! i),
              nf_sigma_offset_ns = sigma_off ! i, nf_sigma_drift = fmul (sigma_rate ! i) (exp_f (rate ! i))\<rparr>) order,
            unreachable = map (\<lambda>i. ids ! i) (filter (\<lambda>i. i \<notin> set members) [0..<n]),
            fr_edges = sort_by (\<lambda>a b. total_le (residual_z b) (residual_z a)) residuals,
            fr_cycles = cycles, rms_offset_ns = rms (map er_offset_ns residuals), rms_drift = rms (map er_drift residuals),
            falsetickers = [], outliers = [], selection_jitter_ns = Fin 0\<rparr>)
         (cycles_of ids parent (depths n parent order) (pairs_of oos ods)))"

end
