(* ===== verification/FrameTotal.thy ===== *)
theory FrameTotal
  imports Frame
begin

text \<open>
  The breadth-first search of \<open>solve_frame\<close> lists the component of the reference level by level, which
  is why the walk to a common ancestor ends, every edge of a cycle has an entry in \<open>pairs\<close>, and the
  frame is computed for every set of edges.
\<close>

section \<open>The search\<close>

text \<open>\<open>seq\<close> is the order followed by the queue, \<open>lv\<close> the level of each of its nodes.\<close>

definition bfs_tree :: "(nat \<times> nat) list \<Rightarrow> nat \<Rightarrow> (nat \<Rightarrow> nat) \<Rightarrow> nat option list \<Rightarrow> nat list \<Rightarrow> bool" where
  "bfs_tree prs r lv par seq \<longleftrightarrow>
     distinct seq \<and> r \<in> set seq \<and> set seq \<subseteq> {..<length par} \<and> par ! r = None \<and> lv r = 0 \<and> sorted (map lv seq) \<and>
     (\<forall>x \<in> set seq. x \<noteq> r \<longrightarrow> (\<exists>p \<in> set seq. par ! x = Some p \<and> x \<in> set (adjacent prs p) \<and> lv x = lv p + 1))"

definition bfs_closed :: "(nat \<times> nat) list \<Rightarrow> (nat \<Rightarrow> nat) \<Rightarrow> nat list \<Rightarrow> nat list \<Rightarrow> bool" where
  "bfs_closed prs lv done seq \<longleftrightarrow> set done \<subseteq> set seq \<and>
     (\<forall>u \<in> set done. \<forall>v \<in> set (adjacent prs u). v \<in> set seq \<and> lv v \<le> lv u + 1)"

lemma bfs_tree_snoc:
  assumes t: "bfs_tree prs r lv par seq" and u: "u \<in> set seq" "\<forall>x \<in> set seq. lv x \<le> lv u + 1"
    and v: "v \<in> set (adjacent prs u)" "v \<notin> set seq" "v < length par"
  shows "bfs_tree prs r (lv(v := lv u + 1)) (par[v := Some u]) (seq @ [v])"
proof -
  let ?lv = "lv(v := lv u + 1)" and ?par = "par[v := Some u]"
  have same: "map ?lv seq = map lv seq" using v(2) by auto
  have "\<exists>p \<in> set (seq @ [v]). ?par ! x = Some p \<and> x \<in> set (adjacent prs p) \<and> ?lv x = ?lv p + 1"
    if x: "x \<in> set (seq @ [v])" "x \<noteq> r" for x
  proof (cases "x = v")
    case True
    then show ?thesis using u v by (intro bexI [of _ u]) auto
  next
    case False
    then obtain p where "p \<in> set seq" "par ! x = Some p" "x \<in> set (adjacent prs p)" "lv x = lv p + 1"
      using t x by (auto simp: bfs_tree_def)
    then show ?thesis using False v(2) by (intro bexI [of _ p]) auto
  qed
  moreover have "sorted (map ?lv seq)" unfolding same using t by (simp add: bfs_tree_def)
  then have "sorted (map ?lv (seq @ [v]))" using u v(2) by (auto simp: sorted_append)
  moreover have "v \<noteq> r" using t v(2) by (auto simp: bfs_tree_def)
  then have "?par ! r = None" "?lv r = 0" using t by (simp_all add: bfs_tree_def)
  ultimately show ?thesis using t v unfolding bfs_tree_def by auto
qed

lemma bfs_closed_snoc:
  "bfs_closed prs lv done seq \<Longrightarrow> v \<notin> set seq \<Longrightarrow> bfs_closed prs (lv(v := l)) done (seq @ [v])"
  by (auto simp: bfs_closed_def)

lemma bfs_visit_tree:
  assumes "bfs_tree prs r lv par (ord @ q)" "u \<in> set ord" "\<forall>x \<in> set (ord @ q). lv x \<le> lv u + 1"
    "set ms = set (ord @ q)" "bfs_closed prs lv done (ord @ q)"
    "set vs \<subseteq> set (adjacent prs u)" "set vs \<subseteq> {..<length par}" "bfs_visit u vs (ms, q, par) = (ms', q', par')"
  shows "\<exists>lv'. bfs_tree prs r lv' par' (ord @ q') \<and> (\<forall>x \<in> set (ord @ q'). lv' x \<le> lv' u + 1) \<and>
    set ms' = set (ord @ q') \<and> bfs_closed prs lv' done (ord @ q') \<and> set vs \<subseteq> set (ord @ q') \<and>
    set ms \<subseteq> set ms' \<and> length par' = length par"
  using assms
proof (induction vs arbitrary: ms q par lv)
  case Nil
  then show ?case by auto
next
  case (Cons v vs)
  show ?case
  proof (cases "v \<in> set ms")
    case True
    have "bfs_visit u vs (ms, q, par) = (ms', q', par')" using Cons.prems(8) True by simp
    from Cons.IH [OF Cons.prems(1-5) _ _ this] Cons.prems(6,7) obtain lv' where
      "bfs_tree prs r lv' par' (ord @ q')" "\<forall>x \<in> set (ord @ q'). lv' x \<le> lv' u + 1" "set ms' = set (ord @ q')"
      "bfs_closed prs lv' done (ord @ q')" "set vs \<subseteq> set (ord @ q')" "set ms \<subseteq> set ms'" "length par' = length par"
      by auto
    then show ?thesis using True by (intro exI [of _ lv']) auto
  next
    case False
    let ?lv = "lv(v := lv u + 1)" and ?par = "par[v := Some u]" and ?q = "q @ [v]"
    have new: "v \<notin> set (ord @ q)" using False Cons.prems(4) by simp
    have t: "bfs_tree prs r ?lv ?par (ord @ ?q)"
      using bfs_tree_snoc [OF Cons.prems(1) _ Cons.prems(3), of v] new Cons.prems(2,6,7) by simp
    have c: "bfs_closed prs ?lv done (ord @ ?q)" using bfs_closed_snoc [OF Cons.prems(5) new] by simp
    have u: "v \<noteq> u" "\<forall>x \<in> set (ord @ ?q). ?lv x \<le> ?lv u + 1" using new Cons.prems(2,3) by auto
    have "bfs_visit u vs (v # ms, ?q, ?par) = (ms', q', par')" using Cons.prems(8) False by simp
    from Cons.IH [OF t Cons.prems(2) u(2) _ c _ _ this] Cons.prems(4,6,7) show ?thesis by auto
  qed
qed

definition bfs_done :: "(nat \<times> nat) list \<Rightarrow> nat \<Rightarrow> (nat \<Rightarrow> nat) \<Rightarrow> nat option list \<Rightarrow> nat list \<Rightarrow> bool" where
  "bfs_done prs r lv par ord \<longleftrightarrow> bfs_tree prs r lv par ord \<and> bfs_closed prs lv ord ord"

lemma bfs_result:
  assumes "bfs_tree prs r lv par (ord @ q)" "bfs_closed prs lv ord (ord @ q)"
    "q = [] \<or> (\<forall>x \<in> set (ord @ q). lv x \<le> lv (hd q) + 1)"
    "set ms = set (ord @ q)" "endpoints prs \<subseteq> {..<length par}"
    "bfs prs (ms, q, par) ord = ((ms', q', par'), ord')"
  shows "\<exists>lv'. set ms' = set ord' \<and> bfs_done prs r lv' par' ord' \<and> length par' = length par"
  using assms
proof (induction prs "(ms, q, par)" ord arbitrary: ms q par lv rule: bfs.induct)
  case (1 prs ms par ord)
  then show ?case by (auto simp: bfs_done_def)
next
  case (2 prs ms u q par ord)
  obtain ms1 q1 par1 where v: "bfs_visit u (adjacent prs u) (ms, q, par) = (ms1, q1, par1)" by (metis prod_cases3)
  have adj: "set (adjacent prs u) \<subseteq> {..<length par}" using adjacent_endpoints 2(6) by blast
  have lvl: "\<forall>x \<in> set ((ord @ [u]) @ q). lv x \<le> lv u + 1" using 2(4) by auto
  obtain lv' where w: "bfs_tree prs r lv' par1 ((ord @ [u]) @ q1)" "\<forall>x \<in> set ((ord @ [u]) @ q1). lv' x \<le> lv' u + 1"
    "set ms1 = set ((ord @ [u]) @ q1)" "bfs_closed prs lv' ord ((ord @ [u]) @ q1)"
    "set (adjacent prs u) \<subseteq> set ((ord @ [u]) @ q1)" "length par1 = length par"
    using bfs_visit_tree [where ord = "ord @ [u]", OF _ _ lvl _ _ subset_refl adj v, of r ord] 2(2,3,5)
    by (auto simp: bfs_closed_def)
  have closed: "bfs_closed prs lv' (ord @ [u]) ((ord @ [u]) @ q1)" using w(2,4,5) by (auto simp: bfs_closed_def)
  have "q1 = [] \<or> (\<forall>x \<in> set ((ord @ [u]) @ q1). lv' x \<le> lv' (hd q1) + 1)"
  proof (cases q1)
    case (Cons y ys)
    have "lv' u \<le> lv' y" using w(1) Cons by (simp add: bfs_tree_def sorted_append)
    then show ?thesis using w(2) Cons by (auto intro: order_trans [of _ "Suc (lv' u)"])
  qed simp
  from 2(1) [OF v w(1) closed this w(3)] show ?case using 2(6,7) by (simp only: w(6) v bfs.simps)
qed

lemma bfs_start:
  assumes "r < n" "endpoints prs \<subseteq> {..<n}" "bfs prs ([r], [r], replicate n None) [] = ((ms, q, par), ord)"
  shows "\<exists>lv. set ms = set ord \<and> bfs_done prs r lv par ord \<and> length par = n"
proof -
  have "bfs_tree prs r (\<lambda>_. 0) (replicate n None) ([] @ [r])" using assms(1) by (simp add: bfs_tree_def)
  moreover have "bfs_closed prs (\<lambda>_. 0) [] ([] @ [r])" by (simp add: bfs_closed_def)
  ultimately show ?thesis using bfs_result [OF _ _ _ _ _ assms(3)] assms(2) by fastforce
qed

section \<open>The component\<close>

definition linked :: "(nat \<times> nat) list \<Rightarrow> (nat \<times> nat) set" where
  "linked prs = set prs \<union> (set prs)\<inverse>"

lemma linked_adjacent: "(u, v) \<in> linked prs \<longleftrightarrow> v \<in> set (adjacent prs u)"
  by (auto simp: linked_def mem_adjacent)

lemma linked_sym: "(u, v) \<in> linked prs \<longleftrightarrow> (v, u) \<in> linked prs"
  by (auto simp: linked_def)

lemma bfs_parentE:
  assumes "bfs_done prs r lv par ord" "x \<in> set ord" "x \<noteq> r"
  obtains p where "p \<in> set ord" "par ! x = Some p" "(x, p) \<in> linked prs" "lv x = lv p + 1"
  using assms by (auto simp: bfs_done_def bfs_tree_def linked_adjacent [symmetric] linked_sym)

lemma bfs_levels:
  assumes "bfs_done prs r lv par ord" "u \<in> set ord" "(u, v) \<in> linked prs"
  shows "v \<in> set ord" "lv v \<le> lv u + 1"
  using assms by (auto simp: bfs_done_def bfs_closed_def linked_adjacent)

lemma bfs_done_component:
  assumes "bfs_done prs r lv par ord" shows "set ord = (linked prs)\<^sup>* `` {r}"
proof
  show "set ord \<subseteq> (linked prs)\<^sup>* `` {r}"
  proof
    fix x assume "x \<in> set ord"
    then show "x \<in> (linked prs)\<^sup>* `` {r}"
    proof (induction "lv x" arbitrary: x rule: less_induct)
      case less
      show ?case
      proof (cases "x = r")
        case False
        with less.prems obtain p where p: "p \<in> set ord" "(x, p) \<in> linked prs" "lv x = lv p + 1"
          using bfs_parentE [OF assms] by blast
        with less.hyps [of p] have "(r, p) \<in> (linked prs)\<^sup>*" by simp
        then show ?thesis using p(2) linked_sym by (blast intro: rtrancl_into_rtrancl)
      qed simp
    qed
  qed
  have "x \<in> set ord" if "(r, x) \<in> (linked prs)\<^sup>*" for x
    using that by (induction rule: rtrancl_induct)
      (use assms in \<open>auto simp: bfs_done_def bfs_tree_def bfs_closed_def linked_adjacent\<close>)
  then show "(linked prs)\<^sup>* `` {r} \<subseteq> set ord" by auto
qed

lemma depths_prefix:
  assumes "bfs_done prs r lv par ord" "length par = n" "ord = xs @ ys"
  shows "length (depths n par xs) = n \<and> (\<forall>x < n. depths n par xs ! x = (if x \<in> set xs then lv x else 0))"
  using assms(3)
proof (induction xs arbitrary: ys rule: rev_induct)
  case Nil
  then show ?case by (simp add: depths_def)
next
  case (snoc x xs)
  define d where "d = depths n par xs"
  have d: "length d = n" "\<forall>z < n. d ! z = (if z \<in> set xs then lv z else 0)"
    using snoc.IH [of "x # ys"] snoc.prems by (simp_all add: d_def)
  have t: "bfs_tree prs r lv par ord" using assms(1) by (simp add: bfs_done_def)
  have x: "x \<in> set ord" "x \<notin> set xs" "x < n" using t snoc.prems assms(2) by (auto simp: bfs_tree_def)
  have dx: "depths n par (xs @ [x]) = (case par ! x of None \<Rightarrow> d | Some p \<Rightarrow> d[x := d ! p + 1])"
    unfolding d_def depths_def by simp
  show ?case
  proof (cases "x = r")
    case True
    then show ?thesis using t x d dx by (auto simp: bfs_tree_def)
  next
    case False
    then obtain p where p: "p \<in> set ord" "par ! x = Some p" "lv x = lv p + 1"
      using bfs_parentE [OF assms(1) x(1)] by blast
    have "\<forall>z \<in> set (x # ys). lv x \<le> lv z" using t snoc.prems by (auto simp: bfs_tree_def sorted_append)
    then have "p \<notin> set (x # ys)" using p(3) by auto
    then have "p \<in> set xs" using p(1) snoc.prems by auto
    moreover have "p < n" using p(1) t assms(2) by (auto simp: bfs_tree_def)
    ultimately show ?thesis using d x p dx by (auto simp: nth_list_update)
  qed
qed

lemma depths_level:
  assumes "bfs_done prs r lv par ord" "length par = n" "x \<in> set ord"
  shows "depths n par ord ! x = lv x"
  using depths_prefix [OF assms(1,2), of ord "[]"] assms by (auto simp: bfs_done_def bfs_tree_def)

section \<open>The walk to the common ancestor\<close>

abbreviation up_chain :: "nat option list \<Rightarrow> nat list \<Rightarrow> bool" where
  "up_chain par \<equiv> successively (\<lambda>a b. par ! a = Some b)"

lemma climb_up:
  assumes inv: "bfs_done prs r lv par ord" and d: "\<forall>x \<in> set ord. d ! x = lv x"
    and "x \<in> set ord" "y \<in> set ord" "us \<noteq> []" "last us = x" "vs \<noteq> []" "last vs = y"
    and "up_chain par us" "up_chain par vs" "set us \<subseteq> set ord" "set vs \<subseteq> set ord"
  shows "\<exists>us' vs'. climb par d x y us vs = Some (us @ us', vs @ vs') \<and> last (us @ us') = last (vs @ vs') \<and>
    up_chain par (us @ us') \<and> up_chain par (vs @ vs') \<and> set us' \<subseteq> set ord \<and> set vs' \<subseteq> set ord"
  using assms(3-)
proof (induction "lv x + lv y" arbitrary: x y us vs rule: less_induct)
  case less
  have root: "lv z \<noteq> 0" if "z \<in> set ord" "z \<noteq> r" for z using bfs_parentE [OF inv that] by (metis add_is_0 one_neq_zero)
  consider "x = y" | (x) "x \<noteq> y" "lv y \<le> lv x" | (y) "x \<noteq> y" "lv x < lv y" by linarith
  then show ?case
  proof cases
    case 1
    then show ?thesis using less.prems by (intro exI [of _ "[]"]) (simp add: climb.simps)
  next
    case x
    have "x \<noteq> r" using x root [OF less.prems(2)] inv by (auto simp: bfs_done_def bfs_tree_def)
    then obtain p where p: "p \<in> set ord" "par ! x = Some p" "lv x = lv p + 1"
      using bfs_parentE [OF inv less.prems(1)] by blast
    have step: "climb par d x y us vs = climb par d p y (us @ [p]) vs"
      using x p d less.prems by (subst climb.simps) simp
    from less.hyps [of p y "us @ [p]" vs] p less.prems obtain us' vs' where
      "climb par d p y (us @ [p]) vs = Some ((us @ [p]) @ us', vs @ vs')" "last ((us @ [p]) @ us') = last (vs @ vs')"
      "up_chain par ((us @ [p]) @ us')" "up_chain par (vs @ vs')" "set us' \<subseteq> set ord" "set vs' \<subseteq> set ord"
      by (auto simp: successively_append_iff)
    then show ?thesis using step p(1) by (intro exI [of _ "p # us'"] exI [of _ vs']) auto
  next
    case y
    have "y \<noteq> r" using y inv by (auto simp: bfs_done_def bfs_tree_def)
    then obtain p where p: "p \<in> set ord" "par ! y = Some p" "lv y = lv p + 1"
      using bfs_parentE [OF inv less.prems(2)] by blast
    have step: "climb par d x y us vs = climb par d x p us (vs @ [p])"
      using y p d less.prems by (subst climb.simps) simp
    from less.hyps [of x p us "vs @ [p]"] p less.prems obtain us' vs' where
      "climb par d x p us (vs @ [p]) = Some (us @ us', (vs @ [p]) @ vs')" "last (us @ us') = last ((vs @ [p]) @ vs')"
      "up_chain par (us @ us')" "up_chain par ((vs @ [p]) @ vs')" "set us' \<subseteq> set ord" "set vs' \<subseteq> set ord"
      by (auto simp: successively_append_iff)
    then show ?thesis using step p(1) by (intro exI [of _ us'] exI [of _ "p # vs'"]) auto
  qed
qed

section \<open>The cycle of a non-tree edge\<close>

lemma ring_successively:
  assumes "ns \<noteq> []" shows "(\<forall>(a, b) \<in> set (ring ns). P a b) \<longleftrightarrow> successively P (ns @ [hd ns])"
proof -
  have "(\<forall>(a, b) \<in> set (ring ns). P a b) \<longleftrightarrow> (\<forall>i < length ns. P (ns ! i) (ns ! ((i + 1) mod length ns)))"
    by (auto simp: ring_def)
  also have "\<dots> \<longleftrightarrow> (\<forall>i < length ns. P ((ns @ [hd ns]) ! i) ((ns @ [hd ns]) ! Suc i))"
  proof (intro all_cong)
    fix i assume "i < length ns"
    then show "P (ns ! i) (ns ! ((i + 1) mod length ns)) = P ((ns @ [hd ns]) ! i) ((ns @ [hd ns]) ! Suc i)"
      using assms by (cases "Suc i = length ns") (auto simp: nth_append hd_conv_nth mod_if)
  qed
  also have "\<dots> \<longleftrightarrow> successively P (ns @ [hd ns])" by (simp add: successively_conv_nth)
  finally show ?thesis .
qed

lemma up_chain_linked:
  assumes "bfs_done prs r lv par ord" "up_chain par us" "set us \<subseteq> set ord"
  shows "successively (\<lambda>a b. (a, b) \<in> linked prs) us"
proof (rule successively_mono [OF assms(2)])
  fix a b assume "a \<in> set us" "par ! a = Some b"
  moreover have "a \<noteq> r" using calculation assms(1) by (auto simp: bfs_done_def bfs_tree_def)
  ultimately show "(a, b) \<in> linked prs" using bfs_parentE [OF assms(1), of a] assms(3) by auto
qed

lemma successively_linked_rev:
  "successively (\<lambda>a b. (a, b) \<in> linked prs) (rev xs) = successively (\<lambda>a b. (a, b) \<in> linked prs) xs"
  unfolding successively_rev by (rule successively_cong) (blast intro: linked_sym [THEN iffD1], rule refl)

lemma successively_join:
  "successively P xs \<Longrightarrow> xs \<noteq> [] \<Longrightarrow> successively P (last xs # ys) \<Longrightarrow> successively P (xs @ ys)"
  by (auto simp: successively_append_iff successively_Cons)

lemma cycle_nodes_shape:
  assumes "us \<noteq> []" shows "cycle_nodes (u # us) (v # vs) = u # (v # vs) @ rev (butlast us)"
  using assms by (cases us rule: rev_cases) (simp_all add: cycle_nodes_def)

lemma climb_cycle:
  assumes inv: "bfs_done prs r lv par ord" and d: "\<forall>x \<in> set ord. d ! x = lv x"
    and uv: "(u, v) \<in> linked prs" "u \<noteq> v" "u \<in> set ord" "v \<in> set ord" "non_tree par (u, v)"
  shows "\<exists>us vs. climb par d u v [u] [v] = Some (u # us, v # vs) \<and> us \<noteq> [] \<and>
    set (cycle_nodes (u # us) (v # vs)) \<subseteq> set ord \<and>
    (\<forall>(a, b) \<in> set (ring (cycle_nodes (u # us) (v # vs))). (a, b) \<in> linked prs)"
proof -
  have "\<exists>us vs. climb par d u v [u] [v] = Some (u # us, v # vs) \<and> us \<noteq> [] \<and> last (u # us) = last (v # vs) \<and>
    up_chain par (u # us) \<and> up_chain par (v # vs) \<and> set us \<subseteq> set ord \<and> set vs \<subseteq> set ord"
  proof (cases "lv v \<le> lv u")
    case True
    have "u \<noteq> r" using True uv inv bfs_parentE [OF inv uv(4)]
      by (metis One_nat_def Suc_eq_plus1 bfs_done_def bfs_tree_def le_zero_eq nat.distinct(1))
    then obtain p where p: "p \<in> set ord" "par ! u = Some p" using bfs_parentE [OF inv uv(3)] by blast
    have "climb par d u v [u] [v] = climb par d p v [u, p] [v]"
      using True uv d p by (subst climb.simps) simp
    with climb_up [OF inv d p(1) uv(4), of "[u, p]" "[v]"] p uv show ?thesis by fastforce
  next
    case False
    then have l: "lv v = lv u + 1" using bfs_levels [OF inv uv(3,1)] by simp
    then have "v \<noteq> r" using inv by (auto simp: bfs_done_def bfs_tree_def)
    then obtain p where p: "p \<in> set ord" "par ! v = Some p" "lv v = lv p + 1"
      using bfs_parentE [OF inv uv(4)] by blast
    have ne: "p \<noteq> u" "lv p \<le> lv u" using uv(5) p l by (auto simp: non_tree_def)
    then have "u \<noteq> r" using bfs_parentE [OF inv p(1)] inv p(3) l
      by (metis One_nat_def Suc_eq_plus1 bfs_done_def bfs_tree_def le_zero_eq nat.distinct(1))
    then obtain w where w: "w \<in> set ord" "par ! u = Some w" using bfs_parentE [OF inv uv(3)] by blast
    have "climb par d u v [u] [v] = climb par d u p [u] [v, p]"
      using l uv d p by (subst climb.simps) simp
    also have "\<dots> = climb par d w p [u, w] [v, p]"
      using ne uv(3) d p(1) w by (subst climb.simps) simp
    finally show ?thesis using climb_up [OF inv d w(1) p(1), of "[u, w]" "[v, p]"] p w uv by fastforce
  qed
  then obtain us vs where c: "climb par d u v [u] [v] = Some (u # us, v # vs)" "us \<noteq> []" "last (u # us) = last (v # vs)"
    "up_chain par (u # us)" "up_chain par (v # vs)" "set us \<subseteq> set ord" "set vs \<subseteq> set ord" by blast
  let ?L = "\<lambda>a b. (a, b) \<in> linked prs"
  have L: "successively ?L (u # us)" "successively ?L (v # vs)" using up_chain_linked [OF inv] c uv by auto
  let ?ns = "cycle_nodes (u # us) (v # vs)"
  have shape: "?ns = u # (v # vs) @ rev (butlast us)" using cycle_nodes_shape [OF c(2)] .
  have "successively ?L (rev (u # us))" using L(1) by (simp only: successively_linked_rev)
  moreover have "rev (u # us) = last us # rev (butlast us) @ [u]" using c(2) by (cases us rule: rev_cases) simp_all
  ultimately have "successively ?L (last us # rev (butlast us) @ [u])" by (simp only:)
  moreover have "last us = last (v # vs)" using c(2,3) by simp
  ultimately have "successively ?L (last (v # vs) # rev (butlast us) @ [u])" by (simp only:)
  then have "successively ?L ((v # vs) @ rev (butlast us) @ [u])" by (rule successively_join [OF L(2) list.distinct(2)])
  then have "successively ?L (?ns @ [hd ?ns])" using uv(1) by (simp add: shape)
  then have "\<forall>(a, b) \<in> set (ring ?ns). (a, b) \<in> linked prs" using ring_successively [of ?ns ?L] shape by simp
  moreover have "set ?ns \<subseteq> set ord" using c uv by (auto simp: shape dest: in_set_butlastD)
  ultimately show ?thesis using c(1,2) by blast
qed

section \<open>Every cycle has its defect\<close>

definition pair_key :: "nat \<times> nat \<Rightarrow> nat \<times> nat" where
  "pair_key ab = (if fst ab < snd ab then ab else (snd ab, fst ab))"

definition keys_of :: "(nat \<times> nat) list \<Rightarrow> nat list \<Rightarrow> (nat \<times> nat) set" where
  "keys_of prs ord = pair_key ` {ab \<in> set prs. fst ab \<in> set ord}"

lemma add_pair_keys:
  "fst ` set (add_pair (oo, od) m) = Set.insert (pair_key (ob_a oo, ob_b oo)) (fst ` set m)"
proof -
  have "\<exists>q. add_pair (oo, od) m = bt_insert (pair_key (ob_a oo, ob_b oo)) q m"
    by (auto simp: add_pair_def orient_pair_def pair_key_def Let_def)
  then show ?thesis using set_bt_insert by (metis list.set_map)
qed

lemma pairs_of_keys:
  assumes "length oos = length ods"
  shows "fst ` set (pairs_of oos ods) = (\<lambda>ob. pair_key (ob_a ob, ob_b ob)) ` set oos"
proof -
  have "fst ` set (foldl (\<lambda>m ood. add_pair ood m) acc zs) = fst ` set acc \<union> (\<lambda>z. pair_key (ob_a (fst z), ob_b (fst z))) ` set zs" for zs acc
  proof (induction zs arbitrary: acc)
    case (Cons z zs)
    then show ?case by (cases z) (simp add: add_pair_keys)
  qed simp
  then have "fst ` set (pairs_of oos ods) = (\<lambda>ob. pair_key (ob_a ob, ob_b ob)) ` fst ` set (zip oos ods)"
    by (simp add: pairs_of_def image_image)
  also have "fst ` set (zip oos ods) = set oos" using assms by (metis list.set_map map_fst_zip)
  finally show ?thesis .
qed

lemma walk_edge_Some: "pair_key ab \<in> fst ` set ps \<Longrightarrow> \<exists>x. walk_edge ps ab = Some x"
  by (cases ab) (auto simp: walk_edge_def orient_pair_def pair_key_def map_of_eq_None_iff [symmetric] image_iff split: if_splits
    dest: weak_map_of_SomeI)

lemma walk_sum_Some: "\<forall>ab \<in> set es. pair_key ab \<in> fst ` set ps \<Longrightarrow> \<exists>x. walk_sum ps es acc = Some x"
proof (induction es arbitrary: acc)
  case Nil
  show ?case by (cases acc) simp
next
  case (Cons ab es)
  obtain o1 so d sd where acc: "acc = (o1, so, d, sd)" by (metis prod_cases4)
  from Cons.prems obtain wo wso wd wsd where "walk_edge ps ab = Some (wo, wso, wd, wsd)"
    using walk_edge_Some [of ab ps] by (metis list.set_intros(1) prod_cases4)
  then show ?case using Cons by (simp add: acc)
qed

lemma collect_Some: "\<forall>x \<in> set xs. \<exists>y. f x = Some y \<Longrightarrow> \<exists>ys. collect f xs = Some ys"
proof (induction xs)
  case (Cons x xs)
  then obtain y ys where "f x = Some y" "collect f xs = Some ys" by auto
  then show ?case by simp
qed simp

lemma linked_key:
  assumes inv: "bfs_done prs r lv par ord" and ab: "(a, b) \<in> linked prs" "a \<in> set ord" and irr: "\<forall>(x, y) \<in> set prs. x \<noteq> y"
  shows "pair_key (a, b) \<in> keys_of prs ord"
proof -
  have b: "b \<in> set ord" using bfs_levels [OF inv ab(2,1)] by blast
  have ne: "a \<noteq> b" using ab(1) irr by (auto simp: linked_def)
  show ?thesis
  proof (cases "(a, b) \<in> set prs")
    case True
    then show ?thesis using ab(2) by (auto simp: keys_of_def)
  next
    case False
    then have "(b, a) \<in> set prs" using ab(1) by (auto simp: linked_def)
    moreover have "pair_key (a, b) = pair_key (b, a)" using ne by (auto simp: pair_key_def)
    ultimately show ?thesis using b by (auto simp: keys_of_def)
  qed
qed

lemma keyD:
  assumes inv: "bfs_done prs r lv par ord" and "(u, v) \<in> keys_of prs ord" and irr: "\<forall>(x, y) \<in> set prs. x \<noteq> y"
  shows "(u, v) \<in> linked prs" "u \<noteq> v" "u \<in> set ord" "v \<in> set ord"
proof -
  obtain a b where ab: "(a, b) \<in> set prs" "a \<in> set ord" "pair_key (a, b) = (u, v)"
    using assms(2) by (auto simp: keys_of_def)
  have b: "b \<in> set ord" using bfs_levels [OF inv ab(2), of b] ab(1) by (auto simp: linked_def)
  have cases: "(u = a \<and> v = b) \<or> (u = b \<and> v = a)" using ab(3) by (auto simp: pair_key_def split: if_splits)
  then show "u \<in> set ord" "v \<in> set ord" using ab(2) b by auto
  show "(u, v) \<in> linked prs" using cases ab(1) by (auto simp: linked_def)
  show "u \<noteq> v" using cases ab(1) irr by auto
qed

lemma cycles_total:
  assumes inv: "bfs_done prs r lv par ord" and n: "length par = n" and irr: "\<forall>(x, y) \<in> set prs. x \<noteq> y"
    and keys: "fst ` set ps = keys_of prs ord"
  shows "\<exists>cs. cycles_of ids par (depths n par ord) ps = Some cs"
proof -
  have "\<exists>y. cycle_of ids par (depths n par ord) ps uv = Some y" if "uv \<in> set (filter (non_tree par) (map fst ps))" for uv
  proof -
    obtain u v where uv: "uv = (u, v)" by (cases uv)
    then have "(u, v) \<in> keys_of prs ord" and nt: "non_tree par (u, v)" using that keys by auto
    note k = keyD [OF inv this(1) irr]
    have d: "\<forall>x \<in> set ord. depths n par ord ! x = lv x" using depths_level [OF inv n] by blast
    obtain us vs where c: "climb par (depths n par ord) u v [u] [v] = Some (u # us, v # vs)"
      and ns: "set (cycle_nodes (u # us) (v # vs)) \<subseteq> set ord"
      and L: "\<forall>(a, b) \<in> set (ring (cycle_nodes (u # us) (v # vs))). (a, b) \<in> linked prs"
      using climb_cycle [OF inv d k nt] by blast
    have "\<forall>ab \<in> set (ring (cycle_nodes (u # us) (v # vs))). pair_key ab \<in> fst ` set ps"
    proof
      fix ab assume ab: "ab \<in> set (ring (cycle_nodes (u # us) (v # vs)))"
      then have "fst ab \<in> set ord" using ns by (auto simp: ring_def subset_iff)
      moreover have "(fst ab, snd ab) \<in> linked prs" using L ab by auto
      ultimately show "pair_key ab \<in> fst ` set ps" using linked_key [OF inv _ _ irr, of "fst ab" "snd ab"] keys by simp
    qed
    from walk_sum_Some [OF this] show ?thesis
      by (auto simp: uv cycle_of_def c Let_def)
  qed
  then have "\<exists>ys. collect (cycle_of ids par (depths n par ord) ps) (filter (non_tree par) (map fst ps)) = Some ys"
    by (intro collect_Some) blast
  then show ?thesis by (auto simp: cycles_of_def)
qed

section \<open>The frame\<close>

definition edge_rel :: "edge_estimate list \<Rightarrow> (node_id \<times> node_id) set" where
  "edge_rel es = (\<lambda>e. (e_from e, e_to e)) ` {e \<in> set es. usable e} \<union> (\<lambda>e. (e_to e, e_from e)) ` {e \<in> set es. usable e}"

lemma index_of_nth: "distinct ids \<Longrightarrow> i < length ids \<Longrightarrow> index_of ids (ids ! i) = i"
  unfolding index_of_def
proof (induction ids arbitrary: i)
  case (Cons x ids)
  then show ?case by (cases i) auto
qed simp

lemma index_of_mem: "x \<in> set ids \<Longrightarrow> index_of ids x < length ids \<and> ids ! index_of ids x = x"
  unfolding index_of_def by (induction ids) auto

lemma inj_index_of: "inj_on (index_of ids) (set ids)"
  by (metis index_of_mem inj_onI)

lemma rtrancl_image:
  assumes "inj_on f A" "x \<in> A" "R \<subseteq> A \<times> A"
  shows "((\<lambda>(a, b). (f a, f b)) ` R)\<^sup>* `` {f x} = f ` (R\<^sup>* `` {x})" (is "?S\<^sup>* `` _ = _")
proof -
  have A: "z \<in> A" if "(x, z) \<in> R\<^sup>*" for z using that by (induction rule: rtrancl_induct) (use assms in auto)
  have "\<exists>z. y = f z \<and> (x, z) \<in> R\<^sup>*" if "(f x, y) \<in> ?S\<^sup>*" for y
    using that
  proof (induction rule: rtrancl_induct)
    case (step y w)
    then obtain z a b where z: "y = f z" "(x, z) \<in> R\<^sup>*" "(a, b) \<in> R" "y = f a" "w = f b" by auto
    then have "a = z" using assms A by (auto dest: inj_onD)
    then show ?case using z by (auto intro: rtrancl_into_rtrancl)
  qed auto
  moreover have "(f x, f z) \<in> ?S\<^sup>*" if "(x, z) \<in> R\<^sup>*" for z
    using that by (induction rule: rtrancl_induct) (auto intro: rtrancl_into_rtrancl)
  ultimately show ?thesis by auto
qed

lemma foldl_update_other: "i \<notin> snd ` set ps \<Longrightarrow> foldl (\<lambda>v (p, j). v[j := f p]) v ps ! i = v ! i"
  by (induction ps arbitrary: v) auto

lemma laplacian_fixed:
  assumes "laplacian_solve n fixed ms os = (v, s)" "fixed < n"
  shows "v ! fixed = Fin 0"
proof -
  have "fixed \<notin> snd ` set (enumerate 0 (filter (\<lambda>i. i \<noteq> fixed) ms))"
    by (auto simp: enumerate_eq_zip dest: set_zip_rightD)
  then show ?thesis using assms
    by (auto simp: laplacian_solve_def Let_def foldl_update_other split: prod.splits option.splits)
qed

lemma offset_pass_obs:
  "offset_pass ids r me ms mapped t es st = (off, sg, os) \<Longrightarrow>
     os = map (offset_obs ids me mapped t (fst st)) es \<and> (r < length ids \<longrightarrow> off ! r = Fin 0)"
  by (auto simp: offset_pass_def Let_def laplacian_fixed split: prod.splits)

lemma frame_ids_props:
  "distinct (frame_ids solver ref es)" "set (frame_ids solver ref es) = {solver, ref} \<union> e_from ` set es \<union> e_to ` set es"
  unfolding frame_ids_def by (rule distinct_sorted_list_of_set) (subst set_sorted_list_of_set, auto)

lemma solve_frame_parts:
  assumes "ids = frame_ids solver ref es" "us = filter usable es" "r = index_of ids ref"
    "prs = map (\<lambda>e. (index_of ids (e_from e), index_of ids (e_to e))) us"
  shows "\<exists>ms par ord lv fr.
    bfs_done prs r lv par ord \<and> set ms = set ord \<and> length par = length ids \<and>
    solve_frame ln_1p exp_m1 exp_f solver ref t es = Some fr \<and>
    map nf_id (fr_nodes fr) = map ((!) ids) ord \<and>
    unreachable fr = map ((!) ids) (filter (\<lambda>i. i \<notin> set ms) [0..<length ids]) \<and>
    (\<forall>nf \<in> set (fr_nodes fr). nf_id nf = ref \<longrightarrow> nf_offset_ns nf = Fin 0) \<and>
    set (map (\<lambda>e. (er_from e, er_to e)) (fr_edges fr)) \<subseteq> set (map (\<lambda>e. (e_from e, e_to e)) us) \<and>
    instant_mapped fr = (index_of ids solver \<in> set ms)"
proof -
  define n where "n = length ids"
  have ids: "distinct ids" "set ids = {solver, ref} \<union> e_from ` set es \<union> e_to ` set es"
    using frame_ids_props assms(1) by auto
  obtain ms q par ord where b: "bfs prs ([r], [r], replicate n None) [] = ((ms, q, par), ord)" by (metis prod.exhaust)
  have r: "r < n" "ids ! r = ref" using index_of_mem [of ref ids] ids assms(3) by (auto simp: n_def)
  have idx: "e \<in> set us \<Longrightarrow> index_of ids (e_from e) < n \<and> index_of ids (e_to e) < n" for e
    using index_of_mem [of _ ids] ids(2) assms(2) by (auto simp: n_def)
  then have "endpoints prs \<subseteq> {..<n}" by (auto simp: endpoints_def assms(4))
  from bfs_start [OF r(1) this b] obtain lv where inv: "set ms = set ord" "bfs_done prs r lv par ord" "length par = n" by blast
  define me where "me = index_of ids solver"
  define mapped where "mapped = (me \<in> set ms)"
  define inside where "inside = filter (\<lambda>e. index_of ids (e_from e) \<in> set ms) us"
  define ods where "ods = map (drift_obs ln_1p ids) inside"
  obtain rate sr where rate: "laplacian_solve n r (sort ms) ods = (rate, sr)" by (metis prod.exhaust)
  define pass where "pass = offset_pass ids r me (sort ms) mapped t inside"
  obtain off0 where pp: "fst (pass (pass (replicate n (Fin 0), replicate n (Fin 0), []))) = off0" by blast
  obtain off so oos where pas: "pass (pass (pass (replicate n (Fin 0), replicate n (Fin 0), []))) = (off, so, oos)" by (metis prod.exhaust)
  have oos: "oos = map (offset_obs ids me mapped t off0) inside" and off: "off ! r = Fin 0"
    using offset_pass_obs [OF pas [unfolded pass_def]] pp r by (auto simp: pass_def n_def)
  have irr: "\<forall>(x, y) \<in> set prs. x \<noteq> y"
  proof -
    have "index_of ids (e_from e) \<noteq> index_of ids (e_to e)" if "e \<in> set us" for e
    proof -
      have "e_from e \<noteq> e_to e" "e_from e \<in> set ids" "e_to e \<in> set ids" using that ids(2) assms(2) by (auto simp: usable_def)
      then show ?thesis using inj_index_of [of ids] by (metis inj_onD)
    qed
    then show ?thesis by (auto simp: assms(4))
  qed
  let ?ix = "\<lambda>e. (index_of ids (e_from e), index_of ids (e_to e))"
  have "fst ` set (pairs_of oos ods) = (\<lambda>ob. pair_key (ob_a ob, ob_b ob)) ` set oos"
    by (rule pairs_of_keys) (simp add: oos ods_def)
  also have "\<dots> = pair_key ` ?ix ` set inside" by (simp add: oos image_image offset_obs_def Let_def)
  also have "?ix ` set inside = {ab \<in> set prs. fst ab \<in> set ord}" by (auto simp: assms(4) inside_def inv(1))
  finally have "fst ` set (pairs_of oos ods) = keys_of prs ord" by (simp add: keys_of_def)
  from cycles_total [OF inv(2,3) irr this] obtain cs where cs: "cycles_of ids par (depths n par ord) (pairs_of oos ods) = Some cs" by blast
  have ref: "i = r" if "i \<in> set ord" "ids ! i = ref" for i
    using that inv(2,3) r ids(1) by (auto simp: bfs_done_def bfs_tree_def n_def nth_eq_iff_index_eq)
  define residuals where "residuals = map (residual_of off rate) (zip inside (zip oos ods))"
  have fr: "solve_frame ln_1p exp_m1 exp_f solver ref t es = Some
     \<lparr>fr_reference = ref, fr_solver = solver, fr_at_ns = t, instant_mapped = mapped,
      fr_nodes = map (\<lambda>i. \<lparr>nf_id = ids ! i, nf_offset_ns = off ! i, nf_drift = exp_m1 (rate ! i),
        nf_sigma_offset_ns = so ! i, nf_sigma_drift = fmul (sr ! i) (exp_f (rate ! i))\<rparr>) ord,
      unreachable = map (\<lambda>i. ids ! i) (filter (\<lambda>i. i \<notin> set ms) [0..<n]),
      fr_edges = sort_by (\<lambda>a b. total_le (residual_z b) (residual_z a)) residuals,
      fr_cycles = cs, rms_offset_ns = rms (map er_offset_ns residuals), rms_drift = rms (map er_drift residuals),
      falsetickers = [], outliers = [], selection_jitter_ns = Fin 0\<rparr>"
    unfolding solve_frame_def assms(1) [symmetric] assms(2) [symmetric] assms(3) [symmetric] n_def [symmetric] Let_def
      assms(4) [symmetric] b prod.case me_def [symmetric] mapped_def [symmetric] inside_def [symmetric] ods_def [symmetric] rate
      pass_def [symmetric] pas cs residuals_def by simp
  have res: "set (map (\<lambda>e. (er_from e, er_to e)) residuals) \<subseteq> set (map (\<lambda>e. (e_from e, e_to e)) us)"
    by (auto simp: residuals_def residual_of_def Let_def inside_def dest!: set_zip_leftD)
  show ?thesis unfolding fr
    by (rule exI [of _ ms], rule exI [of _ par], rule exI [of _ ord], rule exI [of _ lv], rule exI)
      (use inv res ref off in \<open>auto simp: n_def me_def mapped_def\<close>)
qed

lemma linked_edge_rel:
  assumes "prs = map (\<lambda>e. (index_of ids (e_from e), index_of ids (e_to e))) (filter usable es)"
  shows "linked prs = (\<lambda>(a, b). (index_of ids a, index_of ids b)) ` edge_rel es"
  unfolding linked_def edge_rel_def assms by (auto simp: image_Un image_image)

lemma frame_component:
  assumes "ids = frame_ids solver ref es" "bfs_done prs (index_of ids ref) lv par ord"
    "prs = map (\<lambda>e. (index_of ids (e_from e), index_of ids (e_to e))) (filter usable es)"
  shows "set ord = index_of ids ` ((edge_rel es)\<^sup>* `` {ref})" "(edge_rel es)\<^sup>* `` {ref} \<subseteq> set ids"
proof -
  have ids: "ref \<in> set ids" "edge_rel es \<subseteq> set ids \<times> set ids"
    using frame_ids_props(2) assms(1) by (auto simp: edge_rel_def)
  show "set ord = index_of ids ` ((edge_rel es)\<^sup>* `` {ref})"
    using bfs_done_component [OF assms(2)] rtrancl_image [OF inj_index_of ids] linked_edge_rel [OF assms(3)] by simp
  have "x \<in> set ids" if "(ref, x) \<in> (edge_rel es)\<^sup>*" for x
    using that by (induction rule: rtrancl_induct) (use ids in auto)
  then show "(edge_rel es)\<^sup>* `` {ref} \<subseteq> set ids" by auto
qed

lemma solve_frame_edges:
  "\<exists>fr. solve_frame ln_1p exp_m1 exp_f solver ref t es = Some fr \<and>
     (\<lambda>e. (er_from e, er_to e)) ` set (fr_edges fr) \<subseteq> (\<lambda>e. (e_from e, e_to e)) ` {e \<in> set es. usable e}"
proof -
  obtain fr where "solve_frame ln_1p exp_m1 exp_f solver ref t es = Some fr"
    "set (map (\<lambda>e. (er_from e, er_to e)) (fr_edges fr)) \<subseteq> set (map (\<lambda>e. (e_from e, e_to e)) (filter usable es))"
    using solve_frame_parts [OF refl refl refl refl, where solver = solver and ref = ref and es = es and t = t and ln_1p = ln_1p and ?exp_m1.0 = exp_m1 and exp_f = exp_f]
    by (elim exE conjE)
  then show ?thesis by auto
qed

section \<open>Every index is in range\<close>

text \<open>
  Rust panics on an index out of bounds, and on an identifier \<open>ids.binary_search\<close> does not find; list indexing and \<open>index_of\<close> are total. The
  facts below say that \<open>solve_frame\<close> never does either: the identifiers it looks up are listed, the numbers in its queue, its members
  and its tree are below the number of identifiers, and so are the lengths of all vectors; in \<open>laplacian_solve\<close> and \<open>spd_solve\<close> the rows and columns
  are below the dimension, and every update keeps the lengths.
\<close>

lemma cell_in_range: "i < n \<Longrightarrow> j < n \<Longrightarrow> i * n + j < n * (n :: nat)"
proof -
  assume "i < n" "j < n"
  then have "i * n + j < i * n + n" "Suc i * n \<le> n * n" by (simp_all only: add_less_cancel_left mult_le_mono1 Suc_leI)
  then show ?thesis by simp
qed

lemma position_in_range: "position_in us i = Some p \<Longrightarrow> p < length us"
  by (simp add: position_in_def Let_def split: if_splits)

lemma add_obs_range:
  assumes "add_obs us ob (mat, rhs) = (mat', rhs')"
  shows "length mat' = length mat" "length rhs' = length rhs"
  using assms by (auto simp: add_obs_def Let_def bump_def split: option.splits prod.splits)

lemma add_obs_all_range:
  "foldl (\<lambda>mr ob. add_obs us ob mr) (mat, rhs) os = (mat', rhs') \<Longrightarrow> length mat' = length mat \<and> length rhs' = length rhs"
proof (induction os arbitrary: mat rhs)
  case (Cons ob os)
  obtain m r where "add_obs us ob (mat, rhs) = (m, r)" by (metis prod.exhaust)
  then show ?case using Cons add_obs_range [of us ob mat rhs m r] by simp
qed simp

lemma foldl_update_length: "length (foldl (\<lambda>v x. v[f x := g v x]) v xs) = length v"
  by (induction xs arbitrary: v) simp_all

lemma chol_solve_range: "length (chol_solve l n rhs) = n"
  by (simp add: chol_solve_def Let_def foldl_update_length)

lemma cholesky_range: "cholesky a n = Some l \<Longrightarrow> length l = n * n"
proof -
  have "foldl (\<lambda>acc ij. Option.bind acc (chol_cell a n ij)) acc xs = Some l \<Longrightarrow> \<exists>k. acc = Some k \<and> length l = length k" for acc xs
  proof (induction xs arbitrary: acc)
    case (Cons x xs)
    then obtain k where k: "Option.bind acc (chol_cell a n x) = Some k" "length l = length k" by fastforce
    then obtain k0 where "acc = Some k0" "chol_cell a n x k0 = Some k" by (auto simp: bind_eq_Some_conv)
    then show ?case using k(2) by (auto simp: chol_cell_def Let_def split: prod.splits if_splits)
  qed simp
  then show "cholesky a n = Some l \<Longrightarrow> length l = n * n" unfolding cholesky_def by fastforce
qed

lemma spd_solve_range: "spd_solve a b n = Some (x, diag) \<Longrightarrow> length x = n \<and> length diag = n"
  by (auto simp: spd_solve_def chol_solve_range)

lemma foldl_update_pairs: "length (foldl (\<lambda>v (p, i). v[i := g p]) v xs) = length v"
  by (induction xs arbitrary: v) auto

lemma laplacian_range: "laplacian_solve n fixed ms os = (v, s) \<Longrightarrow> length v = n \<and> length s = n"
  by (auto simp: laplacian_solve_def Let_def foldl_update_pairs split: prod.splits option.splits)

text \<open>The identifiers and the search: what \<open>index\<close> is asked for is listed, and what the search collects is below the number of identifiers.\<close>

lemma frame_indices:
  assumes "ids = frame_ids solver ref es" "prs = map (\<lambda>e. (index_of ids (e_from e), index_of ids (e_to e))) (filter usable es)"
    and "bfs prs ([index_of ids ref], [index_of ids ref], replicate (length ids) None) [] = ((ms, q, par), ord)"
  shows "\<forall>x \<in> {solver, ref} \<union> e_from ` set es \<union> e_to ` set es. index_of ids x < length ids \<and> ids ! index_of ids x = x"
    and "set ms \<subseteq> {..<length ids}" "set ord \<subseteq> {..<length ids}" "length par = length ids" "endpoints prs \<subseteq> {..<length ids}"
    and "\<forall>u \<in> set ord. \<forall>p. par ! u = Some p \<longrightarrow> p < length ids"
proof -
  show i: "\<forall>x \<in> {solver, ref} \<union> e_from ` set es \<union> e_to ` set es. index_of ids x < length ids \<and> ids ! index_of ids x = x"
    using index_of_mem [of _ ids] frame_ids_props(2) assms(1) by blast
  then show e: "endpoints prs \<subseteq> {..<length ids}" by (auto simp: endpoints_def assms(2))
  have r: "index_of ids ref < length ids" using i by blast
  obtain lv where b: "set ms = set ord" "bfs_done prs (index_of ids ref) lv par ord" "length par = length ids"
    using bfs_start [OF r e assms(3)] by blast
  then show "set ord \<subseteq> {..<length ids}" "set ms \<subseteq> {..<length ids}" "length par = length ids"
    by (auto simp: bfs_done_def bfs_tree_def)
  then show "\<forall>u \<in> set ord. \<forall>p. par ! u = Some p \<longrightarrow> p < length ids"
    using b(2) unfolding bfs_done_def bfs_tree_def by (metis lessThan_iff option.distinct(1) option.inject subsetD)
qed

section \<open>The frame is computed\<close>

text \<open>
  (C2) A frame is always computed, and covers exactly what is connected to the reference. For every set
  of edges, however inconsistent, \<open>solve_frame\<close> returns (no map lookup fails and every walk to a common ancestor ends; that
  no index is out of bounds is the section above), whatever the logarithm and exponential of the platform;
  its nodes are, without repetition, those joined to the reference by usable edges, the other known
  nodes are listed as unreachable, the reference has offset zero, and the instant is mapped iff the
  solver is among the nodes.
\<close>

theorem solve_frame_total:
  "\<exists>fr. solve_frame ln_1p exp_m1 exp_f solver ref t es = Some fr \<and>
     distinct (map nf_id (fr_nodes fr)) \<and> set (map nf_id (fr_nodes fr)) = (edge_rel es)\<^sup>* `` {ref} \<and>
     set (unreachable fr) = {solver, ref} \<union> e_from ` set es \<union> e_to ` set es - (edge_rel es)\<^sup>* `` {ref} \<and>
     (\<exists>nf. frame_node fr ref = Some nf \<and> nf_offset_ns nf = Fin 0) \<and>
     instant_mapped fr = (solver \<in> (edge_rel es)\<^sup>* `` {ref})"
proof -
  define ids where "ids = frame_ids solver ref es"
  define prs where "prs = map (\<lambda>e. (index_of ids (e_from e), index_of ids (e_to e))) (filter usable es)"
  let ?C = "(edge_rel es)\<^sup>* `` {ref}"
  obtain ms par ord lv fr where f: "bfs_done prs (index_of ids ref) lv par ord" "set ms = set ord" "length par = length ids"
    "solve_frame ln_1p exp_m1 exp_f solver ref t es = Some fr" "map nf_id (fr_nodes fr) = map ((!) ids) ord"
    "unreachable fr = map ((!) ids) (filter (\<lambda>i. i \<notin> set ms) [0..<length ids])"
    "\<forall>nf \<in> set (fr_nodes fr). nf_id nf = ref \<longrightarrow> nf_offset_ns nf = Fin 0"
    "instant_mapped fr = (index_of ids solver \<in> set ms)"
    using solve_frame_parts [OF ids_def refl refl prs_def, where t = t and ln_1p = ln_1p and ?exp_m1.0 = exp_m1 and exp_f = exp_f]
    by (elim exE conjE)
  note C = frame_component [OF ids_def f(1) prs_def]
  have ids: "distinct ids" "set ids = {solver, ref} \<union> e_from ` set es \<union> e_to ` set es"
    using frame_ids_props by (auto simp: ids_def)
  have nodes: "set (map nf_id (fr_nodes fr)) = ?C"
    using C index_of_mem [of _ ids] by (auto simp: f(5) image_image subset_iff)
  have "distinct (map ((!) ids) ord)"
    using f(1,3) ids(1) by (auto simp: bfs_done_def bfs_tree_def distinct_map inj_on_def nth_eq_iff_index_eq subset_iff)
  moreover have "index_of ids x \<in> set ms \<longleftrightarrow> x \<in> ?C" if "x \<in> set ids" for x
    using that C f(2) inj_index_of [of ids] by (simp only: inj_on_image_mem_iff)
  then have mem: "i \<in> set ms \<longleftrightarrow> ids ! i \<in> ?C" if "i < length ids" for i
    using that index_of_nth [OF ids(1) that] by (metis nth_mem)
  have "set (unreachable fr) = set ids - ?C"
  proof -
    have "set (unreachable fr) = (!) ids ` {i. i < length ids \<and> ids ! i \<notin> ?C}" unfolding f(6) by (auto simp: mem)
    also have "\<dots> = set ids - ?C" by (force simp: in_set_conv_nth)
    finally show ?thesis .
  qed
  moreover have "\<exists>nf. frame_node fr ref = Some nf \<and> nf_offset_ns nf = Fin 0"
  proof -
    have "ref \<in> nf_id ` set (fr_nodes fr)" using nodes by auto
    then have "frame_node fr ref \<noteq> None" by (auto simp: frame_node_def find_None_iff)
    then obtain nf where "frame_node fr ref = Some nf" by blast
    then show ?thesis using f(7) by (auto simp: frame_node_def find_Some_iff)
  qed
  moreover have "solver \<in> set ids" using ids(2) by simp
  ultimately show ?thesis using f nodes ids(2) \<open>\<And>x. x \<in> set ids \<Longrightarrow> index_of ids x \<in> set ms \<longleftrightarrow> x \<in> ?C\<close>
    by (intro exI [of _ fr]) simp
qed

end
