(* ===== verification/RelClock.thy ===== *)
theory RelClock
  imports FrameTotal
begin

text \<open>
  \<open>rtfsn-core/src/sync/relational.rs\<close>, \<open>RelationalClock\<close>: one node's tracks, the edges and anchors it
  has heard, and the frames it solves from them. A \<open>BTreeMap\<close> is a sorted association list. \<open>rc_observe\<close>
  inherits the panic of \<open>PeerTrack::observe\<close>. The two loops of \<open>solve_absolute\<close> are partial functions:
  \<open>None\<close> stands for a loop that never ends (or a panic of \<open>solve_frame\<close>, which \<open>FrameTotal\<close> excludes).
\<close>

record heard =
  hd_edge :: edge_estimate
  hd_received_ns :: u64

record anchor =
  an_node :: node_id
  an_sigma_offset_ns :: f64
  an_sigma_drift :: f64
  an_stratum :: u8
  an_age_ns :: u64

record held_anchor =
  ha_anchor :: anchor
  ha_measured_ns :: u64
  ha_own :: bool

record relational_clock =
  rc_me :: node_id
  rc_cfg :: track_config
  rc_tracks :: "(node_id, peer_track) btreemap"
  rc_heard :: "(node_id \<times> node_id, heard) btreemap"
  rc_anchors :: "(node_id, held_anchor) btreemap"
  rc_lut :: twist_lut
  rc_inserts :: nat

definition relational_clock_new :: "node_id \<Rightarrow> track_config \<Rightarrow> relational_clock" where
  "relational_clock_new me cfg = \<lparr>rc_me = me, rc_cfg = cfg, rc_tracks = [], rc_heard = [], rc_anchors = [],
     rc_lut = lut_new, rc_inserts = 0\<rparr>"

section \<open>Measuring\<close>

definition record_twist :: "node_id \<Rightarrow> twist_index \<Rightarrow> relational_clock \<Rightarrow> relational_clock" where
  "record_twist peer tw c =
     (let lut = lut_insert (rc_me c) peer tw (rc_lut c); n = rc_inserts c + 1
      in c\<lparr>rc_inserts := n, rc_lut := (if n mod 64 = 0 then lut_trim (history (rc_cfg c)) lut else lut)\<rparr>)"

definition rc_observe :: "node_id \<Rightarrow> u64 \<times> u64 \<times> u64 \<times> u64 \<Rightarrow> relational_clock \<Rightarrow> (relational_clock \<times> observation) outcome" where
  "rc_observe peer ex c = (case ex of (t1, t2, t3, t4) \<Rightarrow>
     let track = (case map_of (rc_tracks c) peer of None \<Rightarrow> peer_track_new (rc_cfg c) | Some t \<Rightarrow> t) in
     obind (pt_observe t1 t2 t3 t4 track) (\<lambda>(track', ob).
       let c' = c\<lparr>rc_tracks := bt_insert peer track' (rc_tracks c)\<rparr> in
       Ret (case ob of Accepted tw rel rs \<Rightarrow> record_twist peer tw c' | Rejected why \<Rightarrow> c', ob)))"

definition rc_track :: "relational_clock \<Rightarrow> node_id \<Rightarrow> peer_track option" where
  "rc_track c peer = map_of (rc_tracks c) peer"

definition forget :: "node_id \<Rightarrow> relational_clock \<Rightarrow> relational_clock" where
  "forget peer c = c\<lparr>rc_tracks := AList.delete peer (rc_tracks c),
     rc_heard := hm_retain (\<lambda>(a, b) _. a \<noteq> peer \<and> b \<noteq> peer) (rc_heard c),
     rc_anchors := AList.delete peer (rc_anchors c)\<rparr>"

section \<open>Anchors\<close>

definition own_anchor :: "node_id \<Rightarrow> peer_track \<Rightarrow> f64 \<Rightarrow> u8 \<Rightarrow> f64 \<Rightarrow> u64 \<Rightarrow> held_anchor" where
  "own_anchor server t root_distance stratum drift now =
     \<lparr>ha_anchor = \<lparr>an_node = server,
        an_sigma_offset_ns = fadd root_distance (fdiv (of_u64 (case rtt_floor t of None \<Rightarrow> 0 | Some f \<Rightarrow> f)) (Fin 2)),
        an_sigma_drift = drift, an_stratum = stratum, an_age_ns = 0\<rparr>,
      ha_measured_ns = now, ha_own = True\<rparr>"

definition observe_reference :: "node_id \<Rightarrow> u64 \<times> u64 \<times> u64 \<times> u64 \<Rightarrow> f64 \<Rightarrow> u8 \<Rightarrow> f64 \<Rightarrow> u64 \<Rightarrow> relational_clock \<Rightarrow>
    (relational_clock \<times> observation) outcome" where
  "observe_reference server ex root_distance stratum drift now c =
     obind (rc_observe server ex c) (\<lambda>(c', ob). Ret
       (case map_of (rc_tracks c') server of
          None \<Rightarrow> c'
        | Some t \<Rightarrow> if 0 < pt_accepted t
            then c'\<lparr>rc_anchors := bt_insert server (own_anchor server t root_distance stratum drift now) (rc_anchors c')\<rparr>
            else c', ob))"

definition TEN_SECONDS :: u64 where "TEN_SECONDS = 10000000000"

definition keep_held :: "anchor \<Rightarrow> u64 \<Rightarrow> held_anchor \<Rightarrow> bool" where
  "keep_held a measured h \<longleftrightarrow> ha_own h \<or> ha_measured_ns h > measured + TEN_SECONDS \<or>
     (flt (an_sigma_offset_ns (ha_anchor h)) (an_sigma_offset_ns a) \<and> ha_measured_ns h + TEN_SECONDS \<ge> measured)"

definition hear_anchor :: "anchor \<Rightarrow> u64 \<Rightarrow> relational_clock \<Rightarrow> relational_clock" where
  "hear_anchor a now c =
     (let measured = saturating_sub_u64 now (an_age_ns a) in
      if (case map_of (rc_anchors c) (an_node a) of None \<Rightarrow> False | Some h \<Rightarrow> keep_held a measured h) then c
      else c\<lparr>rc_anchors := bt_insert (an_node a)
             \<lparr>ha_anchor = a\<lparr>an_age_ns := 0\<rparr>, ha_measured_ns = measured, ha_own = False\<rparr> (rc_anchors c)\<rparr>)"

definition anchors :: "relational_clock \<Rightarrow> anchor list" where
  "anchors c = map (ha_anchor \<circ> snd) (rc_anchors c)"

definition gossip_anchors :: "u64 \<Rightarrow> relational_clock \<Rightarrow> anchor list" where
  "gossip_anchors now c = map (\<lambda>(_, h). (ha_anchor h)\<lparr>an_age_ns := saturating_sub_u64 now (ha_measured_ns h)\<rparr>) (rc_anchors c)"

definition expire_anchors :: "u64 \<Rightarrow> u64 \<Rightarrow> relational_clock \<Rightarrow> relational_clock" where
  "expire_anchors now max_age c =
     c\<lparr>rc_anchors := hm_retain (\<lambda>_ h. saturating_sub_u64 now (ha_measured_ns h) \<le> max_age) (rc_anchors c)\<rparr>"

definition own_anchors :: "relational_clock \<Rightarrow> anchor list" where
  "own_anchors c = map (ha_anchor \<circ> snd) (filter (ha_own \<circ> snd) (rc_anchors c))"

section \<open>Edges\<close>

definition own_edge :: "node_id \<Rightarrow> node_id \<times> peer_track \<Rightarrow> edge_estimate option" where
  "own_edge me pt = (case pt of (peer, t) \<Rightarrow> map_option (\<lambda>rel.
     \<lparr>e_from = me, e_to = peer, e_relation = rel,
      e_rtt_floor_ns = (case rtt_floor t of None \<Rightarrow> 0 | Some f \<Rightarrow> f), e_samples = pt_accepted t\<rparr>) (pt_relation t))"

definition rc_edges :: "relational_clock \<Rightarrow> edge_estimate list" where
  "rc_edges c = List.map_filter (own_edge (rc_me c)) (rc_tracks c)"

definition hear :: "edge_estimate \<Rightarrow> u64 \<Rightarrow> relational_clock \<Rightarrow> relational_clock" where
  "hear e now c =
     (if e_from e = rc_me c \<or> e_from e = e_to e then c
      else c\<lparr>rc_heard := bt_insert (e_from e, e_to e) \<lparr>hd_edge = e, hd_received_ns = now\<rparr> (rc_heard c)\<rparr>)"

definition rc_expire :: "u64 \<Rightarrow> u64 \<Rightarrow> relational_clock \<Rightarrow> relational_clock" where
  "rc_expire now max_age c =
     c\<lparr>rc_heard := hm_retain (\<lambda>_ h. saturating_sub_u64 now (hd_received_ns h) \<le> max_age) (rc_heard c)\<rparr>"

definition heard_edges :: "relational_clock \<Rightarrow> edge_estimate list" where
  "heard_edges c = map (hd_edge \<circ> snd) (rc_heard c)"

definition known_edges :: "relational_clock \<Rightarrow> edge_estimate list" where
  "known_edges c = rc_edges c @ heard_edges c"

section \<open>Solving\<close>

definition rc_solve :: "(f64 \<Rightarrow> f64) \<Rightarrow> (f64 \<Rightarrow> f64) \<Rightarrow> (f64 \<Rightarrow> f64) \<Rightarrow> node_id \<Rightarrow> u64 \<Rightarrow> relational_clock \<Rightarrow> network_frame option" where
  "rc_solve ln_1p exp_m1 exp_f ref instant c = solve_frame ln_1p exp_m1 exp_f (rc_me c) ref instant (known_edges c)"

definition MIN_SURVIVORS :: nat where "MIN_SURVIVORS = 3"
definition CLUSTER_K :: f64 where "CLUSTER_K = Fin 4"
definition MIN_SPREAD_NS :: f64 where "MIN_SPREAD_NS = Fin 50000"

definition median :: "f64 list \<Rightarrow> f64" where
  "median xs = (let v = sort_by total_le xs; n = length v in
     if n mod 2 = 1 then v ! (n div 2) else fdiv (fadd (v ! (n div 2 - 1)) (v ! (n div 2))) (Fin 2))"

definition robust_spread :: "f64 list \<Rightarrow> f64 \<times> f64" where
  "robust_spread xs =
     (if xs = [] then (Fin 0, MIN_SPREAD_NS)
      else let m = median xs; dev = map (\<lambda>x. fabs (fsub x m)) (sort_by total_le xs)
           in (m, fmax (fmul (flit (14826 / 10000)) (median dev)) MIN_SPREAD_NS))"

definition anchor_edge :: "u64 \<Rightarrow> anchor \<Rightarrow> edge_estimate" where
  "anchor_edge instant a = \<lparr>e_from = UTC, e_to = an_node a,
     e_relation = \<lparr>at_ns = instant, rl_offset_ns = Fin 0, rl_drift = Fin 0,
       rl_sigma_offset_ns = fmax (an_sigma_offset_ns a) MIN_SIGMA_NS,
       rl_sigma_drift = fmax (an_sigma_drift a) MIN_SIGMA_DRIFT\<rparr>,
     e_rtt_floor_ns = 0, e_samples = 0\<rparr>"

fun max_by :: "('a \<Rightarrow> f64) \<Rightarrow> 'a list \<Rightarrow> 'a option" where
  "max_by f [] = None"
| "max_by f (x # xs) =
     (case max_by f xs of None \<Rightarrow> Some x | Some y \<Rightarrow> if total_le (f x) (f y) then Some y else Some x)"

definition worst_anchor_edge :: "network_frame \<Rightarrow> edge_residual option" where
  "worst_anchor_edge fr = max_by (\<lambda>e. fabs (z_offset e)) (filter (\<lambda>e. er_from e = UTC) (fr_edges fr))"

partial_function (option) select :: "(anchor list \<Rightarrow> network_frame option) \<Rightarrow> anchor list \<Rightarrow> node_id list \<Rightarrow>
    (network_frame \<times> anchor list \<times> node_id list) option" where
  "select solve_with chosen ft = Option.bind (solve_with chosen) (\<lambda>fr.
     case worst_anchor_edge fr of
       None \<Rightarrow> Some (fr, chosen, ft)
     | Some w \<Rightarrow>
         if 3 \<le> length chosen \<and> flt (Fin 5) (fabs (z_offset w))
         then select solve_with (filter (\<lambda>a. an_node a \<noteq> er_to w) chosen) (ft @ [er_to w])
         else Some (fr, chosen, ft))"

definition anchor_offsets :: "network_frame \<Rightarrow> anchor list \<Rightarrow> (node_id \<times> f64) list" where
  "anchor_offsets fr chosen =
     List.map_filter (\<lambda>a. map_option (\<lambda>n. (an_node a, nf_offset_ns n)) (frame_node fr (an_node a))) chosen"

partial_function (option) cluster :: "(anchor list \<Rightarrow> network_frame option) \<Rightarrow> network_frame \<Rightarrow> anchor list \<Rightarrow> node_id list \<Rightarrow>
    (network_frame \<times> node_id list) option" where
  "cluster solve_with fr chosen outs =
     (let offs = anchor_offsets fr chosen; ms = robust_spread (map snd offs); fr' = fr\<lparr>selection_jitter_ns := snd ms\<rparr> in
      if length chosen \<le> MIN_SURVIVORS then Some (fr', outs)
      else case max_by (\<lambda>x. fabs (fsub (snd x) (fst ms))) offs of
             None \<Rightarrow> Some (fr', outs)
           | Some w \<Rightarrow>
               if fle (fabs (fsub (snd w) (fst ms))) (fmul CLUSTER_K (snd ms)) then Some (fr', outs)
               else let chosen' = filter (\<lambda>a. an_node a \<noteq> fst w) chosen
                    in Option.bind (solve_with chosen') (\<lambda>fr''. cluster solve_with fr'' chosen' (outs @ [fst w])))"

declare select.simps [code]
declare cluster.simps [code]

definition usable_anchors :: "relational_clock \<Rightarrow> anchor list" where
  "usable_anchors c = filter (\<lambda>a. an_node a \<in> set (concat (map (\<lambda>e. [e_from e, e_to e]) (known_edges c)))) (anchors c)"

definition solve_with :: "(f64 \<Rightarrow> f64) \<Rightarrow> (f64 \<Rightarrow> f64) \<Rightarrow> (f64 \<Rightarrow> f64) \<Rightarrow> u64 \<Rightarrow> relational_clock \<Rightarrow> anchor list \<Rightarrow> network_frame option" where
  "solve_with ln_1p exp_m1 exp_f instant c chosen =
     solve_frame ln_1p exp_m1 exp_f (rc_me c) UTC instant (known_edges c @ map (anchor_edge instant) chosen)"

definition solve_absolute :: "(f64 \<Rightarrow> f64) \<Rightarrow> (f64 \<Rightarrow> f64) \<Rightarrow> (f64 \<Rightarrow> f64) \<Rightarrow> u64 \<Rightarrow> relational_clock \<Rightarrow> network_frame option option" where
  "solve_absolute ln_1p exp_m1 exp_f instant c =
     (let sw = solve_with ln_1p exp_m1 exp_f instant c in
      if usable_anchors c = [] then Some None
      else Option.bind (select sw (usable_anchors c) []) (\<lambda>(fr, chosen, ft).
           map_option (\<lambda>(fr', outs). Some (fr'\<lparr>falsetickers := ft, outliers := outs\<rparr>)) (cluster sw fr chosen [])))"

section \<open>Selection and clustering end\<close>

lemma max_by_mem: "max_by f xs = Some y \<Longrightarrow> y \<in> set xs"
  by (induction xs arbitrary: y) (auto split: option.splits if_splits)

lemma solve_frame_reference: "solve_frame ln_1p exp_m1 exp_f solver ref t es = Some fr \<Longrightarrow> fr_reference fr = ref"
  by (auto simp: solve_frame_def Let_def split: prod.splits)

text \<open>A frame for every choice of anchors, whose edges from UTC lead to chosen anchors only.\<close>

definition frames_ok :: "(anchor list \<Rightarrow> network_frame option) \<Rightarrow> bool" where
  "frames_ok sw \<longleftrightarrow> (\<forall>ch. \<exists>fr. sw ch = Some fr \<and> fr_reference fr = UTC \<and>
     (\<forall>e \<in> set (fr_edges fr). er_from e = UTC \<longrightarrow> er_to e \<in> an_node ` set ch))"

lemma frames_okE:
  assumes "frames_ok sw"
  obtains fr where "sw ch = Some fr" "fr_reference fr = UTC"
    "\<And>w. worst_anchor_edge fr = Some w \<Longrightarrow> er_to w \<in> an_node ` set ch"
  using assms unfolding frames_ok_def worst_anchor_edge_def
  by (metis (mono_tags, lifting) max_by_mem mem_Collect_eq set_filter)

text \<open>Setting one anchor aside.\<close>

lemma set_aside:
  assumes "distinct (map an_node ch)" "x \<in> an_node ` set ch"
  shows "length (filter (\<lambda>a. an_node a \<noteq> x) ch) + 1 = length ch" "distinct (map an_node (filter (\<lambda>a. an_node a \<noteq> x) ch))"
    "an_node ` set (filter (\<lambda>a. an_node a \<noteq> x) ch) = an_node ` set ch - {x}"
proof -
  show d: "distinct (map an_node (filter (\<lambda>a. an_node a \<noteq> x) ch))" using assms(1) by (simp add: distinct_map_filter)
  show s: "an_node ` set (filter (\<lambda>a. an_node a \<noteq> x) ch) = an_node ` set ch - {x}" by auto
  have "card (an_node ` set ch - {x}) + 1 = card (an_node ` set ch)"
    using assms(2) by (metis Suc_eq_plus1 card_Suc_Diff1 finite_imageI finite_set)
  then show "length (filter (\<lambda>a. an_node a \<noteq> x) ch) + 1 = length ch"
    using distinct_card [OF d] distinct_card [OF assms(1)] s by simp
qed

lemma select_ends:
  assumes sw: "frames_ok sw" and "distinct (map an_node ch)"
  shows "\<exists>fr kept ft'. select sw ch ft = Some (fr, kept, ft @ ft') \<and> fr_reference fr = UTC \<and> distinct (map an_node kept) \<and>
    length kept + length ft' = length ch \<and> min 2 (length ch) \<le> length kept \<and> distinct ft' \<and>
    set ft' = an_node ` set ch - an_node ` set kept \<and> set kept \<subseteq> set ch"
  using assms(2)
proof (induction "length ch" arbitrary: ch ft rule: less_induct)
  case less
  obtain fr where fr: "sw ch = Some fr" "fr_reference fr = UTC"
    "\<And>w. worst_anchor_edge fr = Some w \<Longrightarrow> er_to w \<in> an_node ` set ch" using sw frames_okE by metis
  show ?case
  proof (cases "\<exists>w. worst_anchor_edge fr = Some w \<and> 3 \<le> length ch \<and> flt (Fin 5) (fabs (z_offset w))")
    case True
    then obtain w where w: "worst_anchor_edge fr = Some w" "3 \<le> length ch" "flt (Fin 5) (fabs (z_offset w))" by blast
    let ?ch = "filter (\<lambda>a. an_node a \<noteq> er_to w) ch"
    note aside = set_aside [OF less.prems fr(3) [OF w(1)]]
    have "select sw ch ft = select sw ?ch (ft @ [er_to w])" using fr(1) w by (subst select.simps) simp
    moreover obtain fr' kept ft' where "select sw ?ch (ft @ [er_to w]) = Some (fr', kept, (ft @ [er_to w]) @ ft')"
      "fr_reference fr' = UTC" "distinct (map an_node kept)" "length kept + length ft' = length ?ch"
      "min 2 (length ?ch) \<le> length kept" "distinct ft'" "set ft' = an_node ` set ?ch - an_node ` set kept" "set kept \<subseteq> set ?ch"
      using less.hyps [of ?ch "ft @ [er_to w]"] aside by auto
    moreover have "er_to w \<in> an_node ` set ch" by (rule fr(3) [OF w(1)])
    ultimately show ?thesis using aside w(2)
      by (intro exI [of _ fr'] exI [of _ kept] exI [of _ "er_to w # ft'"]) auto
  next
    case False
    then have "select sw ch ft = Some (fr, ch, ft)" using fr(1) by (subst select.simps) (auto split: option.splits)
    then show ?thesis using fr(2) less.prems by (intro exI [of _ fr] exI [of _ ch] exI [of _ "[]"]) simp
  qed
qed

lemma anchor_offsets_nodes: "fst ` set (anchor_offsets fr ch) \<subseteq> an_node ` set ch"
  by (auto simp: anchor_offsets_def map_filter_def)

lemma cluster_ends:
  assumes sw: "frames_ok sw" and "distinct (map an_node ch)" "fr_reference fr = UTC"
  shows "\<exists>fr' outs'. cluster sw fr ch outs = Some (fr', outs @ outs') \<and> fr_reference fr' = UTC \<and>
    distinct outs' \<and> set outs' \<subseteq> an_node ` set ch \<and> length outs' \<le> length ch - MIN_SURVIVORS"
  using assms(2,3)
proof (induction "length ch" arbitrary: ch fr outs rule: less_induct)
  case less
  define offs where "offs = anchor_offsets fr ch"
  define ms where "ms = robust_spread (map snd offs)"
  let ?fr = "fr\<lparr>selection_jitter_ns := snd ms\<rparr>"
  show ?case
  proof (cases "cluster sw fr ch outs = Some (?fr, outs)")
    case True
    then show ?thesis using less.prems by (intro exI [of _ ?fr] exI [of _ "[]"]) simp
  next
    case False
    then have more: "MIN_SURVIVORS < length ch"
      by (subst (asm) cluster.simps) (simp add: Let_def offs_def [symmetric] ms_def [symmetric] not_le split: if_splits)
    from False more obtain w where w: "max_by (\<lambda>x. fabs (fsub (snd x) (fst ms))) offs = Some w"
      "\<not> fle (fabs (fsub (snd w) (fst ms))) (fmul CLUSTER_K (snd ms))"
      by (subst (asm) cluster.simps) (auto simp: Let_def offs_def [symmetric] ms_def [symmetric] split: if_splits option.splits)
    let ?ch = "filter (\<lambda>a. an_node a \<noteq> fst w) ch"
    have mem: "fst w \<in> an_node ` set ch" using max_by_mem [OF w(1)] anchor_offsets_nodes [of fr ch] by (auto simp: offs_def)
    note aside = set_aside [OF less.prems(1) mem]
    obtain fr1 where fr1: "sw ?ch = Some fr1" "fr_reference fr1 = UTC" using sw frames_okE by metis
    have "cluster sw fr ch outs = cluster sw fr1 ?ch (outs @ [fst w])"
      using more w fr1 by (subst cluster.simps) (simp add: Let_def offs_def [symmetric] ms_def [symmetric])
    moreover obtain fr' outs' where "cluster sw fr1 ?ch (outs @ [fst w]) = Some (fr', (outs @ [fst w]) @ outs')"
      "fr_reference fr' = UTC" "distinct outs'" "set outs' \<subseteq> an_node ` set ?ch" "length outs' \<le> length ?ch - MIN_SURVIVORS"
      using less.hyps [of ?ch fr1 "outs @ [fst w]"] aside fr1(2) by auto
    ultimately show ?thesis using aside mem more
      by (intro exI [of _ fr'] exI [of _ "fst w # outs'"]) auto
  qed
qed

lemma solve_with_frames:
  assumes "\<forall>e \<in> set (known_edges c). e_from e \<noteq> UTC"
  shows "frames_ok (solve_with ln_1p exp_m1 exp_f instant c)"
  unfolding frames_ok_def
proof
  fix ch
  let ?es = "known_edges c @ map (anchor_edge instant) ch"
  obtain fr where fr: "solve_frame ln_1p exp_m1 exp_f (rc_me c) UTC instant ?es = Some fr"
    "(\<lambda>e. (er_from e, er_to e)) ` set (fr_edges fr) \<subseteq> (\<lambda>e. (e_from e, e_to e)) ` {e \<in> set ?es. usable e}"
    using solve_frame_edges by blast
  have "er_to e \<in> an_node ` set ch" if e: "e \<in> set (fr_edges fr)" "er_from e = UTC" for e
  proof -
    have "(er_from e, er_to e) \<in> (\<lambda>e. (e_from e, e_to e)) ` set ?es" using fr(2) e(1) by blast
    then obtain e' where e': "e' \<in> set ?es" "(er_from e, er_to e) = (e_from e', e_to e')" by (rule imageE)
    then have "e_from e' = UTC" "e_to e' = er_to e" using e(2) by simp_all
    then obtain a where "a \<in> set ch" "e' = anchor_edge instant a" using assms e'(1) by auto
    then show ?thesis using \<open>e_to e' = er_to e\<close> by (intro image_eqI [of _ _ a]) (simp_all add: anchor_edge_def)
  qed
  then show "\<exists>fr. solve_with ln_1p exp_m1 exp_f instant c ch = Some fr \<and> fr_reference fr = UTC \<and>
      (\<forall>e \<in> set (fr_edges fr). er_from e = UTC \<longrightarrow> er_to e \<in> an_node ` set ch)"
    using fr(1) solve_frame_reference [OF fr(1)] by (auto simp: solve_with_def)
qed

definition anchors_ok :: "relational_clock \<Rightarrow> bool" where
  "anchors_ok c \<longleftrightarrow> bt_ok (rc_anchors c) \<and> (\<forall>(k, h) \<in> set (rc_anchors c). an_node (ha_anchor h) = k)"

lemma anchors_ok_distinct: "anchors_ok c \<Longrightarrow> distinct (map an_node (usable_anchors c))"
proof -
  assume ok: "anchors_ok c"
  then have "map an_node (anchors c) = map fst (rc_anchors c)" by (auto simp: anchors_ok_def anchors_def)
  then have "distinct (map an_node (anchors c))" using ok bt_ok_distinct [of "rc_anchors c"] by (simp add: anchors_ok_def)
  then show ?thesis by (simp add: usable_anchors_def distinct_map_filter)
qed

section \<open>What the operations keep\<close>

lemma obind_Ret: "obind m f = Ret y \<longleftrightarrow> (\<exists>x. m = Ret x \<and> f x = Ret y)"
  by (cases m) auto

lemma anchors_record_twist [simp]: "rc_anchors (record_twist peer tw c) = rc_anchors c"
  by (simp add: record_twist_def Let_def)

lemma tracks_record_twist [simp]: "rc_tracks (record_twist peer tw c) = rc_tracks c"
  by (simp add: record_twist_def Let_def)

lemma rc_observe_anchors: "rc_observe peer ex c = Ret (c', ob) \<Longrightarrow> rc_anchors c' = rc_anchors c"
  by (cases ob) (auto simp: rc_observe_def Let_def obind_Ret split: prod.splits observation.splits)

lemma observe_reference_anchors:
  assumes "observe_reference server ex rd str drift now c = Ret (c', ob)"
  shows "rc_anchors c' = rc_anchors c \<or> (\<exists>t. rc_anchors c' = bt_insert server (own_anchor server t rd str drift now) (rc_anchors c))"
proof -
  obtain c1 where c1: "rc_observe server ex c = Ret (c1, ob)"
    and c': "c' = (case map_of (rc_tracks c1) server of None \<Rightarrow> c1 | Some t \<Rightarrow> if 0 < pt_accepted t
      then c1\<lparr>rc_anchors := bt_insert server (own_anchor server t rd str drift now) (rc_anchors c1)\<rparr> else c1)"
    using assms by (auto simp: observe_reference_def obind_Ret)
  then show ?thesis using rc_observe_anchors [OF c1] by (auto split: option.splits)
qed

lemma rejected_rejects:
  assumes "pt_observe t1 t2 t3 t4 t = Ret (t', Rejected why)" "pt_accepted t \<noteq> - 1"
  shows "rejects t t'"
  by (rule observe_cases [OF assms(2), of t1 t2 t3 t4]) (use assms(1) in auto)

section \<open>Properties\<close>

text \<open>
  (C5) Clock selection ends. When no edge a node has measured or heard starts at \<open>UTC\<close>, \<open>solve_absolute\<close>
  returns, whatever the measurements: no frame exactly when no anchor is tied to the network, and
  otherwise an absolute frame whose falsetickers and outliers are distinct anchors, of which at least
  two (or the only one) survive.
\<close>

theorem solve_absolute_ends:
  assumes "anchors_ok c" "\<forall>e \<in> set (known_edges c). e_from e \<noteq> UTC"
  shows "\<exists>r. solve_absolute ln_1p exp_m1 exp_f instant c = Some r \<and> (r = None \<longleftrightarrow> usable_anchors c = []) \<and>
    (\<forall>fr. r = Some fr \<longrightarrow> is_absolute fr \<and> distinct (falsetickers fr @ outliers fr) \<and>
       set (falsetickers fr @ outliers fr) \<subseteq> an_node ` set (usable_anchors c) \<and>
       length (falsetickers fr @ outliers fr) + min 2 (length (usable_anchors c)) \<le> length (usable_anchors c))"
proof (cases "usable_anchors c = []")
  case True
  then show ?thesis by (simp add: solve_absolute_def)
next
  case False
  let ?sw = "solve_with ln_1p exp_m1 exp_f instant c" and ?ch = "usable_anchors c"
  have sw: "frames_ok ?sw" by (rule solve_with_frames [OF assms(2)])
  obtain fr kept ft where s: "select ?sw ?ch [] = Some (fr, kept, ft)" "fr_reference fr = UTC" "distinct (map an_node kept)"
    "length kept + length ft = length ?ch" "min 2 (length ?ch) \<le> length kept" "distinct ft"
    "set ft = an_node ` set ?ch - an_node ` set kept" "set kept \<subseteq> set ?ch"
    using select_ends [OF sw anchors_ok_distinct [OF assms(1)], of "[]"] by auto
  obtain fr' outs where k: "cluster ?sw fr kept [] = Some (fr', outs)" "fr_reference fr' = UTC" "distinct outs"
    "set outs \<subseteq> an_node ` set kept" "length outs \<le> length kept - MIN_SURVIVORS"
    using cluster_ends [OF sw s(3,2), of "[]"] by auto
  have len: "length outs + length ft + min 2 (length ?ch) \<le> length ?ch" using s(4,5) k(5) by (simp add: MIN_SURVIVORS_def)
  have "set outs \<subseteq> an_node ` set ?ch" using k(4) s(8) by blast
  then show ?thesis using False s k len by (auto simp: solve_absolute_def is_absolute_def)
qed

definition wn :: "u8 \<Rightarrow> node_id" where "wn b = NodeId (replicate 32 b)"

definition w_anchor :: "u8 \<Rightarrow> anchor" where
  "w_anchor b = \<lparr>an_node = wn b, an_sigma_offset_ns = Fin 1000, an_sigma_drift = Fin 0, an_stratum = 1, an_age_ns = 0\<rparr>"

definition w_edge :: "node_id \<Rightarrow> node_id \<Rightarrow> f64 \<Rightarrow> f64 \<Rightarrow> edge_estimate" where
  "w_edge a b off sigma = \<lparr>e_from = a, e_to = b,
     e_relation = \<lparr>at_ns = 0, rl_offset_ns = off, rl_drift = Fin 0, rl_sigma_offset_ns = sigma, rl_sigma_drift = sigma\<rparr>,
     e_rtt_floor_ns = 0, e_samples = 1\<rparr>"

definition w_clock :: relational_clock where
  "w_clock = hear (w_edge (wn 2) (wn 3) (Fin 100) (Fin 1)) 5
     (hear_anchor (w_anchor 2) 4 (hear_anchor (w_anchor 3) 3 (relational_clock_new (wn 1) track_config_default)))"

lemma wn_eq [simp]: "wn a = wn b \<longleftrightarrow> a = b" "wn a = UTC \<longleftrightarrow> a = 255" "wn a < wn b \<longleftrightarrow> a < b"
proof -
  have l: "replicate 32 a = a # replicate 31 a" for a :: u8 by (simp add: numeral_eq_Suc)
  show "wn a = wn b \<longleftrightarrow> a = b" "wn a = UTC \<longleftrightarrow> a = 255" by (auto simp: wn_def UTC_def l)
  show "wn a < wn b \<longleftrightarrow> a < b" by (auto simp: wn_def less_node_id_def l)
qed

theorem solve_absolute_ends_witness:
  "\<exists>fr. solve_absolute (\<lambda>x. x) (\<lambda>x. x) (\<lambda>x. x) 10 w_clock = Some (Some fr) \<and> is_absolute fr"
proof -
  have "anchors_ok w_clock" "\<forall>e \<in> set (known_edges w_clock). e_from e \<noteq> UTC" "usable_anchors w_clock \<noteq> []"
    by (simp_all add: w_clock_def hear_def hear_anchor_def relational_clock_new_def w_anchor_def w_edge_def anchors_ok_def
        bt_ok_def known_edges_def rc_edges_def heard_edges_def usable_anchors_def anchors_def map_filter_simps Let_def)
  with solve_absolute_ends [of w_clock "\<lambda>x. x" "\<lambda>x. x" "\<lambda>x. x" 10] show ?thesis by force
qed

lemma w_measure:
  "\<exists>c' ob h. observe_reference (wn 9) (100, 160, 170, 200) (Fin 0) 1 (Fin 0) now (relational_clock_new i track_config_default) = Ret (c', ob) \<and>
     rc_anchors c' = [(wn 9, h)] \<and> an_node (ha_anchor h) = wn 9 \<and> ha_measured_ns h = now \<and>
     (\<exists>t. rc_tracks c' = [(wn 9, t)] \<and> pt_accepted t = 1)"
  by (simp add: observe_reference_def rc_observe_def relational_clock_new_def pt_observe_def judge_step_def absorb_def
      peer_track_new_def push_rtt_def track_config_default_def rtt_floor_def record_twist_def pt_relation_def own_anchor_def Let_def)

text \<open>
  A refused answer still renews an anchor. Once a reference has been measured, an exchange with it
  that the track rejects (a round trip that is not positive, a reordered or delayed answer, a first
  step) leaves the estimate as it was and yet dates the anchor to the present.
\<close>

theorem rejected_exchange_renews_anchor:
  assumes "observe_reference server ex rd str drift now c = Ret (c', Rejected why)"
    "map_of (rc_tracks c) server = Some t" "0 < pt_accepted t" "pt_accepted t \<noteq> - 1" "bt_ok (rc_tracks c)" "bt_ok (rc_anchors c)"
  shows "map_option pt_relation (map_of (rc_tracks c') server) = Some (pt_relation t) \<and>
    (\<exists>h. map_of (rc_anchors c') server = Some h \<and> ha_own h \<and> ha_measured_ns h = now)"
proof -
  obtain t1 t2 t3 t4 where ex: "ex = (t1, t2, t3, t4)" by (metis prod_cases4)
  obtain c1 t' where o: "rc_observe server ex c = Ret (c1, Rejected why)" "pt_observe t1 t2 t3 t4 t = Ret (t', Rejected why)"
    "c1 = c\<lparr>rc_tracks := bt_insert server t' (rc_tracks c)\<rparr>"
    and c': "c' = (case map_of (rc_tracks c1) server of None \<Rightarrow> c1 | Some t \<Rightarrow> if 0 < pt_accepted t
      then c1\<lparr>rc_anchors := bt_insert server (own_anchor server t rd str drift now) (rc_anchors c1)\<rparr> else c1)"
    using assms(1,2)
    by (auto simp: observe_reference_def rc_observe_def ex obind_Ret Let_def split: observation.splits)
  have "rejects t t'" by (rule rejected_rejects [OF o(2) assms(4)])
  then have "pt_relation t' = pt_relation t" "pt_accepted t' = pt_accepted t"
    by (auto simp: rejects_def estimate_def pt_relation_def)
  then show ?thesis using c' o(3) assms(3,5,6)
    by (simp add: bt.lookup_insert own_anchor_def)
qed

theorem rejected_exchange_renews_anchor_witness:
  "\<exists>c c' h. observe_reference (wn 9) (500, 160, 290, 600) (Fin 0) 1 (Fin 0) 2000 c = Ret (c', Rejected NonPositiveRtt) \<and>
     map_of (rc_anchors c') (wn 9) = Some h \<and> ha_measured_ns h = 2000"
proof -
  obtain c :: relational_clock and h t where m: "rc_anchors c = [(wn 9, h)]" "rc_tracks c = [(wn 9, t)]" "pt_accepted t = 1"
    using w_measure [of 1000 "wn 1"] by blast
  have "\<exists>c'. observe_reference (wn 9) (500, 160, 290, 600) (Fin 0) 1 (Fin 0) 2000 c = Ret (c', Rejected NonPositiveRtt)"
    by (simp add: observe_reference_def rc_observe_def m pt_observe_def reject_with_def)
  then obtain c' where c': "observe_reference (wn 9) (500, 160, 290, 600) (Fin 0) 1 (Fin 0) 2000 c = Ret (c', Rejected NonPositiveRtt)" by blast
  with rejected_exchange_renews_anchor [OF c', of t] m show ?thesis by (auto simp: bt_ok_def)
qed

end
