(* ===== verification/SelectionLoop.thy ===== *)
theory SelectionLoop
  imports RelClock
begin

text \<open>
  The selection loop of \<open>RelationalClock::solve_absolute\<close> on edges whose measuring node claims to be
  \<open>UTC\<close>. \<open>hear\<close> accepts such an edge from any peer; it is then among the edges the loop looks for its
  worst anchor in, and setting its target aside changes nothing. Two of them stop any clock.
\<close>

section \<open>A loop that cannot make progress\<close>

definition stuck :: "(anchor list \<Rightarrow> network_frame option) \<Rightarrow> anchor list \<Rightarrow> bool" where
  "stuck sw ch \<longleftrightarrow> (\<exists>fr w. sw ch = Some fr \<and> worst_anchor_edge fr = Some w \<and> 3 \<le> length ch \<and>
     flt (Fin 5) (fabs (z_offset w)) \<and> (\<forall>a \<in> set ch. an_node a \<noteq> er_to w))"

lemma select_diverges:
  assumes "stuck sw ch" shows "select sw ch ft = None"
proof -
  have "\<not> stuck sw ch" if "select sw ch ft = Some y" for sw ch ft y
  proof (rule select.raw_induct [OF _ that])
    fix f sw ch ft y
    assume ih: "\<And>sw ch ft y. f sw ch ft = Some y \<Longrightarrow> \<not> stuck sw ch"
      and body: "Option.bind (sw ch) (\<lambda>fr. case worst_anchor_edge fr of None \<Rightarrow> Some (fr, ch, ft)
        | Some w \<Rightarrow> if 3 \<le> length ch \<and> flt (Fin 5) (fabs (z_offset w))
            then f sw (filter (\<lambda>a. an_node a \<noteq> er_to w) ch) (ft @ [er_to w]) else Some (fr, ch, ft)) = Some y"
    show "\<not> stuck sw ch"
    proof
      assume st: "stuck sw ch"
      then obtain fr w where w: "sw ch = Some fr" "worst_anchor_edge fr = Some w" "3 \<le> length ch"
        "flt (Fin 5) (fabs (z_offset w))" "\<forall>a \<in> set ch. an_node a \<noteq> er_to w" by (auto simp: stuck_def)
      from w(5) have "filter (\<lambda>a. an_node a \<noteq> er_to w) ch = ch" by (rule filter_True)
      then have "f sw ch (ft @ [er_to w]) = Some y" using body w by simp
      from ih [OF this] st show False by blast
    qed
  qed
  then show ?thesis using assms by (cases "select sw ch ft") auto
qed

section \<open>Residuals when nothing is solved\<close>

text \<open>When the least squares of the offsets fail, every pass leaves every clock at zero, and the residuals are those of the edges as they are.\<close>

definition zval :: "f64 list \<Rightarrow> obs \<Rightarrow> f64" where
  "zval off oo = fdiv (fsub (ob_m oo) (fsub (off ! ob_b oo) (off ! ob_a oo))) (ob_sigma oo)"

lemma zip_map_all:
  "length ods = length es \<Longrightarrow> (\<lambda>(e, oo, od). f e oo) ` set (zip es (zip (map g es) ods)) = (\<lambda>e. f e (g e)) ` set es"
proof (induction es arbitrary: ods)
  case (Cons e es)
  then show ?case by (cases ods) auto
qed simp

lemma solve_frame_unsolved:
  assumes "ids = frame_ids solver ref es" "us = filter usable es" "r = index_of ids ref" "me = index_of ids solver"
    "bfs (map (\<lambda>e. (index_of ids (e_from e), index_of ids (e_to e))) us) ([r], [r], replicate (length ids) None) [] = ((ms, q, par), ord)"
    "mapped = (me \<in> set ms)" "inside = filter (\<lambda>e. index_of ids (e_from e) \<in> set ms) us" "z = replicate (length ids) (Fin 0)"
    "laplacian_solve (length ids) r (sort ms) (map (offset_obs ids me mapped t z) inside) = (z, z)"
    "solve_frame ln_1p exp_m1 exp_f solver ref t es = Some fr"
  shows "(\<lambda>r. (er_from r, er_to r, z_offset r)) ` set (fr_edges fr) =
    (\<lambda>e. (e_from e, e_to e, zval z (offset_obs ids me mapped t z e))) ` set inside"
proof -
  let ?os = "map (offset_obs ids me mapped t z) inside"
  let ?ods = "map (drift_obs ln_1p ids) inside"
  have pass: "offset_pass ids r me (sort ms) mapped t inside (z, st) = (z, z, ?os)" for st
    unfolding offset_pass_def prod.case Let_def assms(9) by (cases st) simp
  obtain rate sr where rate: "laplacian_solve (length ids) r (sort ms) ?ods = (rate, sr)" by (metis prod.exhaust)
  have "fr_edges fr = sort_by (\<lambda>a b. total_le (residual_z b) (residual_z a)) (map (residual_of z rate) (zip inside (zip ?os ?ods)))"
    using assms(10) unfolding solve_frame_def assms(1) [symmetric] assms(2) [symmetric] assms(3) [symmetric] assms(4) [symmetric] Let_def
      assms(5) prod.case assms(6) [symmetric] assms(7) [symmetric] assms(8) [symmetric] rate pass by auto
  then have "(\<lambda>r. (er_from r, er_to r, z_offset r)) ` set (fr_edges fr) =
    (\<lambda>(e, oo, od). (e_from e, e_to e, zval z oo)) ` set (zip inside (zip ?os ?ods))"
    by (auto simp: residual_of_def zval_def Let_def image_image intro!: image_eqI)
  also have "\<dots> = (\<lambda>e. (e_from e, e_to e, zval z (offset_obs ids me mapped t z e))) ` set inside"
    by (rule zip_map_all) simp
  finally show ?thesis .
qed

lemma max_by_None: "max_by f xs = None \<longleftrightarrow> xs = []"
  by (cases xs) (auto split: option.splits)

lemma max_by_max: "max_by f xs = Some y \<Longrightarrow> x \<in> set xs \<Longrightarrow> total_le (f x) (f y)"
proof (induction xs arbitrary: y x)
  case (Cons z zs)
  show ?case
  proof (cases "max_by f zs")
    case None
    then show ?thesis using Cons.prems by (auto simp: max_by_None total_le_refl)
  next
    case (Some m)
    have m: "\<And>x. x \<in> set zs \<Longrightarrow> total_le (f x) (f m)" by (rule Cons.IH [OF Some])
    show ?thesis
    proof (cases "total_le (f z) (f m)")
      case True
      then show ?thesis using Cons.prems Some m by auto
    next
      case False
      then have "total_le (f m) (f z)" using total_le_linear by blast
      then show ?thesis using Cons.prems Some m False by (auto intro: total_le_refl total_le_trans)
    qed
  qed
qed simp

section \<open>Arithmetic with zeros and an infinite spread\<close>

lemma fadd_zero_right:
  assumes "is_f64 a" "a \<noteq> NZero" "is_zero b" shows "fadd a b = a"
proof (cases a)
  case (Fin r)
  then show ?thesis using assms rnd_id [of r] by (auto simp: fadd_def f64_class fzero_def)
qed (use assms in \<open>auto simp: fadd_def f64_class\<close>)

lemma fsub_zero_right: "is_f64 a \<Longrightarrow> a \<noteq> NZero \<Longrightarrow> is_zero b \<Longrightarrow> fsub a b = a"
  unfolding fsub_def by (rule fadd_zero_right) (auto simp: is_zero_def fneg_def)

lemma is_zero_fsub: "is_zero a \<Longrightarrow> is_zero b \<Longrightarrow> is_zero (fsub a b)"
  unfolding fsub_def by (intro is_zero_fadd) (auto simp: is_zero_def fneg_def)

lemma is_zero_Fin_0: "is_zero (Fin 0)" by (simp add: is_zero_def)

lemma is_zero_spread: "is_zero a \<Longrightarrow> is_zero (fdiv a (fmax s (Fin 1)))"
  by (cases s) (auto simp: fdiv_def fmax_def f64_class fzero_def f_huge_def)

lemma spread_0: "is_zero a \<Longrightarrow> is_zero b \<Longrightarrow> fmax (fsqrt (fadd (fsq a) (fsq b))) (Fin 1) = Fin 1"
  by (auto simp: is_zero_def fsq_def fmul_def fadd_def fsqrt_def fmax_def f64_class fzero_def)

lemma spread_inf: "is_zero b \<Longrightarrow> fmax (fsqrt (fadd (fsq PInf) (fsq b))) (Fin 1) = PInf"
  by (auto simp: is_zero_def fsq_def fmul_def fadd_def fsqrt_def fmax_def f64_class fzero_def finf_def f_huge_def)

lemma fdiv_one: "is_f64 (Fin r) \<Longrightarrow> r \<noteq> 0 \<Longrightarrow> fdiv (Fin r) (Fin 1) = Fin r"
  using rnd_id [of r] by (simp add: fdiv_def f64_class)

lemma zero_weight: "fdiv (Fin 1) (fsq PInf) = Fin 0" "fadd (Fin 0) (Fin 0) = Fin 0"
  by (simp_all add: fsq_def fmul_def fdiv_def fadd_def f64_class finf_def fzero_def)

lemma of_u64_not_NZero: "of_u64 w \<noteq> NZero"
  using uint_ge_0 [of w] by (auto simp: of_u64_def rnd_def Let_def simp del: of_int_uint uint_ge_0)

lemma finite_age: "is_finite (fsub (of_u64 a) (of_u64 b))"
proof -
  have "fbound 64 (of_u64 w)" for w
  proof (rule fbound_rr [of _ "of_int (uint w)"])
    have "(of_int (uint w) :: rat) \<le> of_int (2 ^ 64)" using uint_lt2p [of w] by (simp only: of_int_le_iff) simp
    then show "\<bar>of_int (uint w) :: rat\<bar> \<le> 2 ^ 64" by (simp del: of_int_uint)
  qed (simp_all add: of_u64_def nval_rnd del: of_int_uint)
  from fbound_fsub [OF this this] show ?thesis by (simp add: fbound_def)
qed

section \<open>A pivot that is zero\<close>

lemma cholesky_fails: "0 < n \<Longrightarrow> fle (a ! 0) (Fin 0) \<Longrightarrow> cholesky a n = None"
proof -
  assume n: "0 < n" and le: "fle (a ! 0) (Fin 0)"
  have none: "foldl (\<lambda>acc ij. Option.bind acc (chol_cell a n ij)) None xs = None" for xs by (induction xs) simp_all
  obtain xs where "concat (map (\<lambda>i. map (Pair i) [0..<Suc i]) [0..<n]) = (0, 0) # xs"
    using n by (cases n) (simp_all add: upt_rec [of 0] del: upt_Suc)
  then show ?thesis using le none by (simp add: cholesky_def chol_cell_def)
qed

lemma position_in_pos: "0 < i \<Longrightarrow> position_in (0 # us) i = Some p \<Longrightarrow> 0 < p"
  by (auto simp: position_in_def Let_def split: if_splits)

lemma bump_other: "0 < i \<Longrightarrow> bump i f xs ! 0 = xs ! 0"
  by (simp add: bump_def)

lemma add_obs_other:
  assumes "0 < ob_a ob" "0 < ob_b ob"
  shows "fst (add_obs (0 # us) ob mr) ! 0 = fst mr ! 0"
  using position_in_pos [OF assms(1)] position_in_pos [OF assms(2)]
  by (cases mr) (auto simp: add_obs_def Let_def bump_other split: option.splits)

lemma laplacian_fails:
  assumes "us = filter (\<lambda>i. i \<noteq> fixed) ms" "cholesky mat (length us) = None"
    "foldl (\<lambda>mr ob. add_obs us ob mr) (replicate (length us * length us) (Fin 0), replicate (length us) (Fin 0)) os = (mat, rhs)"
  shows "laplacian_solve n fixed ms os = (replicate n (Fin 0), replicate n (Fin 0))"
  unfolding laplacian_solve_def assms(1) [symmetric] Let_def assms(3) by (simp add: spd_solve_def assms(2))

lemma position_in_None: "i \<notin> set us \<Longrightarrow> position_in us i = None"
proof -
  assume "i \<notin> set us"
  then have "takeWhile (\<lambda>u. u \<noteq> i) us = us" by (auto simp: takeWhile_eq_all_conv)
  then have "length (takeWhile (\<lambda>u. u \<noteq> i) us) = length us" by (rule arg_cong)
  then show ?thesis by (simp add: position_in_def Let_def)
qed

text \<open>
  The first of the unknowns is tied to the rest by measurements of the reference with an infinite spread only: its diagonal entry stays
  zero, and nothing is solved.
\<close>

lemma add_obs_weightless:
  assumes "r \<notin> set (0 # us)" "mat \<noteq> []" "mat ! 0 = Fin 0"
  shows "fst (add_obs (0 # us) \<lparr>ob_a = r, ob_b = 0, ob_m = x, ob_sigma = PInf\<rparr> (mat, rhs)) ! 0 = Fin 0"
proof -
  have "position_in (0 # us) 0 = Some 0" by (simp add: position_in_def)
  then show ?thesis using assms position_in_None [OF assms(1)] by (simp add: add_obs_def Let_def bump_def zero_weight)
qed

lemma add_obs_length: "length (fst (add_obs us ob mr)) = length (fst mr)"
  by (cases mr) (auto simp: add_obs_def Let_def bump_def split: option.splits)

lemma laplacian_unsolved:
  assumes "filter (\<lambda>i. i \<noteq> r) ms = 0 # us"
    "\<forall>ob \<in> set os. 0 < ob_a ob \<and> 0 < ob_b ob \<or> (\<exists>x. ob = \<lparr>ob_a = r, ob_b = 0, ob_m = x, ob_sigma = PInf\<rparr>)"
  shows "laplacian_solve n r ms os = (replicate n (Fin 0), replicate n (Fin 0))"
proof -
  define f where "f = (\<lambda>mr ob. add_obs (0 # us) ob mr)"
  let ?k = "Suc (length us)"
  let ?start = "(replicate (?k * ?k) (Fin 0), replicate ?k (Fin 0)) :: f64 list \<times> f64 list"
  have r: "r \<notin> set (0 # us)" unfolding assms(1) [symmetric] by simp
  have "fst (foldl f mr os) ! 0 = Fin 0 \<and> fst (foldl f mr os) \<noteq> []" if "fst mr ! 0 = Fin 0" "fst mr \<noteq> []" for mr
    using assms(2) that
  proof (induction os arbitrary: mr)
    case (Cons ob os)
    have "fst (f mr ob) \<noteq> []" using Cons.prems(3) add_obs_length [of "0 # us" ob mr] by (auto simp: f_def)
    moreover have "fst (f mr ob) ! 0 = Fin 0"
    proof (cases "0 < ob_a ob \<and> 0 < ob_b ob")
      case True
      then show ?thesis using Cons.prems(2) by (simp add: f_def add_obs_other)
    next
      case False
      then obtain x where "ob = \<lparr>ob_a = r, ob_b = 0, ob_m = x, ob_sigma = PInf\<rparr>" using Cons.prems(1) by auto
      then show ?thesis using add_obs_weightless [OF r, of "fst mr" x "snd mr"] Cons.prems(2,3) by (simp add: f_def)
    qed
    ultimately show ?case using Cons.IH [of "f mr ob"] Cons.prems(1) by simp
  qed simp
  from this [of ?start] obtain mat rhs where m: "foldl f ?start os = (mat, rhs)" "mat ! 0 = Fin 0"
    by (cases "foldl f ?start os") auto
  have "cholesky mat ?k = None" by (rule cholesky_fails) (simp_all add: m(2) fle_def is_nan_def)
  then show ?thesis using laplacian_fails [OF assms(1) [symmetric], of mat os rhs n] m(1) by (simp add: f_def)
qed

section \<open>A clock that never answers\<close>

text \<open>An edge that claims to be measured by \<open>UTC\<close>, with offset \<open>off\<close> and spread \<open>sigma\<close>.\<close>

definition utc_edge :: "node_id \<Rightarrow> f64 \<Rightarrow> f64 \<Rightarrow> edge_estimate" where
  "utc_edge b off sigma = \<lparr>e_from = UTC, e_to = b,
     e_relation = \<lparr>at_ns = 0, rl_offset_ns = off, rl_drift = Fin 0, rl_sigma_offset_ns = sigma, rl_sigma_drift = Fin 0\<rparr>,
     e_rtt_floor_ns = 0, e_samples = 1\<rparr>"

definition edge_nodes :: "edge_estimate list \<Rightarrow> node_id set" where
  "edge_nodes es = e_from ` set es \<union> e_to ` set es"

lemma unsolved_time:
  assumes "a < length ids" "me < length ids" "z = replicate (length ids) (Fin 0)"
  shows "is_finite (fsub (if mapped then fsub (fadd (of_u64 t) (z ! a)) (z ! me) else of_u64 u) (of_u64 v))"
  using assms finite_age by (simp add: fadd_zero_right fsub_zero_right of_u64_not_NZero is_zero_Fin_0)

lemma unsolved_obs:
  assumes "e_from e \<in> set ids" "me < length ids" "rl_drift (e_relation e) = Fin 0" "rl_sigma_drift (e_relation e) = Fin 0"
  shows "\<exists>a. is_zero a \<and> offset_obs ids me mapped t (replicate (length ids) (Fin 0)) e =
    \<lparr>ob_a = index_of ids (e_from e), ob_b = index_of ids (e_to e), ob_m = fadd (rl_offset_ns (e_relation e)) a,
     ob_sigma = fmax (fsqrt (fadd (fsq (rl_sigma_offset_ns (e_relation e))) (fsq a))) (Fin 1)\<rparr>"
proof -
  let ?z = "replicate (length ids) (Fin 0)"
  define a where "a = fmul (Fin 0) (fsub (if mapped then fsub (fadd (of_u64 t) (?z ! index_of ids (e_from e))) (?z ! me)
    else of_u64 (at_ns (e_relation e))) (of_u64 (at_ns (e_relation e))))"
  have "is_zero a" unfolding a_def
    by (rule is_zero_fmul [OF is_zero_Fin_0 unsolved_time [OF conjunct1 [OF index_of_mem [OF assms(1)]] assms(2) refl]])
  then show ?thesis
    by (intro exI [of _ a]) (simp add: a_def offset_obs_def offset_at_def sigma_at_def Let_def MIN_SIGMA_NS_def assms(3,4))
qed

lemma zval_at_zero:
  assumes "a < n" "b < n" "is_f64 m" "m \<noteq> NZero"
  shows "zval (replicate n (Fin 0)) \<lparr>ob_a = a, ob_b = b, ob_m = m, ob_sigma = s\<rparr> = fdiv m s"
proof -
  have "is_zero (fsub (Fin 0) (Fin 0))" by (intro is_zero_fsub is_zero_Fin_0)
  then show ?thesis using assms by (simp add: zval_def fsub_zero_right)
qed

lemma is_zero_zval:
  assumes "a < n" "b < n" "is_zero m"
  shows "is_zero (zval (replicate n (Fin 0)) \<lparr>ob_a = a, ob_b = b, ob_m = m, ob_sigma = fmax s (Fin 1)\<rparr>)"
  using assms by (auto simp: zval_def intro!: is_zero_spread is_zero_fsub is_zero_Fin_0)

lemma utc_edge_sel [simp]:
  "e_from (utc_edge b off s) = UTC" "e_to (utc_edge b off s) = b" "rl_offset_ns (e_relation (utc_edge b off s)) = off"
  "rl_drift (e_relation (utc_edge b off s)) = Fin 0" "rl_sigma_offset_ns (e_relation (utc_edge b off s)) = s"
  "rl_sigma_drift (e_relation (utc_edge b off s)) = Fin 0"
  by (simp_all add: utc_edge_def)

lemma least_index:
  assumes "sorted ids" "distinct ids" "x \<in> set ids" "\<forall>i \<in> set ids. x \<le> i"
  shows "index_of ids x = 0"
  using assms by (cases ids) (auto simp: index_of_def dest: order_antisym)

lemma index_of_pos: "x \<in> set ids \<Longrightarrow> i \<in> set ids \<Longrightarrow> i \<noteq> x \<Longrightarrow> index_of ids x = 0 \<Longrightarrow> 0 < index_of ids i"
  using inj_index_of [of ids] by (metis gr0I inj_onD)

lemma filter_sort_least:
  assumes "0 \<in> set ms" "r \<noteq> (0 :: nat)"
  obtains us where "filter (\<lambda>i. i \<noteq> r) (sort ms) = 0 # us"
proof -
  have "0 \<in> set (sort ms)" using assms(1) by simp
  then obtain vs where "sort ms = 0 # vs" using sorted_sort [of ms] by (cases "sort ms") auto
  then show ?thesis using that assms(2) by simp
qed

text \<open>
  A frame against \<open>UTC\<close> of edges among which one from \<open>UTC\<close> has an infinite spread and leads to a node \<open>x\<close> nobody else has measured, with
  the least of all identifiers, and another one is more than 5 ns off: that one is the worst of the edges from \<open>UTC\<close>.
\<close>

lemma forged_frame:
  assumes fr: "solve_frame ln_1p exp_m1 exp_f solver UTC t es = Some fr"
    and ex: "utc_edge x (Fin 0) PInf \<in> set es" and ey: "utc_edge y (Fin off) (Fin 0) \<in> set es"
    and utc: "\<forall>e \<in> set es. e_from e = UTC \<longrightarrow> e = utc_edge x (Fin 0) PInf \<or> e = utc_edge y (Fin off) (Fin 0) \<or> (\<exists>a. e = anchor_edge t a)"
    and alone: "\<forall>e \<in> set es. e_from e = x \<or> e_to e = x \<longrightarrow> e = utc_edge x (Fin 0) PInf"
    and least: "x < solver" "x < UTC" "\<forall>i \<in> edge_nodes es. x \<le> i" and off: "is_f64 (Fin off)" "5 < \<bar>off\<bar>" and y: "y \<noteq> UTC"
  shows "\<exists>w. worst_anchor_edge fr = Some w \<and> er_to w = y \<and> flt (Fin 5) (fabs (z_offset w))"
proof -
  define ids where "ids = frame_ids solver UTC es"
  define n where "n = length ids"
  define z where "z = replicate n (Fin 0)"
  define us where "us = filter usable es"
  define prs where "prs = map (\<lambda>e. (index_of ids (e_from e), index_of ids (e_to e))) us"
  define r where "r = index_of ids UTC"
  define me where "me = index_of ids solver"
  have ids: "sorted ids" "distinct ids" "set ids = {solver, UTC} \<union> edge_nodes es"
    using frame_ids_props [of solver UTC es] by (simp_all add: ids_def edge_nodes_def Un_assoc)
      (simp add: frame_ids_def del: sorted_list_of_set_insert_remove)
  have mem: "UTC \<in> set ids" "solver \<in> set ids" "x \<in> set ids" "e \<in> set es \<Longrightarrow> e_from e \<in> set ids \<and> e_to e \<in> set ids" for e
    using ids(3) imageI [OF ex, of e_to] by (auto simp: edge_nodes_def)
  have x0: "index_of ids x = 0" using least ids(3) by (intro least_index ids mem(3)) auto
  have pos: "i \<in> set ids \<Longrightarrow> i \<noteq> x \<Longrightarrow> 0 < index_of ids i" for i using index_of_pos [OF mem(3) _ _ x0] by blast
  have lt: "i \<in> set ids \<Longrightarrow> index_of ids i < n" for i using index_of_mem by (simp add: n_def)
  have r: "r < n" "0 < r" and me: "me < n" using lt pos mem(1,2) least(2) by (auto simp: r_def me_def)
  obtain ms q par ord where b: "bfs prs ([r], [r], replicate n None) [] = ((ms, q, par), ord)" by (metis prod.exhaust)
  have "endpoints prs \<subseteq> {..<n}" using lt mem(4) by (auto simp: endpoints_def prs_def us_def)
  from bfs_start [OF r(1) this b] obtain lv where inv: "set ms = set ord" "bfs_done prs r lv par ord" by blast
  have comp: "set ms = index_of ids ` ((edge_rel es)\<^sup>* `` {UTC})"
    using frame_component(1) [OF ids_def inv(2) [unfolded r_def]] inv(1) by (simp add: prs_def us_def)
  have us: "utc_edge x (Fin 0) PInf \<in> set us" "utc_edge y (Fin off) (Fin 0) \<in> set us"
    using ex ey y least(2) by (auto simp: us_def usable_def flt_def)
  then have "(UTC, x) \<in> (edge_rel es)\<^sup>*" by (force simp: edge_rel_def us_def)
  then have "0 \<in> set ms" unfolding comp using x0 by (auto intro!: image_eqI [of _ _ x])
  then obtain vs where vs: "filter (\<lambda>i. i \<noteq> r) (sort ms) = 0 # vs" using r(2) by (blast intro: filter_sort_least)
  have rms: "r \<in> set ms" unfolding comp r_def by (rule imageI) simp
  define mapped where "mapped = (me \<in> set ms)"
  define inside where "inside = filter (\<lambda>e. index_of ids (e_from e) \<in> set ms) us"
  define O1 where "O1 = offset_obs ids me mapped t z"
  have sub: "e \<in> set es" if "e \<in> set inside" for e using that by (simp add: inside_def us_def)
  have ob: "ob_a (O1 e) = index_of ids (e_from e)" "ob_b (O1 e) = index_of ids (e_to e)" for e
    by (simp_all add: O1_def offset_obs_def Let_def)
  have obs: "\<exists>a. is_zero a \<and> O1 e = \<lparr>ob_a = index_of ids (e_from e), ob_b = index_of ids (e_to e), ob_m = fadd (rl_offset_ns (e_relation e)) a,
      ob_sigma = fmax (fsqrt (fadd (fsq (rl_sigma_offset_ns (e_relation e))) (fsq a))) (Fin 1)\<rparr>"
    if "e \<in> set es" "e = utc_edge c o' s" for e c o' s
    using unsolved_obs [of e ids me mapped t] mem(4) [OF that(1)] me that(2) by (simp add: O1_def z_def n_def)
  have "laplacian_solve n r (sort ms) (map O1 inside) = (z, z)"
    unfolding z_def
  proof (rule laplacian_unsolved [OF vs], intro ballI)
    fix ob' assume "ob' \<in> set (map O1 inside)"
    then obtain e where e: "e \<in> set es" "ob' = O1 e" using sub by auto
    show "0 < ob_a ob' \<and> 0 < ob_b ob' \<or> (\<exists>m. ob' = \<lparr>ob_a = r, ob_b = 0, ob_m = m, ob_sigma = PInf\<rparr>)"
    proof (cases "e = utc_edge x (Fin 0) PInf")
      case True
      then show ?thesis using obs [OF e(1) True] e(2) x0 by (auto simp: spread_inf r_def)
    next
      case False
      then have "e_from e \<noteq> x" "e_to e \<noteq> x" using alone e(1) by blast+
      then show ?thesis using pos mem(4) [OF e(1)] by (simp add: e(2) ob)
    qed
  qed
  then have "(\<lambda>r. (er_from r, er_to r, z_offset r)) ` set (fr_edges fr) = (\<lambda>e. (e_from e, e_to e, zval z (O1 e))) ` set inside"
    unfolding O1_def n_def z_def
    by (intro solve_frame_unsolved [OF ids_def us_def r_def me_def b [unfolded prs_def n_def] mapped_def inside_def refl _ fr])
  note res = this
  have zero: "is_zero (zval z (O1 e))" if e: "e \<in> set es" "e_from e = UTC" "e \<noteq> utc_edge y (Fin off) (Fin 0)" for e
  proof -
    have rel: "rl_drift (e_relation e) = Fin 0" "rl_offset_ns (e_relation e) = Fin 0" using utc e by (auto simp: anchor_edge_def)
    have t: "is_finite (fsub (if mapped then fsub (fadd (of_u64 t) (z ! index_of ids UTC)) (z ! me) else of_u64 u) (of_u64 v))" for u v
      using lt mem(1) me by (intro unsolved_time) (simp_all add: n_def z_def)
    have "is_zero (fadd (Fin 0) (fmul (Fin 0) (fsub (if mapped then fsub (fadd (of_u64 t) (z ! index_of ids UTC)) (z ! me) else of_u64 (at_ns (e_relation e)))
        (of_u64 (at_ns (e_relation e))))))"
      by (intro is_zero_fadd is_zero_fmul is_zero_Fin_0 t)
    then have "is_zero (ob_m (O1 e))" using e(2) by (simp add: O1_def offset_obs_def offset_at_def Let_def rel)
    moreover obtain s where "ob_sigma (O1 e) = fmax s (Fin 1)" by (simp add: O1_def offset_obs_def MIN_SIGMA_NS_def Let_def)
    ultimately show ?thesis using lt mem(4) [OF e(1)] ob [of e] is_zero_zval [of "ob_a (O1 e)" n "ob_b (O1 e)" "ob_m (O1 e)" s]
      by (metis obs.surjective old.unit.exhaust z_def)
  qed
  have "off \<noteq> 0" using off(2) by auto
  have worst: "zval z (O1 (utc_edge y (Fin off) (Fin 0))) = Fin off"
  proof -
    obtain a where a: "is_zero a" "O1 (utc_edge y (Fin off) (Fin 0)) = \<lparr>ob_a = r, ob_b = index_of ids y, ob_m = fadd (Fin off) a,
        ob_sigma = fmax (fsqrt (fadd (fsq (Fin 0)) (fsq a))) (Fin 1)\<rparr>"
      using obs [OF ey refl] by (auto simp: r_def)
    have "index_of ids y < n" using lt mem(4) [OF ey] by simp
    then show ?thesis unfolding a(2) fadd_zero_right [OF off(1) f64.distinct(20) a(1)] spread_0 [OF is_zero_Fin_0 a(1)] z_def
      using r(1) off(1) \<open>off \<noteq> 0\<close> by (simp add: zval_at_zero fdiv_one)
  qed
  have "utc_edge y (Fin off) (Fin 0) \<in> set inside" using us(2) rms by (simp add: inside_def r_def)
  then have "(UTC, y, Fin off) \<in> (\<lambda>e. (e_from e, e_to e, zval z (O1 e))) ` set inside"
    using worst by (intro image_eqI [of _ _ "utc_edge y (Fin off) (Fin 0)"]) simp_all
  then obtain e0 where e0: "e0 \<in> set (fr_edges fr)" "er_from e0 = UTC" "z_offset e0 = Fin off" unfolding res [symmetric] by auto
  let ?utc = "filter (\<lambda>e. er_from e = UTC) (fr_edges fr)"
  have "e0 \<in> set ?utc" using e0 by simp
  then obtain w where w: "worst_anchor_edge fr = Some w"
    unfolding worst_anchor_edge_def by (metis empty_iff list.set(1) max_by_None not_None_eq)
  then have wm: "w \<in> set ?utc" "total_le (fabs (z_offset e0)) (fabs (z_offset w))"
    using max_by_mem max_by_max \<open>e0 \<in> set ?utc\<close> unfolding worst_anchor_edge_def by fast+
  then have "(er_from w, er_to w, z_offset w) \<in> (\<lambda>e. (e_from e, e_to e, zval z (O1 e))) ` set inside"
    unfolding res [symmetric] by (intro image_eqI [of _ _ w]) simp_all
  then obtain e where e: "e \<in> set es" "e_from e = UTC" "er_to w = e_to e" "z_offset w = zval z (O1 e)" using wm(1) sub by force
  have "\<not> is_zero (z_offset w)" using wm(2) e0(3) off(2) by (auto simp: is_zero_def total_le_def)
  then have "e = utc_edge y (Fin off) (Fin 0)" using zero e by metis
  then have "er_to w = y" "z_offset w = Fin off" using e(3,4) worst by simp_all
  then show ?thesis using w off(2) by (simp add: flt_def)
qed

section \<open>Property\<close>

text \<open>Two more edges are heard, and known beside the others.\<close>

lemma known_hear:
  assumes "bt_ok (rc_heard c)" "e_from e \<noteq> rc_me c" "e_from e \<noteq> e_to e"
    and "map_of (rc_heard c) (e_from e, e_to e) = None"
  shows "set (known_edges (hear e now c)) = Set.insert e (set (known_edges c))"
proof -
  have "set (bt_insert k v m) = Set.insert (k, v) (set m)" if "bt_ok m" "map_of m k = None" for k v and m :: "(node_id \<times> node_id, heard) btreemap"
    using that by (induction k v m rule: bt_insert.induct) (auto simp: bt_ok_def split: if_splits)
  from this [OF assms(1,4)] show ?thesis using assms(2,3)
    by (simp add: known_edges_def rc_edges_def heard_edges_def hear_def insert_commute)
qed

text \<open>
  (C13) Two forged edges stop any clock. Take any clock with at least three usable anchors that has heard no edge measured by \<open>UTC\<close> (else
  its selection ends). When it hears two edges which claim to be measured by \<open>UTC\<close> itself, and nothing in \<open>hear\<close> refuses them, its next
  \<open>solve_absolute\<close>, for whatever instant, does not return: one with an infinite spread, to an identifier below all it knows (the zero one),
  and one more than 5 ns off, to a node it holds no anchor for. The infinite spread leaves the least squares unsolved, so every clock
  is put at zero; the second forged edge is then the worst of all, and setting its target aside removes no anchor.
\<close>

theorem forged_utc_edge_diverges:
  assumes "3 \<le> length (usable_anchors c)" "\<forall>e \<in> set (known_edges c). e_from e \<noteq> UTC" "bt_ok (rc_heard c)"
    and "\<forall>(k, h) \<in> set (rc_heard c). k = (e_from (hd_edge h), e_to (hd_edge h))"
    and "x < rc_me c" "x < UTC" "x < y" "\<forall>i \<in> edge_nodes (known_edges c) \<union> an_node ` set (anchors c). x < i"
    and "rc_me c \<noteq> UTC" "y \<noteq> UTC" "y \<notin> an_node ` set (anchors c)" "is_f64 (Fin off)" "5 < \<bar>off\<bar>"
  shows "solve_absolute ln_1p exp_m1 exp_f instant (hear (utc_edge y (Fin off) (Fin 0)) now (hear (utc_edge x (Fin 0) PInf) now c)) = None"
proof -
  let ?ex = "utc_edge x (Fin 0) PInf" and ?ey = "utc_edge y (Fin off) (Fin 0)"
  define c1 where "c1 = hear ?ex now c"
  define c2 where "c2 = hear ?ey now c1"
  have fresh: "map_of (rc_heard c) (UTC, i) = None" for i
  proof (rule ccontr)
    assume "map_of (rc_heard c) (UTC, i) \<noteq> None"
    then obtain h where h: "((UTC, i), h) \<in> set (rc_heard c)" by (blast dest: map_of_SomeD)
    then have "e_from (hd_edge h) = UTC" "hd_edge h \<in> set (known_edges c)" using assms(4) by (force simp: known_edges_def heard_edges_def)+
    then show False using assms(2) by blast
  qed
  have same: "rc_me c1 = rc_me c" "rc_anchors c1 = rc_anchors c" "rc_me c2 = rc_me c" "rc_anchors c2 = rc_anchors c"
    by (simp_all add: c1_def c2_def hear_def)
  have heard1: "rc_heard c1 = bt_insert (UTC, x) \<lparr>hd_edge = ?ex, hd_received_ns = now\<rparr> (rc_heard c)"
    using assms(6,9) by (auto simp: c1_def hear_def)
  have known1: "set (known_edges c1) = Set.insert ?ex (set (known_edges c))"
    unfolding c1_def using assms(6,9) fresh by (intro known_hear assms(3)) auto
  have "set (known_edges c2) = Set.insert ?ey (set (known_edges c1))"
    unfolding c2_def using assms(7,9,10) fresh by (intro known_hear) (auto simp: heard1 bt.ok_insert assms(3) bt.lookup_insert same)
  then have known: "set (known_edges c2) = {?ex, ?ey} \<union> set (known_edges c)" using known1 by auto
  have anch: "anchors c2 = anchors c" by (simp add: anchors_def same)
  let ?ch = "usable_anchors c2" and ?sw = "solve_with ln_1p exp_m1 exp_f instant c2"
  have "length (filter P as) \<le> length (filter Q as)" if "\<And>a. P a \<Longrightarrow> Q a" for P Q and as :: "anchor list"
    using that by (induction as) (auto simp: le_SucI)
  then have "length (usable_anchors c) \<le> length ?ch" unfolding usable_anchors_def anch by (auto simp: known)
  then have three: "3 \<le> length ?ch" using assms(1) by simp
  have sub: "set ?ch \<subseteq> set (anchors c)" by (auto simp: usable_anchors_def anch)
  let ?es = "known_edges c2 @ map (anchor_edge instant) ?ch"
  obtain fr where fr: "solve_frame ln_1p exp_m1 exp_f (rc_me c) UTC instant ?es = Some fr" using solve_frame_total by blast
  have nodes: "edge_nodes ?es \<subseteq> {x, y, UTC} \<union> edge_nodes (known_edges c) \<union> an_node ` set (anchors c)"
    using sub by (auto simp: edge_nodes_def known anchor_edge_def)
  have alone: "e = ?ex" if "e \<in> set ?es" "e_from e = x \<or> e_to e = x" for e
  proof (rule ccontr)
    assume ne: "e \<noteq> ?ex"
    have "e \<noteq> ?ey" using that(2) assms(6,7) by auto
    moreover have "e \<notin> set (known_edges c)" using that(2) assms(8) by (auto simp: edge_nodes_def)
    moreover have "e \<noteq> anchor_edge instant a" if "a \<in> set ?ch" for a
    proof -
      have "x < an_node a" using that sub assms(8) by blast
      then show ?thesis using assms(6) \<open>e_from e = x \<or> e_to e = x\<close> by (auto simp: anchor_edge_def)
    qed
    ultimately show False using that(1) ne known by auto
  qed
  have utc: "e = ?ex \<or> e = ?ey \<or> (\<exists>a. e = anchor_edge instant a)" if "e \<in> set ?es" "e_from e = UTC" for e
    using that assms(2) known by auto
  have utc': "\<forall>e \<in> set ?es. e_from e = UTC \<longrightarrow> e = ?ex \<or> e = ?ey \<or> (\<exists>a. e = anchor_edge instant a)"
    and alone': "\<forall>e \<in> set ?es. e_from e = x \<or> e_to e = x \<longrightarrow> e = ?ex" using utc alone by blast+
  have least: "\<forall>i \<in> edge_nodes ?es. x \<le> i" using nodes assms(6,7,8) by (auto intro: less_imp_le)
  have "?ex \<in> set ?es" "?ey \<in> set ?es" by (simp_all add: known)
  from forged_frame [OF fr this utc' alone' assms(5,6) least assms(12,13,10)]
  obtain w where w: "worst_anchor_edge fr = Some w" "er_to w = y" "flt (Fin 5) (fabs (z_offset w))" by blast
  have "\<forall>a \<in> set ?ch. an_node a \<noteq> er_to w" unfolding w(2) using sub assms(11) by (auto dest: subsetD)
  moreover have "?sw ?ch = Some fr" using fr by (simp add: solve_with_def same)
  ultimately have "stuck ?sw ?ch" using w three unfolding stuck_def by blast
  moreover have "?ch \<noteq> []" using three by auto
  ultimately show ?thesis by (simp add: solve_absolute_def select_diverges c1_def [symmetric] c2_def [symmetric])
qed

text \<open>A clock with three anchors, two of which it has heard measured, and a node that measures all three.\<close>

definition w_three :: relational_clock where
  "w_three = hear (w_edge (wn 2) (wn 3) (Fin 100) (Fin 1)) 5 (hear (w_edge (wn 2) (wn 4) (Fin 100) (Fin 1)) 5
     (hear_anchor (w_anchor 2) 4 (hear_anchor (w_anchor 3) 3 (hear_anchor (w_anchor 4) 3 (relational_clock_new (wn 1) track_config_default)))))"

theorem forged_utc_edge_diverges_witness:
  "solve_absolute (\<lambda>x. x) (\<lambda>x. x) (\<lambda>x. x) 10 (hear (utc_edge (wn 9) (Fin 6) (Fin 0)) 7 (hear (utc_edge (wn 0) (Fin 0) PInf) 7 w_three)) = None"
proof -
  note defs = w_three_def hear_def hear_anchor_def relational_clock_new_def w_anchor_def w_edge_def
  have k: "known_edges w_three = [w_edge (wn 2) (wn 3) (Fin 100) (Fin 1), w_edge (wn 2) (wn 4) (Fin 100) (Fin 1)]"
    "rc_me w_three = wn 1" "anchors w_three = [w_anchor 2, w_anchor 3, w_anchor 4]"
    by (simp_all add: defs known_edges_def rc_edges_def heard_edges_def anchors_def map_filter_simps Let_def)
  have u: "usable_anchors w_three = [w_anchor 2, w_anchor 3, w_anchor 4]" by (simp add: usable_anchors_def k) (simp add: w_anchor_def w_edge_def)
  have utc: "UTC = wn 255" by (simp add: UTC_def wn_def)
  have f: "is_f64 (Fin 6)" by simp
  have h: "bt_ok (rc_heard w_three)" "\<forall>(k, h) \<in> set (rc_heard w_three). k = (e_from (hd_edge h), e_to (hd_edge h))"
    by (simp_all add: defs bt_ok_def)
  show ?thesis by (rule forged_utc_edge_diverges) (use h f in \<open>simp_all add: u k edge_nodes_def w_edge_def w_anchor_def utc\<close>)
qed

end
