(* ===== verification/Gossip.thy ===== *)
theory Gossip
  imports RelClock
begin

text \<open>
  What the anchors of \<open>RelationalClock\<close> (\<open>rtfsn-core/src/sync/relational.rs\<close>) say once they have been passed around: a network of
  nodes, each with a clock of its own, that measure references, hand on anchors in messages which take any time to arrive, or are lost,
  repeated or overtaken, and forget. The nodes follow the code; what an impostor could claim is not the subject here.
\<close>

section \<open>A network of clocks\<close>

text \<open>
  The world has a time of its own, a number of nanoseconds that no node can read; \<open>clk i t\<close> is what the clock of node \<open>i\<close> shows at that
  time, and every operation gets the reading of its own node. A message in flight is its sender, the time it was sent, and an anchor.
  The world also keeps every exchange with a reference (by whom, with whom, when; also those the track did not accept, since they
  date an anchor too) and every delivery (from, to, reference, sent, received).
\<close>

type_synonym clocks = "node_id \<Rightarrow> nat \<Rightarrow> u64"
type_synonym exchange_log = "(node_id \<times> node_id \<times> nat) list"
type_synonym delivery_log = "(node_id \<times> node_id \<times> node_id \<times> nat \<times> nat) list"

record world =
  wd_nodes :: "node_id \<Rightarrow> relational_clock"
  wd_flight :: "(node_id \<times> nat \<times> anchor) list"
  wd_exchanges :: exchange_log
  wd_deliveries :: delivery_log
  wd_now :: nat

text \<open>Everything else a node does with its clock, at the reading \<open>now\<close>.\<close>

inductive local_step :: "u64 \<Rightarrow> relational_clock \<Rightarrow> relational_clock \<Rightarrow> bool" for now c where
  local_observe: "rc_observe peer ex c = Ret (c', ob) \<Longrightarrow> local_step now c c'"
| local_hear: "local_step now c (hear e now c)"
| local_forget: "local_step now c (forget peer c)"
| local_expire_anchors: "local_step now c (expire_anchors now age c)"
| local_expire: "local_step now c (rc_expire now age c)"

inductive net_reach :: "track_config \<Rightarrow> clocks \<Rightarrow> world \<Rightarrow> bool" for cfg clk where
  net_start: "net_reach cfg clk \<lparr>wd_nodes = (\<lambda>i. relational_clock_new i cfg), wd_flight = [], wd_exchanges = [], wd_deliveries = [], wd_now = 0\<rparr>"
| net_tick: "net_reach cfg clk w \<Longrightarrow> wd_now w \<le> t \<Longrightarrow> net_reach cfg clk (w\<lparr>wd_now := t\<rparr>)"
| net_measure: "net_reach cfg clk w \<Longrightarrow>
    observe_reference server ex rd str drift (clk i (wd_now w)) (wd_nodes w i) = Ret (c', ob) \<Longrightarrow>
    net_reach cfg clk (w\<lparr>wd_nodes := (wd_nodes w)(i := c'), wd_exchanges := (i, server, wd_now w) # wd_exchanges w\<rparr>)"
| net_send: "net_reach cfg clk w \<Longrightarrow> a \<in> set (gossip_anchors (clk i (wd_now w)) (wd_nodes w i)) \<Longrightarrow>
    net_reach cfg clk (w\<lparr>wd_flight := (i, wd_now w, a) # wd_flight w\<rparr>)"
| net_deliver: "net_reach cfg clk w \<Longrightarrow> (i, sent, a) \<in> set (wd_flight w) \<Longrightarrow>
    net_reach cfg clk (w\<lparr>wd_nodes := (wd_nodes w)(j := hear_anchor a (clk j (wd_now w)) (wd_nodes w j)),
      wd_deliveries := (i, j, an_node a, sent, wd_now w) # wd_deliveries w\<rparr>)"
| net_local: "net_reach cfg clk w \<Longrightarrow> local_step (clk i (wd_now w)) (wd_nodes w i) c' \<Longrightarrow>
    net_reach cfg clk (w\<lparr>wd_nodes := (wd_nodes w)(i := c')\<rparr>)"

text \<open>
  How a measurement of reference \<open>s\<close> reached a node: it was made at \<open>t0\<close>, the last delivery on its way arrived at \<open>r\<close>, and its deliveries
  took \<open>d\<close> nanoseconds altogether.
\<close>

inductive carried :: "exchange_log \<Rightarrow> delivery_log \<Rightarrow> node_id \<Rightarrow> node_id \<Rightarrow> nat \<Rightarrow> nat \<Rightarrow> nat \<Rightarrow> bool" for xs ds s where
  carried_measured: "(i, s, t0) \<in> set xs \<Longrightarrow> carried xs ds s i t0 t0 0"
| carried_passed: "carried xs ds s i r t0 d \<Longrightarrow> (i, j, s, sent, t) \<in> set ds \<Longrightarrow> r \<le> sent \<Longrightarrow> sent \<le> t \<Longrightarrow>
    carried xs ds s j t t0 (d + (t - sent))"

lemma carried_time: "carried xs ds s i r t0 d \<Longrightarrow> t0 + d \<le> r"
  by (induction rule: carried.induct) auto

lemma carried_mono: "carried xs ds s i r t0 d \<Longrightarrow> set xs \<subseteq> set xs' \<Longrightarrow> set ds \<subseteq> set ds' \<Longrightarrow> carried xs' ds' s i r t0 d"
  by (induction rule: carried.induct) (blast intro: carried.intros)+

section \<open>Clocks that run\<close>

text \<open>An interval of \<open>hold\<close> nanoseconds shown as \<open>age\<close> by clocks that are right to \<open>ppm\<close> parts per million.\<close>

definition aged :: "nat \<Rightarrow> nat \<Rightarrow> nat \<Rightarrow> bool" where
  "aged ppm age hold \<longleftrightarrow> (10 ^ 6 - ppm) * hold \<le> 10 ^ 6 * age \<and> 10 ^ 6 * age \<le> (10 ^ 6 + ppm) * hold"

text \<open>
  Up to the time \<open>T\<close> no clock goes back, each is right to \<open>ppm\<close> (whatever it shows: clocks need not agree), and each showed at least
  twice the time the world has run, as one counting from 1970 does, so no subtraction of an age is cut off at zero.
\<close>

definition clocks_ok :: "clocks \<Rightarrow> nat \<Rightarrow> nat \<Rightarrow> bool" where
  "clocks_ok clk ppm T \<longleftrightarrow> ppm \<le> 10 ^ 6 \<and>
     (\<forall>i b. b \<le> T \<longrightarrow> 2 * b \<le> unat (clk i b) \<and>
       (\<forall>a \<le> b. unat (clk i a) \<le> unat (clk i b) \<and> aged ppm (unat (clk i b) - unat (clk i a)) (b - a)))"

lemma clocks_ok_le: "clocks_ok clk ppm T \<Longrightarrow> T' \<le> T \<Longrightarrow> clocks_ok clk ppm T'"
  by (auto simp: clocks_ok_def)

lemma aged_add: "aged ppm a h \<Longrightarrow> aged ppm b k \<Longrightarrow> aged ppm (a + b) (h + k)"
  unfolding aged_def distrib_left by (blast intro: add_mono)

lemma aged_0: "aged ppm 0 0"
  by (simp add: aged_def)

text \<open>An age that was measured fits below every clock, so it is taken off whole.\<close>

lemma aged_le_clock:
  assumes "clocks_ok clk ppm T" "t \<le> T" "aged ppm age hold" "hold \<le> t"
  shows "age \<le> unat (clk i t)"
proof -
  have p: "ppm \<le> 10 ^ 6" "2 * t \<le> unat (clk i t)" using assms(1,2) by (auto simp: clocks_ok_def)
  have "10 ^ 6 * age \<le> (10 ^ 6 + ppm) * hold" using assms(3) by (simp add: aged_def)
  also have "\<dots> \<le> (10 ^ 6 + 10 ^ 6) * t" using p(1) assms(4) by (intro mult_mono) auto
  finally show ?thesis using p(2) by simp
qed

lemma unat_sub_sat: "unat (saturating_sub_u64 a b) = unat a - unat b"
  by (simp add: saturating_sub_u64_def word_le_nat_alt unat_sub word_less_nat_alt)

section \<open>What anchors remember\<close>

text \<open>
  A held anchor shows the age of its measurement on the holder's clock, less what it spent under way; so does an anchor in flight, as of
  its sending.
\<close>

definition dated :: "clocks \<Rightarrow> nat \<Rightarrow> exchange_log \<Rightarrow> delivery_log \<Rightarrow> nat \<Rightarrow> node_id \<Rightarrow> node_id \<Rightarrow> held_anchor \<Rightarrow> bool" where
  "dated clk ppm xs ds t i s h \<longleftrightarrow> an_node (ha_anchor h) = s \<and>
     (\<exists>r t0 d. carried xs ds s i r t0 d \<and> r \<le> t \<and> unat (ha_measured_ns h) \<le> unat (clk i r) \<and>
        aged ppm (unat (clk i r) - unat (ha_measured_ns h)) (r - (t0 + d)) \<and> (ha_own h \<longrightarrow> (i, s, t0) \<in> set xs \<and> d = 0))"

definition sent_dated :: "nat \<Rightarrow> exchange_log \<Rightarrow> delivery_log \<Rightarrow> nat \<Rightarrow> node_id \<Rightarrow> nat \<Rightarrow> anchor \<Rightarrow> bool" where
  "sent_dated ppm xs ds t i sent a \<longleftrightarrow> sent \<le> t \<and>
     (\<exists>r t0 d. carried xs ds (an_node a) i r t0 d \<and> r \<le> sent \<and> aged ppm (unat (an_age_ns a)) (sent - (t0 + d)))"

definition clock_dated :: "clocks \<Rightarrow> nat \<Rightarrow> exchange_log \<Rightarrow> delivery_log \<Rightarrow> nat \<Rightarrow> node_id \<Rightarrow> relational_clock \<Rightarrow> bool" where
  "clock_dated clk ppm xs ds t i c \<longleftrightarrow> bt_ok (rc_anchors c) \<and> (\<forall>s h. map_of (rc_anchors c) s = Some h \<longrightarrow> dated clk ppm xs ds t i s h)"

lemma dated_mono:
  "dated clk ppm xs ds t i s h \<Longrightarrow> set xs \<subseteq> set xs' \<Longrightarrow> set ds \<subseteq> set ds' \<Longrightarrow> t \<le> t' \<Longrightarrow> dated clk ppm xs' ds' t' i s h"
  unfolding dated_def
  by (elim conjE exE, intro conjI exI, assumption, erule (2) carried_mono) (auto intro: order_trans)

lemma sent_dated_mono:
  "sent_dated ppm xs ds t i sent a \<Longrightarrow> set xs \<subseteq> set xs' \<Longrightarrow> set ds \<subseteq> set ds' \<Longrightarrow> t \<le> t' \<Longrightarrow> sent_dated ppm xs' ds' t' i sent a"
  unfolding sent_dated_def by (meson carried_mono order_trans)

lemma clock_dated_mono:
  "clock_dated clk ppm xs ds t i c \<Longrightarrow> set xs \<subseteq> set xs' \<Longrightarrow> set ds \<subseteq> set ds' \<Longrightarrow> t \<le> t' \<Longrightarrow> clock_dated clk ppm xs' ds' t' i c"
  unfolding clock_dated_def by (blast intro: dated_mono)

lemma clock_dated_insert:
  "clock_dated clk ppm xs ds t i c \<Longrightarrow> dated clk ppm xs ds t i s h \<Longrightarrow> rc_anchors c' = bt_insert s h (rc_anchors c) \<Longrightarrow> clock_dated clk ppm xs ds t i c'"
  by (simp add: clock_dated_def bt.ok_insert bt.lookup_insert)

text \<open>The age an anchor shows at a later time: what it showed when it came, and how long it has been held since.\<close>

lemma dated_age:
  assumes "clocks_ok clk ppm t" "dated clk ppm xs ds t i s h"
  obtains r t0 d where "carried xs ds s i r t0 d" "r \<le> t" "an_node (ha_anchor h) = s" "ha_own h \<longrightarrow> (i, s, t0) \<in> set xs \<and> d = 0"
    "aged ppm (unat (clk i t) - unat (ha_measured_ns h)) (t - (t0 + d))"
proof -
  obtain r t0 d where r: "carried xs ds s i r t0 d" "r \<le> t" "unat (ha_measured_ns h) \<le> unat (clk i r)"
      "aged ppm (unat (clk i r) - unat (ha_measured_ns h)) (r - (t0 + d))" "an_node (ha_anchor h) = s" "ha_own h \<longrightarrow> (i, s, t0) \<in> set xs \<and> d = 0"
    using assms(2) by (auto simp: dated_def)
  have c: "unat (clk i r) \<le> unat (clk i t)" "aged ppm (unat (clk i t) - unat (clk i r)) (t - r)"
    using assms(1) r(2) by (auto simp: clocks_ok_def)
  have "unat (clk i t) - unat (ha_measured_ns h) = (unat (clk i r) - unat (ha_measured_ns h)) + (unat (clk i t) - unat (clk i r))"
    using c(1) r(3) by simp
  moreover have "t - (t0 + d) = (r - (t0 + d)) + (t - r)" using carried_time [OF r(1)] r(2) by simp
  ultimately have "aged ppm (unat (clk i t) - unat (ha_measured_ns h)) (t - (t0 + d))" using aged_add [OF r(4) c(2)] by simp
  then show ?thesis using that r by blast
qed

lemma gossip_dated:
  assumes "clocks_ok clk ppm t" "clock_dated clk ppm xs ds t i c" "a \<in> set (gossip_anchors (clk i t) c)"
  shows "sent_dated ppm xs ds t i t a"
proof -
  obtain s h where h: "map_of (rc_anchors c) s = Some h" "a = (ha_anchor h)\<lparr>an_age_ns := saturating_sub_u64 (clk i t) (ha_measured_ns h)\<rparr>"
    using assms(2,3) bt_ok_distinct [of "rc_anchors c"] by (auto simp: gossip_anchors_def clock_dated_def)
  then have "dated clk ppm xs ds t i s h" using assms(2) by (simp add: clock_dated_def)
  from dated_age [OF assms(1) this] obtain r t0 d where "carried xs ds s i r t0 d" "r \<le> t" "an_node (ha_anchor h) = s"
    "aged ppm (unat (clk i t) - unat (ha_measured_ns h)) (t - (t0 + d))" by blast
  then show ?thesis by (auto simp: sent_dated_def h(2) unat_sub_sat)
qed

lemma hear_dated:
  assumes clk: "clocks_ok clk ppm t" and c: "clock_dated clk ppm xs ds t j c" and a: "sent_dated ppm xs ds t i sent a"
    and d: "(i, j, an_node a, sent, t) \<in> set ds"
  shows "clock_dated clk ppm xs ds t j (hear_anchor a (clk j t) c)"
proof -
  obtain r t0 e where r: "carried xs ds (an_node a) i r t0 e" "r \<le> sent" "sent \<le> t" "aged ppm (unat (an_age_ns a)) (sent - (t0 + e))"
    using a by (auto simp: sent_dated_def)
  define m where "m = saturating_sub_u64 (clk j t) (an_age_ns a)"
  have "unat (an_age_ns a) \<le> unat (clk j t)" using r(3) by (intro aged_le_clock [OF clk _ r(4)]) auto
  then have m: "unat m \<le> unat (clk j t)" "unat (clk j t) - unat m = unat (an_age_ns a)" by (simp_all add: m_def unat_sub_sat)
  have "carried xs ds (an_node a) j t t0 (e + (t - sent))" by (rule carried_passed [OF r(1) d r(2,3)])
  moreover have "t - (t0 + (e + (t - sent))) = sent - (t0 + e)" using r(3) by simp
  ultimately have "dated clk ppm xs ds t j (an_node a) \<lparr>ha_anchor = a\<lparr>an_age_ns := 0\<rparr>, ha_measured_ns = m, ha_own = False\<rparr>"
    using m r(4) unfolding dated_def by (intro conjI exI [of _ t] exI [of _ t0] exI [of _ "e + (t - sent)"]) simp_all
  from clock_dated_insert [OF c this] show ?thesis using c by (simp add: hear_anchor_def m_def Let_def)
qed

lemma measure_dated:
  assumes "clock_dated clk ppm xs ds t i c" "observe_reference server ex rd str drift (clk i t) c = Ret (c', ob)"
  shows "clock_dated clk ppm ((i, server, t) # xs) ds t i c'"
proof -
  let ?xs = "(i, server, t) # xs"
  have c: "clock_dated clk ppm ?xs ds t i c" using assms(1) by (rule clock_dated_mono) auto
  have "dated clk ppm ?xs ds t i server (own_anchor server tr rd str drift (clk i t))" for tr
    unfolding dated_def by (intro conjI exI [of _ t] exI [of _ 0]) (auto simp: own_anchor_def aged_0 intro: carried_measured)
  from clock_dated_insert [OF c this] observe_reference_anchors [OF assms(2)] show ?thesis
    using c by (elim disjE exE) (simp add: clock_dated_def, blast)
qed

lemma local_dated:
  assumes "local_step now c c'" "clock_dated clk ppm xs ds t i c"
  shows "clock_dated clk ppm xs ds t i c'"
  using assms
proof (cases rule: local_step.cases)
  case (local_observe peer ex ob)
  then show ?thesis using assms(2) rc_observe_anchors by (simp add: clock_dated_def)
qed (auto simp: clock_dated_def hear_def forget_def expire_anchors_def rc_expire_def bt.ok_remove bt.lookup_remove bt.ok_retain bt.retain_Some_iff)

lemma net_dated:
  assumes "net_reach cfg clk w" "clocks_ok clk ppm (wd_now w)"
  shows "(\<forall>i. clock_dated clk ppm (wd_exchanges w) (wd_deliveries w) (wd_now w) i (wd_nodes w i)) \<and>
    (\<forall>(i, sent, a) \<in> set (wd_flight w). sent_dated ppm (wd_exchanges w) (wd_deliveries w) (wd_now w) i sent a)"
  using assms
proof (induction rule: net_reach.induct)
  case net_start
  show ?case by (simp add: clock_dated_def relational_clock_new_def bt.ok_empty)
next
  case (net_tick w t)
  then have "clocks_ok clk ppm (wd_now w)" using clocks_ok_le by simp
  from net_tick.IH [OF this] net_tick.hyps(2) show ?case
    by (auto intro: clock_dated_mono [OF _ subset_refl subset_refl] sent_dated_mono [OF _ subset_refl subset_refl])
next
  case (net_measure w server ex rd str drift i c' ob)
  have "clock_dated clk ppm ((i, server, wd_now w) # wd_exchanges w) (wd_deliveries w) (wd_now w) i c'"
    using net_measure.IH net_measure.prems net_measure.hyps(2) by (intro measure_dated [of clk]) simp_all
  then show ?case using net_measure.IH net_measure.prems
    by (auto intro: clock_dated_mono [OF _ set_subset_Cons subset_refl order_refl] sent_dated_mono [OF _ set_subset_Cons subset_refl order_refl])
next
  case (net_send w a i)
  have "sent_dated ppm (wd_exchanges w) (wd_deliveries w) (wd_now w) i (wd_now w) a"
    by (rule gossip_dated [of clk, OF net_send.prems [simplified] _ net_send.hyps(2)]) (use net_send.IH net_send.prems in simp)
  then show ?case using net_send.IH net_send.prems by auto
next
  case (net_deliver w i sent a j)
  let ?ds = "(i, j, an_node a, sent, wd_now w) # wd_deliveries w"
  have n: "clock_dated clk ppm (wd_exchanges w) ?ds (wd_now w) k (wd_nodes w k)" for k
    using net_deliver.IH net_deliver.prems by (auto intro: clock_dated_mono [OF _ subset_refl set_subset_Cons order_refl])
  have f: "\<forall>(i, sent, a) \<in> set (wd_flight w). sent_dated ppm (wd_exchanges w) ?ds (wd_now w) i sent a"
    using net_deliver.IH net_deliver.prems by (auto intro: sent_dated_mono [OF _ subset_refl set_subset_Cons order_refl])
  then have "sent_dated ppm (wd_exchanges w) ?ds (wd_now w) i sent a" using net_deliver.hyps(2) by blast
  from hear_dated [OF _ n this] net_deliver.prems show ?case using n f by simp
next
  case (net_local w i c')
  have "clock_dated clk ppm (wd_exchanges w) (wd_deliveries w) (wd_now w) i c'"
    using net_local.IH net_local.prems by (intro local_dated [OF net_local.hyps(2)]) simp
  then show ?case using net_local.IH net_local.prems by auto
qed

section \<open>Properties\<close>

text \<open>
  (C12) Passing an anchor on ages it, except while it is under way. In a network of nodes whose clocks need not agree but run right to
  \<open>ppm\<close>, with messages that take any time, are lost, repeated or overtaken, every anchor a node holds goes back to an exchange some node
  had with that reference (for an anchor of its own, the holder), and the age it shows is the true age of that exchange less the time
  its deliveries took, right to \<open>ppm\<close>, however many hops there were; so once anchors older than \<open>age\<close> are expired, what is held was
  measured at most \<open>age\<close> and that time ago. The time under way is not counted: that is what the code does.
\<close>

theorem anchor_age_truthful:
  assumes "net_reach cfg clk w" "clocks_ok clk ppm (wd_now w)"
    and "map_of (rc_anchors (expire_anchors (clk i (wd_now w)) age (wd_nodes w i))) s = Some h"
  shows "\<exists>r t0 d. carried (wd_exchanges w) (wd_deliveries w) s i r t0 d \<and> r \<le> wd_now w \<and>
    (ha_own h \<longrightarrow> (i, s, t0) \<in> set (wd_exchanges w) \<and> d = 0) \<and>
    aged ppm (unat (clk i (wd_now w)) - unat (ha_measured_ns h)) (wd_now w - (t0 + d)) \<and>
    (10 ^ 6 - ppm) * (wd_now w - (t0 + d)) \<le> 10 ^ 6 * unat age"
proof -
  have c: "clock_dated clk ppm (wd_exchanges w) (wd_deliveries w) (wd_now w) i (wd_nodes w i)" using net_dated [OF assms(1,2)] by blast
  then have h: "map_of (rc_anchors (wd_nodes w i)) s = Some h" "saturating_sub_u64 (clk i (wd_now w)) (ha_measured_ns h) \<le> age"
    using assms(3) by (simp_all add: expire_anchors_def bt.retain_Some_iff clock_dated_def)
  then have limit: "unat (clk i (wd_now w)) - unat (ha_measured_ns h) \<le> unat age" by (simp add: word_le_nat_alt unat_sub_sat)
  have "dated clk ppm (wd_exchanges w) (wd_deliveries w) (wd_now w) i s h" using c h(1) by (simp add: clock_dated_def)
  from dated_age [OF assms(2) this] obtain r t0 d where r: "carried (wd_exchanges w) (wd_deliveries w) s i r t0 d" "r \<le> wd_now w"
    "ha_own h \<longrightarrow> (i, s, t0) \<in> set (wd_exchanges w) \<and> d = 0"
    "aged ppm (unat (clk i (wd_now w)) - unat (ha_measured_ns h)) (wd_now w - (t0 + d))" by metis
  have "10 ^ 6 * (unat (clk i (wd_now w)) - unat (ha_measured_ns h)) \<le> 10 ^ 6 * unat age" by (rule mult_le_mono2 [OF limit])
  then have "(10 ^ 6 - ppm) * (wd_now w - (t0 + d)) \<le> 10 ^ 6 * unat age"
    using r(4) unfolding aged_def by (blast intro: order_trans)
  then show ?thesis using r by blast
qed

text \<open>
  Node 1 measures the reference at 1000 and sends the anchor at 1200; node 2, whose clock is two seconds ahead, hears it at 1700. At 1900
  the exchange is 900 old and the anchor shows 400.
\<close>

definition w_clocks :: clocks where "w_clocks i t = of_nat (t + (if i = wn 2 then 2000005000 else 5000))"

lemma w_clocks_ok: "t \<le> 2000 \<Longrightarrow> clocks_ok w_clocks 0 t"
proof -
  assume t: "t \<le> 2000"
  have "unat (w_clocks i b) = b + (if i = wn 2 then 2000005000 else 5000)" if "b \<le> 2000" for i b
    unfolding w_clocks_def using that by (intro unat_of_nat_u64) auto
  then show ?thesis using t by (simp add: clocks_ok_def aged_def)
qed

theorem anchor_age_truthful_witness:
  "\<exists>w h r t0 d. net_reach track_config_default w_clocks w \<and> wd_now w = 1900 \<and>
     map_of (rc_anchors (expire_anchors (w_clocks (wn 2) 1900) 400 (wd_nodes w (wn 2)))) (wn 9) = Some h \<and>
     w_clocks (wn 2) 1900 - ha_measured_ns h = 400 \<and> wd_exchanges w = [(wn 1, wn 9, 1000)] \<and>
     carried (wd_exchanges w) (wd_deliveries w) (wn 9) (wn 2) r t0 d \<and> 1900 - (t0 + d) \<le> 400"
proof -
  let ?cfg = track_config_default and ?new = "\<lambda>i. relational_clock_new i track_config_default"
  obtain c' ob h where m: "observe_reference (wn 9) (100, 160, 170, 200) (Fin 0) 1 (Fin 0) 6000 (?new (wn 1)) = Ret (c', ob)"
    "rc_anchors c' = [(wn 9, h)]" "an_node (ha_anchor h) = wn 9" "ha_measured_ns h = 6000" using w_measure [of 6000 "wn 1"] by blast
  define a where "a = (ha_anchor h)\<lparr>an_age_ns := 200\<rparr>"
  define c2 where "c2 = hear_anchor a 2000006700 (?new (wn 2))"
  define w where "w = \<lparr>wd_nodes = (?new(wn 1 := c'))(wn 2 := c2), wd_flight = [(wn 1, 1200, a)], wd_exchanges = [(wn 1, wn 9, 1000)],
    wd_deliveries = [(wn 1, wn 2, wn 9, 1200, 1700)], wd_now = 1900\<rparr>"
  have "net_reach ?cfg w_clocks \<lparr>wd_nodes = ?new, wd_flight = [], wd_exchanges = [], wd_deliveries = [], wd_now = 1000\<rparr>"
    using net_tick [OF net_start [of ?cfg w_clocks], of 1000] by simp
  from net_measure [OF this, of "wn 9" "(100, 160, 170, 200)" "Fin 0" 1 "Fin 0" "wn 1" c' ob] m(1)
  have "net_reach ?cfg w_clocks \<lparr>wd_nodes = ?new(wn 1 := c'), wd_flight = [], wd_exchanges = [(wn 1, wn 9, 1000)], wd_deliveries = [], wd_now = 1000\<rparr>"
    by (simp add: w_clocks_def)
  from net_tick [OF this, of 1200]
  have "net_reach ?cfg w_clocks \<lparr>wd_nodes = ?new(wn 1 := c'), wd_flight = [], wd_exchanges = [(wn 1, wn 9, 1000)], wd_deliveries = [], wd_now = 1200\<rparr>"
    by simp
  from net_send [OF this, of a "wn 1"]
  have "net_reach ?cfg w_clocks \<lparr>wd_nodes = ?new(wn 1 := c'), wd_flight = [(wn 1, 1200, a)], wd_exchanges = [(wn 1, wn 9, 1000)],
      wd_deliveries = [], wd_now = 1200\<rparr>"
    by (simp add: gossip_anchors_def m a_def w_clocks_def saturating_sub_u64_def)
  from net_tick [OF this, of 1700]
  have "net_reach ?cfg w_clocks \<lparr>wd_nodes = ?new(wn 1 := c'), wd_flight = [(wn 1, 1200, a)], wd_exchanges = [(wn 1, wn 9, 1000)],
      wd_deliveries = [], wd_now = 1700\<rparr>" by simp
  from net_deliver [OF this, of "wn 1" 1200 a "wn 2"]
  have "net_reach ?cfg w_clocks (w\<lparr>wd_now := 1700\<rparr>)" by (simp add: w_def c2_def a_def m(3) w_clocks_def)
  from net_tick [OF this, of 1900] have reach: "net_reach ?cfg w_clocks w" by (simp add: w_def)
  define g where "g = \<lparr>ha_anchor = a\<lparr>an_age_ns := 0\<rparr>, ha_measured_ns = 2000006500, ha_own = False\<rparr>"
  have "map_of (rc_anchors (expire_anchors (w_clocks (wn 2) 1900) 400 (wd_nodes w (wn 2)))) (wn 9) = Some g"
    by (simp add: g_def w_def c2_def hear_anchor_def relational_clock_new_def a_def m(3) expire_anchors_def hm_retain_def saturating_sub_u64_def
        w_clocks_def)
  moreover from anchor_age_truthful [OF reach w_clocks_ok, of "wn 2" 400 "wn 9" g] this
  obtain r t0 d where "carried (wd_exchanges w) (wd_deliveries w) (wn 9) (wn 2) r t0 d" "1900 - (t0 + d) \<le> 400"
    by (auto simp: w_def)
  ultimately show ?thesis using reach
    by (intro exI [of _ w] exI [of _ g] exI [of _ r] exI [of _ t0] exI [of _ d]) (simp add: w_def g_def w_clocks_def)
qed

end
