(* ===== verification/Dht.thy ===== *)
theory Dht
  imports Routing Storage Twist
begin

text \<open>
  What the containers of the program promise, as refinements of abstract specifications: a routing table against numbers (the distance of
  two identifiers is the exclusive or of two 256-bit numbers), a bounded store against a partial map that may forget its oldest
  entry when it is full, the edge table against a log of measurements for each edge.
\<close>

unbundle bit_operations_syntax

section \<open>Distances as numbers\<close>

lemma nat_bit_above: "(y :: nat) < 2 ^ k \<Longrightarrow> k \<le> n \<Longrightarrow> \<not> bit y n"
proof -
  assume "y < 2 ^ k" "k \<le> n"
  then have "y < 2 ^ n" by (meson less_le_trans one_le_numeral power_increasing)
  then show ?thesis by (simp add: bit_iff_odd)
qed

lemma xor_split:
  fixes a b c d k :: nat
  assumes "b < 2 ^ k" "d < 2 ^ k"
  shows "(a * 2 ^ k + b) XOR (c * 2 ^ k + d) = (a XOR c) * 2 ^ k + (b XOR d)"
proof -
  have or: "x * 2 ^ k + y = (push_bit k x OR y :: nat)" if "y < 2 ^ k" for x y
  proof -
    have "push_bit k x AND y = 0"
    proof (rule bit_eqI)
      fix n
      show "bit (push_bit k x AND y) n \<longleftrightarrow> bit (0 :: nat) n"
        using nat_bit_above [OF that, of n] by (cases "k \<le> n") (simp_all add: bit_and_iff bit_push_bit_iff)
    qed
    then show ?thesis by (simp add: disjunctive_add_eq_or push_bit_eq_mult)
  qed
  have x: "b XOR d < 2 ^ k" using assms by (metis take_bit_nat_eq_self_iff take_bit_xor)
  have "(push_bit k a OR b) XOR (push_bit k c OR d) = push_bit k (a XOR c) OR (b XOR d)"
  proof (rule bit_eqI)
    fix n
    show "bit ((push_bit k a OR b) XOR (push_bit k c OR d)) n \<longleftrightarrow> bit (push_bit k (a XOR c) OR (b XOR d)) n"
      by (cases "k \<le> n") (simp_all add: bit_xor_iff bit_or_iff bit_push_bit_iff nat_bit_above [OF assms(1)] nat_bit_above [OF assms(2)])
  qed
  then show ?thesis by (simp only: or [OF assms(1)] or [OF assms(2)] or [OF x])
qed

lemma be_val_xor: "length a = length b \<Longrightarrow> be_val (map2 (XOR) a b) = be_val a XOR be_val b"
proof (induction a b rule: list_induct2)
  case (Cons x a y b)
  have p: "(256 :: nat) ^ length b = 2 ^ (8 * length b)" by (simp add: power_mult)
  have "be_val a < 2 ^ (8 * length b)" "be_val b < 2 ^ (8 * length b)"
    using be_val_bound [of a] be_val_bound [of b] Cons.hyps by (simp_all add: p)
  from xor_split [OF this] show ?case using Cons by (simp add: p unsigned_xor_eq)
qed simp

lemma xor_distance_map2: "length a = 32 \<Longrightarrow> length b = 32 \<Longrightarrow> xor_distance a b = map2 (XOR) a b"
  by (simp add: xor_distance_def list_eq_iff_nth_eq)

lemma high_bit:
  assumes "x \<noteq> 0" "x < 2 ^ k"
  shows "let z = length (takeWhile (\<lambda>i. \<not> bit x i) (rev [0..<k])) in z < k \<and> 2 ^ (k - 1 - z) \<le> x \<and> x < (2 :: nat) ^ (k - z)"
  using assms(2)
proof (induction k)
  case 0
  then show ?case using assms(1) by simp
next
  case (Suc k)
  show ?case
  proof (cases "bit x k")
    case True
    then have "2 ^ k \<le> x" by (metis leI nat_bit_above order_refl)
    then show ?thesis using True Suc.prems by simp
  next
    case False
    have "x div 2 ^ k < 2" using Suc.prems by (simp add: less_mult_imp_div_less)
    then have "x div 2 ^ k = 0 \<or> x div 2 ^ k = 1" by linarith
    then have "x div 2 ^ k = 0" using False unfolding bit_iff_odd by auto
    then have "x < 2 ^ k" by (simp add: div_eq_0_iff)
    from Suc.IH [OF this] show ?thesis using False by (simp add: Let_def)
  qed
qed

lemma u8_log:
  assumes "b \<noteq> 0"
  shows "u8_leading_zeros b < 8 \<and> 2 ^ (7 - u8_leading_zeros b) \<le> unat b \<and> unat b < 2 ^ (8 - u8_leading_zeros b)"
proof -
  have "rev [0..<8] = [7, 6, 5, 4, 3, 2, 1, 0 :: nat]" by (simp add: upt_rec)
  moreover have "unat b \<noteq> 0" "unat b < 2 ^ 8" using assms unsigned_less [of b] by (simp_all add: unat_eq_0)
  ultimately show ?thesis using high_bit [of "unat b" 8] by (simp add: u8_leading_zeros_def Let_def bit_unsigned_iff)
qed

lemma leading_zeros_log:
  assumes "be_val bs \<noteq> 0"
  shows "leading_zeros bs < 8 * length bs \<and> 2 ^ (8 * length bs - 1 - leading_zeros bs) \<le> be_val bs \<and>
    be_val bs < 2 ^ (8 * length bs - leading_zeros bs)"
  using assms
proof (induction bs)
  case (Cons b bs)
  have p: "(256 :: nat) ^ length bs = 2 ^ (8 * length bs)" by (simp add: power_mult)
  show ?case
  proof (cases "b = 0")
    case True
    then show ?thesis using Cons by simp
  next
    case False
    let ?z = "u8_leading_zeros b" and ?k = "8 * length bs"
    note b = u8_log [OF False]
    have e: "8 * length (b # bs) - 1 - ?z = (7 - ?z) + ?k" "8 * length (b # bs) - ?z = (8 - ?z) + ?k" using b by auto
    have "2 ^ (7 - ?z) * 2 ^ ?k \<le> unat b * 2 ^ ?k" using b by (intro mult_right_mono) auto
    moreover have "Suc (unat b) * 2 ^ ?k \<le> 2 ^ (8 - ?z) * 2 ^ ?k" using b by (intro mult_right_mono) auto
    moreover have "be_val bs < 2 ^ ?k" using be_val_bound [of bs] by (simp add: p)
    ultimately have "2 ^ (7 - ?z) * 2 ^ ?k \<le> unat b * 2 ^ ?k + be_val bs \<and> unat b * 2 ^ ?k + be_val bs < 2 ^ (8 - ?z) * 2 ^ ?k"
      by (intro conjI) (linarith, simp)
    moreover have "leading_zeros (b # bs) = ?z" "be_val (b # bs) = unat b * 2 ^ ?k + be_val bs" using False by (simp_all add: p)
    ultimately show ?thesis using b unfolding e power_add by (simp only: e power_add) simp
  qed
qed simp

lemma be_val_less: "length a = length b \<Longrightarrow> a < b \<longleftrightarrow> be_val a < be_val b"
proof (induction a b rule: list_induct2)
  case (Cons x a y b)
  have ab: "be_val a < 256 ^ length a" "be_val b < 256 ^ length a" using be_val_bound [of a] be_val_bound [of b] Cons.hyps by simp_all
  have lt: "unat u * 256 ^ length a + be_val c < unat v * 256 ^ length a + be_val d"
    if "u < v" "be_val c < 256 ^ length a" for u v :: u8 and c d
  proof -
    have "Suc (unat u) * 256 ^ length a \<le> unat v * 256 ^ length a" using that(1) by (intro mult_right_mono) (auto simp: word_less_nat_alt)
    then show ?thesis using that(2) by simp
  qed
  show ?case
  proof (cases x y rule: linorder_cases)
    case less
    then show ?thesis using lt [OF less ab(1), of b] Cons.hyps by simp
  next
    case equal
    then show ?thesis using Cons by simp
  next
    case greater
    then show ?thesis using lt [OF greater ab(2), of a] Cons.hyps by (auto simp: less_le_not_le)
  qed
qed simp

text \<open>The distance of two identifiers as Kademlia defines it.\<close>

definition kad_distance :: "node_id \<Rightarrow> node_id \<Rightarrow> nat" where
  "kad_distance a b = be_val (id_bytes a) XOR be_val (id_bytes b)"

lemma kad_distance_bytes:
  "length (id_bytes a) = 32 \<Longrightarrow> length (id_bytes b) = 32 \<Longrightarrow> be_val (xor_distance (id_bytes a) (id_bytes b)) = kad_distance a b"
  by (simp add: xor_distance_map2 be_val_xor kad_distance_def)

lemma xor_distance_le:
  "length (id_bytes a) = 32 \<Longrightarrow> length (id_bytes b) = 32 \<Longrightarrow> length (id_bytes t) = 32 \<Longrightarrow>
   xor_distance (id_bytes a) (id_bytes t) \<le> xor_distance (id_bytes b) (id_bytes t) \<longleftrightarrow> kad_distance a t \<le> kad_distance b t"
  using be_val_less [of "xor_distance (id_bytes b) (id_bytes t)" "xor_distance (id_bytes a) (id_bytes t)"]
  by (simp add: kad_distance_bytes linorder_not_less [symmetric]) (simp add: xor_distance_def)

lemma sort_key_order:
  "(\<And>x y. x \<in> set xs \<Longrightarrow> y \<in> set xs \<Longrightarrow> f x \<le> f y \<longleftrightarrow> g x \<le> g y) \<Longrightarrow> sort_key f xs = sort_key g xs"
proof (induction xs)
  case (Cons x xs)
  have "insort_key f x ys = insort_key g x ys" if "set ys \<subseteq> set xs" for ys
    using that Cons.prems by (induction ys) auto
  then show ?case using Cons by simp
qed simp

section \<open>The routing table\<close>

lemma rt_run_nodes: "n \<in> set (all_nodes (rt_run local ops)) \<Longrightarrow> RtInsert n \<in> set ops"
proof (induction ops rule: rev_induct)
  case Nil
  then show ?case by (simp add: rt_run_def all_nodes_def routing_new_def)
next
  case (snoc a ops)
  let ?t = "rt_run local ops"
  have run: "rt_run local (ops @ [a]) = rt_apply ?t a" by (simp add: rt_run_def)
  have "n \<in> set (all_nodes ?t) \<or> a = RtInsert n"
  proof (cases a)
    case (RtInsert m)
    then show ?thesis using snoc.prems [unfolded run] routing_insert_nodes [of ?t m] rt_run_ok [of local ops] by (auto split: if_splits)
  qed (use snoc.prems [unfolded run] in \<open>auto simp: routing_remove_nodes\<close>)
  then show ?case using snoc.IH by auto
qed

lemma bucket_index_log:
  assumes "length (id_bytes a) = 32" "length (id_bytes b) = 32" "a \<noteq> b"
  shows "2 ^ bucket_index (id_bytes a) (id_bytes b) \<le> kad_distance a b \<and> kad_distance a b < 2 ^ (bucket_index (id_bytes a) (id_bytes b) + 1)"
proof -
  have ne: "id_bytes a \<noteq> id_bytes b" using assms(3) by (cases a; cases b) simp
  have "be_val (id_bytes a) \<noteq> be_val (id_bytes b)"
    using be_val_less [of "id_bytes a" "id_bytes b"] be_val_less [of "id_bytes b" "id_bytes a"] assms ne by (metis linorder_neqE less_irrefl)
  moreover have "x = y" if "x XOR y = (0 :: nat)" for x y using that by (metis xor.assoc xor.left_neutral xor.right_neutral xor_self_eq)
  ultimately have "kad_distance a b \<noteq> 0" unfolding kad_distance_def by blast
  moreover have len: "length (xor_distance (id_bytes a) (id_bytes b)) = 32" by (simp add: xor_distance_def)
  ultimately have z: "leading_zeros (xor_distance (id_bytes a) (id_bytes b)) < 256"
    "2 ^ (255 - leading_zeros (xor_distance (id_bytes a) (id_bytes b))) \<le> kad_distance a b"
    "kad_distance a b < 2 ^ (256 - leading_zeros (xor_distance (id_bytes a) (id_bytes b)))"
    using leading_zeros_log [of "xor_distance (id_bytes a) (id_bytes b)"] kad_distance_bytes [OF assms(1,2)] by simp_all
  then have "bucket_index (id_bytes a) (id_bytes b) = 255 - leading_zeros (xor_distance (id_bytes a) (id_bytes b))"
    by (simp add: bucket_index_def KEY_BITS_def Let_def)
  moreover have "256 - l = 255 - l + 1" if "l < 256" for l :: nat using that by simp
  ultimately show ?thesis using z by metis
qed

text \<open>
  (C23) The byte-wise table computes Kademlia's numbers. Read the 32-byte identifiers as numbers. After any inserts and
  removals, bucket \<open>i\<close> holds only nodes whose distance (the exclusive or with the node's own number) is from \<open>2^i\<close>
  to \<open>2^(i+1) - 1\<close>, and a lookup is the reference one: all known nodes sorted by their distance to the target, and the first of
  them.
\<close>

theorem routing_reference:
  assumes "length (id_bytes me) = 32" "length (id_bytes target) = 32" "\<forall>n. RtInsert n \<in> set ops \<longrightarrow> length (id_bytes n) = 32"
  shows "let t = rt_run (id_bytes me) ops in
    (\<forall>i < 256. \<forall>n \<in> set (buckets t ! i). 2 ^ i \<le> kad_distance me n \<and> kad_distance me n < 2 ^ (i + 1)) \<and>
    find_closest t (id_bytes target) k = take k (sort_key (\<lambda>n. kad_distance n target) (all_nodes t))"
proof -
  let ?t = "rt_run (id_bytes me) ops"
  have ok: "routing_ok ?t" "local_id ?t = id_bytes me" using rt_run_ok [of "id_bytes me" ops] by auto
  have len: "length (id_bytes n) = 32" if "n \<in> set (all_nodes ?t)" for n using rt_run_nodes [OF that] assms(3) by simp
  have "2 ^ i \<le> kad_distance me n \<and> kad_distance me n < 2 ^ (i + 1)" if i: "i < 256" and n: "n \<in> set (buckets ?t ! i)" for i n
  proof -
    have b: "id_bytes n \<noteq> id_bytes me" "bucket_index (id_bytes me) (id_bytes n) = i"
      using ok i n by (auto simp: routing_ok_def bucket_ok_def KEY_BITS_def)
    have "n \<in> set (all_nodes ?t)" using ok(1) i n by (auto simp: set_all_nodes routing_ok_def KEY_BITS_def)
    from bucket_index_log [OF assms(1) len [OF this]] b show ?thesis by auto
  qed
  moreover have "find_closest ?t (id_bytes target) k = take k (sort_key (\<lambda>n. kad_distance n target) (all_nodes ?t))"
  proof -
    let ?d = "\<lambda>n. xor_distance (id_bytes n) (id_bytes target)"
    have pair: "map fst (sort_key snd (map (\<lambda>n. (n, ?d n)) xs)) = sort_key ?d xs" for xs
    proof -
      have "insort_key snd (x, ?d x) (map (\<lambda>n. (n, ?d n)) ys) = map (\<lambda>n. (n, ?d n)) (insort_key ?d x ys)" for x ys
        by (induction ys) auto
      then have "sort_key snd (map (\<lambda>n. (n, ?d n)) xs) = map (\<lambda>n. (n, ?d n)) (sort_key ?d xs)" by (induction xs) simp_all
      then show ?thesis by (simp add: comp_def)
    qed
    have "sort_key ?d (all_nodes ?t) = sort_key (\<lambda>n. kad_distance n target) (all_nodes ?t)"
      by (rule sort_key_order) (simp add: xor_distance_le len assms(2))
    then show ?thesis by (simp add: find_closest_def all_nodes_def [symmetric] take_map [symmetric] pair)
  qed
  ultimately show ?thesis by (simp add: Let_def)
qed

theorem routing_reference_witness:
  "let t = rt_run (replicate 32 0) [RtInsert (w_peer 5), RtInsert (w_peer 2)] in
     find_closest t (replicate 32 0) 1 = take 1 (sort_key (\<lambda>n. kad_distance n (NodeId (replicate 32 0))) (all_nodes t)) \<and>
     (\<forall>n \<in> set (buckets t ! 249). 2 ^ 249 \<le> kad_distance (NodeId (replicate 32 0)) n)"
proof -
  let ?ops = "[RtInsert (w_peer 5), RtInsert (w_peer 2)]"
  let ?t = "rt_run (replicate 32 0) ?ops"
  have "\<forall>n. RtInsert n \<in> set ?ops \<longrightarrow> length (id_bytes n) = 32" by (auto simp: w_peer_def)
  note r = routing_reference [of "NodeId (replicate 32 0)" "NodeId (replicate 32 0)", OF _ _ this, of 1, unfolded Let_def node_id.sel length_replicate, OF refl refl]
  have "(249 :: nat) < 256" by simp
  with r show ?thesis unfolding Let_def by blast
qed

section \<open>Refinement\<close>

text \<open>What an abstract machine can do with a list of operations.\<close>

inductive spec_run :: "('m \<Rightarrow> 'a \<Rightarrow> 'm \<Rightarrow> bool) \<Rightarrow> 'm \<Rightarrow> 'a list \<Rightarrow> 'm \<Rightarrow> bool" for spec where
  spec_nil: "spec_run spec m [] m"
| spec_cons: "spec m a m' \<Longrightarrow> spec_run spec m' as m'' \<Longrightarrow> spec_run spec m (a # as) m''"

inductive_cases spec_run_consE: "spec_run spec m (a # as) m'"

text \<open>A component whose every operation, seen through an abstraction, is a step of the specification.\<close>

locale refines = kept step inv for step :: "'s \<Rightarrow> 'a \<Rightarrow> 's" and inv :: "'s \<Rightarrow> bool" +
  fixes abs_of :: "'s \<Rightarrow> 'm" and spec :: "'m \<Rightarrow> 'a \<Rightarrow> 'm \<Rightarrow> bool"
  assumes simulates: "inv s \<Longrightarrow> spec (abs_of s) a (abs_of (step s a))"
begin

lemma run_refines: "inv s \<Longrightarrow> spec_run spec (abs_of s) as (abs_of (foldl step s as))"
  by (induction as arbitrary: s) (auto intro: spec_nil spec_cons simulates keeps)

end

subsection \<open>The bounded store\<close>

text \<open>
  A store of capacity \<open>n\<close> is a partial map. A put into a full store under a new key first forgets an entry, one no newer than
  any other, if there is one; nothing else is ever forgotten.
\<close>

inductive store_spec :: "nat \<Rightarrow> (bytes \<rightharpoonup> stored_value) \<Rightarrow> storage_op \<Rightarrow> (bytes \<rightharpoonup> stored_value) \<Rightarrow> bool" for n where
  put_room: "k \<in> dom m \<or> card (dom m) < n \<or> m = Map.empty \<Longrightarrow> store_spec n m (StPut k v) (m(k \<mapsto> v))"
| put_full: "k \<notin> dom m \<Longrightarrow> n \<le> card (dom m) \<Longrightarrow> m j = Some w \<Longrightarrow> \<forall>i u. m i = Some u \<longrightarrow> sv_timestamp w \<le> sv_timestamp u \<Longrightarrow>
    store_spec n m (StPut k v) (m(j := None, k \<mapsto> v))"
| remove: "store_spec n m (StRemove k) (m(k := None))"
| expire: "store_spec n m (StExpire e) (\<lambda>k. case m k of None \<Rightarrow> None | Some v \<Rightarrow> if live e v then Some v else None)"

inductive_simps store_spec_put: "store_spec n m (StPut k v) m'"
inductive_simps store_spec_remove: "store_spec n m (StRemove k) m'"
inductive_simps store_spec_expire: "store_spec n m (StExpire e) m'"

lemma storage_get_map: "storage_get s = map_of (store s)"
  by (rule ext) (simp add: storage_get_def)

lemma card_dom_store: "storage_ok s \<Longrightarrow> card (dom (storage_get s)) = storage_len s"
proof -
  assume "storage_ok s"
  then have "distinct (map fst (store s))" by (simp add: storage_ok_def hm_ok_def)
  moreover have "dom (storage_get s) = fst ` set (store s)" by (simp add: storage_get_map dom_map_of_conv_image_fst)
  ultimately show ?thesis by (metis distinct_card length_map list.set_map storage_len_def)
qed

lemma storage_simulates:
  assumes "storage_ok s \<and> max_entries s = n"
  shows "store_spec n (storage_get s) a (storage_get (st_apply s a))"
proof (cases a)
  case (StPut k v)
  show ?thesis
  proof (cases "length (store s) \<ge> max_entries s \<and> hm_get (store s) k = None \<and> store s \<noteq> []")
    case True
    then obtain j w where j: "min_by_key (\<lambda>(k, v). sv_timestamp v) (store s) = Some (j, w)"
      by (metis min_by_key_None not_Some_eq surj_pair)
    have dist: "distinct (map fst (store s))" using assms by (simp add: storage_ok_def hm_ok_def)
    have min: "storage_get s j = Some w" "\<forall>i u. storage_get s i = Some u \<longrightarrow> sv_timestamp w \<le> sv_timestamp u"
      using min_by_key_Some [OF j] dist by (auto simp: storage_get_def dest: map_of_SomeD)
    have "storage_get (fst (storage_put s k v)) = (storage_get s)(j := None, k \<mapsto> v)"
      using True j by (auto simp: storage_put_def storage_get_def evict_oldest_def update_conv' delete_conv' Let_def)
    moreover have "k \<notin> dom (storage_get s)" using True by (auto simp: storage_get_def)
    moreover have "n \<le> card (dom (storage_get s))" using True assms by (simp add: card_dom_store storage_len_def)
    ultimately show ?thesis using put_full [of k "storage_get s" n j w v] min StPut by simp
  next
    case False
    then have "storage_get (fst (storage_put s k v)) = (storage_get s)(k \<mapsto> v)"
      by (auto simp: storage_put_def storage_get_def evict_oldest_def update_conv' Let_def)
    moreover have "k \<in> dom (storage_get s) \<or> card (dom (storage_get s)) < n \<or> storage_get s = Map.empty"
      using False assms by (auto simp: card_dom_store storage_len_def) (auto simp: storage_get_def)
    ultimately show ?thesis using put_room [of k "storage_get s" n v] StPut by simp
  qed
next
  case (StRemove k)
  then show ?thesis by (simp add: store_spec_remove storage_remove_def storage_get_map delete_conv')
next
  case (StExpire e)
  have "storage_get (storage_expire s e) = (\<lambda>k. case storage_get s k of None \<Rightarrow> None | Some v \<Rightarrow> if live e v then Some v else None)"
  proof (rule ext)
    fix k
    show "storage_get (storage_expire s e) k = (case storage_get s k of None \<Rightarrow> None | Some v \<Rightarrow> if live e v then Some v else None)"
    proof (cases "storage_get s k")
      case None
      then have "storage_get (storage_expire s e) k \<noteq> Some v" for v using storage_get_expire [of s e k v] assms by simp
      then show ?thesis using None by (cases "storage_get (storage_expire s e) k") auto
    next
      case (Some v)
      then have "storage_get (storage_expire s e) k = Some u \<longleftrightarrow> u = v \<and> live e v" for u
        using storage_get_expire [of s e k u] assms by auto
      then show ?thesis using Some by (cases "storage_get (storage_expire s e) k") auto
    qed
  qed
  then show ?thesis using StExpire by (simp add: store_spec_expire)
qed

interpretation store_map: refines st_apply "\<lambda>s. storage_ok s \<and> max_entries s = n" storage_get "store_spec n" for n
  by unfold_locales (rule storage_simulates)

text \<open>Where the specification never finds the store full, it is a plain map.\<close>

fun plain :: "(bytes \<rightharpoonup> stored_value) \<Rightarrow> storage_op \<Rightarrow> (bytes \<rightharpoonup> stored_value)" where
  "plain m (StPut k v) = m(k \<mapsto> v)"
| "plain m (StRemove k) = m(k := None)"
| "plain m (StExpire e) = (\<lambda>k. case m k of None \<Rightarrow> None | Some v \<Rightarrow> if live e v then Some v else None)"

lemma spec_plain:
  assumes "spec_run (store_spec n) m ops m'" "\<forall>i \<le> length ops. card (dom (foldl plain m (take i ops))) \<le> n"
    "\<forall>i \<le> length ops. finite (dom (foldl plain m (take i ops)))"
  shows "m' = foldl plain m ops"
  using assms
proof (induction rule: spec_run.induct)
  case (spec_cons m a m1 as m2)
  have fits: "card (dom (plain m a)) \<le> n" "finite (dom m)"
    using spec_cons.prems(1) [rule_format, of 1] spec_cons.prems(2) [rule_format, of 0] by simp_all
  have "m1 = plain m a"
    using spec_cons.hyps(1)
  proof cases
    case (put_full k j w v)
    have "card (dom (m(k \<mapsto> v))) = Suc (card (dom m))" using put_full(3) fits(2) by (simp add: card_insert_if)
    then show ?thesis using put_full fits(1) by simp
  qed simp_all
  moreover have "card (dom (foldl plain (plain m a) (take i as))) \<le> n" "finite (dom (foldl plain (plain m a) (take i as)))"
    if "i \<le> length as" for i
    using that spec_cons.prems(1) [rule_format, of "Suc i"] spec_cons.prems(2) [rule_format, of "Suc i"] by simp_all
  ultimately show ?case using spec_cons.IH by simp
qed simp

lemma finite_plain: "finite (dom m) \<Longrightarrow> finite (dom (foldl plain m ops))"
proof (induction ops arbitrary: m)
  case (Cons a ops)
  have "dom (plain m (StExpire e)) \<subseteq> dom m" for e by (auto split: option.splits)
  then have "finite (dom (plain m a))" using Cons.prems by (cases a) (auto intro: finite_subset)
  then show ?case using Cons.IH by simp
qed simp

text \<open>
  (C24) A bounded store refines a map that may forget. Whatever puts, removals and expiries a store of capacity \<open>n\<close> goes
  through, what can be read from it is a run of the specification, in which only a put of a new key into a full store
  loses anything, and that one entry no newer than any other; its length is the number of keys. So as long as
  the live entries never outnumber the capacity, it is exactly the unbounded map.
\<close>

theorem storage_refines_map:
  "let s = foldl st_apply (storage_new n) ops in
     spec_run (store_spec n) Map.empty ops (storage_get s) \<and> storage_len s = card (dom (storage_get s)) \<and>
     ((\<forall>i \<le> length ops. card (dom (foldl plain Map.empty (take i ops))) \<le> n) \<longrightarrow> storage_get s = foldl plain Map.empty ops)"
proof -
  let ?s = "foldl st_apply (storage_new n) ops"
  have new: "storage_ok (storage_new n) \<and> max_entries (storage_new n) = n" by (simp add: storage_ok_new) (simp add: storage_new_def)
  have empty: "storage_get (storage_new n) = Map.empty" by (simp add: storage_get_map storage_new_def)
  from store_map.run_refines [OF new, of ops] have run: "spec_run (store_spec n) Map.empty ops (storage_get ?s)" by (simp add: empty)
  moreover have "storage_ok ?s" using st.run [OF new, of ops] by simp
  ultimately show ?thesis using card_dom_store [of ?s] spec_plain [OF run] finite_plain [of Map.empty] by (auto simp: Let_def)
qed

theorem storage_refines_map_witness:
  "storage_get (foldl st_apply (storage_new 2) [StPut [1] (w_value 7), StPut [2] (w_value 8), StRemove [1], StPut [3] (w_value 9)]) =
     [[2] \<mapsto> w_value 8, [3] \<mapsto> w_value 9]"
proof -
  let ?ops = "[StPut [1] (w_value 7), StPut [2] (w_value 8), StRemove [1], StPut [3] (w_value 9)]"
  have m: "foldl plain Map.empty ?ops = [[2] \<mapsto> w_value 8, [3] \<mapsto> w_value 9]" by (auto simp: fun_eq_iff)
  have "card (dom (foldl plain Map.empty (take i ?ops))) \<le> 2" if "i \<le> length ?ops" for i
  proof -
    have "i \<in> {0, 1, 2, 3, 4}" using that by auto
    then show ?thesis by (auto simp: numeral_eq_Suc card_insert_if)
  qed
  with storage_refines_map [of 2 ?ops] show ?thesis unfolding Let_def m by blast
qed

subsection \<open>The edge table\<close>

text \<open>For every edge the log of its measurements, each turned to the direction of the edge.\<close>

definition edge_log :: "twist_lut \<Rightarrow> node_id \<times> node_id \<Rightarrow> twist_index list" where
  "edge_log lut key = (case hm_get lut key of None \<Rightarrow> [] | Some v \<Rightarrow> v)"

definition log_spec :: "(node_id \<times> node_id \<Rightarrow> twist_index list) \<Rightarrow> measurement \<Rightarrow> (node_id \<times> node_id \<Rightarrow> twist_index list) \<Rightarrow> bool" where
  "log_spec m x m' \<longleftrightarrow> (case x of (a, b, tw) \<Rightarrow> m' = m(edge_key a b := m (edge_key a b) @ [orient a b tw]))"

interpretation lut_log: refines "\<lambda>lut (a, b, tw). lut_insert a b tw lut" lut_ok edge_log log_spec
  by unfold_locales (auto simp: log_spec_def edge_log_def lut_insert_def update_conv' fun_eq_iff Let_def)

lemma log_spec_run:
  "spec_run log_spec m ms m' \<Longrightarrow> m' key = m key @ map (\<lambda>(a, b, tw). orient a b tw) (filter (\<lambda>(a, b, tw). edge_key a b = key) ms)"
  by (induction rule: spec_run.induct) (auto simp: log_spec_def)

text \<open>What the table holds for an edge is what was measured of it, from either end, in order; its latest is the last of these.\<close>

theorem edge_log_complete:
  "edge_log (lut_of ms) (edge_key a b) = map (\<lambda>(x, y, tw). orient x y tw) (filter (\<lambda>(x, y, tw). edge_key x y = edge_key a b) ms) \<and>
   lut_latest (lut_of ms) a b = last_opt (edge_log (lut_of ms) (edge_key a b))"
proof -
  have "lut_ok lut_new" by (rule lut_ok_new)
  from log_spec_run [OF lut_log.run_refines [OF this, of ms], of "edge_key a b"]
  have "edge_log (lut_of ms) (edge_key a b) = map (\<lambda>(x, y, tw). orient x y tw) (filter (\<lambda>(x, y, tw). edge_key x y = edge_key a b) ms)"
    by (simp add: lut_of_def edge_log_def lut_new_def)
  moreover have "lut_latest (lut_of ms) a b = last_opt (edge_log (lut_of ms) (edge_key a b))"
    by (auto simp: lut_latest_def lut_get_def edge_log_def last_opt_def split: option.splits)
  ultimately show ?thesis by blast
qed

end
