(* ===== verification/Net.thy ===== *)
theory Net
  imports Types
begin

text \<open>
  \<open>rtfsn-net\<close>: the protocol messages (\<open>message.rs\<close>), the errors of a transport (\<open>transport.rs\<close>) and the registry of
  addresses of the UDP transport (\<open>native.rs\<close>). JSON (\<open>serde_json\<close>) and the socket (\<open>tokio\<close>) are arguments: an encoder
  and decoder of messages, and the answer of the operating system to a send or receive.
\<close>

text \<open>An IP address is its 4 or 16 octets; the flow and scope of an IPv6 address play no part.\<close>

record socket_addr =
  sa_ip :: bytes
  sa_port :: u16

record peer_stats =
  ps_peer_id :: node_id
  ps_peer_addr :: string
  ps_rtt_nanos :: u64
  ps_rtt_jitter_ns :: u64
  ps_offset_nanos :: i64
  ps_asymmetry_nanos :: i64
  ps_quality :: u32
  ps_epoch_measured :: u64
  ps_trend_nanos_per_epoch :: i64
  ps_sample_count :: u32

record stats_response =
  st_node_id :: node_id
  st_epoch :: u64
  st_offset_nanos :: i64
  st_uncertainty_nanos :: u64
  st_drift_ppb :: i64
  st_solver_converged :: bool
  st_solver_iters :: u32
  st_max_defect_nanos :: u64
  st_rtt_min_ns :: u64
  st_rtt_mean_ns :: u64
  st_rtt_max_ns :: u64
  st_rtt_jitter_ns :: u64
  st_geoid_depth :: u8
  st_geoid_region_counts :: "u32 list"
  st_chain_length :: u64
  st_chain_valid :: bool
  st_peers :: "peer_stats list"

datatype protocol_message =
    TimeRequest (tr_sender: node_id) (tr_t1: u64) (tr_epoch: epoch)
  | TimeResponse (ts_sender: node_id) (ts_t1: u64) (ts_t2: u64) (ts_t3: u64) (ts_epoch: epoch)
  | Beacon (beacon_data: bytes) (beacon_epoch: epoch)
  | ClusterCommitment bytes epoch
  | ClockTick bytes epoch
  | FindNode bytes u8
  | FoundNodes "(node_id \<times> bytes) list" u8
  | Store bytes bytes u8
  | Retrieve bytes u8
  | RetrieveResponse bytes "bytes option" u8
  | Ping u64
  | Pong u64
  | PeerAnnounce (pa_node: node_id) (pa_port: u16)
  | StatsRequest
  | StatsResponse stats_response

datatype transport_error =
    ConnectionFailed string
  | SendFailed string
  | ReceiveFailed string
  | Timeout
  | PeerUnreachable node_id

section \<open>The UDP transport\<close>

record udp_transport =
  ut_local_node_id :: node_id
  ut_peer_addrs :: "(node_id, socket_addr) hashmap"

definition transport_bind :: "string + unit \<Rightarrow> node_id \<Rightarrow> transport_error + udp_transport" where
  "transport_bind bound i = (case bound of Inl e \<Rightarrow> Inl (ConnectionFailed e)
     | Inr _ \<Rightarrow> Inr \<lparr>ut_local_node_id = i, ut_peer_addrs = []\<rparr>)"

definition register_peer :: "node_id \<Rightarrow> socket_addr \<Rightarrow> udp_transport \<Rightarrow> udp_transport" where
  "register_peer i addr t = t\<lparr>ut_peer_addrs := hm_insert i addr (ut_peer_addrs t)\<rparr>"

text \<open>What a send returns; \<open>send_to\<close> is the socket's answer for a datagram and an address.\<close>

definition send_to_addr :: "(protocol_message \<Rightarrow> string + bytes) \<Rightarrow> (bytes \<Rightarrow> socket_addr \<Rightarrow> string + nat) \<Rightarrow> socket_addr \<Rightarrow> protocol_message \<Rightarrow>
    transport_error + unit" where
  "send_to_addr serialize send_to addr msg = (case serialize msg of Inl e \<Rightarrow> Inl (SendFailed e)
     | Inr data \<Rightarrow> (case send_to data addr of Inl e \<Rightarrow> Inl (SendFailed e) | Inr _ \<Rightarrow> Inr ()))"

definition transport_send :: "(protocol_message \<Rightarrow> string + bytes) \<Rightarrow> (bytes \<Rightarrow> socket_addr \<Rightarrow> string + nat) \<Rightarrow> node_id \<Rightarrow> protocol_message \<Rightarrow>
    udp_transport \<Rightarrow> transport_error + unit" where
  "transport_send serialize send_to target msg t = (case hm_get (ut_peer_addrs t) target of
       None \<Rightarrow> Inl (PeerUnreachable target)
     | Some addr \<Rightarrow> (case serialize msg of Inl e \<Rightarrow> Inl (SendFailed e)
         | Inr data \<Rightarrow> (case send_to data addr of Inl e \<Rightarrow> Inl (SendFailed e) | Inr _ \<Rightarrow> Inr ())))"

text \<open>A datagram longer than the buffer of 65536 bytes is cut by the socket.\<close>

definition transport_recv :: "(bytes \<Rightarrow> string + protocol_message) \<Rightarrow> string + (bytes \<times> socket_addr) \<Rightarrow>
    transport_error + (socket_addr \<times> protocol_message)" where
  "transport_recv deserialize received = (case received of Inl e \<Rightarrow> Inl (ReceiveFailed e)
     | Inr (data, addr) \<Rightarrow> (case deserialize (take 65536 data) of Inl e \<Rightarrow> Inl (ReceiveFailed e) | Inr msg \<Rightarrow> Inr (addr, msg)))"

end
