(* ===== verification/Crypto.thy ===== *)
theory Crypto
  imports Types
begin

text \<open>
  \<open>rtfsn-core/src/crypto\<close>: Pedersen commitments, blinded identities with their proof of knowledge, signed
  messages and the iterated hash. The Ristretto group and its scalars (\<open>curve25519-dalek\<close>), Ed25519
  (\<open>ed25519-dalek\<close>), SHA-512 and BLAKE3 are third-party code: they are arguments, the first two as the
  records below, and what the code relies on is stated by \<open>ristretto_ok\<close> and \<open>ed25519_ok\<close>. Random
  bytes are arguments too. Scalars are the elements of any commutative ring and points those of any
  abelian group, written with HOL's operations.
\<close>

record ('s, 'p) ristretto =
  basepoint :: 'p
  scale :: "'p \<Rightarrow> 's \<Rightarrow> 'p"
  compress :: "'p \<Rightarrow> bytes"
  decompress :: "bytes \<Rightarrow> 'p option"
  from_uniform_bytes :: "bytes \<Rightarrow> 'p"
  scalar_of_u64 :: "u64 \<Rightarrow> 's"
  from_bytes_mod_order :: "bytes \<Rightarrow> 's"
  from_bytes_mod_order_wide :: "bytes \<Rightarrow> 's"
  from_canonical_bytes :: "bytes \<Rightarrow> 's option"
  scalar_to_bytes :: "'s \<Rightarrow> bytes"

text \<open>
  The documented behaviour: scalar multiplication is a module over the scalars, an encoded point or
  scalar decodes to itself.
\<close>

definition ristretto_ok :: "('s::comm_ring_1, 'p::ab_group_add) ristretto \<Rightarrow> bool" where
  "ristretto_ok R \<longleftrightarrow>
     (\<forall>p q s. scale R (p + q) s = scale R p s + scale R q s) \<and>
     (\<forall>p s t. scale R p (s + t) = scale R p s + scale R p t) \<and>
     (\<forall>p s t. scale R p (s * t) = scale R (scale R p s) t) \<and> (\<forall>p. scale R p 1 = p) \<and>
     (\<forall>p. decompress R (compress R p) = Some p) \<and>
     (\<forall>s. from_canonical_bytes R (scalar_to_bytes R s) = Some s)"

section \<open>Pedersen commitments\<close>

definition ascii :: "string \<Rightarrow> bytes" where "ascii s = map of_char s"

definition h_generator :: "hash \<Rightarrow> ('s, 'p) ristretto \<Rightarrow> 'p" where
  "h_generator sha512 R = from_uniform_bytes R (sha512 (ascii ''rtfsn_pedersen_h_generator_v1''))"

record 'p pedersen_commitment =
  pc_point :: 'p
  pc_compressed :: bytes

datatype serializable_commitment = SerializableCommitment (sc_bytes: bytes)

definition serializable :: "'p pedersen_commitment \<Rightarrow> serializable_commitment" where
  "serializable c = SerializableCommitment (pc_compressed c)"

definition commitment_of :: "('s, 'p) ristretto \<Rightarrow> 'p \<Rightarrow> 'p pedersen_commitment" where
  "commitment_of R p = \<lparr>pc_point = p, pc_compressed = compress R p\<rparr>"

definition commit :: "hash \<Rightarrow> ('s::comm_ring_1, 'p::ab_group_add) ristretto \<Rightarrow> 's \<Rightarrow> 's \<Rightarrow> 'p pedersen_commitment" where
  "commit sha512 R v b = commitment_of R (scale R (basepoint R) v + scale R (h_generator sha512 R) b)"

definition scalar_of_i64 :: "('s::comm_ring_1, 'p) ristretto \<Rightarrow> i64 \<Rightarrow> 's" where
  "scalar_of_i64 R q = (if q \<ge> 0 then scalar_of_u64 R (i64_as_u64 q) else - scalar_of_u64 R (i64_as_u64 (i64_wrap (- q))))"

definition commit_f64 :: "hash \<Rightarrow> ('s::comm_ring_1, 'p::ab_group_add) ristretto \<Rightarrow> f64 \<Rightarrow> 's \<Rightarrow> 'p pedersen_commitment" where
  "commit_f64 sha512 R v b = commit sha512 R (scalar_of_i64 R (f64_as_i64 (fmul v (Fin 1000000000)))) b"

definition commitment_add :: "('s, 'p::ab_group_add) ristretto \<Rightarrow> 'p pedersen_commitment \<Rightarrow> 'p pedersen_commitment \<Rightarrow> 'p pedersen_commitment" where
  "commitment_add R c d = commitment_of R (pc_point c + pc_point d)"

definition commitment_verify :: "hash \<Rightarrow> ('s::comm_ring_1, 'p::ab_group_add) ristretto \<Rightarrow> 'p pedersen_commitment \<Rightarrow> 's \<Rightarrow> 's \<Rightarrow> bool" where
  "commitment_verify sha512 R c v b \<longleftrightarrow> pc_point c = pc_point (commit sha512 R v b)"

record range_proof =
  rp_commitment :: serializable_commitment
  rp_challenge :: bytes
  rp_response :: bytes
  rp_bit_count :: u32

definition range_proof_create :: "hash \<Rightarrow> hash \<Rightarrow> ('s::comm_ring_1, 'p::ab_group_add) ristretto \<Rightarrow> u64 \<Rightarrow> 's \<Rightarrow> u32 \<Rightarrow> range_proof option" where
  "range_proof_create sha512 blake3 R value blinding bit_count =
     (if value \<ge> push_bit (unat (min bit_count 63)) 1 then None
      else let c = commit sha512 R (scalar_of_u64 R value) blinding;
               challenge = blake3 (pc_compressed c @ u64_le value);
               response = blinding - from_bytes_mod_order R challenge * scalar_of_u64 R value
           in Some \<lparr>rp_commitment = serializable c, rp_challenge = challenge, rp_response = scalar_to_bytes R response,
                    rp_bit_count = bit_count\<rparr>)"

section \<open>Blinded identities\<close>

definition identity_generator :: "hash \<Rightarrow> ('s, 'p) ristretto \<Rightarrow> 'p" where
  "identity_generator sha512 R = from_uniform_bytes R (sha512 (ascii ''rtfsn_identity_blinding_generator_v1''))"

record blinded_identity =
  bi_commitment :: bytes
  bi_epoch :: epoch

record 's blinding_secret =
  node_scalar :: 's
  blinding_factor :: 's
  bs_epoch :: epoch

definition blinding_secret_new :: "('s, 'p) ristretto \<Rightarrow> bytes \<Rightarrow> node_id \<Rightarrow> epoch \<Rightarrow> 's blinding_secret" where
  "blinding_secret_new R seed i e = \<lparr>node_scalar = from_bytes_mod_order R (id_bytes i),
     blinding_factor = from_bytes_mod_order_wide R seed, bs_epoch = e\<rparr>"

definition blind_point :: "hash \<Rightarrow> ('s, 'p::ab_group_add) ristretto \<Rightarrow> 's \<Rightarrow> 's \<Rightarrow> 'p" where
  "blind_point sha512 R a b = scale R (basepoint R) a + scale R (identity_generator sha512 R) b"

definition blind :: "hash \<Rightarrow> ('s, 'p::ab_group_add) ristretto \<Rightarrow> 's blinding_secret \<Rightarrow> blinded_identity" where
  "blind sha512 R s = \<lparr>bi_commitment = compress R (blind_point sha512 R (node_scalar s) (blinding_factor s)), bi_epoch = bs_epoch s\<rparr>"

record blinding_proof =
  bp_commitment :: bytes
  nonce_commitment :: bytes
  bp_s1 :: bytes
  bp_s2 :: bytes

definition challenge_of :: "hash \<Rightarrow> ('s, 'p) ristretto \<Rightarrow> bytes \<Rightarrow> bytes \<Rightarrow> 's" where
  "challenge_of blake3 R c r = from_bytes_mod_order R (blake3 (c @ r))"

definition prove_knowledge :: "hash \<Rightarrow> hash \<Rightarrow> ('s::comm_ring_1, 'p::ab_group_add) ristretto \<Rightarrow> bytes \<Rightarrow> bytes \<Rightarrow> 's blinding_secret \<Rightarrow> blinding_proof" where
  "prove_knowledge sha512 blake3 R k1_bytes k2_bytes s =
     (let k1 = from_bytes_mod_order_wide R k1_bytes; k2 = from_bytes_mod_order_wide R k2_bytes;
          r = compress R (blind_point sha512 R k1 k2);
          c = compress R (blind_point sha512 R (node_scalar s) (blinding_factor s));
          e = challenge_of blake3 R c r
      in \<lparr>bp_commitment = c, nonce_commitment = r, bp_s1 = scalar_to_bytes R (k1 - e * node_scalar s),
          bp_s2 = scalar_to_bytes R (k2 - e * blinding_factor s)\<rparr>)"

definition blinding_verify :: "hash \<Rightarrow> hash \<Rightarrow> ('s::comm_ring_1, 'p::ab_group_add) ristretto \<Rightarrow> blinding_proof \<Rightarrow> bool" where
  "blinding_verify sha512 blake3 R p =
     (case (decompress R (bp_commitment p), decompress R (nonce_commitment p)) of
        (Some c, Some r) \<Rightarrow>
          (let e = challenge_of blake3 R (bp_commitment p) (nonce_commitment p) in
           case (from_canonical_bytes R (bp_s1 p), from_canonical_bytes R (bp_s2 p)) of
             (Some s1, Some s2) \<Rightarrow> blind_point sha512 R s1 s2 + scale R c e = r
           | _ \<Rightarrow> False)
      | _ \<Rightarrow> False)"

section \<open>Signatures\<close>

record ('sk, 'vk) ed25519 =
  vk_of_sk :: "'sk \<Rightarrow> 'vk"
  sk_from_bytes :: "bytes \<Rightarrow> 'sk"
  vk_to_bytes :: "'vk \<Rightarrow> bytes"
  vk_from_bytes :: "bytes \<Rightarrow> 'vk option"
  ed_sign :: "'sk \<Rightarrow> bytes \<Rightarrow> bytes"
  ed_verify :: "'vk \<Rightarrow> bytes \<Rightarrow> bytes \<Rightarrow> bool"

definition ed25519_ok :: "('sk, 'vk) ed25519 \<Rightarrow> bool" where
  "ed25519_ok E \<longleftrightarrow> (\<forall>sk m. ed_verify E (vk_of_sk E sk) m (ed_sign E sk m) \<and> length (ed_sign E sk m) = 64) \<and>
     (\<forall>vk. vk_from_bytes E (vk_to_bytes E vk) = Some vk)"

record ('sk, 'vk) node_keypair =
  signing_key :: 'sk
  verifying_key :: 'vk
  kp_node_id :: node_id

definition keypair_generate :: "hash \<Rightarrow> ('sk, 'vk) ed25519 \<Rightarrow> bytes \<Rightarrow> ('sk, 'vk) node_keypair" where
  "keypair_generate blake3 E seed = (let sk = sk_from_bytes E seed; vk = vk_of_sk E sk in
     \<lparr>signing_key = sk, verifying_key = vk, kp_node_id = node_id_from_public_key blake3 (vk_to_bytes E vk)\<rparr>)"

record signed_message =
  sm_payload :: bytes
  sm_signature :: bytes
  sm_signer :: bytes

definition keypair_sign :: "('sk, 'vk) ed25519 \<Rightarrow> ('sk, 'vk) node_keypair \<Rightarrow> bytes \<Rightarrow> signed_message" where
  "keypair_sign E kp m = \<lparr>sm_payload = m, sm_signature = ed_sign E (signing_key kp) m, sm_signer = vk_to_bytes E (verifying_key kp)\<rparr>"

definition signed_verify :: "('sk, 'vk) ed25519 \<Rightarrow> signed_message \<Rightarrow> bool" where
  "signed_verify E m =
     (case vk_from_bytes E (sm_signer m) of
        None \<Rightarrow> False
      | Some vk \<Rightarrow> length (sm_signature m) = 64 \<and> ed_verify E vk (sm_payload m) (sm_signature m))"

definition signer_node_id :: "hash \<Rightarrow> ('sk, 'vk) ed25519 \<Rightarrow> signed_message \<Rightarrow> node_id" where
  "signer_node_id blake3 E m =
     (case vk_from_bytes E (sm_signer m) of
        None \<Rightarrow> NodeId (replicate 32 0)
      | Some vk \<Rightarrow> node_id_from_public_key blake3 (vk_to_bytes E vk))"

section \<open>The iterated hash\<close>

record vdf_proof =
  vdf_input :: bytes
  vdf_output :: bytes
  vdf_iterations :: u64

definition vdf_evaluate :: "hash \<Rightarrow> bytes \<Rightarrow> u64 \<Rightarrow> vdf_proof" where
  "vdf_evaluate blake3 input n = \<lparr>vdf_input = input, vdf_output = (blake3 ^^ unat n) input, vdf_iterations = n\<rparr>"

definition vdf_verify :: "hash \<Rightarrow> vdf_proof \<Rightarrow> bool" where
  "vdf_verify blake3 p \<longleftrightarrow> (blake3 ^^ unat (vdf_iterations p)) (vdf_input p) = vdf_output p"

section \<open>Lemmas\<close>

lemma scale_laws:
  assumes "ristretto_ok R"
  shows "scale R (p + q) s = scale R p s + scale R q s" "scale R p (s + t) = scale R p s + scale R p t"
    "scale R p (s * t) = scale R (scale R p s) t" "scale R p 1 = p"
    "decompress R (compress R p) = Some p" "from_canonical_bytes R (scalar_to_bytes R s) = Some s"
  using assms unfolding ristretto_ok_def by blast+

lemma scale_diff:
  assumes "ristretto_ok R" shows "scale R p (s - t) = scale R p s - scale R p t"
  using scale_laws(2) [OF assms, of p "s - t" t] by (simp add: algebra_simps)

lemma blind_point_diff:
  assumes "ristretto_ok R"
  shows "blind_point sha512 R (a - a') (b - b') = blind_point sha512 R a b - blind_point sha512 R a' b'"
  by (simp add: blind_point_def scale_diff [OF assms])

lemma blind_point_scale:
  assumes "ristretto_ok R"
  shows "scale R (blind_point sha512 R a b) t = blind_point sha512 R (t * a) (t * b)"
  by (simp add: blind_point_def scale_laws [OF assms] mult.commute [of t])

lemma prove_verifies:
  assumes "ristretto_ok R" shows "blinding_verify sha512 blake3 R (prove_knowledge sha512 blake3 R k1 k2 s)"
  by (simp add: blinding_verify_def prove_knowledge_def Let_def scale_laws [OF assms] blind_point_diff [OF assms]
      blind_point_scale [OF assms])

lemma vdf_verify_evaluate: "vdf_verify blake3 (vdf_evaluate blake3 x n)"
  by (simp add: vdf_verify_def vdf_evaluate_def)

text \<open>A concrete group for the witnesses: bytes modulo 256, scalars and points alike.\<close>

definition w_ristretto :: "(u8, u8) ristretto" where
  "w_ristretto = \<lparr>basepoint = 1, scale = (*), compress = (\<lambda>p. [p]), decompress = (\<lambda>b. case b of [p] \<Rightarrow> Some p | _ \<Rightarrow> None),
     from_uniform_bytes = (\<lambda>b. 5), scalar_of_u64 = ucast, from_bytes_mod_order = sum_list, from_bytes_mod_order_wide = sum_list,
     from_canonical_bytes = (\<lambda>b. case b of [p] \<Rightarrow> Some p | _ \<Rightarrow> None), scalar_to_bytes = (\<lambda>p. [p])\<rparr>"

lemma w_ristretto_ok: "ristretto_ok w_ristretto"
  by (simp add: ristretto_ok_def w_ristretto_def algebra_simps)

definition w_hash :: hash where "w_hash b = replicate 32 (sum_list b + 1)"

section \<open>Properties\<close>

text \<open>
  The proof of knowledge is complete: whatever the identity, the blinding factor and the nonces, the
  proof a node makes of its blinded identity verifies, and it is about that identity's commitment.
\<close>

theorem blinding_complete:
  assumes "ristretto_ok R"
  shows "blinding_verify sha512 blake3 R (prove_knowledge sha512 blake3 R k1 k2 s) \<and>
    bp_commitment (prove_knowledge sha512 blake3 R k1 k2 s) = bi_commitment (blind sha512 R s)"
  by (simp add: prove_verifies [OF assms]) (simp add: prove_knowledge_def blind_def Let_def)

theorem blinding_complete_witness:
  "blinding_verify w_hash w_hash w_ristretto
     (prove_knowledge w_hash w_hash w_ristretto [3] [4] (blinding_secret_new w_ristretto [9] (NodeId (replicate 32 7)) (Epoch 1)))"
  using blinding_complete [OF w_ristretto_ok, of w_hash w_hash "[3]" "[4]"] by simp

text \<open>
  (C25) The proof of knowledge is special sound: two accepted answers to different challenges for the same
  commitment and nonce (the same prover, run twice against two answers of the hash) reveal an opening
  of the commitment, so whoever can answer knows one.
\<close>

theorem blinding_special_sound:
  assumes "ristretto_ok R" "blinding_verify sha512 H1 R p" "blinding_verify sha512 H2 R p'"
    and "bp_commitment p' = bp_commitment p" "nonce_commitment p' = nonce_commitment p"
    and "(challenge_of H1 R (bp_commitment p) (nonce_commitment p) - challenge_of H2 R (bp_commitment p) (nonce_commitment p)) * d = 1"
  shows "\<exists>s1 s2 t1 t2. from_canonical_bytes R (bp_s1 p) = Some s1 \<and> from_canonical_bytes R (bp_s2 p) = Some s2 \<and>
    from_canonical_bytes R (bp_s1 p') = Some t1 \<and> from_canonical_bytes R (bp_s2 p') = Some t2 \<and>
    decompress R (bp_commitment p) = Some (blind_point sha512 R (d * (t1 - s1)) (d * (t2 - s2)))"
proof -
  let ?e = "challenge_of H1 R (bp_commitment p) (nonce_commitment p)" and ?f = "challenge_of H2 R (bp_commitment p) (nonce_commitment p)"
  obtain c r s1 s2 where v: "decompress R (bp_commitment p) = Some c" "decompress R (nonce_commitment p) = Some r"
    "from_canonical_bytes R (bp_s1 p) = Some s1" "from_canonical_bytes R (bp_s2 p) = Some s2"
    "blind_point sha512 R s1 s2 + scale R c ?e = r"
    using assms(2) by (auto simp: blinding_verify_def Let_def split: option.splits)
  obtain t1 t2 where w: "from_canonical_bytes R (bp_s1 p') = Some t1" "from_canonical_bytes R (bp_s2 p') = Some t2"
    "blind_point sha512 R t1 t2 + scale R c ?f = r"
    using assms(3-5) v(1,2) by (auto simp: blinding_verify_def Let_def split: option.splits)
  have "scale R c (?e - ?f) = blind_point sha512 R (t1 - s1) (t2 - s2)"
    using v(5) w(3) by (simp add: scale_diff [OF assms(1)] blind_point_diff [OF assms(1)] algebra_simps)
  then have "scale R (scale R c (?e - ?f)) d = blind_point sha512 R (d * (t1 - s1)) (d * (t2 - s2))"
    by (simp add: blind_point_scale [OF assms(1)])
  moreover have "scale R (scale R c (?e - ?f)) d = c"
    using assms(6) by (simp add: scale_laws(3) [OF assms(1), symmetric] scale_laws(4) [OF assms(1)])
  ultimately show ?thesis using v w by simp
qed

theorem blinding_special_sound_witness:
  "decompress w_ristretto [52] = Some (blind_point w_hash w_ristretto 7 9)"
proof -
  define H1 :: hash where "H1 = (\<lambda>b. [2])"
  define H2 :: hash where "H2 = (\<lambda>b. [1])"
  let ?s = "\<lparr>node_scalar = 7, blinding_factor = 9, bs_epoch = Epoch 1\<rparr>"
  let ?p = "\<lambda>H. prove_knowledge w_hash H w_ristretto [3] [4] ?s"
  have v: "blinding_verify w_hash H w_ristretto (?p H)" for H by (rule prove_verifies [OF w_ristretto_ok])
  from blinding_special_sound [OF w_ristretto_ok v [of H1] v [of H2], of 1] show ?thesis
    by (simp add: prove_knowledge_def Let_def w_ristretto_def H1_def H2_def challenge_of_def blind_point_def identity_generator_def)
qed

text \<open>
  Commitments add: the sum of two commitments verifies as the commitment to the sum of the values
  under the sum of the blinding factors, and a commitment verifies for its own value.
\<close>

theorem commitment_homomorphic:
  assumes "ristretto_ok R"
  shows "commitment_verify sha512 R (commitment_add R (commit sha512 R v b) (commit sha512 R w c)) (v + w) (b + c) \<and>
    commitment_verify sha512 R (commit sha512 R v b) v b"
  by (simp add: commitment_verify_def commitment_add_def commit_def commitment_of_def scale_laws [OF assms] algebra_simps)

theorem commitment_homomorphic_witness:
  "commitment_verify w_hash w_ristretto (commitment_add w_ristretto (commit w_hash w_ristretto 1 2) (commit w_hash w_ristretto 3 4)) 4 6"
  using commitment_homomorphic [OF w_ristretto_ok, of w_hash 1 2 3 4] by simp

text \<open>
  Signatures work end to end, given that Ed25519 does: what a generated key pair signs verifies, and
  the message names the node the key pair belongs to; a signature of any other length than 64 bytes is
  refused whatever the rest of the message.
\<close>

theorem signature_roundtrip:
  assumes "ed25519_ok E"
  shows "signed_verify E (keypair_sign E (keypair_generate blake3 E seed) m) \<and>
    signer_node_id blake3 E (keypair_sign E (keypair_generate blake3 E seed) m) = kp_node_id (keypair_generate blake3 E seed) \<and>
    (length sig \<noteq> 64 \<longrightarrow> \<not> signed_verify E (keypair_sign E (keypair_generate blake3 E seed) m\<lparr>sm_signature := sig\<rparr>))"
  using assms by (auto simp: ed25519_ok_def signed_verify_def keypair_sign_def keypair_generate_def signer_node_id_def Let_def)

definition w_ed25519 :: "(bytes, bytes) ed25519" where
  "w_ed25519 = \<lparr>vk_of_sk = id, sk_from_bytes = id, vk_to_bytes = id, vk_from_bytes = Some, ed_sign = (\<lambda>sk m. replicate 64 (sum_list (sk @ m))),
     ed_verify = (\<lambda>vk m sg. sg = replicate 64 (sum_list (vk @ m)))\<rparr>"

theorem signature_roundtrip_witness:
  "signed_verify w_ed25519 (keypair_sign w_ed25519 (keypair_generate w_hash w_ed25519 [1]) [2])"
proof -
  have "ed25519_ok w_ed25519" by (simp add: ed25519_ok_def w_ed25519_def)
  from signature_roundtrip [OF this] show ?thesis by blast
qed

end
