(* ===== verification/Layers.thy ===== *)
theory Layers
  imports Crypto Geometry Clock
begin

text \<open>
  \<open>rtfsn-core/src/layers/layer0.rs\<close> to \<open>layer3.rs\<close>: the private store of a node's measurements, the store of
  pseudonymous beacons, the cluster aggregator and the public clock stream. BLAKE3, the group and
  random bytes are arguments, as in \<open>Crypto\<close>; so is \<open>serde_json\<close> where an entry is serialised to be
  signed. The geoid coordinate a beacon may carry is \<open>geoid/embedding.rs\<close>'s committed coordinate.
\<close>

text \<open>\<open>f64::to_le_bytes\<close>: the IEEE 754 encoding (NaN as the canonical quiet NaN).\<close>

definition f64_bits :: "f64 \<Rightarrow> nat" where
  "f64_bits x = (case x of
       NaN \<Rightarrow> 2047 * 2 ^ 52 + 2 ^ 51
     | PInf \<Rightarrow> 2047 * 2 ^ 52
     | NInf \<Rightarrow> 2 ^ 63 + 2047 * 2 ^ 52
     | NZero \<Rightarrow> 2 ^ 63
     | Fin r \<Rightarrow>
         if r = 0 then 0
         else let e = max (flog2 \<bar>r\<bar>) (- 1022); m = nat \<lfloor>\<bar>r\<bar> / 2 powi (e - 52)\<rfloor>
              in (if r < 0 then 2 ^ 63 else 0) + (if m < 2 ^ 52 then m else nat (e + 1023) * 2 ^ 52 + (m - 2 ^ 52)))"

definition f64_le :: "f64 \<Rightarrow> bytes" where "f64_le x = u64_le (of_nat (f64_bits x))"

section \<open>Layer 0\<close>

record measurement_record =
  mr_peer :: node_id
  mr_exchange :: time_exchange
  mr_measured_rtt :: f64
  mr_local_time :: f64

record local_solve =
  ls_coordinates :: coordinate_state
  ls_clock_offset :: f64
  ls_clock_drift :: f64
  ls_uncertainty :: f64
  ls_peer_count :: nat

record layer0_entry =
  l0_node_id :: node_id
  l0_epoch :: epoch
  l0_measurements :: "measurement_record list"
  l0_solve :: local_solve

record layer0_store =
  l0s_node_id :: node_id
  l0s_entries :: "layer0_entry list"

definition layer0_new :: "node_id \<Rightarrow> layer0_store" where
  "layer0_new i = \<lparr>l0s_node_id = i, l0s_entries = []\<rparr>"

definition record_epoch :: "epoch \<Rightarrow> measurement_record list \<Rightarrow> local_solve \<Rightarrow> layer0_store \<Rightarrow> layer0_store" where
  "record_epoch e ms sol s = s\<lparr>l0s_entries := l0s_entries s @
     [\<lparr>l0_node_id = l0s_node_id s, l0_epoch = e, l0_measurements = ms, l0_solve = sol\<rparr>]\<rparr>"

definition latest_solve :: "layer0_store \<Rightarrow> local_solve option" where
  "latest_solve s = map_option l0_solve (last_opt (l0s_entries s))"

definition l0_get_epoch :: "layer0_store \<Rightarrow> epoch \<Rightarrow> layer0_entry option" where
  "l0_get_epoch s e = List.find (\<lambda>x. l0_epoch x = e) (l0s_entries s)"

definition sign_entry :: "(layer0_entry \<Rightarrow> bytes option) \<Rightarrow> ('sk, 'vk) ed25519 \<Rightarrow> layer0_store \<Rightarrow> epoch \<Rightarrow> ('sk, 'vk) node_keypair \<Rightarrow> signed_message option" where
  "sign_entry to_json E s e kp = Option.bind (l0_get_epoch s e) (\<lambda>x. map_option (keypair_sign E kp) (to_json x))"

section \<open>Layer 1\<close>

record committed_geoid_coordinate =
  region_commitments :: "serializable_commitment list"
  cg_epoch :: epoch

record peer_count_proof =
  claimed_count :: u32
  pcp_merkle_root :: bytes

record layer1_beacon =
  b_blinded_id :: blinded_identity
  b_epoch :: epoch
  b_coordinates :: coordinate_state
  b_clock_offset :: f64
  b_clock_drift :: f64
  b_uncertainty :: f64
  b_peer_count :: u32
  b_consistency_score :: f64
  b_proof_of_identity :: blinding_proof
  b_proof_of_peer_count :: "peer_count_proof option"
  b_geoid_coord :: "committed_geoid_coordinate option"

definition verify_identity :: "hash \<Rightarrow> hash \<Rightarrow> ('s::comm_ring_1, 'p::ab_group_add) ristretto \<Rightarrow> layer1_beacon \<Rightarrow> bool" where
  "verify_identity sha512 blake3 R b = blinding_verify sha512 blake3 R (b_proof_of_identity b)"

definition beacon_key :: "hash \<Rightarrow> layer1_beacon \<Rightarrow> bytes" where
  "beacon_key blake3 b = blake3 (bi_commitment (b_blinded_id b) @ u64_le (epoch_no (b_epoch b)))"

type_synonym layer1_store = "layer1_beacon list"

definition layer1_new :: layer1_store where "layer1_new = []"

definition layer1_insert :: "hash \<Rightarrow> hash \<Rightarrow> ('s::comm_ring_1, 'p::ab_group_add) ristretto \<Rightarrow> layer1_beacon \<Rightarrow> layer1_store \<Rightarrow> layer1_store \<times> bool" where
  "layer1_insert sha512 blake3 R b s =
     (if \<not> verify_identity sha512 blake3 R b then (s, False)
      else if \<exists>x \<in> set s. beacon_key blake3 x = beacon_key blake3 b then (s, False)
      else (s @ [b], True))"

definition l1_get_epoch :: "layer1_store \<Rightarrow> epoch \<Rightarrow> layer1_beacon list" where
  "l1_get_epoch s e = filter (\<lambda>b. b_epoch b = e) s"

definition peer_coordinates :: "layer1_store \<Rightarrow> epoch \<Rightarrow> (coordinate_state \<times> f64) list" where
  "peer_coordinates s e = map (\<lambda>b. (b_coordinates b, b_clock_offset b)) (l1_get_epoch s e)"

section \<open>Layer 2\<close>

datatype cluster_id = ClusterId (cluster_bytes: bytes)

definition cluster_from_region :: "hash \<Rightarrow> f64 list \<Rightarrow> epoch \<Rightarrow> cluster_id" where
  "cluster_from_region blake3 coords e = ClusterId (blake3 (concat (map f64_le coords) @ u64_le (epoch_no e)))"

record cluster_agreement_proof =
  other_cluster :: cluster_id
  within_tolerance :: bool
  proof_hash :: bytes

record layer2_entry =
  l2_cluster_id :: cluster_id
  l2_epoch :: epoch
  committed_offset :: serializable_commitment
  committed_variance :: serializable_commitment
  cluster_size :: u32
  agreement_proofs :: "cluster_agreement_proof list"

type_synonym cluster_aggregator = "layer2_entry list"

definition aggregator_new :: cluster_aggregator where "aggregator_new = []"

definition mean_f64 :: "f64 list \<Rightarrow> f64" where "mean_f64 xs = fdiv (fsum xs) (of_usize (length xs))"

definition variance_f64 :: "f64 list \<Rightarrow> f64" where
  "variance_f64 xs = (let m = mean_f64 xs in fdiv (fsum (map (\<lambda>x. fsq (fsub x m)) xs)) (of_usize (length xs)))"

definition cluster_entry :: "hash \<Rightarrow> ('s::comm_ring_1, 'p::ab_group_add) ristretto \<Rightarrow> bytes \<times> bytes \<Rightarrow> cluster_id \<Rightarrow> epoch \<Rightarrow> f64 list \<Rightarrow> layer2_entry" where
  "cluster_entry sha512 R seeds c e offsets =
     \<lparr>l2_cluster_id = c, l2_epoch = e,
      committed_offset = serializable (commit_f64 sha512 R (mean_f64 offsets) (from_bytes_mod_order_wide R (fst seeds))),
      committed_variance = serializable (commit_f64 sha512 R (variance_f64 offsets) (from_bytes_mod_order_wide R (snd seeds))),
      cluster_size = of_nat (length offsets), agreement_proofs = []\<rparr>"

definition aggregate :: "hash \<Rightarrow> ('s::comm_ring_1, 'p::ab_group_add) ristretto \<Rightarrow> bytes \<times> bytes \<Rightarrow> cluster_id \<Rightarrow> epoch \<Rightarrow> f64 list \<Rightarrow>
    cluster_aggregator \<Rightarrow> cluster_aggregator \<times> layer2_entry option" where
  "aggregate sha512 R seeds c e offsets a =
     (if offsets = [] then (a, None)
      else let x = cluster_entry sha512 R seeds c e offsets in (a @ [x], Some x))"

definition l2_get_epoch :: "cluster_aggregator \<Rightarrow> epoch \<Rightarrow> layer2_entry list" where
  "l2_get_epoch a e = filter (\<lambda>x. l2_epoch x = e) a"

definition has_consensus :: "cluster_aggregator \<Rightarrow> epoch \<Rightarrow> nat \<Rightarrow> bool" where
  "has_consensus a e min_clusters =
     (let cs = l2_get_epoch a e in
      if length cs < min_clusters then False
      else min_clusters \<le> length (filter (\<lambda>c. agreement_proofs c \<noteq> []) cs))"

section \<open>Layer 3\<close>

record clock_tick =
  ct_epoch :: epoch
  network_time_nanos :: u64
  confidence_nanos :: u64
  ct_epoch_hash :: bytes
  ct_prev_hash :: bytes
  ct_vdf_proof :: "vdf_proof option"

definition genesis :: clock_tick where
  "genesis = \<lparr>ct_epoch = Epoch 0, network_time_nanos = 0, confidence_nanos = - 1, ct_epoch_hash = replicate 32 0,
     ct_prev_hash = replicate 32 0, ct_vdf_proof = None\<rparr>"

definition tick_bytes :: "clock_tick \<Rightarrow> bytes" where
  "tick_bytes t = u64_le (epoch_no (ct_epoch t)) @ u64_le (network_time_nanos t) @ u64_le (confidence_nanos t) @
     ct_epoch_hash t @ ct_prev_hash t"

definition tick_hash :: "hash \<Rightarrow> clock_tick \<Rightarrow> bytes" where
  "tick_hash blake3 t = blake3 (tick_bytes t)"

definition verify_chain :: "hash \<Rightarrow> clock_tick \<Rightarrow> clock_tick \<Rightarrow> bool" where
  "verify_chain blake3 t prev =
     (if epoch_no (ct_epoch t) \<noteq> epoch_no (ct_epoch prev) + 1 then False
      else if ct_prev_hash t \<noteq> tick_hash blake3 prev then False
      else if network_time_nanos t < network_time_nanos prev then False
      else case ct_vdf_proof t of None \<Rightarrow> True | Some vdf \<Rightarrow> vdf_verify blake3 vdf)"

type_synonym clock_stream = "clock_tick list"

definition clock_stream_new :: clock_stream where "clock_stream_new = [genesis]"

definition stream_latest :: "clock_stream \<Rightarrow> clock_tick" where "stream_latest s = last s"

definition stream_emit :: "hash \<Rightarrow> u64 \<Rightarrow> u64 \<Rightarrow> bytes \<Rightarrow> vdf_proof option \<Rightarrow> clock_stream \<Rightarrow> clock_stream" where
  "stream_emit blake3 t confidence eh vdf s =
     (let prev = stream_latest s
      in s @ [\<lparr>ct_epoch = epoch_next (ct_epoch prev), network_time_nanos = max t (network_time_nanos prev + 1),
               confidence_nanos = confidence, ct_epoch_hash = eh, ct_prev_hash = tick_hash blake3 prev, ct_vdf_proof = vdf\<rparr>])"

definition stream_len :: "clock_stream \<Rightarrow> nat" where "stream_len s = length s"

definition stream_get :: "clock_stream \<Rightarrow> epoch \<Rightarrow> clock_tick option" where
  "stream_get s e = nth_opt s (unat (epoch_no e))"

definition verify_all :: "hash \<Rightarrow> clock_stream \<Rightarrow> bool" where
  "verify_all blake3 s = list_all (\<lambda>i. verify_chain blake3 (s ! i) (s ! (i - 1))) [1..<length s]"

section \<open>The clock stream\<close>

lemma verify_all_snoc:
  "s \<noteq> [] \<Longrightarrow> verify_all blake3 (s @ [t]) \<longleftrightarrow> verify_all blake3 s \<and> verify_chain blake3 t (last s)"
proof -
  assume s: "s \<noteq> []"
  have "[1..<length (s @ [t])] = [1..<length s] @ [length s]" using s by (simp add: Suc_le_eq)
  moreover have "verify_chain blake3 ((s @ [t]) ! i) ((s @ [t]) ! (i - 1)) = verify_chain blake3 (s ! i) (s ! (i - 1))"
    if "i \<in> set [1..<length s]" for i using that by (auto simp: nth_append)
  ultimately show ?thesis using s by (auto simp: verify_all_def list_all_iff nth_append last_conv_nth)
qed

definition stream_ok :: "hash \<Rightarrow> clock_stream \<Rightarrow> bool" where
  "stream_ok blake3 s \<longleftrightarrow> s \<noteq> [] \<and> verify_all blake3 s \<and> sorted_wrt (<) (map network_time_nanos s) \<and>
     (\<forall>i < length s. unat (epoch_no (ct_epoch (s ! i))) = i)"

lemma unat_max: "unat (max (a :: u64) b) = max (unat a) (unat b)"
  by (simp add: max_def word_le_nat_alt)

lemma sorted_last: "sorted_wrt (<) (map f s) \<Longrightarrow> x \<in> set s \<Longrightarrow> f x \<le> (f (last s) :: u64)"
  by (cases s rule: rev_cases) (auto simp: sorted_wrt_append)

definition stream_shape :: "clock_stream \<Rightarrow> bool" where
  "stream_shape s \<longleftrightarrow> s \<noteq> [] \<and> sorted_wrt (<) (map network_time_nanos s) \<and> (\<forall>i < length s. unat (epoch_no (ct_epoch (s ! i))) = i)"

definition delay_ok :: "hash \<Rightarrow> vdf_proof option \<Rightarrow> bool" where
  "delay_ok blake3 vdf \<longleftrightarrow> (case vdf of None \<Rightarrow> True | Some p \<Rightarrow> vdf_verify blake3 p)"

lemma stream_ok_shape: "stream_ok blake3 s \<longleftrightarrow> stream_shape s \<and> verify_all blake3 s"
  by (auto simp: stream_ok_def stream_shape_def)

lemma stream_emit_shape:
  assumes ok: "stream_shape s" and room: "unat (network_time_nanos (last s)) + 1 < 2 ^ 64" "length s + 1 < 2 ^ 64"
  shows "stream_shape (stream_emit blake3 t conf eh vdf s) \<and>
    (verify_all blake3 (stream_emit blake3 t conf eh vdf s) \<longleftrightarrow> verify_all blake3 s \<and> delay_ok blake3 vdf)"
proof -
  let ?prev = "last s"
  define new where "new = last (stream_emit blake3 t conf eh vdf s)"
  have emit: "stream_emit blake3 t conf eh vdf s = s @ [new]" by (simp add: new_def stream_emit_def Let_def)
  have s: "s \<noteq> []" using ok by (simp add: stream_shape_def)
  have new: "ct_epoch new = epoch_next (ct_epoch ?prev)" "network_time_nanos new = max t (network_time_nanos ?prev + 1)"
    "ct_prev_hash new = tick_hash blake3 ?prev" "ct_vdf_proof new = vdf"
    by (simp_all add: new_def stream_emit_def Let_def stream_latest_def)
  have "unat (network_time_nanos ?prev + 1) = unat (network_time_nanos ?prev) + 1"
    using room(1) by (simp add: unat_word_ariths)
  then have up: "network_time_nanos ?prev < network_time_nanos new"
    by (simp add: new word_less_nat_alt unat_max)
  have prev: "unat (epoch_no (ct_epoch ?prev)) = length s - 1" using ok s by (simp add: stream_shape_def last_conv_nth)
  then have ep: "unat (epoch_no (ct_epoch new)) = length s"
    using room(2) s by (simp add: new epoch_next_def unat_word_ariths)
  have "verify_chain blake3 new ?prev \<longleftrightarrow> delay_ok blake3 vdf"
    using less_not_sym [OF up] by (auto simp: verify_chain_def delay_ok_def new(1,3,4) epoch_next_def split: option.splits)
  moreover have "network_time_nanos x < network_time_nanos new" if "x \<in> set s" for x
  proof -
    have "network_time_nanos x \<le> network_time_nanos ?prev"
      using ok that sorted_last [of network_time_nanos s x] by (simp add: stream_shape_def)
    then show ?thesis using up by (rule le_less_trans)
  qed
  ultimately show ?thesis using ok s ep
    by (auto simp: stream_shape_def emit verify_all_snoc sorted_wrt_append nth_append less_Suc_eq)
qed

lemma stream_emit_ok:
  assumes "stream_ok blake3 s" "unat (network_time_nanos (last s)) + 1 < 2 ^ 64" "length s + 1 < 2 ^ 64"
    and "case vdf of None \<Rightarrow> True | Some p \<Rightarrow> vdf_verify blake3 p"
  shows "stream_ok blake3 (stream_emit blake3 t conf eh vdf s)"
  using assms stream_emit_shape [of s] by (simp add: stream_ok_shape delay_ok_def)

lemma stream_new_ok: "stream_ok blake3 clock_stream_new"
  by (simp add: stream_ok_def clock_stream_new_def verify_all_def genesis_def)

section \<open>Chains cannot be rewritten\<close>

definition tick_ok :: "clock_tick \<Rightarrow> bool" where
  "tick_ok t \<longleftrightarrow> length (ct_epoch_hash t) = 32 \<and> length (ct_prev_hash t) = 32"

definition public :: "clock_tick \<Rightarrow> u64 \<times> u64 \<times> u64 \<times> bytes \<times> bytes" where
  "public t = (epoch_no (ct_epoch t), network_time_nanos t, confidence_nanos t, ct_epoch_hash t, ct_prev_hash t)"

lemma u64_le_inj [simp]: "u64_le a = u64_le b \<longleftrightarrow> a = b"
  by (metis u64_from_be_of u64_le_def rev_rev_ident)

lemma tick_bytes_inj: "tick_ok a \<Longrightarrow> tick_ok b \<Longrightarrow> tick_bytes a = tick_bytes b \<Longrightarrow> public a = public b"
  by (simp add: tick_ok_def tick_bytes_def public_def)

definition with_proofs :: "vdf_proof option list \<Rightarrow> clock_tick list \<Rightarrow> clock_tick list" where
  "with_proofs ps ts = map2 (\<lambda>p t. t\<lparr>ct_vdf_proof := p\<rparr>) ps ts"

lemma with_proofs_verifies:
  assumes "verify_all blake3 xs" "xs \<noteq> []" "length ps = length xs \<and> list_all (delay_ok blake3) ps"
  shows "verify_all blake3 (with_proofs ps xs) \<and> tick_hash blake3 (last (with_proofs ps xs)) = tick_hash blake3 (last xs)"
proof -
  have hash: "tick_hash blake3 (t\<lparr>ct_vdf_proof := p\<rparr>) = tick_hash blake3 t" for t p by (simp add: tick_hash_def tick_bytes_def)
  have nth: "with_proofs ps xs ! i = (xs ! i)\<lparr>ct_vdf_proof := ps ! i\<rparr>" if "i < length xs" for i
    using that assms(3) by (simp add: with_proofs_def)
  have "verify_chain blake3 (with_proofs ps xs ! i) (with_proofs ps xs ! (i - 1))" if i: "1 \<le> i" "i < length xs" for i
  proof -
    have "verify_chain blake3 (xs ! i) (xs ! (i - 1))" using assms(1) i by (simp add: verify_all_def list_all_iff)
    moreover have "delay_ok blake3 (ps ! i)" using assms(3) i by (simp add: list_all_length)
    ultimately show ?thesis using i nth [of i] nth [of "i - 1"]
      by (auto simp: verify_chain_def delay_ok_def hash split: option.splits if_splits)
  qed
  moreover have "length (with_proofs ps xs) = length xs" using assms(3) by (simp add: with_proofs_def)
  moreover from this have "with_proofs ps xs \<noteq> []" using assms(2) by auto
  ultimately show ?thesis using assms(2) nth [of "length xs - 1"] by (auto simp: verify_all_def list_all_iff last_conv_nth hash)
qed

lemma chain_binding:
  assumes "verify_all blake3 xs" "verify_all blake3 ys" "length xs = length ys" "xs \<noteq> []"
    "tick_hash blake3 (last xs) = tick_hash blake3 (last ys)" "\<forall>t \<in> set (xs @ ys). tick_ok t"
    "\<forall>a \<in> set xs. \<forall>b \<in> set ys. tick_hash blake3 a = tick_hash blake3 b \<longrightarrow> tick_bytes a = tick_bytes b"
  shows "map public xs = map public ys"
  using assms
proof (induction xs arbitrary: ys rule: rev_induct)
  case (snoc x xs)
  obtain y zs where ys: "ys = zs @ [y]" using snoc.prems(3) by (cases ys rule: rev_cases) auto
  have pub: "public x = public y" using snoc.prems(5,6,7) by (intro tick_bytes_inj) (auto simp: ys)
  show ?case
  proof (cases "xs = []")
    case True
    then show ?thesis using snoc.prems(3) pub by (simp add: ys)
  next
    case False
    then have zs: "zs \<noteq> []" "length xs = length zs" using snoc.prems(3) by (auto simp: ys)
    have v: "verify_all blake3 xs" "verify_chain blake3 x (last xs)" "verify_all blake3 zs" "verify_chain blake3 y (last zs)"
      using snoc.prems(1,2) False zs by (simp_all add: verify_all_snoc ys)
    then have "ct_prev_hash x = tick_hash blake3 (last xs)" "ct_prev_hash y = tick_hash blake3 (last zs)"
      by (auto simp: verify_chain_def split: if_splits)
    then have "tick_hash blake3 (last xs) = tick_hash blake3 (last zs)" using pub by (simp add: public_def)
    from snoc.IH [OF v(1,3) zs(2) False this] snoc.prems(6,7) have "map public xs = map public zs" by (auto simp: ys)
    then show ?thesis using pub by (simp add: ys)
  qed
qed simp

section \<open>Properties\<close>

definition emits :: "hash \<Rightarrow> (u64 \<times> u64 \<times> bytes \<times> vdf_proof option) list \<Rightarrow> clock_stream \<Rightarrow> clock_stream" where
  "emits blake3 xs s = foldl (\<lambda>s (t, conf, eh, vdf). stream_emit blake3 t conf eh vdf s) s xs"

lemma emits_shape:
  assumes "stream_shape s" "unat (network_time_nanos (last s)) + length xs < 2 ^ 64" "length s + length xs < 2 ^ 64"
    "\<forall>(t, conf, eh, vdf) \<in> set xs. unat t + length xs < 2 ^ 64"
  shows "stream_shape (emits blake3 xs s) \<and> length (emits blake3 xs s) = length s + length xs \<and>
    (verify_all blake3 (emits blake3 xs s) \<longleftrightarrow> verify_all blake3 s \<and> (\<forall>(t, conf, eh, vdf) \<in> set xs. delay_ok blake3 vdf))"
  using assms
proof (induction xs arbitrary: s)
  case Nil
  then show ?case by (simp add: emits_def)
next
  case (Cons x xs)
  obtain t conf eh vdf where x: "x = (t, conf, eh, vdf)" by (metis prod_cases4)
  define s' where "s' = stream_emit blake3 t conf eh vdf s"
  have ok: "stream_shape s'" "verify_all blake3 s' \<longleftrightarrow> verify_all blake3 s \<and> delay_ok blake3 vdf"
    using stream_emit_shape [of s] Cons.prems by (simp_all add: s'_def)
  have len: "length s' = length s + 1" by (simp add: s'_def stream_emit_def Let_def)
  have "network_time_nanos (last s') = max t (network_time_nanos (last s) + 1)"
    by (simp add: s'_def stream_emit_def Let_def stream_latest_def)
  moreover have "unat (network_time_nanos (last s) + 1) = unat (network_time_nanos (last s)) + 1"
    using Cons.prems(2) by (simp add: unat_word_ariths)
  ultimately have "unat (network_time_nanos (last s')) + length xs < 2 ^ 64"
    using Cons.prems(2,4) by (auto simp: unat_max x)
  from Cons.IH [OF ok(1) this] Cons.prems(3,4) len ok(2) show ?case
    by (fastforce simp: emits_def s'_def x)
qed

lemma emits_ok:
  assumes "stream_ok blake3 s" "unat (network_time_nanos (last s)) + length xs < 2 ^ 64" "length s + length xs < 2 ^ 64"
    "\<forall>(t, conf, eh, vdf) \<in> set xs. unat t + length xs < 2 ^ 64 \<and> delay_ok blake3 vdf"
  shows "stream_ok blake3 (emits blake3 xs s)"
  using emits_shape [of s xs blake3] assms by (fastforce simp: stream_ok_shape)

text \<open>
  (C15) The public clock is monotone, and its chain is as good as its delay proofs. For any times the layers below hand to the stream, in any
  order, of which none comes within the number of ticks of \<open>2 ^ 64\<close> (past that the clock wraps, \<open>stream_time_wraps\<close>), the
  published times strictly increase, every tick is found under its epoch number, and the chain from genesis verifies exactly when every
  delay proof handed in does.
\<close>

theorem clock_stream_verifies:
  assumes "\<forall>(t, conf, eh, vdf) \<in> set xs. unat t + length xs < 2 ^ 64" "length xs + 1 < 2 ^ 64"
  shows "let s = emits blake3 xs clock_stream_new in
    (verify_all blake3 s \<longleftrightarrow> (\<forall>(t, conf, eh, vdf) \<in> set xs. case vdf of None \<Rightarrow> True | Some p \<Rightarrow> vdf_verify blake3 p)) \<and>
    sorted_wrt (<) (map network_time_nanos s) \<and> stream_len s = length xs + 1 \<and>
    (\<forall>i \<le> length xs. map_option ct_epoch (stream_get s (Epoch (of_nat i))) = Some (Epoch (of_nat i)))"
proof -
  define s where "s = emits blake3 xs clock_stream_new"
  have new: "stream_shape clock_stream_new" "verify_all blake3 clock_stream_new" using stream_new_ok by (simp_all add: stream_ok_shape)
  have ok: "stream_shape s" "length s = 1 + length xs" "verify_all blake3 s \<longleftrightarrow> (\<forall>(t, conf, eh, vdf) \<in> set xs. delay_ok blake3 vdf)"
    using emits_shape [OF new(1), of xs blake3] assms new(2) by (simp_all add: s_def) (simp_all add: clock_stream_new_def genesis_def)
  have "map_option ct_epoch (stream_get s (Epoch (of_nat i))) = Some (Epoch (of_nat i))" if "i \<le> length xs" for i
  proof -
    have u: "unat (of_nat i :: u64) = i" using that assms(2) by (intro unat_of_nat_u64) simp
    have "unat (epoch_no (ct_epoch (s ! i))) = i" using ok that by (simp add: stream_shape_def)
    then have "epoch_no (ct_epoch (s ! i)) = of_nat i" by (simp add: word_unat_eq_iff u)
    then have "ct_epoch (s ! i) = Epoch (of_nat i)" by (metis epoch.collapse)
    then show ?thesis using that ok(2) by (simp add: stream_get_def u nth_opt_def)
  qed
  then show ?thesis using ok by (simp add: stream_shape_def stream_len_def s_def [symmetric] delay_ok_def)
qed

theorem clock_stream_verifies_witness:
  "let vdf = vdf_evaluate w_hash [7] 2; wrong = vdf\<lparr>vdf_iterations := 1\<rparr> in
   sorted_wrt (<) (map network_time_nanos (emits w_hash [(100, 1, [], None), (50, 1, [], Some vdf)] clock_stream_new)) \<and>
   verify_all w_hash (emits w_hash [(100, 1, [], None), (50, 1, [], Some vdf)] clock_stream_new) \<and>
   \<not> verify_all w_hash (emits w_hash [(100, 1, [], None), (50, 1, [], Some wrong)] clock_stream_new)"
proof -
  have "\<not> vdf_verify w_hash ((vdf_evaluate w_hash [7] 2)\<lparr>vdf_iterations := 1\<rparr>)" by code_simp
  then show ?thesis
    using clock_stream_verifies [of "[(100, 1, [], None), (50, 1, [], Some (vdf_evaluate w_hash [7] 2))]" w_hash]
      clock_stream_verifies [of "[(100, 1, [], None), (50, 1, [], Some ((vdf_evaluate w_hash [7] 2)\<lparr>vdf_iterations := 1\<rparr>))]" w_hash]
    by (simp add: vdf_verify_evaluate Let_def)
qed

text \<open>
  (C16) The chain binds what its hash covers, and nothing else. Two verified chains of the same length whose tips have the same hash agree from
  genesis on in every epoch number, time, confidence, epoch hash and previous hash, unless two of their ticks are a collision of the hash.
  The delay proofs, which a tick publishes and its hash leaves out, are not bound: in a verified chain any of them can be dropped or
  replaced by any that verifies, and the chain still verifies with the same hash at its tip.
\<close>

theorem clock_chain_binding:
  assumes "verify_all blake3 xs" "verify_all blake3 ys" "length xs = length ys" "xs \<noteq> []"
    "tick_hash blake3 (last xs) = tick_hash blake3 (last ys)" "\<forall>t \<in> set (xs @ ys). tick_ok t"
    "\<forall>a \<in> set xs. \<forall>b \<in> set ys. tick_hash blake3 a = tick_hash blake3 b \<longrightarrow> tick_bytes a = tick_bytes b"
  shows "map (\<lambda>t. t\<lparr>ct_vdf_proof := None\<rparr>) xs = map (\<lambda>t. t\<lparr>ct_vdf_proof := None\<rparr>) ys \<and>
    (\<forall>ps. length ps = length xs \<and> list_all (delay_ok blake3) ps \<longrightarrow>
       verify_all blake3 (with_proofs ps xs) \<and> tick_hash blake3 (last (with_proofs ps xs)) = tick_hash blake3 (last xs))"
proof
  have "map public xs = map public ys" by (rule chain_binding [OF assms])
  then show "map (\<lambda>t. t\<lparr>ct_vdf_proof := None\<rparr>) xs = map (\<lambda>t. t\<lparr>ct_vdf_proof := None\<rparr>) ys"
    by (auto simp: list_eq_iff_nth_eq public_def intro!: clock_tick.equality epoch.expand)
  show "\<forall>ps. length ps = length xs \<and> list_all (delay_ok blake3) ps \<longrightarrow>
       verify_all blake3 (with_proofs ps xs) \<and> tick_hash blake3 (last (with_proofs ps xs)) = tick_hash blake3 (last xs)"
    using with_proofs_verifies [OF assms(1,4)] by blast
qed

text \<open>A chain of genesis and two ticks, for a hash that keeps the first 32 bytes.\<close>

definition w_chain :: "vdf_proof option \<Rightarrow> clock_stream" where
  "w_chain vdf = emits (take 32) [(100, 1, replicate 32 0, vdf), (200, 1, replicate 32 0, vdf)] clock_stream_new"

definition w_tick :: "u64 \<Rightarrow> u64 \<Rightarrow> bytes \<Rightarrow> vdf_proof option \<Rightarrow> clock_tick" where
  "w_tick e t prev vdf = \<lparr>ct_epoch = Epoch e, network_time_nanos = t, confidence_nanos = 1, ct_epoch_hash = replicate 32 0,
     ct_prev_hash = prev, ct_vdf_proof = vdf\<rparr>"

definition w_prev :: bytes where "w_prev = tick_hash (take 32) genesis"

lemma w_chain_ticks:
  "w_chain vdf = [genesis, w_tick 1 100 w_prev vdf, w_tick 2 200 (tick_hash (take 32) (w_tick 1 100 w_prev None)) vdf]"
proof -
  have "tick_hash (take 32) (w_tick 1 100 w_prev vdf) = tick_hash (take 32) (w_tick 1 100 w_prev None)"
    by (simp add: tick_hash_def tick_bytes_def w_tick_def)
  then show ?thesis
    by (simp add: w_chain_def emits_def stream_emit_def clock_stream_new_def stream_latest_def Let_def w_prev_def genesis_def
        epoch_next_def w_tick_def max_def word_le_nat_alt)
qed

lemma w_chain_sound:
  assumes "delay_ok (take 32) vdf"
  shows "verify_all (take 32) (w_chain vdf) \<and> (\<forall>t \<in> set (w_chain vdf). tick_ok t)"
proof -
  have new: "stream_shape clock_stream_new" "verify_all (take 32) clock_stream_new" using stream_new_ok by (simp_all add: stream_ok_shape)
  have "verify_all (take 32) (w_chain vdf)"
    using emits_shape [OF new(1), of "[(100, 1, replicate 32 0, vdf), (200, 1, replicate 32 0, vdf)]" "take 32"] assms new(2)
    by (simp add: w_chain_def clock_stream_new_def genesis_def)
  moreover have "tick_ok genesis" "length w_prev = 32" by (simp_all add: tick_ok_def genesis_def w_prev_def tick_hash_def tick_bytes_def)
  moreover from this have "length (tick_hash (take 32) (w_tick 1 100 w_prev None)) = 32" by (simp add: tick_hash_def tick_bytes_def w_tick_def)
  ultimately show ?thesis by (simp add: w_chain_ticks) (simp add: tick_ok_def w_tick_def)
qed

lemma take_hash_inj: "take 32 (tick_bytes a) = take 32 (tick_bytes b) \<Longrightarrow> ct_epoch a = ct_epoch b"
proof -
  assume "take 32 (tick_bytes a) = take 32 (tick_bytes b)"
  then have "take 8 (take 32 (tick_bytes a)) = take 8 (take 32 (tick_bytes b))" by simp
  then show ?thesis by (simp add: tick_bytes_def epoch.expand)
qed

theorem clock_chain_binding_witness:
  "let xs = w_chain (Some (vdf_evaluate (take 32) [7] 2)); ys = w_chain None in
   map (\<lambda>t. t\<lparr>ct_vdf_proof := None\<rparr>) xs = map (\<lambda>t. t\<lparr>ct_vdf_proof := None\<rparr>) ys \<and> length xs = 3 \<and> xs \<noteq> ys \<and>
   verify_all (take 32) (with_proofs [None, None, None] xs)"
proof -
  let ?xs = "w_chain (Some (vdf_evaluate (take 32) [7] 2))" and ?ys = "w_chain None"
  have s: "verify_all (take 32) ?xs \<and> (\<forall>t \<in> set ?xs. tick_ok t)" "verify_all (take 32) ?ys \<and> (\<forall>t \<in> set ?ys. tick_ok t)"
    by (rule w_chain_sound, simp add: delay_ok_def vdf_verify_evaluate)+
  have l: "length ?xs = 3" "length ?ys = 3" "?xs \<noteq> ?ys" by (simp_all add: w_chain_ticks) (simp add: w_tick_def)
  have h: "tick_hash (take 32) (last ?xs) = tick_hash (take 32) (last ?ys)" by (simp add: w_chain_ticks tick_hash_def tick_bytes_def w_tick_def)
  have c: "\<forall>a \<in> set ?xs. \<forall>b \<in> set ?ys. tick_hash (take 32) a = tick_hash (take 32) b \<longrightarrow> tick_bytes a = tick_bytes b"
    by (auto simp: tick_hash_def w_chain_ticks dest!: take_hash_inj) (simp_all add: tick_bytes_def w_tick_def genesis_def)
  have "length ?xs = length ?ys" "?xs \<noteq> []" "\<forall>t \<in> set (?xs @ ?ys). tick_ok t" using s l by (simp_all add: w_chain_ticks)
  from clock_chain_binding [OF _ _ this(1,2) h this(3) c] s l show ?thesis by (simp add: Let_def delay_ok_def)
qed

text \<open>
  The last nanosecond cannot be followed. After a tick at the largest 64-bit time, the successor time
  wraps to zero, so any smaller time is published as it is and the stream no longer verifies.
\<close>

theorem stream_time_wraps:
  assumes "s \<noteq> []" "network_time_nanos (stream_latest s) = - 1" "t \<noteq> - 1"
  shows "network_time_nanos (stream_latest (stream_emit blake3 t conf eh vdf s)) = t \<and> \<not> verify_all blake3 (stream_emit blake3 t conf eh vdf s)"
proof -
  have "max t (network_time_nanos (stream_latest s) + 1) = t" using assms(2) by (simp add: max_def)
  moreover have "t < network_time_nanos (stream_latest s)" using assms(2,3) word_order.not_eq_extremum [of t] by simp
  ultimately show ?thesis using assms(1) by (simp add: stream_emit_def Let_def stream_latest_def verify_all_snoc verify_chain_def)
qed

theorem stream_time_wraps_witness:
  "\<not> verify_all w_hash (stream_emit w_hash 5 1 [] None (stream_emit w_hash (- 1) 1 [] None clock_stream_new))"
proof -
  let ?s = "stream_emit w_hash (- 1) 1 [] None clock_stream_new"
  have "max (- 1) x = (- 1 :: u64)" for x by (simp add: max_def word_order.extremum_unique)
  then have "?s \<noteq> []" "network_time_nanos (stream_latest ?s) = - 1" by (simp_all add: stream_emit_def stream_latest_def Let_def)
  from stream_time_wraps [OF this, of 5 w_hash 1 "[]" None] show ?thesis by simp
qed

text \<open>
  (C38) A beacon's proof is not tied to its identity. Whoever holds one beacon that a store accepts can
  publish any data under any other blinded identity with the same proof: the store checks that the proof
  verifies for the commitment inside it, never that this is the beacon's own commitment.
\<close>

theorem beacon_proof_reusable:
  assumes "snd (layer1_insert sha512 blake3 R b s)" "b_proof_of_identity b' = b_proof_of_identity b"
    "\<forall>x \<in> set t. beacon_key blake3 x \<noteq> beacon_key blake3 b'"
  shows "layer1_insert sha512 blake3 R b' t = (t @ [b'], True)"
  using assms by (auto simp: layer1_insert_def verify_identity_def split: if_splits)

definition w_beacon :: layer1_beacon where
  "w_beacon = (let s = blinding_secret_new w_ristretto [9] (NodeId (replicate 32 7)) (Epoch 1) in
     \<lparr>b_blinded_id = blind w_hash w_ristretto s, b_epoch = Epoch 1, b_coordinates = \<lparr>position = coords_origin, co_error = Fin 1\<rparr>,
      b_clock_offset = Fin 0, b_clock_drift = Fin 0, b_uncertainty = Fin 0, b_peer_count = 0, b_consistency_score = Fin 1,
      b_proof_of_identity = prove_knowledge w_hash w_hash w_ristretto [3] [4] s, b_proof_of_peer_count = None, b_geoid_coord = None\<rparr>)"

lemma w_beacon_verifies: "verify_identity w_hash w_hash w_ristretto w_beacon"
  by (simp add: verify_identity_def w_beacon_def Let_def prove_verifies [OF w_ristretto_ok])

theorem beacon_proof_reusable_witness:
  "snd (layer1_insert w_hash w_hash w_ristretto (w_beacon\<lparr>b_blinded_id := \<lparr>bi_commitment = [99], bi_epoch = Epoch 1\<rparr>\<rparr>) layer1_new)"
proof -
  have "snd (layer1_insert w_hash w_hash w_ristretto w_beacon layer1_new)"
    by (simp add: layer1_insert_def layer1_new_def w_beacon_verifies)
  from beacon_proof_reusable [OF this, of "w_beacon\<lparr>b_blinded_id := \<lparr>bi_commitment = [99], bi_epoch = Epoch 1\<rparr>\<rparr>" layer1_new]
  show ?thesis by (simp add: layer1_new_def)
qed

end
