(* ===== verification/Geoid.thy ===== *)
theory Geoid
  imports Layers
begin

text \<open>
  \<open>rtfsn-core/src/geoid\<close>: the hierarchy of regions built from beacons (\<open>model.rs\<close>, \<open>coarsen.rs\<close>), a node's
  place in it (\<open>embedding.rs\<close>) and its use from epoch to epoch (\<open>circulation.rs\<close>). Random bytes come from a
  source \<open>rng\<close> of 64-byte seeds; a function that draws takes the number of the next seed and returns
  it with its result.
\<close>

type_synonym seeds = "nat \<Rightarrow> bytes"

fun draw_map :: "('a \<Rightarrow> nat \<Rightarrow> 'b \<times> nat) \<Rightarrow> 'a list \<Rightarrow> nat \<Rightarrow> 'b list \<times> nat" where
  "draw_map f [] k = ([], k)"
| "draw_map f (x # xs) k = (let (y, k1) = f x k; (ys, k2) = draw_map f xs k1 in (y # ys, k2))"

section \<open>The model\<close>

datatype region_id = RegionId (region_bytes: bytes)

definition region_from_centroid :: "hash \<Rightarrow> coordinates \<Rightarrow> u8 \<Rightarrow> epoch \<Rightarrow> region_id" where
  "region_from_centroid blake3 c level e = RegionId (blake3 (concat (map f64_le (dims c)) @ [level] @ u64_le (epoch_no e)))"

definition region_from_merge :: "hash \<Rightarrow> region_id list \<Rightarrow> region_id" where
  "region_from_merge blake3 ids = RegionId (blake3 (concat (map region_bytes ids)))"

record committed_latency_profile =
  committed_mean :: serializable_commitment
  cl_committed_variance :: serializable_commitment
  cl_sample_count :: u32

record geoid_edge =
  ge_from :: region_id
  ge_to :: region_id
  ge_profile :: committed_latency_profile
  mean_nanos_plaintext :: i64

record geoid_region =
  gr_id :: region_id
  gr_centroid :: coordinates
  gr_radius :: f64
  gr_member_count :: u32
  intra_latency :: committed_latency_profile
  child_region_ids :: "region_id list"
  inter_edges :: "geoid_edge list"
  geoid_residual :: f64

record geoid_layer =
  gl_level :: u8
  resolution_nanos :: u64
  gl_regions :: "geoid_region list"
  gl_epoch :: epoch

record network_geoid =
  ng_layers :: "geoid_layer list"
  ng_epoch :: epoch
  refinement_generation :: u64
  ng_prev_hash :: bytes

definition find_region :: "geoid_layer \<Rightarrow> region_id \<Rightarrow> geoid_region option" where
  "find_region l i = List.find (\<lambda>r. gr_id r = i) (gl_regions l)"

text \<open>\<open>min_by\<close> keeps the earlier of two regions unless its distance compares greater (not so for NaN).\<close>

definition assign_region :: "geoid_layer \<Rightarrow> coordinates \<Rightarrow> region_id option" where
  "assign_region l c = (case gl_regions l of [] \<Rightarrow> None | r # rs \<Rightarrow> Some (gr_id (foldl (\<lambda>a b.
     if flt (coords_distance (gr_centroid b) c) (coords_distance (gr_centroid a) c) then b else a) r rs)))"

definition geoid_new :: "epoch \<Rightarrow> network_geoid" where
  "geoid_new e = \<lparr>ng_layers = [], ng_epoch = e, refinement_generation = 0, ng_prev_hash = replicate 32 0\<rparr>"

definition geoid_depth :: "network_geoid \<Rightarrow> u8" where "geoid_depth g = of_nat (length (ng_layers g))"

definition locate :: "network_geoid \<Rightarrow> coordinates \<Rightarrow> region_id option list" where
  "locate g c = map (\<lambda>l. assign_region l c) (ng_layers g)"

definition geoid_bytes :: "network_geoid \<Rightarrow> bytes" where
  "geoid_bytes g = u64_le (epoch_no (ng_epoch g)) @ concat (map (\<lambda>l. concat (map (\<lambda>r.
     region_bytes (gr_id r) @ u32_le (gr_member_count r)) (gl_regions l))) (ng_layers g))"

definition geoid_hash :: "hash \<Rightarrow> network_geoid \<Rightarrow> bytes" where "geoid_hash blake3 g = blake3 (geoid_bytes g)"

definition layer_changes :: "geoid_layer \<Rightarrow> geoid_layer \<Rightarrow> nat" where
  "layer_changes new old =
     length (filter (\<lambda>r. case find_region old (gr_id r) of Some o' \<Rightarrow> gr_member_count o' \<noteq> gr_member_count r | None \<Rightarrow> True) (gl_regions new)) +
     length (filter (\<lambda>r. find_region new (gr_id r) = None) (gl_regions old))"

definition delta_from :: "network_geoid \<Rightarrow> network_geoid \<Rightarrow> f64" where
  "delta_from g prev =
     (if length (ng_layers g) \<noteq> length (ng_layers prev) then Fin 1
      else if ng_layers g = [] then Fin 0
      else let ls = zip (ng_layers g) (ng_layers prev);
               changed = sum_list (map (\<lambda>(n, o'). layer_changes n o') ls);
               regions = sum_list (map (\<lambda>(n, o'). max (length (gl_regions n)) (length (gl_regions o'))) ls)
           in if regions = 0 then Fin 0 else fmin (fdiv (of_usize changed) (of_usize regions)) (Fin 1))"

section \<open>Coarsening\<close>

record coarsening_operator =
  base_resolution_secs :: f64
  scale_factor :: f64
  co_levels :: u8

definition coarsener_new :: coarsening_operator where
  "coarsener_new = \<lparr>base_resolution_secs = flit (2 / 1000), scale_factor = Fin 4, co_levels = 4\<rparr>"

definition coarsener_with_levels :: "u8 \<Rightarrow> coarsening_operator" where
  "coarsener_with_levels n = coarsener_new\<lparr>co_levels := n\<rparr>"

definition commit_latency :: "hash \<Rightarrow> ('s::comm_ring_1, 'p::ab_group_add) ristretto \<Rightarrow> seeds \<Rightarrow> i64 \<Rightarrow> i64 \<Rightarrow> u32 \<Rightarrow> nat \<Rightarrow>
    committed_latency_profile \<times> nat" where
  "commit_latency sha512 R rng mean var n k =
     (\<lparr>committed_mean = serializable (commit sha512 R (scalar_of_i64 R mean) (from_bytes_mod_order_wide R (rng k))),
       cl_committed_variance = serializable (commit sha512 R (scalar_of_i64 R var) (from_bytes_mod_order_wide R (rng (k + 1)))),
       cl_sample_count = n\<rparr>, k + 2)"

text \<open>The pairs \<open>i < j\<close> of nearby regions, in the order of the two loops.\<close>

definition near_pairs :: "geoid_region list \<Rightarrow> f64 \<Rightarrow> (nat \<times> nat) list" where
  "near_pairs rs th = filter (\<lambda>(i, j). flt (coords_distance (gr_centroid (rs ! i)) (gr_centroid (rs ! j))) th)
     (concat (map (\<lambda>i. map (Pair i) [Suc i..<length rs]) [0..<length rs]))"

definition edge_pair :: "hash \<Rightarrow> ('s::comm_ring_1, 'p::ab_group_add) ristretto \<Rightarrow> seeds \<Rightarrow> geoid_region list \<Rightarrow> nat \<times> nat \<Rightarrow> nat \<Rightarrow>
    (nat \<times> geoid_edge) list \<times> nat" where
  "edge_pair sha512 R rng rs ij k = (case ij of (i, j) \<Rightarrow>
     let mean = f64_as_i64 (fmul (coords_distance (gr_centroid (rs ! i)) (gr_centroid (rs ! j))) (Fin 1000000000));
         (profile, k') = commit_latency sha512 R rng mean 0 1 k
     in ([(i, \<lparr>ge_from = gr_id (rs ! i), ge_to = gr_id (rs ! j), ge_profile = profile, mean_nanos_plaintext = mean\<rparr>),
          (j, \<lparr>ge_from = gr_id (rs ! j), ge_to = gr_id (rs ! i), ge_profile = profile, mean_nanos_plaintext = mean\<rparr>)], k'))"

definition push_edge :: "geoid_region list \<Rightarrow> nat \<times> geoid_edge \<Rightarrow> geoid_region list" where
  "push_edge rs ie = rs[fst ie := (rs ! fst ie)\<lparr>inter_edges := inter_edges (rs ! fst ie) @ [snd ie]\<rparr>]"

definition add_inter_edges :: "hash \<Rightarrow> ('s::comm_ring_1, 'p::ab_group_add) ristretto \<Rightarrow> seeds \<Rightarrow> geoid_region list \<Rightarrow> f64 \<Rightarrow> nat \<Rightarrow>
    geoid_region list \<times> nat" where
  "add_inter_edges sha512 R rng rs th k =
     (let (es, k') = draw_map (edge_pair sha512 R rng rs) (near_pairs rs th) k in (foldl push_edge rs (concat es), k'))"

record region_accum =
  ra_sum :: "f64 list"
  ra_count :: u32
  ra_offsets :: "f64 list"

definition accum_centroid :: "region_accum \<Rightarrow> coordinates" where
  "accum_centroid a = \<lparr>dims = map (\<lambda>i. fdiv (ra_sum a ! i) (of_u32 (ra_count a))) [0..<COORDINATE_DIMENSIONS]\<rparr>"

fun place_beacon :: "f64 \<Rightarrow> coordinates \<Rightarrow> f64 \<Rightarrow> region_accum list \<Rightarrow> region_accum list" where
  "place_beacon th pos off [] = [\<lparr>ra_sum = dims pos, ra_count = 1, ra_offsets = [off]\<rparr>]"
| "place_beacon th pos off (a # as) =
     (if flt (coords_distance (accum_centroid a) pos) th
      then a\<lparr>ra_sum := map (\<lambda>i. fadd (ra_sum a ! i) (dims pos ! i)) [0..<COORDINATE_DIMENSIONS], ra_count := ra_count a + 1,
             ra_offsets := ra_offsets a @ [off]\<rparr> # as
      else a # place_beacon th pos off as)"

definition leaf_accums :: "f64 \<Rightarrow> layer1_beacon list \<Rightarrow> region_accum list" where
  "leaf_accums th bs = foldl (\<lambda>as b. place_beacon th (position (b_coordinates b)) (b_clock_offset b) as) [] bs"

definition leaf_region :: "hash \<Rightarrow> hash \<Rightarrow> ('s::comm_ring_1, 'p::ab_group_add) ristretto \<Rightarrow> seeds \<Rightarrow> f64 \<Rightarrow> epoch \<Rightarrow> region_accum \<Rightarrow> nat \<Rightarrow>
    geoid_region \<times> nat" where
  "leaf_region sha512 blake3 R rng th e a k =
     (let c = accum_centroid a; offs = ra_offsets a;
          mean = (if offs = [] then 0 else f64_as_i64 (fmul (mean_f64 offs) (Fin 1000000000)));
          var = (if 1 < length offs then f64_as_i64 (fmul (variance_f64 offs) (Fin 1000000000000000000)) else 0);
          (profile, k') = commit_latency sha512 R rng mean var (ra_count a) k;
          residual = (if 1 < length offs
            then fdiv (fsum (map (\<lambda>x. fabs (fsub x (mean_f64 offs))) offs)) (of_usize (length offs)) else Fin 0)
      in (\<lparr>gr_id = region_from_centroid blake3 c 0 e, gr_centroid = c, gr_radius = fdiv th (Fin 2), gr_member_count = ra_count a,
           intra_latency = profile, child_region_ids = [], inter_edges = [], geoid_residual = residual\<rparr>, k'))"

definition build_leaf_layer :: "hash \<Rightarrow> hash \<Rightarrow> ('s::comm_ring_1, 'p::ab_group_add) ristretto \<Rightarrow> seeds \<Rightarrow> coarsening_operator \<Rightarrow>
    layer1_beacon list \<Rightarrow> epoch \<Rightarrow> nat \<Rightarrow> geoid_layer \<times> nat" where
  "build_leaf_layer sha512 blake3 R rng op bs e k =
     (let th = base_resolution_secs op;
          (rs, k1) = draw_map (leaf_region sha512 blake3 R rng th e) (leaf_accums th bs) k;
          (rs', k2) = add_inter_edges sha512 R rng rs (fmul th (Fin 3)) k1
      in (\<lparr>gl_level = 0, resolution_nanos = f64_as_u64 (fmul th (Fin 1000000000)), gl_regions = rs', gl_epoch = e\<rparr>, k2))"

text \<open>The two loops of \<open>coarsen_layer\<close> over the flags \<open>merged\<close>: the groups of indices merged together.\<close>

fun group_loop :: "(nat \<Rightarrow> nat \<Rightarrow> bool) \<Rightarrow> nat \<Rightarrow> nat list \<Rightarrow> bool list \<Rightarrow> nat list list" where
  "group_loop near n [] merged = []"
| "group_loop near n (i # ks) merged =
     (if merged ! i then group_loop near n ks merged
      else let js = filter (\<lambda>j. \<not> merged ! j \<and> near i j) [Suc i..<n]
           in (i # js) # group_loop near n ks (foldl (\<lambda>m j. m[j := True]) merged (i # js)))"

definition merge_regions :: "hash \<Rightarrow> hash \<Rightarrow> ('s::comm_ring_1, 'p::ab_group_add) ristretto \<Rightarrow> seeds \<Rightarrow> u8 \<Rightarrow> epoch \<Rightarrow> geoid_region list \<Rightarrow> nat \<Rightarrow>
    geoid_region \<times> nat" where
  "merge_regions sha512 blake3 R rng level e rs k =
     (let members = sum_list (map gr_member_count rs);
          weight_sum = of_u32 members;
          c = \<lparr>dims = foldl (\<lambda>ds r. let w = fdiv (of_u32 (gr_member_count r)) (fmax weight_sum (Fin 1))
                in map (\<lambda>i. fadd (ds ! i) (fmul (dims (gr_centroid r) ! i) w)) [0..<COORDINATE_DIMENSIONS])
                (replicate COORDINATE_DIMENSIONS (Fin 0)) rs\<rparr>;
          radius = foldl fmax (Fin 0) (map (\<lambda>r. fadd (coords_distance (gr_centroid r) c) (gr_radius r)) rs);
          (profile, k') = commit_latency sha512 R rng 0 0 members k
      in (\<lparr>gr_id = region_from_centroid blake3 c level e, gr_centroid = c, gr_radius = radius, gr_member_count = members,
           intra_latency = profile, child_region_ids = map gr_id rs, inter_edges = [],
           geoid_residual = foldl fmax (Fin 0) (map geoid_residual rs)\<rparr>, k'))"

definition coarsen_layer :: "hash \<Rightarrow> hash \<Rightarrow> ('s::comm_ring_1, 'p::ab_group_add) ristretto \<Rightarrow> seeds \<Rightarrow> coarsening_operator \<Rightarrow>
    geoid_layer \<Rightarrow> epoch \<Rightarrow> nat \<Rightarrow> geoid_layer \<times> nat" where
  "coarsen_layer sha512 blake3 R rng op l e k =
     (let next_level = gl_level l + 1;
          th = fmul (base_resolution_secs op) (fpowi (scale_factor op) (unat next_level));
          rs = gl_regions l; n = length rs;
          groups = group_loop (\<lambda>i j. flt (coords_distance (gr_centroid (rs ! i)) (gr_centroid (rs ! j))) th) n [0..<n] (replicate n False);
          (supers, k1) = draw_map (\<lambda>g. merge_regions sha512 blake3 R rng next_level e (map ((!) rs) g)) groups k;
          (supers', k2) = add_inter_edges sha512 R rng supers (fmul th (Fin 3)) k1
      in (\<lparr>gl_level = next_level, resolution_nanos = f64_as_u64 (fmul th (Fin 1000000000)), gl_regions = supers', gl_epoch = e\<rparr>, k2))"

fun coarsen_loop :: "hash \<Rightarrow> hash \<Rightarrow> ('s::comm_ring_1, 'p::ab_group_add) ristretto \<Rightarrow> seeds \<Rightarrow> coarsening_operator \<Rightarrow> epoch \<Rightarrow> nat \<Rightarrow>
    geoid_layer list \<Rightarrow> nat \<Rightarrow> geoid_layer list \<times> nat" where
  "coarsen_loop sha512 blake3 R rng op e 0 ls k = (ls, k)"
| "coarsen_loop sha512 blake3 R rng op e (Suc m) ls k =
     (if gl_regions (last ls) = [] then (ls, k)
      else let (l, k') = coarsen_layer sha512 blake3 R rng op (last ls) e k
           in coarsen_loop sha512 blake3 R rng op e m (ls @ [l]) k')"

definition build_hierarchy :: "hash \<Rightarrow> hash \<Rightarrow> ('s::comm_ring_1, 'p::ab_group_add) ristretto \<Rightarrow> seeds \<Rightarrow> coarsening_operator \<Rightarrow>
    layer1_beacon list \<Rightarrow> epoch \<Rightarrow> nat \<Rightarrow> network_geoid \<times> nat" where
  "build_hierarchy sha512 blake3 R rng op bs e k =
     (if bs = [] then (geoid_new e, k)
      else let (leaf, k1) = build_leaf_layer sha512 blake3 R rng op bs e k;
               (ls, k2) = coarsen_loop sha512 blake3 R rng op e (unat (co_levels op) - 1) [leaf] k1;
               h = blake3 (u64_le (epoch_no e) @ concat (map (\<lambda>l. concat (map (region_bytes \<circ> gr_id) (gl_regions l))) ls))
           in (\<lparr>ng_layers = ls, ng_epoch = e, refinement_generation = 0, ng_prev_hash = h\<rparr>, k2))"

section \<open>Embedding\<close>

record geoid_coordinate =
  region_path :: "region_id list"
  intra_region_position :: coordinates
  gc_epoch :: epoch

definition from_vivaldi :: "coordinates \<Rightarrow> network_geoid \<Rightarrow> geoid_coordinate" where
  "from_vivaldi c g = \<lparr>region_path = List.map_filter (\<lambda>l. assign_region l c) (ng_layers g), intra_region_position = c, gc_epoch = ng_epoch g\<rparr>"

definition coordinate_depth :: "geoid_coordinate \<Rightarrow> nat" where "coordinate_depth c = length (region_path c)"

definition same_region_at_level :: "geoid_coordinate \<Rightarrow> geoid_coordinate \<Rightarrow> nat \<Rightarrow> bool" where
  "same_region_at_level a b level =
     (case (nth_opt (region_path a) level, nth_opt (region_path b) level) of (Some x, Some y) \<Rightarrow> x = y | _ \<Rightarrow> False)"

definition commit_region :: "hash \<Rightarrow> ('s::comm_ring_1, 'p::ab_group_add) ristretto \<Rightarrow> seeds \<Rightarrow> region_id \<Rightarrow> nat \<Rightarrow>
    (serializable_commitment \<times> bytes) \<times> nat" where
  "commit_region sha512 R rng i k =
     ((serializable (commit sha512 R (from_bytes_mod_order R (region_bytes i)) (from_bytes_mod_order_wide R (rng k))), take 32 (rng k)), k + 1)"

definition from_coordinate :: "hash \<Rightarrow> ('s::comm_ring_1, 'p::ab_group_add) ristretto \<Rightarrow> seeds \<Rightarrow> geoid_coordinate \<Rightarrow> nat \<Rightarrow>
    (committed_geoid_coordinate \<times> bytes list) \<times> nat" where
  "from_coordinate sha512 R rng c k =
     (let (cs, k') = draw_map (commit_region sha512 R rng) (region_path c) k
      in ((\<lparr>region_commitments = map fst cs, cg_epoch = gc_epoch c\<rparr>, map snd cs), k'))"

section \<open>Circulation\<close>

record refinement_hint =
  rh_epoch :: epoch
  geoid_level :: u8
  rh_region_id :: region_id
  geoid_residual_nanos :: i64
  priority :: u8
  suggested_neighbor_regions :: "region_id list"

record measurement_schedule =
  priority_regions :: "(region_id \<times> u8) list"
  min_measurements :: u32
  extra_measurements_per_priority :: u32

definition default_schedule :: measurement_schedule where
  "default_schedule = \<lparr>priority_regions = [], min_measurements = 8, extra_measurements_per_priority = 2\<rparr>"

definition total_measurements :: "measurement_schedule \<Rightarrow> u32" where
  "total_measurements s = min_measurements s + sum_list (map (\<lambda>(_, p). ucast p * extra_measurements_per_priority s) (priority_regions s))"

record circulation_manager =
  cm_geoid :: network_geoid
  coarsener :: coarsening_operator
  prev_geoid_hash :: bytes

definition circulation_new :: "epoch \<Rightarrow> circulation_manager" where
  "circulation_new e = \<lparr>cm_geoid = geoid_new e, coarsener = coarsener_new, prev_geoid_hash = replicate 32 0\<rparr>"

definition circulation_with_levels :: "epoch \<Rightarrow> u8 \<Rightarrow> circulation_manager" where
  "circulation_with_levels e n = \<lparr>cm_geoid = geoid_new e, coarsener = coarsener_with_levels n, prev_geoid_hash = replicate 32 0\<rparr>"

definition process_upward :: "hash \<Rightarrow> hash \<Rightarrow> ('s::comm_ring_1, 'p::ab_group_add) ristretto \<Rightarrow> seeds \<Rightarrow> layer1_beacon list \<Rightarrow> epoch \<Rightarrow> nat \<Rightarrow>
    circulation_manager \<Rightarrow> circulation_manager \<times> nat" where
  "process_upward sha512 blake3 R rng bs e k m =
     (let h = geoid_hash blake3 (cm_geoid m);
          (g, k') = build_hierarchy sha512 blake3 R rng (coarsener m) bs e k
      in (m\<lparr>prev_geoid_hash := h,
            cm_geoid := g\<lparr>refinement_generation := refinement_generation g + 1, ng_prev_hash := h\<rparr>\<rparr>, k'))"

definition hint_priority :: "u64 \<Rightarrow> u8 \<Rightarrow> u8" where
  "hint_priority residual level =
     (let base = (if residual \<le> 100000 then 1 else if residual \<le> 1000000 then 3 else if residual \<le> 10000000 then 5
                  else if residual \<le> 100000000 then 7 else 9)
      in min (base + (if level = 0 then 1 else 0)) 10)"

definition layer_hint :: "epoch \<Rightarrow> coordinates \<Rightarrow> geoid_layer \<Rightarrow> refinement_hint option" where
  "layer_hint e c l = Option.bind (assign_region l c) (\<lambda>i. map_option (\<lambda>r.
     let residual = f64_as_i64 (fmul (geoid_residual r) (Fin 1000000000))
     in \<lparr>rh_epoch = e, geoid_level = gl_level l, rh_region_id = i, geoid_residual_nanos = residual,
         priority = hint_priority (unsigned_abs_i64 residual) (gl_level l),
         suggested_neighbor_regions = take 3 (map ge_to (inter_edges r))\<rparr>) (find_region l i))"

definition generate_hints :: "circulation_manager \<Rightarrow> coordinates \<Rightarrow> refinement_hint list" where
  "generate_hints m c = List.map_filter (layer_hint (ng_epoch (cm_geoid m)) c) (ng_layers (cm_geoid m))"

definition apply_hints :: "refinement_hint list \<Rightarrow> measurement_schedule" where
  "apply_hints hs = default_schedule\<lparr>priority_regions :=
     sort_by (\<lambda>a b. snd b \<le> snd a) (map (\<lambda>h. (rh_region_id h, priority h)) hs)\<rparr>"

definition convergence_delta :: "hash \<Rightarrow> circulation_manager \<Rightarrow> f64" where
  "convergence_delta blake3 m =
     (if geoid_hash blake3 (cm_geoid m) = prev_geoid_hash m then Fin 0
      else if prev_geoid_hash m = replicate 32 0 then Fin 1 else Fin (1 / 2))"

section \<open>What coarsening conserves\<close>

lemma length_draw_map [simp]: "length (fst (draw_map f xs k)) = length xs"
  by (induction xs arbitrary: k) (auto simp: case_prod_unfold Let_def)

lemma draw_map_image:
  assumes "\<And>x k. x \<in> set xs \<Longrightarrow> g (fst (f x k)) = h x"
  shows "map g (fst (draw_map f xs k)) = map h xs"
  using assms by (induction xs arbitrary: k) (auto simp: case_prod_unfold Let_def)

lemma push_edges_image:
  assumes "\<And>r es. g (r\<lparr>inter_edges := es\<rparr>) = g r"
  shows "map g (foldl push_edge rs ies) = map g rs"
proof (induction ies arbitrary: rs)
  case (Cons ie ies)
  have "map g (push_edge rs ie) = map g rs"
  proof (cases "fst ie < length rs")
    case True
    then show ?thesis by (simp add: push_edge_def map_update assms list_update_same_conv)
  qed (simp add: push_edge_def list_update_beyond)
  then show ?case using Cons by simp
qed simp

lemma add_inter_edges_image:
  assumes "\<And>r es. g (r\<lparr>inter_edges := es\<rparr>) = g r"
  shows "map g (fst (add_inter_edges sha512 R rng rs th k)) = map g rs"
  using push_edges_image [OF assms] by (simp add: add_inter_edges_def case_prod_unfold Let_def)

lemma set_flags: "length (foldl (\<lambda>m j. m[j := True]) merged js) = length merged \<and>
   (i < length merged \<longrightarrow> foldl (\<lambda>m j. m[j := True]) merged js ! i = (merged ! i \<or> i \<in> set js))"
proof (induction js arbitrary: merged)
  case (Cons a js)
  then show ?case by (cases "a < length merged") (auto simp: nth_list_update list_update_beyond)
qed simp

lemma group_loop_partition:
  assumes "length merged = n" "i \<le> n"
  shows "mset (concat (group_loop near n [i..<n] merged)) = mset (filter (\<lambda>j. \<not> merged ! j) [i..<n])"
  using assms
proof (induction "n - i" arbitrary: i merged)
  case (Suc d)
  then have up: "[i..<n] = i # [Suc i..<n]" by (simp add: upt_conv_Cons)
  show ?case
  proof (cases "merged ! i")
    case True
    then show ?thesis using Suc by (simp add: up)
  next
    case False
    let ?js = "filter (\<lambda>j. \<not> merged ! j \<and> near i j) [Suc i..<n]"
    let ?m = "foldl (\<lambda>m j. m[j := True]) merged (i # ?js)"
    have m: "length ?m = n" "\<And>j. j < n \<Longrightarrow> ?m ! j = (merged ! j \<or> j \<in> set (i # ?js))"
      using set_flags [of merged "i # ?js"] Suc.prems by auto
    have "filter (\<lambda>j. \<not> ?m ! j) [Suc i..<n] = filter (\<lambda>j. \<not> merged ! j \<and> \<not> near i j) [Suc i..<n]"
      by (rule filter_cong) (use m in auto)
    moreover have "mset (concat (group_loop near n [Suc i..<n] ?m)) = mset (filter (\<lambda>j. \<not> ?m ! j) [Suc i..<n])"
      using Suc by (intro Suc.hyps(1)) (use m in auto)
    moreover have "mset (filter (\<lambda>j. \<not> merged ! j \<and> near i j) xs) + mset (filter (\<lambda>j. \<not> merged ! j \<and> \<not> near i j) xs) =
        mset (filter (\<lambda>j. \<not> merged ! j) xs)" for xs by (induction xs) auto
    ultimately have "mset ?js + mset (concat (group_loop near n [Suc i..<n] ?m)) = mset (filter (\<lambda>j. \<not> merged ! j) [Suc i..<n])"
      by (simp only:)
    moreover have "concat (group_loop near n (i # [Suc i..<n]) merged) = i # ?js @ concat (group_loop near n [Suc i..<n] ?m)"
      using False by (simp only: group_loop.simps if_False Let_def concat.simps append_Cons)
    moreover have "filter (\<lambda>j. \<not> merged ! j) (i # [Suc i..<n]) = i # filter (\<lambda>j. \<not> merged ! j) [Suc i..<n]"
      using False by (simp only: filter.simps not_False_eq_True if_True)
    ultimately show ?thesis unfolding up by (simp only: mset.simps mset_append)
  qed
qed simp

lemma group_loop_all: "mset (concat (group_loop near n [0..<n] (replicate n False))) = mset [0..<n]"
proof -
  have "filter (\<lambda>j. \<not> replicate n False ! j) [0..<n] = [0..<n]" by (rule filter_True) simp
  then show ?thesis using group_loop_partition [of "replicate n False" n 0 near] by simp
qed


definition members :: "geoid_layer \<Rightarrow> u32" where "members l = sum_list (map gr_member_count (gl_regions l))"

definition coarser :: "geoid_layer \<Rightarrow> geoid_layer \<Rightarrow> bool" where
  "coarser f c = (mset (concat (map child_region_ids (gl_regions c))) = mset (map gr_id (gl_regions f)) \<and>
     length (gl_regions c) \<le> length (gl_regions f))"

lemma place_beacon_counts: "sum_list (map ra_count (place_beacon th pos off as)) = sum_list (map ra_count as) + 1"
  by (induction as) (simp_all add: algebra_simps)

lemma leaf_accums_counts: "sum_list (map ra_count (leaf_accums th bs)) = of_nat (length bs)"
proof (induction bs rule: rev_induct)
  case (snoc b bs)
  then show ?case by (simp add: leaf_accums_def place_beacon_counts add.commute)
qed (simp add: leaf_accums_def)

lemma place_beacon_nonempty: "place_beacon th pos off as \<noteq> []" by (cases as) auto

lemma leaf_accums_nonempty: "bs \<noteq> [] \<Longrightarrow> leaf_accums th bs \<noteq> []"
  by (cases bs rule: rev_cases) (simp_all add: leaf_accums_def place_beacon_nonempty)

lemma leaf_layer_ok:
  assumes "bs \<noteq> []"
  shows "members (fst (build_leaf_layer sha512 blake3 R rng op bs e k)) = of_nat (length bs)"
    and "gl_level (fst (build_leaf_layer sha512 blake3 R rng op bs e k)) = 0"
    and "gl_regions (fst (build_leaf_layer sha512 blake3 R rng op bs e k)) \<noteq> []"
proof -
  let ?th = "base_resolution_secs op"
  let ?d = "draw_map (leaf_region sha512 blake3 R rng ?th e) (leaf_accums ?th bs) k"
  let ?rs = "gl_regions (fst (build_leaf_layer sha512 blake3 R rng op bs e k))"
  have "map gr_member_count ?rs = map gr_member_count (fst ?d)"
    by (simp add: build_leaf_layer_def case_prod_unfold Let_def add_inter_edges_image)
  also have "\<dots> = map ra_count (leaf_accums ?th bs)"
    by (rule draw_map_image) (simp add: leaf_region_def case_prod_unfold Let_def)
  finally have m: "map gr_member_count ?rs = map ra_count (leaf_accums ?th bs)" .
  then show "members (fst (build_leaf_layer sha512 blake3 R rng op bs e k)) = of_nat (length bs)"
    by (simp add: members_def leaf_accums_counts)
  show "?rs \<noteq> []" using m leaf_accums_nonempty [OF assms] by (metis list.map_disc_iff)
qed (simp add: build_leaf_layer_def case_prod_unfold Let_def)

lemma group_loop_heads: "[] \<notin> set (group_loop near n ks merged)"
  by (induction near n ks merged rule: group_loop.induct) (auto simp: Let_def)

lemma length_le_concat: "[] \<notin> set xss \<Longrightarrow> length xss \<le> length (concat xss)"
proof (induction xss)
  case (Cons xs xss)
  then show ?case by (cases xs) auto
qed simp

lemma sum_list_concat_map: "sum_list (map (\<lambda>g. sum_list (map f g)) gs) = (sum_list (map f (concat gs)) :: 'b::comm_monoid_add)"
  by (induction gs) (simp_all)

lemma sum_list_mset_cong: "mset xs = mset ys \<Longrightarrow> sum_list (map f xs) = (sum_list (map f ys) :: 'b::comm_monoid_add)"
  by (metis mset_map sum_mset_sum_list)

lemma coarsen_layer_ok:
  assumes "gl_regions l \<noteq> []"
  shows "members (fst (coarsen_layer sha512 blake3 R rng op l e k)) = members l"
    and "gl_level (fst (coarsen_layer sha512 blake3 R rng op l e k)) = gl_level l + 1"
    and "coarser l (fst (coarsen_layer sha512 blake3 R rng op l e k))"
    and "gl_regions (fst (coarsen_layer sha512 blake3 R rng op l e k)) \<noteq> []"
proof -
  let ?rs = "gl_regions l" and ?c = "fst (coarsen_layer sha512 blake3 R rng op l e k)"
  let ?n = "length ?rs"
  define th where "th = fmul (base_resolution_secs op) (fpowi (scale_factor op) (unat (gl_level l + 1)))"
  define groups where "groups = group_loop (\<lambda>i j. flt (coords_distance (gr_centroid (?rs ! i)) (gr_centroid (?rs ! j))) th) ?n
    [0..<?n] (replicate ?n False)"
  have all: "mset (concat groups) = mset [0..<?n]" unfolding groups_def by (rule group_loop_all)
  let ?d = "draw_map (\<lambda>g. merge_regions sha512 blake3 R rng (gl_level l + 1) e (map ((!) ?rs) g)) groups k"
  have c: "gl_regions ?c = fst (add_inter_edges sha512 R rng (fst ?d) (fmul th (Fin 3)) (snd ?d))"
    by (simp add: coarsen_layer_def case_prod_unfold Let_def th_def groups_def)
  have counts: "map gr_member_count (gl_regions ?c) = map (\<lambda>g. sum_list (map gr_member_count (map ((!) ?rs) g))) groups"
    unfolding c add_inter_edges_image [of gr_member_count, simplified]
    by (rule draw_map_image) (simp add: merge_regions_def case_prod_unfold Let_def)
  have children: "map child_region_ids (gl_regions ?c) = map (\<lambda>g. map gr_id (map ((!) ?rs) g)) groups"
    unfolding c add_inter_edges_image [of child_region_ids, simplified]
    by (rule draw_map_image) (simp add: merge_regions_def case_prod_unfold Let_def)
  have "members ?c = sum_list (map (\<lambda>g. sum_list (map (gr_member_count \<circ> (!) ?rs) g)) groups)"
    by (simp only: members_def counts map_map)
  also have "\<dots> = sum_list (map (gr_member_count \<circ> (!) ?rs) [0..<?n])"
    by (simp only: sum_list_concat_map sum_list_mset_cong [OF all])
  also have "\<dots> = members l" by (simp only: members_def map_map [symmetric] map_nth)
  finally show "members ?c = members l" .
  have "concat (map child_region_ids (gl_regions ?c)) = map (gr_id \<circ> (!) ?rs) (concat groups)"
    by (simp only: children map_concat map_map comp_def)
  also have "mset \<dots> = mset (map (gr_id \<circ> (!) ?rs) [0..<?n])" by (simp only: mset_map all)
  also have "map (gr_id \<circ> (!) ?rs) [0..<?n] = map gr_id ?rs" by (simp only: map_map [symmetric] map_nth)
  finally have "mset (concat (map child_region_ids (gl_regions ?c))) = mset (map gr_id ?rs)" .
  moreover have len: "length (gl_regions ?c) = length groups" using counts by (metis length_map)
  moreover have "length groups \<le> length (concat groups)" by (rule length_le_concat) (simp add: groups_def group_loop_heads)
  moreover have "length (concat groups) = ?n" using all by (metis length_upt minus_nat.diff_0 size_mset)
  ultimately show "coarser l ?c" by (simp add: coarser_def)
  show "gl_regions ?c \<noteq> []" using \<open>length (concat groups) = ?n\<close> len assms by auto
qed (simp add: coarsen_layer_def case_prod_unfold Let_def)

definition hierarchy_ok :: "nat \<Rightarrow> geoid_layer list \<Rightarrow> bool" where
  "hierarchy_ok n ls = (map members ls = replicate (length ls) (of_nat n) \<and> map gl_level ls = map of_nat [0..<length ls] \<and>
     successively coarser ls)"

lemma coarsen_loop_ok:
  assumes "ls \<noteq> []" "hierarchy_ok n ls" "gl_regions (last ls) \<noteq> []"
  shows "hierarchy_ok n (fst (coarsen_loop sha512 blake3 R rng op e m ls k)) \<and>
    length (fst (coarsen_loop sha512 blake3 R rng op e m ls k)) = length ls + m"
  using assms
proof (induction m arbitrary: ls k)
  case (Suc m)
  let ?l = "fst (coarsen_layer sha512 blake3 R rng op (last ls) e k)"
  note ok = coarsen_layer_ok [OF Suc.prems(3), of sha512 blake3 R rng op e k]
  let ?i = "length ls - 1"
  have "map members ls ! ?i = replicate (length ls) (of_nat n) ! ?i" "map gl_level ls ! ?i = map of_nat [0..<length ls] ! ?i"
    using Suc.prems(2) by (simp_all only: hierarchy_ok_def)
  then have last: "members (last ls) = of_nat n" "gl_level (last ls) + 1 = of_nat (length ls)"
    using Suc.prems(1) by (simp_all add: last_conv_nth of_nat_diff Suc_le_eq)
  have "hierarchy_ok n (ls @ [?l])"
    using Suc.prems ok(1-3) last
    by (auto simp: hierarchy_ok_def successively_append_iff replicate_append_same)
  then have "hierarchy_ok n (fst (coarsen_loop sha512 blake3 R rng op e m (ls @ [?l]) k')) \<and>
      length (fst (coarsen_loop sha512 blake3 R rng op e m (ls @ [?l]) k')) = length (ls @ [?l]) + m" for k'
    using ok(4) by (intro Suc.IH) auto
  then show ?case using Suc.prems(3) by (simp add: case_prod_unfold Let_def)
qed simp


section \<open>What the schedule asks for\<close>

lemma hint_priority_range: "hint_priority r level \<in> {1 .. 10}"
  by (simp add: hint_priority_def Let_def)

lemma layer_hint_priority: "layer_hint e c l = Some h \<Longrightarrow> priority h \<in> {1 .. 10}"
  by (auto simp: layer_hint_def Let_def bind_eq_Some_conv hint_priority_range simp del: atLeastAtMost_iff)

lemma generate_hints_priority: "h \<in> set (generate_hints m c) \<Longrightarrow> priority h \<in> {1 .. 10}"
  by (auto simp: generate_hints_def map_filter_def layer_hint_priority simp del: atLeastAtMost_iff)

lemma length_generate_hints: "length (generate_hints m c) \<le> length (ng_layers (cm_geoid m))"
  by (simp add: generate_hints_def map_filter_def)


lemma extra_sum:
  assumes "\<forall>(_, p) \<in> set ps. p \<le> (10 :: u8)" "length ps < 2 ^ 27"
  shows "unat (\<Sum>(_, p) \<leftarrow> ps. ucast p * 2 :: u32) = 2 * sum_list (map (unat \<circ> snd) ps) \<and>
    sum_list (map (unat \<circ> snd) ps) \<le> 10 * length ps"
  using assms
proof (induction ps)
  case (Cons p ps)
  obtain i q where p: "p = (i, q)" by fastforce
  have q: "unat q \<le> 10" using Cons.prems p by (simp add: word_le_nat_alt)
  moreover have "unat (ucast q :: u32) = unat q" using q by (simp add: unsigned_ucast_eq take_bit_nat_eq_self)
  ultimately have "unat (ucast q * 2 :: u32) = 2 * unat q" by (simp add: unat_word_ariths)
  then show ?case using Cons p q by (simp add: unat_word_ariths)
qed simp

lemma total_measurements_exact:
  assumes "\<forall>(_, p) \<in> set ps. p \<le> 10" "length ps < 2 ^ 27"
  shows "unat (total_measurements (default_schedule\<lparr>priority_regions := ps\<rparr>)) = 8 + 2 * sum_list (map (unat \<circ> snd) ps)"
  using extra_sum [OF assms] assms(2) by (simp add: total_measurements_def default_schedule_def unat_word_ariths)

lemma sum_unat_mset: "mset xs = mset ys \<Longrightarrow> sum_list (map (unat \<circ> snd) xs) = sum_list (map (unat \<circ> snd) ys)"
  by (rule sum_list_mset_cong)

section \<open>Properties\<close>

text \<open>
  (C17) A geoid built from beacons has exactly the configured number of layers (one at least, none without
  beacons), numbered from zero. Every layer counts every beacon exactly once, and the children of a coarser
  layer's regions are exactly the regions of the layer below, each one once.
\<close>

theorem hierarchy_conserves:
  fixes R :: "('s::comm_ring_1, 'p::ab_group_add) ristretto"
  shows "let ls = ng_layers (fst (build_hierarchy sha512 blake3 R rng op bs e k)) in
    length ls = (if bs = [] then 0 else max 1 (unat (co_levels op))) \<and>
    map (\<lambda>l. sum_list (map gr_member_count (gl_regions l))) ls = replicate (length ls) (of_nat (length bs)) \<and>
    map gl_level ls = map of_nat [0..<length ls] \<and>
    successively (\<lambda>f c. mset (concat (map child_region_ids (gl_regions c))) = mset (map gr_id (gl_regions f)) \<and>
      length (gl_regions c) \<le> length (gl_regions f)) ls"
proof (cases "bs = []")
  case False
  let ?l = "build_leaf_layer sha512 blake3 R rng op bs e k"
  note leaf = leaf_layer_ok [OF False, of sha512 blake3 R rng op e k]
  have "hierarchy_ok (length bs) [fst ?l]" using leaf by (simp add: hierarchy_ok_def)
  from coarsen_loop_ok [OF _ this, of sha512 blake3 R rng op e "unat (co_levels op) - 1" "snd ?l"] leaf(3) False
  show ?thesis
    by (simp add: build_hierarchy_def case_prod_unfold Let_def hierarchy_ok_def members_def [abs_def] coarser_def [abs_def])
qed (simp add: build_hierarchy_def geoid_new_def)

text \<open>
  The measurement schedule made from a manager's own hints lists exactly the hints, the highest priority first,
  and asks for 8 measurements and twice the sum of the priorities (each from 1 to 10), without wrap-around.
\<close>

theorem schedule_exact:
  assumes "length (ng_layers (cm_geoid m)) < 2 ^ 27"
  shows "let hs = generate_hints m c; s = apply_hints hs in
    mset (priority_regions s) = mset (map (\<lambda>h. (rh_region_id h, priority h)) hs) \<and>
    sorted_wrt (\<lambda>a b. snd b \<le> snd a) (priority_regions s) \<and>
    unat (total_measurements s) = 8 + 2 * (\<Sum>h \<leftarrow> hs. unat (priority h)) \<and>
    unat (total_measurements s) \<in> {8 + 2 * length hs .. 8 + 20 * length hs}"
proof -
  define hs where "hs = generate_hints m c"
  define ps where "ps = map (\<lambda>h. (rh_region_id h, priority h)) hs"
  let ?s = "sort_by (\<lambda>a b. snd b \<le> snd a) ps"
  have range: "priority h \<in> {1 .. 10}" if "h \<in> set hs" for h
    using that generate_hints_priority unfolding hs_def by blast
  have n: "length ?s < 2 ^ 27" using assms length_generate_hints [of m c] by (simp add: ps_def hs_def)
  have le: "\<forall>(_, p) \<in> set ?s. p \<le> 10" using range by (auto simp: ps_def)
  have sum: "sum_list (map (unat \<circ> snd) ?s) = (\<Sum>h \<leftarrow> hs. unat (priority h))"
    using sum_unat_mset [of ?s ps] by (simp add: ps_def comp_def)
  have each: "1 \<le> unat (priority h) \<and> unat (priority h) \<le> 10" if "h \<in> set hs" for h
    using range [OF that] by (simp add: word_le_nat_alt)
  have "length xs \<le> (\<Sum>h \<leftarrow> xs. unat (priority h)) \<and> (\<Sum>h \<leftarrow> xs. unat (priority h)) \<le> 10 * length xs"
    if "set xs \<subseteq> set hs" for xs
    using that by (induction xs) (use each in fastforce)+
  then have "length hs \<le> (\<Sum>h \<leftarrow> hs. unat (priority h))" "(\<Sum>h \<leftarrow> hs. unat (priority h)) \<le> 10 * length hs" by blast+
  moreover have "unat (total_measurements (apply_hints hs)) = 8 + 2 * (\<Sum>h \<leftarrow> hs. unat (priority h))"
    using total_measurements_exact [OF le n] sum by (simp add: apply_hints_def ps_def)
  moreover have "sorted_wrt (\<lambda>a b. snd b \<le> snd a) ?s"
    by (rule sorted_sort_by) (auto simp: preorder_on_list_def)
  ultimately show ?thesis by (simp add: apply_hints_def ps_def hs_def [symmetric])
qed

definition w_region :: geoid_region where
  "w_region = \<lparr>gr_id = RegionId [1], gr_centroid = \<lparr>dims = replicate 6 (Fin 0)\<rparr>, gr_radius = Fin 1, gr_member_count = 2,
     intra_latency = \<lparr>committed_mean = SerializableCommitment [], cl_committed_variance = SerializableCommitment [], cl_sample_count = 2\<rparr>,
     child_region_ids = [], inter_edges = [], geoid_residual = Fin 0\<rparr>"

definition w_manager :: circulation_manager where
  "w_manager = (circulation_new (Epoch 1))\<lparr>cm_geoid := (geoid_new (Epoch 1))\<lparr>ng_layers :=
     [\<lparr>gl_level = 0, resolution_nanos = 2000000, gl_regions = [w_region], gl_epoch = Epoch 1\<rparr>]\<rparr>\<rparr>"

lemma w_manager_hints: "length (generate_hints w_manager c) = 1"
  by (simp add: generate_hints_def w_manager_def map_filter_def layer_hint_def assign_region_def find_region_def Let_def)

theorem schedule_exact_witness:
  "let hs = generate_hints w_manager (gr_centroid w_region); s = apply_hints hs in
     length (priority_regions s) = 1 \<and> unat (total_measurements s) \<in> {10 .. 28}"
proof -
  have "length (ng_layers (cm_geoid w_manager)) < 2 ^ 27" by (simp add: w_manager_def)
  from schedule_exact [OF this, of "gr_centroid w_region"] w_manager_hints [of "gr_centroid w_region"]
  show ?thesis by (simp add: Let_def apply_hints_def)
qed

lemma geoid_bytes_epoch: "geoid_bytes g = geoid_bytes g' \<Longrightarrow> ng_epoch g = ng_epoch g'"
  by (cases "ng_epoch g"; cases "ng_epoch g'") (simp add: geoid_bytes_def)

lemma process_upward_epoch: "ng_epoch (cm_geoid (fst (process_upward sha512 blake3 R rng bs e k m))) = e"
  by (simp add: process_upward_def case_prod_unfold Let_def build_hierarchy_def geoid_new_def)

text \<open>
  What the circulation reports of its progress. After an upward pass the refinement generation is one, however
  many passes were made. In a new epoch what is hashed differs from before even when no region changed,
  so the convergence delta is zero only on a hash collision; it is otherwise one half, and one, which
  the code means for the first epoch, only when the hash of the previous geoid was all zeros.
\<close>

theorem circulation_signals:
  fixes R :: "('s::comm_ring_1, 'p::ab_group_add) ristretto"
  assumes "ng_epoch (cm_geoid m) \<noteq> e"
  shows "let m' = fst (process_upward sha512 blake3 R rng bs e k m); x = geoid_bytes (cm_geoid m); y = geoid_bytes (cm_geoid m') in
    refinement_generation (cm_geoid m') = 1 \<and> ng_prev_hash (cm_geoid m') = blake3 x \<and> x \<noteq> y \<and>
    convergence_delta blake3 m' = (if blake3 y = blake3 x then Fin 0 else if blake3 x = replicate 32 0 then Fin 1 else Fin (1 / 2))"
proof -
  have "geoid_bytes (cm_geoid m) \<noteq> geoid_bytes (cm_geoid (fst (process_upward sha512 blake3 R rng bs e k m)))"
    using geoid_bytes_epoch process_upward_epoch [of sha512 blake3 R rng bs e k m] assms by metis
  then show ?thesis
    by (simp add: process_upward_def case_prod_unfold Let_def build_hierarchy_def geoid_new_def convergence_delta_def geoid_hash_def)
qed

theorem circulation_signals_witness:
  "let m = circulation_new (Epoch 0); m' = fst (process_upward w_hash w_hash w_ristretto (\<lambda>_. replicate 64 0) [] (Epoch 1) 0 m) in
     refinement_generation (cm_geoid m') = 1 \<and> convergence_delta w_hash m' = Fin (1 / 2) \<and> ng_layers (cm_geoid m) = ng_layers (cm_geoid m')"
proof -
  have "ng_epoch (cm_geoid (circulation_new (Epoch 0))) \<noteq> Epoch 1" by (simp add: circulation_new_def geoid_new_def)
  from circulation_signals [OF this, of w_hash w_hash w_ristretto "\<lambda>_. replicate 64 0" "[]" 0]
  have "let m' = fst (process_upward w_hash w_hash w_ristretto (\<lambda>_. replicate 64 0) [] (Epoch 1) 0 (circulation_new (Epoch 0))) in
    refinement_generation (cm_geoid m') = 1 \<and> convergence_delta w_hash m' =
      (if w_hash (u64_le 1) = w_hash (u64_le 0) then Fin 0 else if w_hash (u64_le 0) = replicate 32 0 then Fin 1 else Fin (1 / 2))"
    by (simp add: Let_def geoid_bytes_def geoid_hash_def process_upward_def build_hierarchy_def circulation_new_def geoid_new_def)
  moreover have "w_hash (u64_le 1) = replicate 32 2" "w_hash (u64_le 0) = replicate 32 1" by code_simp+
  ultimately show ?thesis
    by (simp add: Let_def process_upward_def build_hierarchy_def circulation_new_def geoid_new_def)
qed

end
