(* ===== verification/Valve.thy ===== *)
theory Valve
  imports Geoid
begin

text \<open>
  \<open>rtfsn-core/src/layers/valve.rs\<close>: the passages between the layers. Random bytes come from a source of
  64-byte seeds with a counter, as in \<open>Geoid\<close>. \<open>valve_l1_to_l2\<close> walks a hash map of clusters; the order
  of that walk, which Rust leaves open, is the argument \<open>order\<close>, and all that may be assumed of it is that
  it permutes the entries.
\<close>

section \<open>Upwards\<close>

definition valve_l0_to_l1 :: "hash \<Rightarrow> hash \<Rightarrow> ('s::comm_ring_1, 'p::ab_group_add) ristretto \<Rightarrow> seeds \<Rightarrow> layer0_store \<Rightarrow> epoch \<Rightarrow>
    's blinding_secret \<Rightarrow> nat \<Rightarrow> layer1_beacon option \<times> nat" where
  "valve_l0_to_l1 sha512 blake3 R rng s e secret k = (case l0_get_epoch s e of
       None \<Rightarrow> (None, k)
     | Some entry \<Rightarrow>
         let sol = l0_solve entry;
             peer_proof = (if ls_peer_count sol > 0
               then Some \<lparr>claimed_count = of_nat (ls_peer_count sol),
                          pcp_merkle_root = digest (merkle_from_items blake3 (map (id_bytes \<circ> mr_peer) (l0_measurements entry)))\<rparr>
               else None)
         in (Some \<lparr>b_blinded_id = blind sha512 R secret, b_epoch = e, b_coordinates = ls_coordinates sol,
                   b_clock_offset = ls_clock_offset sol, b_clock_drift = ls_clock_drift sol, b_uncertainty = ls_uncertainty sol,
                   b_peer_count = of_nat (ls_peer_count sol),
                   b_consistency_score = fdiv (Fin 1) (fadd (Fin 1) (ls_uncertainty sol)),
                   b_proof_of_identity = prove_knowledge sha512 blake3 R (rng k) (rng (k + 1)) secret,
                   b_proof_of_peer_count = peer_proof, b_geoid_coord = None\<rparr>, k + 2))"

type_synonym grid_clusters = "(i64 list, f64 list) hashmap"

definition grid_key :: "f64 \<Rightarrow> layer1_beacon \<Rightarrow> i64 list" where
  "grid_key grid b = map (\<lambda>d. f64_as_i64 (ffloor (fdiv d grid))) (dims (position (b_coordinates b)))"

text \<open>\<open>entry(key).or_default().push(offset)\<close>\<close>

definition push_offset :: "f64 \<Rightarrow> grid_clusters \<Rightarrow> layer1_beacon \<Rightarrow> grid_clusters" where
  "push_offset grid m b =
     AList.update (grid_key grid b) ((case map_of m (grid_key grid b) of None \<Rightarrow> [] | Some os \<Rightarrow> os) @ [b_clock_offset b]) m"

definition grid_clusters_of :: "f64 \<Rightarrow> layer1_beacon list \<Rightarrow> grid_clusters" where
  "grid_clusters_of grid bs = foldl (push_offset grid) [] bs"

fun aggregate_all :: "hash \<Rightarrow> hash \<Rightarrow> ('s::comm_ring_1, 'p::ab_group_add) ristretto \<Rightarrow> seeds \<Rightarrow> epoch \<Rightarrow> f64 \<Rightarrow>
    (i64 list \<times> f64 list) list \<Rightarrow> cluster_aggregator \<Rightarrow> nat \<Rightarrow> cluster_aggregator \<times> nat" where
  "aggregate_all sha512 blake3 R rng e grid [] a k = (a, k)"
| "aggregate_all sha512 blake3 R rng e grid ((key, os) # cs) a k =
     (let c = cluster_from_region blake3 (map (\<lambda>g. fmul (of_i64 g) grid) key) e
      in aggregate_all sha512 blake3 R rng e grid cs (fst (aggregate sha512 R (rng k, rng (k + 1)) c e os a)) (k + 2))"

definition valve_l1_to_l2 :: "hash \<Rightarrow> hash \<Rightarrow> ('s::comm_ring_1, 'p::ab_group_add) ristretto \<Rightarrow> seeds \<Rightarrow>
    (grid_clusters \<Rightarrow> grid_clusters) \<Rightarrow> layer1_store \<Rightarrow> epoch \<Rightarrow> f64 \<Rightarrow> cluster_aggregator \<Rightarrow> nat \<Rightarrow> cluster_aggregator \<times> nat" where
  "valve_l1_to_l2 sha512 blake3 R rng order s e grid a k =
     (let bs = l1_get_epoch s e in
      if bs = [] then (a, k) else aggregate_all sha512 blake3 R rng e grid (order (grid_clusters_of grid bs)) a k)"

definition clusters_hash :: "hash \<Rightarrow> layer2_entry list \<Rightarrow> bytes" where
  "clusters_hash blake3 cs = blake3 (concat (map (\<lambda>c. sc_bytes (committed_offset c) @ sc_bytes (committed_variance c)) cs))"

definition valve_l2_to_l3 :: "hash \<Rightarrow> cluster_aggregator \<Rightarrow> clock_stream \<Rightarrow> epoch \<Rightarrow> u64 \<Rightarrow> nat \<Rightarrow> clock_stream \<times> bool" where
  "valve_l2_to_l3 blake3 a s e reference_time_nanos min_clusters =
     (let cs = l2_get_epoch a e in
      if cs = [] then (s, False)
      else if flt (fsum (map (of_u32 \<circ> cluster_size) cs)) (Fin 1) then (s, False)
      else (stream_emit blake3 reference_time_nanos 5000000 (clusters_hash blake3 cs) None s, True))"

definition valve_l0_to_l1_with_geoid :: "hash \<Rightarrow> hash \<Rightarrow> ('s::comm_ring_1, 'p::ab_group_add) ristretto \<Rightarrow> seeds \<Rightarrow> layer0_store \<Rightarrow> epoch \<Rightarrow>
    's blinding_secret \<Rightarrow> network_geoid option \<Rightarrow> nat \<Rightarrow> layer1_beacon option \<times> nat" where
  "valve_l0_to_l1_with_geoid sha512 blake3 R rng s e secret geoid k =
     (case valve_l0_to_l1 sha512 blake3 R rng s e secret k of
        (None, k1) \<Rightarrow> (None, k1)
      | (Some b, k1) \<Rightarrow> (case geoid of
            None \<Rightarrow> (Some b, k1)
          | Some g \<Rightarrow>
              let ((committed, blindings), k2) = from_coordinate sha512 R rng (from_vivaldi (position (b_coordinates b)) g) k1
              in (Some (b\<lparr>b_geoid_coord := Some committed\<rparr>), k2)))"

section \<open>Downwards\<close>

text \<open>\<open>abs\<close> wraps for the least value, the only one whose negation does not fit.\<close>

definition wrapping_abs_i64 :: "i64 \<Rightarrow> i64" where "wrapping_abs_i64 r = i64_wrap \<bar>r\<bar>"

definition residual_nanos :: "geoid_region \<Rightarrow> i64" where
  "residual_nanos r = f64_as_i64 (fmul (geoid_residual r) (Fin 1000000000))"

definition valve_l3_to_l2_refinement :: "network_geoid \<Rightarrow> epoch \<Rightarrow> (region_id \<times> u8 \<times> i64) list" where
  "valve_l3_to_l2_refinement g e =
     sort_by (\<lambda>(_, _, r) (_, _, r'). i64_wrap (- wrapping_abs_i64 r) \<le> i64_wrap (- wrapping_abs_i64 r'))
       (concat (map (\<lambda>l. map (\<lambda>r. (gr_id r, gl_level l, residual_nanos r))
         (filter (\<lambda>r. wrapping_abs_i64 (residual_nanos r) > 100000) (gl_regions l))) (ng_layers g)))"

definition compute_hint_priority :: "u64 \<Rightarrow> u8 \<Rightarrow> u8" where
  "compute_hint_priority residual level =
     (let base = (if residual \<le> 100000 then 1 else if residual \<le> 1000000 then 3 else if residual \<le> 10000000 then 5
                  else if residual \<le> 100000000 then 7 else 9)
      in min (base + (if level = 0 then 1 else 0)) 10)"

definition valve_l2_to_l1_hints :: "network_geoid \<Rightarrow> layer2_entry list \<Rightarrow> epoch \<Rightarrow> refinement_hint list" where
  "valve_l2_to_l1_hints g entries e = map (\<lambda>(i, level, r).
     \<lparr>rh_epoch = e, geoid_level = level, rh_region_id = i, geoid_residual_nanos = r,
      priority = compute_hint_priority (unsigned_abs_i64 r) level,
      suggested_neighbor_regions = (case Option.bind (nth_opt (ng_layers g) (unat level)) (\<lambda>l. find_region l i) of
          None \<Rightarrow> [] | Some x \<Rightarrow> take 3 (map ge_to (inter_edges x)))\<rparr>) (valve_l3_to_l2_refinement g e)"

section \<open>Clusters\<close>

definition offsets_in :: "grid_clusters \<Rightarrow> nat" where "offsets_in m = (\<Sum>(_, os) \<leftarrow> m. length os)"

definition clusters_ok :: "grid_clusters \<Rightarrow> bool" where "clusters_ok m \<longleftrightarrow> hm_ok m \<and> (\<forall>(_, os) \<in> set m. os \<noteq> [])"

lemma offsets_update:
  "distinct (map fst m) \<Longrightarrow> offsets_in (AList.update x ((case map_of m x of None \<Rightarrow> [] | Some os \<Rightarrow> os) @ [y]) m) = offsets_in m + 1"
  by (induction m) (auto simp: offsets_in_def)

lemma push_offset_ok: "clusters_ok m \<Longrightarrow> clusters_ok (push_offset grid m b) \<and> offsets_in (push_offset grid m b) = offsets_in m + 1"
proof -
  assume ok: "clusters_ok m"
  have "set (AList.update x v m) \<subseteq> insert (x, v) (set m)" for x v by (induction m) auto
  then have "\<forall>(_, os) \<in> set (push_offset grid m b). os \<noteq> []"
    using ok unfolding push_offset_def clusters_ok_def by fastforce
  then show ?thesis using ok hm.ok_insert offsets_update
    by (auto simp: clusters_ok_def push_offset_def hm_ok_def)
qed

lemma grid_clusters_ok: "clusters_ok (grid_clusters_of grid bs) \<and> offsets_in (grid_clusters_of grid bs) = length bs"
proof (induction bs rule: rev_induct)
  case Nil
  show ?case using hm.ok_empty by (simp add: grid_clusters_of_def clusters_ok_def offsets_in_def)
next
  case (snoc b bs)
  then show ?case using push_offset_ok [of "grid_clusters_of grid bs" grid b] by (simp add: grid_clusters_of_def)
qed

interpretation clusters: kept "push_offset grid" clusters_ok for grid
  by unfold_locales (simp add: push_offset_ok)

text \<open>What one epoch's aggregation adds: a cluster entry per grid cell, in the order of the walk.\<close>

lemma aggregate_all_entries:
  assumes "\<forall>(_, os) \<in> set cs. os \<noteq> []"
  shows "\<exists>es. fst (aggregate_all sha512 blake3 R rng e grid cs a k) = a @ es \<and> map cluster_size es = map (of_nat \<circ> length \<circ> snd) cs \<and>
    (\<forall>x \<in> set es. l2_epoch x = e \<and> agreement_proofs x = [])"
  using assms
proof (induction cs arbitrary: a k)
  case (Cons c cs)
  obtain key os where c: "c = (key, os)" by fastforce
  let ?x = "cluster_entry sha512 R (rng k, rng (k + 1)) (cluster_from_region blake3 (map (\<lambda>g. fmul (of_i64 g) grid) key) e) e os"
  obtain es where "fst (aggregate_all sha512 blake3 R rng e grid cs (a @ [?x]) (k + 2)) = (a @ [?x]) @ es \<and>
      map cluster_size es = map (of_nat \<circ> length \<circ> snd) cs \<and> (\<forall>x \<in> set es. l2_epoch x = e \<and> agreement_proofs x = [])"
    using Cons.IH [of "a @ [?x]" "k + 2"] Cons.prems by auto
  then show ?case using Cons.prems
    by (intro exI [of _ "?x # es"]) (auto simp: c aggregate_def Let_def cluster_entry_def)
qed simp

section \<open>The weight of the clusters\<close>

lemma nval_of_u32: "nval (of_u32 w) = of_int (uint w)" and of_u32_class: "is_f64 (of_u32 w)" "is_finite (of_u32 w)"
proof -
  have "uint w < 2 ^ 32" using uint_bounded [of w] by simp
  then have "is_f64 (Fin (of_int (uint w)))" by (intro is_f64_of_int) simp
  then have "of_u32 w = Fin (of_int (uint w))" by (simp add: of_u32_def rnd_id)
  then show "nval (of_u32 w) = of_int (uint w)" "is_f64 (of_u32 w)" "is_finite (of_u32 w)"
    using \<open>is_f64 (Fin (of_int (uint w)))\<close> by simp_all
qed

definition weighty :: "f64 \<Rightarrow> bool" where "weighty x \<longleftrightarrow> is_f64 x \<and> \<not> is_nan x \<and> 1 \<le> nval x"

lemma is_f64_1: "is_f64 (Fin 1)" using is_f64_of_int [of 1] by simp

lemma weighty_fadd: "weighty a \<Longrightarrow> weighty (fadd a (of_u32 w))"
proof -
  assume a: "weighty a"
  show ?thesis
  proof (cases "is_finite a")
    case True
    have "(0 :: rat) \<le> of_int (uint w)" by (simp only: of_int_0_le_iff uint_nonnegative)
    then have "1 \<le> nval a + of_int (uint w)" using a unfolding weighty_def by linarith
    then have "1 \<le> nclamp (rr (nval a + of_int (uint w)))" using rnd_ge [OF is_f64_1] by simp
    then show ?thesis using a True of_u32_class [of w] nan_fadd [of a "of_u32 w"]
      by (simp add: weighty_def nval_fadd nval_of_u32)
  next
    case False
    then have "a = PInf" using a f_huge_pos(1) by (cases a) (auto simp: weighty_def)
    moreover have "fadd PInf (of_u32 w) = PInf" using of_u32_class(2) [of w] by (cases "of_u32 w") (auto simp: fadd_def f64_class)
    ultimately show ?thesis using a by simp
  qed
qed

lemma weighty_fsum:
  assumes "ws \<noteq> []" "hd ws \<noteq> 0"
  shows "weighty (fsum (map of_u32 ws))"
proof -
  obtain w ws' where ws: "ws = w # ws'" using assms(1) by (cases ws) auto
  have "1 \<le> uint w" using assms(2) ws uint_nonnegative [of w] by (metis int_one_le_iff_zero_less less_le list.sel(1) uint_0_iff)
  then have "(1 :: rat) \<le> of_int (uint w)" by (simp only: of_int_1_le_iff)
  then have "1 \<le> nclamp (rr (of_int (uint w)))" using rnd_ge [OF is_f64_1] by simp
  then have "weighty (fadd NZero (of_u32 w))" using of_u32_class [of w] nan_fadd
    by (simp add: weighty_def nval_fadd nval_of_u32)
  moreover have "weighty x \<Longrightarrow> weighty (foldl fadd x (map of_u32 ws'))" for x
    by (induction ws' arbitrary: x) (auto intro: weighty_fadd)
  ultimately show ?thesis by (simp add: fsum_def ws)
qed

lemma weighty_not_less: "weighty x \<Longrightarrow> \<not> flt x (Fin 1)"
  by (simp add: weighty_def flt_def)

lemma valve_l2_emits:
  assumes "l2_get_epoch a e \<noteq> []" "cluster_size (hd (l2_get_epoch a e)) \<noteq> 0"
  shows "valve_l2_to_l3 blake3 a s e t n = (stream_emit blake3 t 5000000 (clusters_hash blake3 (l2_get_epoch a e)) None s, True)"
proof -
  have "weighty (fsum (map of_u32 (map cluster_size (l2_get_epoch a e))))"
    using assms by (intro weighty_fsum) (auto simp: hd_map)
  then show ?thesis using assms(1) weighty_not_less by (simp add: valve_l2_to_l3_def Let_def)
qed

section \<open>Properties\<close>

lemma order_clusters:
  assumes "mset cs = mset (grid_clusters_of grid bs)" "bs \<noteq> []"
  shows "cs \<noteq> []" "\<forall>(_, os) \<in> set cs. os \<noteq> [] \<and> length os \<le> length bs" "(\<Sum>(_, os) \<leftarrow> cs. length os) = length bs"
proof -
  note ok = grid_clusters_ok [of grid bs]
  show sum: "(\<Sum>(_, os) \<leftarrow> cs. length os) = length bs"
    using ok sum_list_mset_cong [OF assms(1), of "\<lambda>(_, os). length os"] by (simp add: offsets_in_def)
  show "cs \<noteq> []" using sum assms(2) by auto
  have "set cs = set (grid_clusters_of grid bs)" using assms(1) by (metis set_mset_mset)
  moreover have "length os \<le> length bs" if "(key, os) \<in> set cs" for key os
    using member_le_sum_list [of "length os" "map (\<lambda>(_, os). length os) cs"] that sum by force
  ultimately show "\<forall>(_, os) \<in> set cs. os \<noteq> [] \<and> length os \<le> length bs" using ok by (auto simp: clusters_ok_def)
qed

text \<open>
  (C19) The valve from layer 0 is a privacy boundary: a beacon depends on the private store only through the epoch's
  solution and the list of peers measured. Two stores that agree on these, whoever owns them and whatever
  exchanges, round trips and other epochs they hold, yield the same beacon; without peers not even the list matters.
\<close>

theorem valve_noninterference:
  assumes "l0_get_epoch s e = Some x" "l0_get_epoch s' e = Some x'" "l0_solve x = l0_solve x'"
    "ls_peer_count (l0_solve x) = 0 \<or> map mr_peer (l0_measurements x) = map mr_peer (l0_measurements x')"
  shows "valve_l0_to_l1_with_geoid sha512 blake3 R rng s e secret geoid k = valve_l0_to_l1_with_geoid sha512 blake3 R rng s' e secret geoid k"
proof -
  have "map (id_bytes \<circ> mr_peer) (l0_measurements x) = map (id_bytes \<circ> mr_peer) (l0_measurements x')"
    if "ls_peer_count (l0_solve x) \<noteq> 0"
    using assms(4) that by (metis map_map)
  then have "valve_l0_to_l1 sha512 blake3 R rng s e secret k = valve_l0_to_l1 sha512 blake3 R rng s' e secret k"
    using assms(1-3) by (simp add: valve_l0_to_l1_def Let_def)
  then show ?thesis by (simp add: valve_l0_to_l1_with_geoid_def)
qed

definition w_solve :: local_solve where
  "w_solve = \<lparr>ls_coordinates = b_coordinates w_beacon, ls_clock_offset = Fin 0, ls_clock_drift = Fin 0, ls_uncertainty = Fin 1, ls_peer_count = 1\<rparr>"

definition w_record :: "rat \<Rightarrow> measurement_record" where
  "w_record r = \<lparr>mr_peer = NodeId (replicate 32 5), mr_exchange = time_exchange_new (Fin 0) (Fin r) (Fin r) (Fin (2 * r)),
     mr_measured_rtt = Fin r, mr_local_time = Fin 100\<rparr>"

theorem valve_noninterference_witness:
  "let s = record_epoch (Epoch 1) [w_record 1] w_solve (layer0_new (NodeId (replicate 32 1)));
       s' = record_epoch (Epoch 1) [w_record 3] w_solve (record_epoch (Epoch 0) [] w_solve (layer0_new (NodeId (replicate 32 2))));
       secret = blinding_secret_new w_ristretto [9] (NodeId (replicate 32 1)) (Epoch 1) in
     s \<noteq> s' \<and> valve_l0_to_l1_with_geoid w_hash w_hash w_ristretto (\<lambda>k. [of_nat k]) s (Epoch 1) secret (Some (cm_geoid w_manager)) 0 =
       valve_l0_to_l1_with_geoid w_hash w_hash w_ristretto (\<lambda>k. [of_nat k]) s' (Epoch 1) secret (Some (cm_geoid w_manager)) 0"
proof -
  let ?s = "record_epoch (Epoch 1) [w_record 1] w_solve (layer0_new (NodeId (replicate 32 1)))"
  let ?s' = "record_epoch (Epoch 1) [w_record 3] w_solve (record_epoch (Epoch 0) [] w_solve (layer0_new (NodeId (replicate 32 2))))"
  have "l0_get_epoch ?s (Epoch 1) = Some (hd (l0s_entries ?s))" "l0_get_epoch ?s' (Epoch 1) = Some (l0s_entries ?s' ! 1)"
    by (simp_all add: l0_get_epoch_def record_epoch_def layer0_new_def)
  from valve_noninterference [OF this, where rng = "\<lambda>k. [of_nat k]" and ?sha512.0 = w_hash and ?blake3.0 = w_hash and R = w_ristretto and k = 0
      and geoid = "Some (cm_geoid w_manager)" and secret = "blinding_secret_new w_ristretto [9] (NodeId (replicate 32 1)) (Epoch 1)"]
  show ?thesis by (simp add: record_epoch_def layer0_new_def w_record_def)
qed

text \<open>
  (C27) What a node recorded in an epoch becomes a beacon whose proof verifies, about the blinded identity it carries,
  and the layer 1 store takes it exactly when it holds none under the same key; without a record of the epoch
  there is no beacon.
\<close>

theorem beacon_admitted:
  fixes R :: "('s::comm_ring_1, 'p::ab_group_add) ristretto"
  assumes "ristretto_ok R"
  shows "case fst (valve_l0_to_l1 sha512 blake3 R rng l0 e secret k) of
      None \<Rightarrow> l0_get_epoch l0 e = None
    | Some b \<Rightarrow> l0_get_epoch l0 e \<noteq> None \<and> b_epoch b = e \<and> verify_identity sha512 blake3 R b \<and>
        bp_commitment (b_proof_of_identity b) = bi_commitment (b_blinded_id b) \<and>
        layer1_insert sha512 blake3 R b l1 =
          (if beacon_key blake3 b \<in> set (map (beacon_key blake3) l1) then (l1, False) else (l1 @ [b], True))"
proof (cases "l0_get_epoch l0 e")
  case (Some x)
  then obtain b where b: "fst (valve_l0_to_l1 sha512 blake3 R rng l0 e secret k) = Some b" "b_epoch b = e"
      "b_proof_of_identity b = prove_knowledge sha512 blake3 R (rng k) (rng (k + 1)) secret" "b_blinded_id b = blind sha512 R secret"
    by (simp add: valve_l0_to_l1_def Let_def)
  then have v: "verify_identity sha512 blake3 R b" by (simp add: verify_identity_def prove_verifies [OF assms])
  moreover have "bp_commitment (b_proof_of_identity b) = bi_commitment (b_blinded_id b)"
    by (simp add: b(3,4) prove_knowledge_def blind_def Let_def)
  moreover have "(\<exists>x \<in> set l1. beacon_key blake3 x = beacon_key blake3 b) = (beacon_key blake3 b \<in> set (map (beacon_key blake3) l1))"
    by (simp add: image_iff) metis
  ultimately show ?thesis using b(1,2) Some by (simp add: layer1_insert_def)
qed (simp add: valve_l0_to_l1_def)

theorem beacon_admitted_witness:
  "let l0 = record_epoch (Epoch 1) [w_record 1] w_solve (layer0_new (NodeId (replicate 32 1)));
       secret = blinding_secret_new w_ristretto [9] (NodeId (replicate 32 1)) (Epoch 1) in
   \<exists>b. fst (valve_l0_to_l1 w_hash w_hash w_ristretto (\<lambda>k. [of_nat k]) l0 (Epoch 1) secret 0) = Some b \<and>
     layer1_insert w_hash w_hash w_ristretto b [] = ([b], True)"
proof -
  let ?l0 = "record_epoch (Epoch 1) [w_record 1] w_solve (layer0_new (NodeId (replicate 32 1)))"
  have "l0_get_epoch ?l0 (Epoch 1) \<noteq> None" by (simp add: l0_get_epoch_def record_epoch_def layer0_new_def)
  then show ?thesis
    using beacon_admitted [OF w_ristretto_ok, where ?sha512.0 = w_hash and ?blake3.0 = w_hash and rng = "\<lambda>k. [of_nat k]" and ?l0.0 = ?l0 and e = "Epoch 1"
      and secret = "blinding_secret_new w_ristretto [9] (NodeId (replicate 32 1)) (Epoch 1)" and k = 0 and ?l1.0 = "[]"]
    by (auto simp: Let_def split: option.splits)
qed

lemma valve_l1_entries:
  assumes "\<And>m. mset (order m) = mset m"
  shows "\<exists>es. fst (valve_l1_to_l2 sha512 blake3 R rng order l1 e grid a k) = a @ es \<and> (\<forall>x \<in> set es. l2_epoch x = e \<and> agreement_proofs x = [])"
proof (cases "l1_get_epoch l1 e = []")
  case False
  have "\<forall>(_, os) \<in> set (order (grid_clusters_of grid (l1_get_epoch l1 e))). os \<noteq> []" using order_clusters(2) [OF assms False] by fastforce
  from aggregate_all_entries [OF this, of sha512 blake3 R rng e grid a k] False show ?thesis by (auto simp: valve_l1_to_l2_def)
qed (simp add: valve_l1_to_l2_def)

lemma valve_tick:
  fixes R :: "('s::comm_ring_1, 'p::ab_group_add) ristretto"
  assumes order: "\<And>m. mset (order m) = mset m" and n: "length (l1_get_epoch l1 e) < 2 ^ 32" and a: "l2_get_epoch a e = []"
    and s: "stream_ok blake3 s" "unat (network_time_nanos (last s)) + 1 < 2 ^ 64" "length s + 1 < 2 ^ 64"
  shows "let bs = l1_get_epoch l1 e;
             a' = fst (valve_l1_to_l2 sha512 blake3 R rng order l1 e grid a k);
             (s', emitted) = valve_l2_to_l3 blake3 a' s e t min_clusters
         in (\<Sum>c \<leftarrow> l2_get_epoch a' e. unat (cluster_size c)) = length bs \<and> emitted = (bs \<noteq> []) \<and>
            length s' = length s + of_bool emitted \<and> stream_ok blake3 s'"
proof (cases "l1_get_epoch l1 e = []")
  case True
  then show ?thesis using a s by (simp add: valve_l1_to_l2_def valve_l2_to_l3_def)
next
  case False
  define cs where "cs = order (grid_clusters_of grid (l1_get_epoch l1 e))"
  note c = order_clusters [OF order False, of grid, folded cs_def]
  have "\<forall>(_, os) \<in> set cs. os \<noteq> []" using c(2) by fastforce
  then obtain es where es: "fst (valve_l1_to_l2 sha512 blake3 R rng order l1 e grid a k) = a @ es"
      "map cluster_size es = map (of_nat \<circ> length \<circ> snd) cs" "\<forall>x \<in> set es. l2_epoch x = e"
    using aggregate_all_entries [of cs sha512 blake3 R rng e grid a k] False
    by (auto simp: valve_l1_to_l2_def cs_def)
  have get: "l2_get_epoch (a @ es) e = es" using a es(3) by (simp add: l2_get_epoch_def)
  have "length os < 2 ^ 32" if "(key, os) \<in> set cs" for key os using c(2) n that by fastforce
  then have size: "unat (of_nat (length (snd x)) :: u32) = length (snd x)" if "x \<in> set cs" for x
    using that by (cases x) (simp add: unsigned_of_nat take_bit_nat_eq_self)
  have "map (\<lambda>c. unat (cluster_size c)) es = map (\<lambda>w. unat w) (map cluster_size es)" by simp
  also have "\<dots> = map (\<lambda>(_, os). length os) cs" unfolding es(2) using size by (auto simp: case_prod_unfold)
  finally have sizes: "map (\<lambda>c. unat (cluster_size c)) es = map (\<lambda>(_, os). length os) cs" .
  have "es \<noteq> []" using es(2) c(1) by auto
  moreover have "cluster_size (hd es) \<noteq> 0"
    using sizes c(1,2) \<open>es \<noteq> []\<close> by (cases es; cases cs) auto
  ultimately have emit: "valve_l2_to_l3 blake3 (a @ es) s e t min_clusters = (stream_emit blake3 t 5000000 (clusters_hash blake3 es) None s, True)"
    using valve_l2_emits [of "a @ es" e] by (simp add: get)
  have "stream_ok blake3 (stream_emit blake3 t 5000000 (clusters_hash blake3 es) None s)"
    using s by (intro stream_emit_ok) auto
  then show ?thesis using False c(3) by (simp add: es(1) emit get sizes) (simp add: stream_emit_def Let_def)
qed

text \<open>
  (C6) From the beacons of an epoch to the public clock, whatever the grid, the random bytes and the order the clusters
  are walked in: every beacon is counted in exactly one cluster, exactly one tick is emitted when there is a
  beacon (of fewer than \<open>2 ^ 32\<close>) and none otherwise, and the clock stream stays valid.
\<close>

theorem epoch_emits_tick:
  fixes R :: "('s::comm_ring_1, 'p::ab_group_add) ristretto"
  assumes order: "\<And>m. mset (order m) = mset m" and n: "length (l1_get_epoch l1 e) < 2 ^ 32" and a: "l2_get_epoch a e = []"
    and s: "stream_ok blake3 s" "unat (network_time_nanos (last s)) + 1 < 2 ^ 64" "length s + 1 < 2 ^ 64"
  shows "let bs = l1_get_epoch l1 e;
             a' = fst (valve_l1_to_l2 sha512 blake3 R rng order l1 e grid a k);
             (s', emitted) = valve_l2_to_l3 blake3 a' s e t min_clusters
         in (\<Sum>c \<leftarrow> l2_get_epoch a' e. unat (cluster_size c)) = length bs \<and> emitted = (bs \<noteq> []) \<and>
            length s' = length s + of_bool emitted \<and> stream_ok blake3 s'"
  using assms by (rule valve_tick)

theorem epoch_emits_tick_witness:
  "let a = fst (valve_l1_to_l2 w_hash w_hash w_ristretto (\<lambda>k. [of_nat k]) rev [w_beacon] (b_epoch w_beacon) (Fin 1) aggregator_new 0);
       (s, emitted) = valve_l2_to_l3 w_hash a clock_stream_new (b_epoch w_beacon) 1000000000 1
   in emitted \<and> length s = 2 \<and> stream_ok w_hash s"
proof -
  have "length (l1_get_epoch [w_beacon] (b_epoch w_beacon)) < 2 ^ 32" "l2_get_epoch aggregator_new (b_epoch w_beacon) = []"
    "unat (network_time_nanos (last clock_stream_new)) + 1 < 2 ^ 64" "length clock_stream_new + 1 < 2 ^ 64"
    by (simp_all add: l1_get_epoch_def l2_get_epoch_def aggregator_new_def clock_stream_new_def genesis_def)
  from epoch_emits_tick [of rev, OF mset_rev this(1,2) stream_new_ok this(3,4), where ?sha512.0 = w_hash and R = w_ristretto and
      rng = "\<lambda>k. [of_nat k]" and grid = "Fin 1" and k = 0 and t = 1000000000 and min_clusters = 1 and ?blake3.0 = w_hash]
  show ?thesis by (auto simp: Let_def l1_get_epoch_def clock_stream_new_def split: prod.splits)
qed

text \<open>
  The consensus test and the tick are unrelated: no operation of the aggregator adds an agreement proof, so after the
  valve ran \<open>has_consensus\<close> holds only for a threshold of zero, while the valve to layer 3 emits a tick whatever the
  threshold it was given, one beacon in one cluster being enough.
\<close>

theorem tick_without_consensus:
  fixes R :: "('s::comm_ring_1, 'p::ab_group_add) ristretto"
  assumes order: "\<And>m. mset (order m) = mset m" and a: "\<forall>x \<in> set a. agreement_proofs x = []"
  shows "let a' = fst (valve_l1_to_l2 sha512 blake3 R rng order l1 e grid a k) in
    (\<forall>x \<in> set a'. agreement_proofs x = []) \<and> has_consensus a' e n = (n = 0) \<and>
    valve_l2_to_l3 blake3 a' s e t n = valve_l2_to_l3 blake3 a' s e t 0"
proof -
  define a' where "a' = fst (valve_l1_to_l2 sha512 blake3 R rng order l1 e grid a k)"
  have all: "\<forall>x \<in> set a'. agreement_proofs x = []"
    using a valve_l1_entries [of order, OF order, of sha512 blake3 R rng l1 e grid a k] unfolding a'_def by auto
  then have "filter (\<lambda>c. agreement_proofs c \<noteq> []) (l2_get_epoch a' e) = []" by (auto simp: l2_get_epoch_def filter_empty_conv)
  then have "has_consensus a' e n = (n = 0)" by (simp add: has_consensus_def Let_def)
  then show ?thesis using all unfolding a'_def [symmetric] Let_def by (simp add: valve_l2_to_l3_def Let_def)
qed

theorem tick_without_consensus_witness:
  "\<not> has_consensus (fst (valve_l1_to_l2 w_hash w_hash w_ristretto (\<lambda>k. [of_nat k]) rev [w_beacon] (b_epoch w_beacon) (Fin 1) aggregator_new 0))
     (b_epoch w_beacon) 1"
  using tick_without_consensus [where order = rev and a = aggregator_new and ?sha512.0 = w_hash and ?blake3.0 = w_hash and R = w_ristretto and
    rng = "\<lambda>k. [of_nat k]" and ?l1.0 = "[w_beacon]" and e = "b_epoch w_beacon" and grid = "Fin 1" and k = 0 and n = 1]
  by (simp add: Let_def aggregator_new_def)

lemma filter_map_concat: "map f (filter P xs) = concat (map (\<lambda>x. if P x then [f x] else []) xs)"
  by (induction xs) auto

lemma wrapping_abs: "is_i64 r \<Longrightarrow> wrapping_abs_i64 r = (if r = i64_min then i64_min else \<bar>r\<bar>)"
  by (auto simp: wrapping_abs_i64_def i64_defs)

lemma residual_i64: "is_i64 (residual_nanos r)" by (simp add: residual_nanos_def f64_as_i64_bounds)

lemma refined: "100000 < wrapping_abs_i64 (residual_nanos r) \<longleftrightarrow> 100000 < \<bar>residual_nanos r\<bar> \<and> residual_nanos r \<noteq> i64_min"
  using wrapping_abs [OF residual_i64 [of r]] by (auto simp: i64_min_def)

lemma neg_abs: "is_i64 r \<Longrightarrow> r \<noteq> i64_min \<Longrightarrow> i64_wrap (- wrapping_abs_i64 r) = - \<bar>r\<bar>"
  using wrapping_abs [of r] by (auto simp: is_i64_def i64_min_def i64_max_def intro!: i64_wrap_id)

lemma compute_hint_priority_range: "100000 < w \<Longrightarrow> compute_hint_priority w level \<in> {3 .. 10}"
  by (auto simp: compute_hint_priority_def Let_def)

lemma unsigned_abs_gt: "is_i64 r \<Longrightarrow> 100000 < \<bar>r\<bar> \<Longrightarrow> 100000 < unsigned_abs_i64 r"
proof -
  assume r: "is_i64 r" "100000 < \<bar>r\<bar>"
  then have "\<bar>r\<bar> mod 2 ^ 64 = \<bar>r\<bar>" by (intro mod_pos_pos_trivial) (auto simp: i64_defs)
  then show ?thesis using r by (simp add: unsigned_abs_i64_def word_less_def uint_word_of_int)
qed

text \<open>
  The regions chosen for refinement are exactly those with a residual beyond a tenth of a millisecond (in either
  direction, the least 64-bit value apart, whose absolute value wraps), the largest first; the hints made from them keep the order and have a priority from 3 to 10.
\<close>

theorem refinement_hints_exact:
  "let hs = valve_l2_to_l1_hints g entries e in
    mset (map (\<lambda>h. (rh_region_id h, geoid_level h, geoid_residual_nanos h)) hs) =
      mset [(gr_id r, gl_level l, residual_nanos r). l \<leftarrow> ng_layers g, r \<leftarrow> gl_regions l,
        100000 < \<bar>residual_nanos r\<bar> \<and> residual_nanos r \<noteq> i64_min] \<and>
    sorted_wrt (\<lambda>a b. \<bar>geoid_residual_nanos b\<bar> \<le> \<bar>geoid_residual_nanos a\<bar>) hs \<and>
    set (map priority hs) \<subseteq> {3 .. 10}"
proof -
  let ?le = "\<lambda>(_ :: region_id, _ :: u8, r) (_ :: region_id, _ :: u8, r'). i64_wrap (- wrapping_abs_i64 r) \<le> i64_wrap (- wrapping_abs_i64 r')"
  let ?ts = "valve_l3_to_l2_refinement g e"
  let ?xs = "concat (map (\<lambda>l. map (\<lambda>r. (gr_id r, gl_level l, residual_nanos r))
         (filter (\<lambda>r. 100000 < \<bar>residual_nanos r\<bar> \<and> residual_nanos r \<noteq> i64_min) (gl_regions l))) (ng_layers g))"
  have xs: "is_i64 r \<and> r \<noteq> i64_min \<and> 100000 < \<bar>r\<bar>" if "(i, level, r) \<in> set ?ts" for i level r
    using that residual_i64 by (auto simp: valve_l3_to_l2_refinement_def refined)
  have "sorted_wrt ?le ?ts" unfolding valve_l3_to_l2_refinement_def
    by (rule sorted_sort_by) (auto simp: preorder_on_list_def)
  then have "sorted_wrt (\<lambda>(_, _, r) (_, _, r'). \<bar>r'\<bar> \<le> \<bar>r\<bar>) ?ts"
    by (rule sorted_wrt_mono_rel [rotated]) (use xs neg_abs in fastforce)
  then have sorted: "sorted_wrt (\<lambda>a b. \<bar>geoid_residual_nanos b\<bar> \<le> \<bar>geoid_residual_nanos a\<bar>) (valve_l2_to_l1_hints g entries e)"
    by (simp add: valve_l2_to_l1_hints_def sorted_wrt_map case_prod_unfold)
  have prio: "set (map priority (valve_l2_to_l1_hints g entries e)) \<subseteq> {3 .. 10}"
    using xs unsigned_abs_gt compute_hint_priority_range by (fastforce simp: valve_l2_to_l1_hints_def)
  have "map (\<lambda>h. (rh_region_id h, geoid_level h, geoid_residual_nanos h)) (valve_l2_to_l1_hints g entries e) = ?ts"
    by (simp add: valve_l2_to_l1_hints_def comp_def case_prod_unfold)
  moreover have "mset ?ts = mset ?xs" by (simp add: valve_l3_to_l2_refinement_def refined)
  moreover have "?xs = [(gr_id r, gl_level l, residual_nanos r). l \<leftarrow> ng_layers g, r \<leftarrow> gl_regions l,
        100000 < \<bar>residual_nanos r\<bar> \<and> residual_nanos r \<noteq> i64_min]"
    by (rule arg_cong [of _ _ concat], rule map_cong [OF refl]) (simp add: filter_map_concat)
  ultimately show ?thesis using sorted prio unfolding Let_def by (simp only: simp_thms)
qed

end
