(* ===== verification/Daemon.thy ===== *)
theory Daemon
  imports Net Valve Solver Kalman
begin

text \<open>
  \<open>rtfsn-daemon/src/main.rs\<close>: the state of a node, what it does with each message and with each phase of an epoch, and the two tasks
  that share the state. A function that reads the clock takes the readings as arguments; one that draws random bytes takes the number of
  the next seed and returns it; what a function sends is returned with its result, since every send ignores its own failure. JSON is a
  pair of arguments for beacons, and the printed form of an address an argument of the statistics. Logging is left out.
\<close>

record solve_output =
  so_offset_nanos :: i64
  so_uncertainty_nanos :: u64
  so_drift_ppb :: i64
  so_peer_count :: nat
  so_converged :: bool
  so_iters :: u32
  so_max_defect_nanos :: u64

type_synonym raw_exchange = "node_id \<times> u64 \<times> u64 \<times> u64 \<times> u64"

record ('sk, 'vk) node_state =
  ns_node_id :: node_id
  ns_keypair :: "('sk, 'vk) node_keypair"
  ns_listen_port :: u16
  ns_verbose :: bool
  ns_peers :: "(node_id, socket_addr) hashmap"
  pending_t1 :: "(node_id, u64 \<times> u64) hashmap"
  ns_twist_lut :: twist_lut
  raw_exchanges :: "raw_exchange list"
  l0_store :: layer0_store
  l1_store :: layer1_store
  l2_aggregator :: cluster_aggregator
  ns_clock_stream :: clock_stream
  ns_geometry :: geometry_engine
  peer_coords :: "(node_id, coordinate_state) hashmap"
  ns_clock_state :: clock_state
  ns_kalman :: clock_kalman
  circulation :: circulation_manager
  last_offset_nanos :: i64
  last_drift_ppb :: i64
  last_uncertainty_nanos :: u64
  last_peer_count :: nat
  last_solver_converged :: bool
  last_solver_iters :: u32
  last_max_defect_nanos :: u64
  last_rtt_min_ns :: u64
  last_rtt_max_ns :: u64
  last_rtt_mean_ns :: u64
  last_rtt_count :: nat
  last_epoch_start_secs :: f64
  epoch_duration_secs :: f64
  ns_current_epoch :: u64

definition node_state_new :: "bytes \<Rightarrow> node_id \<Rightarrow> ('sk, 'vk) node_keypair \<Rightarrow> u16 \<Rightarrow> f64 \<Rightarrow> bool \<Rightarrow> ('sk, 'vk) node_state" where
  "node_state_new seed i kp port epoch_secs verbose =
     \<lparr>ns_node_id = i, ns_keypair = kp, ns_listen_port = port, ns_verbose = verbose, ns_peers = [], pending_t1 = [],
      ns_twist_lut = lut_new, raw_exchanges = [], l0_store = layer0_new i, l1_store = layer1_new, l2_aggregator = aggregator_new,
      ns_clock_stream = clock_stream_new, ns_geometry = geometry_engine_new seed, peer_coords = [], ns_clock_state = clock_state_new,
      ns_kalman = kalman_new, circulation = circulation_with_levels (Epoch 0) 4, last_offset_nanos = 0, last_drift_ppb = 0,
      last_uncertainty_nanos = 1000000000, last_peer_count = 0, last_solver_converged = False, last_solver_iters = 0,
      last_max_defect_nanos = 0, last_rtt_min_ns = 0, last_rtt_max_ns = 0, last_rtt_mean_ns = 0, last_rtt_count = 0,
      last_epoch_start_secs = Fin 0, epoch_duration_secs = epoch_secs, ns_current_epoch = 0\<rparr>"

section \<open>Solving an epoch\<close>

text \<open>The solver of an epoch: this node, its peers, and the latest measurement of every edge of this node.\<close>

definition epoch_solver :: "('sk, 'vk) node_state \<Rightarrow> holonomy_solver" where
  "epoch_solver s =
     (let me = ns_node_id s;
          sv = add_node me (chiral_frame_new (last_offset_nanos s) (last_drift_ppb s) 90) solver_new;
          sv = foldl (\<lambda>sv p. add_node p (chiral_frame_new 0 0 50) sv) sv (map fst (ns_peers s))
      in foldl (\<lambda>sv b. case lut_latest (ns_twist_lut s) me b of None \<Rightarrow> sv | Some tw \<Rightarrow> add_measurement me b tw sv)
           sv (lut_neighbors (ns_twist_lut s) me))"

definition latest_rtts :: "('sk, 'vk) node_state \<Rightarrow> u64 list" where
  "latest_rtts s = List.map_filter (\<lambda>p. map_option rtt_nanos (lut_latest (ns_twist_lut s) (ns_node_id s) p))
     (lut_neighbors (ns_twist_lut s) (ns_node_id s))"

fun observe_all :: "seeds \<Rightarrow> twist_lut \<Rightarrow> node_id \<Rightarrow> node_id list \<Rightarrow> geometry_engine \<Rightarrow> (node_id, coordinate_state) hashmap \<Rightarrow> nat \<Rightarrow>
    geometry_engine \<times> (node_id, coordinate_state) hashmap \<times> nat" where
  "observe_all rng lut me [] g coords k = (g, coords, k)"
| "observe_all rng lut me (p # ps) g coords k = (case lut_latest lut me p of
       None \<Rightarrow> observe_all rng lut me ps g coords k
     | Some tw \<Rightarrow>
         let (pc, coords', k') = (case hm_get coords p of Some c \<Rightarrow> (c, coords, k)
               | None \<Rightarrow> let c = coordinate_state_new (rng k) in (c, hm_insert p c coords, k + 1))
         in observe_all rng lut me ps (fst (observe_peer p pc (fdiv (of_u64 (rtt_nanos tw)) (Fin 1000000000)) g)) coords' k')"

definition measurement_of :: "f64 \<Rightarrow> raw_exchange \<Rightarrow> measurement_record" where
  "measurement_of secs x = (case x of (p, t1, t2, t3, t4) \<Rightarrow>
     let rtt = fsub (fdiv (fsub (of_u64 t4) (of_u64 t1)) (Fin 1000000000)) (fdiv (fsub (of_u64 t3) (of_u64 t2)) (Fin 1000000000));
         offset_s = fdiv (fadd (fsub (of_u64 t2) (of_u64 t1)) (fsub (of_u64 t3) (of_u64 t4))) (Fin 2)
     in \<lparr>mr_peer = p,
         mr_exchange = time_exchange_new (Fin 0) (fadd (fdiv rtt (Fin 2)) offset_s) (fdiv rtt (Fin 2)) rtt,
         mr_measured_rtt = rtt, mr_local_time = secs\<rparr>)"

definition solve_and_advance :: "seeds \<Rightarrow> f64 \<Rightarrow> epoch \<Rightarrow> ('sk, 'vk) node_state \<Rightarrow> nat \<Rightarrow> (('sk, 'vk) node_state \<times> solve_output) \<times> nat" where
  "solve_and_advance rng current_secs e s k =
     (let me = ns_node_id s;
          dt = (if flt (last_epoch_start_secs s) (Fin 1) then epoch_duration_secs s
                else fmax (fsub current_secs (last_epoch_start_secs s)) (Fin 1));
          (sv, result) = solve 500 1000 (epoch_solver s);
          offset = (case hm_get (hs_nodes sv) me of Some f \<Rightarrow> cf_offset_nanos f | None \<Rightarrow> last_offset_nanos s);
          drift = (case hm_get (hs_nodes sv) me of Some f \<Rightarrow> cf_drift_ppb f | None \<Rightarrow> last_drift_ppb s);
          rtts = latest_rtts s;
          rtt_min = (if rtts = [] then 0 else Min (set rtts));
          rtt_max = (if rtts = [] then 0 else Max (set rtts));
          rtt_mean = (if rtts = [] then 0 else sum_list rtts div of_nat (length rtts));
          (g, coords, k') = observe_all rng (ns_twist_lut s) me (lut_neighbors (ns_twist_lut s) me) (ns_geometry s) (peer_coords s) k;
          offset_secs = fdiv (of_i64 offset) (Fin 1000000000);
          var = (if rtt_mean > 0 then let r = fdiv (of_u64 rtt_mean) (Fin 1000000000) in fmul (fmul r r) (Fin (1 / 4)) else flit (1 / 1000000));
          kal = kalman_step dt offset_secs var (ns_kalman s);
          peer_count = length (raw_exchanges s);
          ms = map (measurement_of current_secs) (raw_exchanges s);
          cs = foldl (\<lambda>c m. add_exchange (mr_exchange m) current_secs c) (ns_clock_state s) ms;
          sol = \<lparr>ls_coordinates = ge_local g, ls_clock_offset = offset_secs, ls_clock_drift = kalman_drift_rate kal,
                 ls_uncertainty = kalman_uncertainty kal, ls_peer_count = peer_count\<rparr>;
          unc = f64_as_u64 (fmul (kalman_uncertainty kal) (Fin 1000000000))
      in ((s\<lparr>ns_geometry := g, peer_coords := coords, ns_kalman := kal, ns_clock_state := cs,
             l0_store := record_epoch e ms sol (l0_store s),
             last_offset_nanos := offset, last_drift_ppb := drift, last_uncertainty_nanos := unc, last_peer_count := peer_count,
             last_solver_converged := sr_converged result, last_solver_iters := sr_iterations result,
             last_max_defect_nanos := max_defect_nanos result,
             last_rtt_min_ns := rtt_min, last_rtt_max_ns := rtt_max, last_rtt_mean_ns := rtt_mean, last_rtt_count := length rtts,
             last_epoch_start_secs := current_secs, raw_exchanges := []\<rparr>,
           \<lparr>so_offset_nanos = offset, so_uncertainty_nanos = unc, so_drift_ppb = drift, so_peer_count = peer_count,
            so_converged = sr_converged result, so_iters = sr_iterations result, so_max_defect_nanos = max_defect_nanos result\<rparr>), k'))"

section \<open>Publishing and ticking\<close>

definition build_and_publish_beacon :: "(layer1_beacon \<Rightarrow> bytes option) \<Rightarrow> hash \<Rightarrow> hash \<Rightarrow> ('s::comm_ring_1, 'p::ab_group_add) ristretto \<Rightarrow> seeds \<Rightarrow>
    epoch \<Rightarrow> ('sk, 'vk) node_state \<Rightarrow> nat \<Rightarrow> (('sk, 'vk) node_state \<times> bytes option) \<times> nat" where
  "build_and_publish_beacon to_json sha512 blake3 R rng e s k =
     (let secret = blinding_secret_new R (rng k) (ns_node_id s) e in
      case valve_l0_to_l1 sha512 blake3 R rng (l0_store s) e secret (k + 1) of
        (None, k') \<Rightarrow> ((s, None), k')
      | (Some b, k') \<Rightarrow> ((s\<lparr>l1_store := fst (layer1_insert sha512 blake3 R b (l1_store s))\<rparr>, to_json b), k'))"

definition run_geoid_and_emit_tick :: "hash \<Rightarrow> hash \<Rightarrow> ('s::comm_ring_1, 'p::ab_group_add) ristretto \<Rightarrow> seeds \<Rightarrow> (grid_clusters \<Rightarrow> grid_clusters) \<Rightarrow>
    u64 \<Rightarrow> epoch \<Rightarrow> ('sk, 'vk) node_state \<Rightarrow> nat \<Rightarrow> ('sk, 'vk) node_state \<times> nat" where
  "run_geoid_and_emit_tick sha512 blake3 R rng order now e s k =
     (let (cm, k1) = process_upward sha512 blake3 R rng (l1_get_epoch (l1_store s) e) e k (circulation s);
          (a, k2) = valve_l1_to_l2 sha512 blake3 R rng order (l1_store s) e (flit (1 / 100)) (l2_aggregator s) k1;
          (cs, emitted) = valve_l2_to_l3 blake3 a (ns_clock_stream s) e now 1
      in (s\<lparr>circulation := cm, l2_aggregator := a, ns_clock_stream := cs\<rparr>, k2))"

section \<open>Statistics\<close>

definition sqrt_u64 :: "f64 \<Rightarrow> u64" where "sqrt_u64 x = f64_as_u64 (fsqrt x)"

fun collect_stats :: "('a \<Rightarrow> 'b option outcome) \<Rightarrow> 'a list \<Rightarrow> 'b list outcome" where
  "collect_stats f [] = Ret []"
| "collect_stats f (x # xs) = obind (f x) (\<lambda>y. obind (collect_stats f xs) (\<lambda>ys. Ret (case y of None \<Rightarrow> ys | Some z \<Rightarrow> z # ys)))"

definition peer_stats_of :: "(socket_addr \<Rightarrow> string) \<Rightarrow> ('sk, 'vk) node_state \<Rightarrow> node_id \<Rightarrow> peer_stats option outcome" where
  "peer_stats_of show_addr s p = (case lut_latest (ns_twist_lut s) (ns_node_id s) p of
       None \<Rightarrow> Ret None
     | Some tw \<Rightarrow> obind (lut_profile (ns_twist_lut s) (ns_node_id s) p) (\<lambda>profile. Ret (Some
         \<lparr>ps_peer_id = p, ps_peer_addr = (case hm_get (ns_peers s) p of Some a \<Rightarrow> show_addr a | None \<Rightarrow> ''unknown''),
          ps_rtt_nanos = rtt_nanos tw,
          ps_rtt_jitter_ns = (case profile of Some q \<Rightarrow> sqrt_u64 (of_i64 (variance_nanos q)) | None \<Rightarrow> 0),
          ps_offset_nanos = tw_offset_nanos tw, ps_asymmetry_nanos = asymmetry_nanos tw, ps_quality = quality tw,
          ps_epoch_measured = epoch_measured tw,
          ps_trend_nanos_per_epoch = (case profile of Some q \<Rightarrow> trend_nanos_per_epoch q | None \<Rightarrow> 0),
          ps_sample_count = (case profile of Some q \<Rightarrow> sample_count q | None \<Rightarrow> 1)\<rparr>)))"

definition jitter_of :: "u64 \<Rightarrow> peer_stats list \<Rightarrow> u64" where
  "jitter_of mean ps =
     (if 1 < length ps
      then sqrt_u64 (of_u64 (sum_list (map (\<lambda>p. let d = i64_wrap (u64_as_i64 (ps_rtt_nanos p) - u64_as_i64 mean)
             in i64_as_u64 (i64_wrap (d * d))) ps) div of_nat (length ps)))
      else 0)"

definition build_stats_response :: "(socket_addr \<Rightarrow> string) \<Rightarrow> hash \<Rightarrow> ('sk, 'vk) node_state \<Rightarrow> protocol_message outcome" where
  "build_stats_response show_addr blake3 s =
     obind (collect_stats (peer_stats_of show_addr s) (lut_neighbors (ns_twist_lut s) (ns_node_id s))) (\<lambda>ps. Ret (StatsResponse
       \<lparr>st_node_id = ns_node_id s, st_epoch = ns_current_epoch s, st_offset_nanos = last_offset_nanos s,
        st_uncertainty_nanos = last_uncertainty_nanos s, st_drift_ppb = last_drift_ppb s, st_solver_converged = last_solver_converged s,
        st_solver_iters = last_solver_iters s, st_max_defect_nanos = last_max_defect_nanos s, st_rtt_min_ns = last_rtt_min_ns s,
        st_rtt_mean_ns = last_rtt_mean_ns s, st_rtt_max_ns = last_rtt_max_ns s, st_rtt_jitter_ns = jitter_of (last_rtt_mean_ns s) ps,
        st_geoid_depth = geoid_depth (cm_geoid (circulation s)),
        st_geoid_region_counts = map (\<lambda>l. of_nat (length (gl_regions l))) (ng_layers (cm_geoid (circulation s))),
        st_chain_length = of_nat (stream_len (ns_clock_stream s)), st_chain_valid = verify_all blake3 (ns_clock_stream s),
        st_peers = ps\<rparr>))"

section \<open>Messages\<close>

type_synonym sends = "(socket_addr \<times> protocol_message) list"

text \<open>\<open>entry(i).or_insert(a)\<close>\<close>

definition learn_peer :: "node_id \<Rightarrow> socket_addr \<Rightarrow> ('sk, 'vk) node_state \<Rightarrow> ('sk, 'vk) node_state" where
  "learn_peer i a s = (case hm_get (ns_peers s) i of Some _ \<Rightarrow> s | None \<Rightarrow> s\<lparr>ns_peers := hm_insert i a (ns_peers s)\<rparr>)"

definition response_twist :: "u64 \<Rightarrow> u64 \<Rightarrow> u64 \<Rightarrow> u64 \<Rightarrow> epoch \<Rightarrow> twist_index" where
  "response_twist t1 t2 t3 t4 e =
     (let rtt = (t4 - t1) - (t3 - t2);
          offset = tdiv ((uint t2 - uint t1) + (uint t3 - uint t4)) 2;
          forward = uint t2 - uint t1;
          backward = uint t4 - uint t3
      in \<lparr>rtt_nanos = rtt, tw_offset_nanos = i64_wrap offset, asymmetry_nanos = i64_wrap (forward - backward), quality = 90,
          epoch_measured = epoch_no e\<rparr>)"

definition time_response :: "node_id \<Rightarrow> u64 \<Rightarrow> u64 \<Rightarrow> u64 \<Rightarrow> epoch \<Rightarrow> socket_addr \<Rightarrow> u64 \<Rightarrow> ('sk, 'vk) node_state \<Rightarrow> ('sk, 'vk) node_state" where
  "time_response sender t1 t2 t3 e from t4 s =
     (if hm_get (pending_t1 s) sender \<noteq> Some (t1, epoch_no e) then s
      else let s1 = learn_peer sender from (s\<lparr>pending_t1 := hm_remove sender (pending_t1 s)\<rparr>)
           in s1\<lparr>ns_twist_lut := lut_insert (ns_node_id s1) sender (response_twist t1 t2 t3 t4 e) (ns_twist_lut s1),
                 raw_exchanges := raw_exchanges s1 @ [(sender, t1, t2, t3, t4)]\<rparr>)"

text \<open>\<open>now\<close> is the reading of the clock on arrival, \<open>now'\<close> the second one a time request takes before the answer.\<close>

definition handle_message :: "(bytes \<Rightarrow> layer1_beacon option) \<Rightarrow> (socket_addr \<Rightarrow> string) \<Rightarrow> hash \<Rightarrow> hash \<Rightarrow> ('s::comm_ring_1, 'p::ab_group_add) ristretto \<Rightarrow>
    u64 \<Rightarrow> u64 \<Rightarrow> socket_addr \<Rightarrow> protocol_message \<Rightarrow> ('sk, 'vk) node_state \<Rightarrow> (('sk, 'vk) node_state \<times> sends) outcome" where
  "handle_message from_json show_addr sha512 blake3 R now now' from msg s = (case msg of
       PeerAnnounce i port \<Rightarrow>
         let a = from\<lparr>sa_port := port\<rparr>
         in Ret (s\<lparr>ns_peers := hm_insert i a (ns_peers s)\<rparr>, [(a, PeerAnnounce (ns_node_id s) (ns_listen_port s))])
     | TimeRequest sender t1 e \<Rightarrow>
         Ret (learn_peer sender from s, [(from, TimeResponse (ns_node_id s) t1 now now' e)])
     | TimeResponse sender t1 t2 t3 e \<Rightarrow> Ret (time_response sender t1 t2 t3 e from now s, [])
     | Beacon data e \<Rightarrow> Ret (case from_json data of
           Some b \<Rightarrow> s\<lparr>l1_store := fst (layer1_insert sha512 blake3 R b (l1_store s))\<rparr> | None \<Rightarrow> s, [])
     | Ping nonce \<Rightarrow> Ret (s, [(from, Pong nonce)])
     | StatsRequest \<Rightarrow> obind (build_stats_response show_addr blake3 s) (\<lambda>r. Ret (s, [(from, r)]))
     | _ \<Rightarrow> Ret (s, []))"

section \<open>The epoch loop\<close>

text \<open>
  The loop runs beside the task that receives; both take the lock for each of their pieces, so any message may be handled between two
  pieces. A piece is a step from one of these points: the start of an epoch, the copy of the peers, a request to the next peer of that
  copy, the solving after the first sleep, the sending of the beacon, the tick after the second sleep.
\<close>

datatype loop_point = Start_Epoch | Copy_Peers | Measuring "(node_id \<times> socket_addr) list" | Sending "bytes option" | Publishing

record ('sk, 'vk) daemon =
  d_state :: "('sk, 'vk) node_state"
  d_epoch :: u64
  d_point :: loop_point
  d_seed :: nat

definition measure_nanos :: "u64 \<Rightarrow> u64" where "measure_nanos epoch_duration = epoch_duration * 1000000000 * 2 div 3"

definition publish_nanos :: "u64 \<Rightarrow> u64" where "publish_nanos epoch_duration = epoch_duration * 1000000000 div 6"

definition bootstrap :: "socket_addr list \<Rightarrow> ('sk, 'vk) node_state \<Rightarrow> sends" where
  "bootstrap addrs s = map (\<lambda>a. (a, PeerAnnounce (ns_node_id s) (ns_listen_port s))) addrs"

definition send_request :: "u64 \<Rightarrow> epoch \<Rightarrow> node_id \<Rightarrow> socket_addr \<Rightarrow> ('sk, 'vk) node_state \<Rightarrow> ('sk, 'vk) node_state \<times> sends" where
  "send_request t1 e p a s =
     (s\<lparr>pending_t1 := hm_insert p (t1, epoch_no e) (pending_t1 s)\<rparr>,
      [(a, TimeRequest (ns_node_id s) t1 e), (a, PeerAnnounce (ns_node_id s) (ns_listen_port s))])"

definition tick_phase :: "hash \<Rightarrow> hash \<Rightarrow> ('s::comm_ring_1, 'p::ab_group_add) ristretto \<Rightarrow> seeds \<Rightarrow> (grid_clusters \<Rightarrow> grid_clusters) \<Rightarrow>
    u64 \<Rightarrow> ('sk, 'vk) daemon \<Rightarrow> ('sk, 'vk) daemon" where
  "tick_phase sha512 blake3 R rng order now d =
     (let (s, k) = run_geoid_and_emit_tick sha512 blake3 R rng order now (Epoch (d_epoch d)) (d_state d) (d_seed d)
      in d\<lparr>d_state := s\<lparr>pending_t1 := hm_retain (\<lambda>_ (_, ep). ep \<noteq> d_epoch d) (pending_t1 s)\<rparr>,
           d_epoch := d_epoch d + 1, d_point := Start_Epoch, d_seed := k\<rparr>)"

definition solve_phase :: "(layer1_beacon \<Rightarrow> bytes option) \<Rightarrow> hash \<Rightarrow> hash \<Rightarrow> ('s::comm_ring_1, 'p::ab_group_add) ristretto \<Rightarrow> seeds \<Rightarrow> f64 \<Rightarrow>
    ('sk, 'vk) daemon \<Rightarrow> ('sk, 'vk) daemon" where
  "solve_phase to_json sha512 blake3 R rng secs d =
     (let e = Epoch (d_epoch d);
          ((s1, sol), k1) = solve_and_advance rng secs e (d_state d) (d_seed d);
          ((s2, data), k2) = build_and_publish_beacon to_json sha512 blake3 R rng e s1 k1
      in d\<lparr>d_state := s2, d_point := Sending data, d_seed := k2\<rparr>)"

definition loop_step :: "(layer1_beacon \<Rightarrow> bytes option) \<Rightarrow> hash \<Rightarrow> hash \<Rightarrow> ('s::comm_ring_1, 'p::ab_group_add) ristretto \<Rightarrow> seeds \<Rightarrow>
    (grid_clusters \<Rightarrow> grid_clusters) \<Rightarrow> u64 \<Rightarrow> f64 \<Rightarrow> ('sk, 'vk) daemon \<Rightarrow> ('sk, 'vk) daemon \<times> sends" where
  "loop_step to_json sha512 blake3 R rng order now secs d = (case d_point d of
       Start_Epoch \<Rightarrow> (d\<lparr>d_state := (d_state d)\<lparr>ns_current_epoch := d_epoch d\<rparr>, d_point := Copy_Peers\<rparr>, [])
     | Copy_Peers \<Rightarrow> (d\<lparr>d_point := Measuring (ns_peers (d_state d))\<rparr>, [])
     | Measuring [] \<Rightarrow> (solve_phase to_json sha512 blake3 R rng secs d, [])
     | Measuring ((p, a) # ps) \<Rightarrow>
         let (s, out) = send_request now (Epoch (d_epoch d)) p a (d_state d) in (d\<lparr>d_state := s, d_point := Measuring ps\<rparr>, out)
     | Sending data \<Rightarrow> (d\<lparr>d_point := Publishing\<rparr>, case data of None \<Rightarrow> []
         | Some bytes \<Rightarrow> map (\<lambda>(_, a). (a, Beacon bytes (Epoch (d_epoch d)))) (ns_peers (d_state d)))
     | Publishing \<Rightarrow> (tick_phase sha512 blake3 R rng order now d, []))"

definition daemon_start :: "bytes \<Rightarrow> node_id \<Rightarrow> ('sk, 'vk) node_keypair \<Rightarrow> u16 \<Rightarrow> u64 \<Rightarrow> bool \<Rightarrow> nat \<Rightarrow> ('sk, 'vk) daemon" where
  "daemon_start seed i kp port epoch_duration verbose k =
     \<lparr>d_state = node_state_new seed i kp port (of_u64 epoch_duration) verbose, d_epoch = 0, d_point = Start_Epoch, d_seed = k\<rparr>"

section \<open>Runs\<close>

text \<open>
  Everything a daemon can go through: pieces of its loop and messages from anyone, in any order, with any contents and any clock readings
  below \<open>2 ^ 63\<close>. The run keeps the requests the node made (peer, time, epoch), what it sent, and the number of steps.
\<close>

definition requests_of :: "u64 \<Rightarrow> ('sk, 'vk) daemon \<Rightarrow> (node_id \<times> u64 \<times> u64) list" where
  "requests_of now d = (case d_point d of Measuring ((p, _) # _) \<Rightarrow> [(p, now, d_epoch d)] | _ \<Rightarrow> [])"

inductive d_run :: "(bytes \<Rightarrow> layer1_beacon option) \<Rightarrow> (layer1_beacon \<Rightarrow> bytes option) \<Rightarrow> (socket_addr \<Rightarrow> string) \<Rightarrow> hash \<Rightarrow> hash \<Rightarrow>
    ('s::comm_ring_1, 'p::ab_group_add) ristretto \<Rightarrow> seeds \<Rightarrow> (grid_clusters \<Rightarrow> grid_clusters) \<Rightarrow>
    ('sk, 'vk) daemon \<Rightarrow> (node_id \<times> u64 \<times> u64) list \<Rightarrow> sends \<Rightarrow> nat \<Rightarrow> bool"
  for from_json to_json show_addr sha512 blake3 R rng order where
  run_start: "d_run from_json to_json show_addr sha512 blake3 R rng order (daemon_start seed i kp port dur verbose k) [] (bootstrap addrs (node_state_new seed i kp port (of_u64 dur) verbose)) 0"
| run_loop: "d_run from_json to_json show_addr sha512 blake3 R rng order d lg out n \<Longrightarrow> now < 2 ^ 63 \<Longrightarrow>
    loop_step to_json sha512 blake3 R rng order now secs d = (d', o') \<Longrightarrow>
    d_run from_json to_json show_addr sha512 blake3 R rng order d' (lg @ requests_of now d) (out @ o') (Suc n)"
| run_recv: "d_run from_json to_json show_addr sha512 blake3 R rng order d lg out n \<Longrightarrow> now < 2 ^ 63 \<Longrightarrow>
    handle_message from_json show_addr sha512 blake3 R now now' from msg (d_state d) = Ret (s', o') \<Longrightarrow>
    d_run from_json to_json show_addr sha512 blake3 R rng order (d\<lparr>d_state := s'\<rparr>) lg (out @ o') (Suc n)"

lemma layer1_insert_length: "length (fst (layer1_insert sha512 blake3 R b l)) \<le> Suc (length l)"
  by (simp add: layer1_insert_def)

lemma learn_peer_keeps [simp]:
  "l1_store (learn_peer i a s) = l1_store s" "l2_aggregator (learn_peer i a s) = l2_aggregator s"
  "ns_clock_stream (learn_peer i a s) = ns_clock_stream s" "pending_t1 (learn_peer i a s) = pending_t1 s"
  "raw_exchanges (learn_peer i a s) = raw_exchanges s" "ns_node_id (learn_peer i a s) = ns_node_id s"
  "ns_twist_lut (learn_peer i a s) = ns_twist_lut s"
  by (simp_all add: learn_peer_def split: option.splits)

lemma time_response_keeps [simp]:
  "l1_store (time_response p t1 t2 t3 e from t4 s) = l1_store s" "l2_aggregator (time_response p t1 t2 t3 e from t4 s) = l2_aggregator s"
  "ns_clock_stream (time_response p t1 t2 t3 e from t4 s) = ns_clock_stream s"
  by (simp_all add: time_response_def Let_def)

lemma solve_keeps [simp]:
  "l1_store (fst (fst (solve_and_advance rng secs e s k))) = l1_store s"
  "l2_aggregator (fst (fst (solve_and_advance rng secs e s k))) = l2_aggregator s"
  "ns_clock_stream (fst (fst (solve_and_advance rng secs e s k))) = ns_clock_stream s"
  "pending_t1 (fst (fst (solve_and_advance rng secs e s k))) = pending_t1 s"
  "raw_exchanges (fst (fst (solve_and_advance rng secs e s k))) = []"
  by (simp_all add: solve_and_advance_def Let_def case_prod_unfold)

lemma publish_keeps [simp]:
  "l2_aggregator (fst (fst (build_and_publish_beacon tj sha512 blake3 R rng e s k))) = l2_aggregator s"
  "ns_clock_stream (fst (fst (build_and_publish_beacon tj sha512 blake3 R rng e s k))) = ns_clock_stream s"
  "pending_t1 (fst (fst (build_and_publish_beacon tj sha512 blake3 R rng e s k))) = pending_t1 s"
  "raw_exchanges (fst (fst (build_and_publish_beacon tj sha512 blake3 R rng e s k))) = raw_exchanges s"
  "length (l1_store (fst (fst (build_and_publish_beacon tj sha512 blake3 R rng e s k)))) \<le> Suc (length (l1_store s))"
  by (simp_all add: build_and_publish_beacon_def Let_def layer1_insert_length split: prod.splits option.splits)

lemma solve_phase_keeps [simp]:
  "l2_aggregator (d_state (solve_phase tj sha512 blake3 R rng secs d)) = l2_aggregator (d_state d)"
  "ns_clock_stream (d_state (solve_phase tj sha512 blake3 R rng secs d)) = ns_clock_stream (d_state d)"
  "pending_t1 (d_state (solve_phase tj sha512 blake3 R rng secs d)) = pending_t1 (d_state d)"
  "raw_exchanges (d_state (solve_phase tj sha512 blake3 R rng secs d)) = []"
  "length (l1_store (d_state (solve_phase tj sha512 blake3 R rng secs d))) \<le> Suc (length (l1_store (d_state d)))"
  "d_epoch (solve_phase tj sha512 blake3 R rng secs d) = d_epoch d"
  using publish_keeps(5) [of tj sha512 blake3 R rng "Epoch (d_epoch d)" "fst (fst (solve_and_advance rng secs (Epoch (d_epoch d)) (d_state d) (d_seed d)))"
      "snd (solve_and_advance rng secs (Epoch (d_epoch d)) (d_state d) (d_seed d))"]
  by (simp_all add: solve_phase_def case_prod_unfold Let_def del: publish_keeps(5))

text \<open>What a piece of the loop is, and what it leaves alone.\<close>

lemma loop_stepE:
  assumes "loop_step to_json sha512 blake3 R rng order now secs d = (d', o')"
  obtains (quiet) "d_epoch d' = d_epoch d" "requests_of now d = []" "ns_clock_stream (d_state d') = ns_clock_stream (d_state d)"
      "l2_aggregator (d_state d') = l2_aggregator (d_state d)" "l1_store (d_state d') = l1_store (d_state d)"
      "pending_t1 (d_state d') = pending_t1 (d_state d)" "raw_exchanges (d_state d') = raw_exchanges (d_state d)"
  | (request) p a where "d_epoch d' = d_epoch d" "requests_of now d = [(p, now, d_epoch d)]"
      "d_state d' = fst (send_request now (Epoch (d_epoch d)) p a (d_state d))"
  | (solve) "requests_of now d = []" "d' = solve_phase to_json sha512 blake3 R rng secs d"
  | (tick) "requests_of now d = []" "d' = tick_phase sha512 blake3 R rng order now d"
proof (cases "d_point d")
  case (Measuring ps)
  show ?thesis
  proof (cases ps)
    case Nil
    then show ?thesis using assms Measuring by (intro solve) (simp_all add: loop_step_def requests_of_def)
  next
    case (Cons x qs)
    obtain p a where x: "x = (p, a)" by fastforce
    have "d' = d\<lparr>d_state := fst (send_request now (Epoch (d_epoch d)) p a (d_state d)), d_point := Measuring qs\<rparr>"
      using assms Measuring Cons x by (auto simp: loop_step_def case_prod_unfold Let_def)
    then show ?thesis using Measuring Cons x by (intro request [of p a]) (simp_all add: requests_of_def)
  qed
qed (use assms in \<open>auto simp: loop_step_def requests_of_def intro: quiet tick\<close>)

definition chain_inv :: "hash \<Rightarrow> nat \<Rightarrow> ('sk, 'vk) daemon \<Rightarrow> bool" where
  "chain_inv blake3 n d \<longleftrightarrow> (let s = d_state d; cs = ns_clock_stream s in
     stream_ok blake3 cs \<and> unat (network_time_nanos (last cs)) \<le> 2 ^ 63 + n \<and> length cs \<le> Suc (unat (d_epoch d)) \<and>
     unat (d_epoch d) \<le> n \<and> length (l1_store s) \<le> n \<and> (\<forall>x \<in> set (l2_aggregator s). epoch_no (l2_epoch x) < d_epoch d))"

lemma chain_inv_frame:
  assumes "chain_inv blake3 n d" "d_epoch d' = d_epoch d" "ns_clock_stream (d_state d') = ns_clock_stream (d_state d)"
    "l2_aggregator (d_state d') = l2_aggregator (d_state d)" "length (l1_store (d_state d')) \<le> Suc (length (l1_store (d_state d)))"
  shows "chain_inv blake3 (Suc n) d'"
  using assms by (auto simp: chain_inv_def Let_def)

lemma stream_emit_last: "network_time_nanos (last (stream_emit blake3 t c eh vdf s)) = max t (network_time_nanos (last s) + 1)"
  by (simp add: stream_emit_def stream_latest_def Let_def)

lemma valve_l2_time:
  assumes "unat (network_time_nanos (last s)) \<le> 2 ^ 63 + n" "n < 2 ^ 32" "now < 2 ^ 63"
  shows "unat (network_time_nanos (last (fst (valve_l2_to_l3 blake3 a s e now m)))) \<le> 2 ^ 63 + Suc n"
proof -
  have "unat (network_time_nanos (last s) + 1) = unat (network_time_nanos (last s)) + 1"
    using assms(1,2) by (simp add: unat_word_ariths)
  moreover have "unat now < 2 ^ 63" using assms(3) by (simp add: word_less_nat_alt)
  ultimately show ?thesis using assms(1) by (auto simp: valve_l2_to_l3_def Let_def stream_emit_last unat_max)
qed

lemma tick_phase_stream:
  assumes inv: "chain_inv blake3 n d" and n: "n < 2 ^ 32" and order: "\<And>m. mset (order m) = mset m"
  shows "stream_ok blake3 (ns_clock_stream (d_state (tick_phase sha512 blake3 R rng order now d))) \<and>
    length (ns_clock_stream (d_state (tick_phase sha512 blake3 R rng order now d))) =
      length (ns_clock_stream (d_state d)) + of_bool (l1_get_epoch (l1_store (d_state d)) (Epoch (d_epoch d)) \<noteq> [])"
proof -
  let ?s = "d_state d" and ?e = "Epoch (d_epoch d)"
  note i = inv [unfolded chain_inv_def Let_def]
  define k1 where "k1 = snd (process_upward sha512 blake3 R rng (l1_get_epoch (l1_store ?s) ?e) ?e (d_seed d) (circulation ?s))"
  have "length (l1_get_epoch (l1_store ?s) ?e) < 2 ^ 32" using i n
    by (metis (no_types, lifting) l1_get_epoch_def le_less_trans length_filter_le)
  moreover have "l2_get_epoch (l2_aggregator ?s) ?e = []" using i by (auto simp: l2_get_epoch_def filter_empty_conv)
  moreover have "unat (network_time_nanos (last (ns_clock_stream ?s))) + 1 < 2 ^ 64" "length (ns_clock_stream ?s) + 1 < 2 ^ 64"
    using i n by simp_all
  ultimately show ?thesis
    using valve_tick [OF order, where ?l1.0 = "l1_store ?s" and e = ?e and a = "l2_aggregator ?s" and s = "ns_clock_stream ?s"
        and ?blake3.0 = blake3 and ?sha512.0 = sha512 and R = R and rng = rng and grid = "flit (1 / 100)" and k = k1 and t = now and min_clusters = 1] i
    by (auto simp: tick_phase_def run_geoid_and_emit_tick_def Let_def case_prod_unfold k1_def)
qed

lemma tick_phase_inv:
  assumes inv: "chain_inv blake3 n d" and n: "n < 2 ^ 32" and now: "now < 2 ^ 63" and order: "\<And>m. mset (order m) = mset m"
  shows "chain_inv blake3 (Suc n) (tick_phase sha512 blake3 R rng order now d)"
proof -
  let ?s = "d_state d" and ?e = "Epoch (d_epoch d)"
  note i = inv [unfolded chain_inv_def Let_def]
  define k1 where "k1 = snd (process_upward sha512 blake3 R rng (l1_get_epoch (l1_store ?s) ?e) ?e (d_seed d) (circulation ?s))"
  define a where "a = fst (valve_l1_to_l2 sha512 blake3 R rng order (l1_store ?s) ?e (flit (1 / 100)) (l2_aggregator ?s) k1)"
  define r where "r = valve_l2_to_l3 blake3 a (ns_clock_stream ?s) ?e now 1"
  have fields: "ns_clock_stream (d_state (tick_phase sha512 blake3 R rng order now d)) = fst r"
    "l2_aggregator (d_state (tick_phase sha512 blake3 R rng order now d)) = a"
    "l1_store (d_state (tick_phase sha512 blake3 R rng order now d)) = l1_store ?s"
    "d_epoch (tick_phase sha512 blake3 R rng order now d) = d_epoch d + 1"
    by (simp_all add: tick_phase_def run_geoid_and_emit_tick_def Let_def case_prod_unfold r_def a_def k1_def)
  have up: "unat (d_epoch d + 1) = Suc (unat (d_epoch d))" using i n by (simp add: unat_word_ariths)
  have t: "stream_ok blake3 (fst r)" "length (fst r) \<le> Suc (length (ns_clock_stream ?s))"
    using tick_phase_stream [OF inv n order, of sha512 R rng now] by (simp_all add: fields)
  have ep: "epoch_no (l2_epoch x) < d_epoch d + 1" if x: "x \<in> set a" for x
  proof -
    obtain es where es: "a = l2_aggregator ?s @ es" "\<forall>x \<in> set es. l2_epoch x = ?e"
      using valve_l1_entries [of order, OF order, of sha512 blake3 R rng "l1_store ?s" ?e "flit (1 / 100)" "l2_aggregator ?s" k1]
      by (auto simp: a_def)
    then have "epoch_no (l2_epoch x) \<le> d_epoch d" using x i by (auto simp: less_imp_le)
    then show ?thesis using up by (simp add: word_le_nat_alt word_less_nat_alt)
  qed
  show ?thesis using t ep i n now up valve_l2_time [of "ns_clock_stream ?s" n now blake3 a ?e 1]
    unfolding chain_inv_def Let_def fields by (auto simp: r_def)
qed

lemma handle_keeps:
  assumes "handle_message from_json show_addr sha512 blake3 R now now' from msg s = Ret (s', o')"
  shows "ns_clock_stream s' = ns_clock_stream s" "l2_aggregator s' = l2_aggregator s" "length (l1_store s') \<le> Suc (length (l1_store s))"
proof -
  have "ns_clock_stream s' = ns_clock_stream s \<and> l2_aggregator s' = l2_aggregator s \<and> length (l1_store s') \<le> Suc (length (l1_store s))"
  proof (cases msg)
    case (Beacon data e)
    then show ?thesis using assms layer1_insert_length [of sha512 blake3 R _ "l1_store s"]
      by (cases "from_json data") (auto simp: handle_message_def)
  next
    case (PeerAnnounce i port)
    then have "s' = s\<lparr>ns_peers := hm_insert i (from\<lparr>sa_port := port\<rparr>) (ns_peers s)\<rparr>"
      using assms by (simp add: handle_message_def Let_def)
    then show ?thesis by simp
  next
    case (TimeRequest sender t1 e)
    then have "s' = learn_peer sender from s" using assms by (simp add: handle_message_def)
    then show ?thesis by simp
  next
    case (TimeResponse sender t1 t2 t3 e)
    then have "s' = time_response sender t1 t2 t3 e from now s" using assms by (simp add: handle_message_def)
    then show ?thesis by simp
  next
    case StatsRequest
    then have "s' = s" using assms by (simp add: handle_message_def obind_eq_Ret) blast
    then show ?thesis by simp
  qed (use assms in \<open>simp_all add: handle_message_def\<close>)
  then show "ns_clock_stream s' = ns_clock_stream s" "l2_aggregator s' = l2_aggregator s" "length (l1_store s') \<le> Suc (length (l1_store s))"
    by simp_all
qed

lemma chain_run:
  assumes "d_run from_json to_json show_addr sha512 blake3 R rng order d lg out n" "\<And>m. mset (order m) = mset m" "n < 2 ^ 32"
  shows "chain_inv blake3 n d"
  using assms(1,3)
proof (induction rule: d_run.induct)
  case (run_start seed i kp port dur verbose k addrs)
  show ?case
    by (simp add: chain_inv_def Let_def daemon_start_def node_state_new_def stream_new_ok layer1_new_def aggregator_new_def)
      (simp add: clock_stream_new_def genesis_def)
next
  case (run_loop d lg out n now secs d' o')
  then have inv: "chain_inv blake3 n d" by simp
  from run_loop.hyps(3) show ?case
  proof (cases rule: loop_stepE)
    case tick
    then show ?thesis using tick_phase_inv [OF inv _ run_loop.hyps(2) assms(2)] run_loop.prems by simp
  qed (auto intro!: chain_inv_frame [OF inv] simp: send_request_def)
next
  case (run_recv d lg out n now now' src msg s' o')
  then have inv: "chain_inv blake3 n d" by simp
  show ?case using handle_keeps [OF run_recv.hyps(3)] by (intro chain_inv_frame [OF inv]) simp_all
qed

section \<open>Only what was asked for is measured\<close>

definition asked :: "node_id \<Rightarrow> (node_id \<times> u64 \<times> u64) list \<Rightarrow> nat" where "asked p lg = length (filter (\<lambda>x. fst x = p) lg)"

definition answered :: "node_id \<Rightarrow> ('sk, 'vk) node_state \<Rightarrow> nat" where "answered p s = length (filter (\<lambda>x. fst x = p) (raw_exchanges s))"

definition solicited :: "(node_id \<times> u64 \<times> u64) list \<Rightarrow> ('sk, 'vk) node_state \<Rightarrow> bool" where
  "solicited lg s \<longleftrightarrow> hm_ok (pending_t1 s) \<and>
     (\<forall>p t e. hm_get (pending_t1 s) p = Some (t, e) \<longrightarrow> (p, t, e) \<in> set lg) \<and>
     (\<forall>(p, t1, _) \<in> set (raw_exchanges s). \<exists>e. (p, t1, e) \<in> set lg) \<and>
     (\<forall>p. answered p s + of_bool (hm_get (pending_t1 s) p \<noteq> None) \<le> asked p lg)"

lemma solicited_frame:
  assumes "solicited lg s" "pending_t1 s' = pending_t1 s" "raw_exchanges s' = raw_exchanges s"
  shows "solicited lg s'"
  using assms by (simp add: solicited_def answered_def)

lemma solicited_clear:
  assumes "solicited lg s" "pending_t1 s' = pending_t1 s" "raw_exchanges s' = []"
  shows "solicited lg s'"
proof -
  have "answered p s' + of_bool (hm_get (pending_t1 s') p \<noteq> None) \<le> asked p lg" for p
  proof -
    have "answered p s + of_bool (hm_get (pending_t1 s) p \<noteq> None) \<le> asked p lg" using assms(1) unfolding solicited_def by blast
    then show ?thesis unfolding assms(2) by (simp add: answered_def assms(3))
  qed
  then show ?thesis using assms unfolding solicited_def by simp
qed

lemma solicited_retain:
  assumes "solicited lg s" "pending_t1 s' = hm_retain P (pending_t1 s)" "raw_exchanges s' = raw_exchanges s"
  shows "solicited lg s'"
proof -
  have ok: "hm_ok (pending_t1 s)" using assms(1) by (simp add: solicited_def)
  have sub: "hm_get (pending_t1 s') p = Some v \<Longrightarrow> hm_get (pending_t1 s) p = Some v" for p v
    unfolding assms(2) hm.retain_Some_iff [OF ok] by simp
  have "answered p s' + of_bool (hm_get (pending_t1 s') p \<noteq> None) \<le> asked p lg" for p
  proof -
    have "answered p s + of_bool (hm_get (pending_t1 s) p \<noteq> None) \<le> asked p lg" using assms(1) unfolding solicited_def by blast
    moreover have "answered p s' = answered p s" by (simp add: answered_def assms(3))
    ultimately show ?thesis using sub [of p] by (cases "hm_get (pending_t1 s') p") auto
  qed
  moreover have "hm_ok (pending_t1 s')" unfolding assms(2) by (rule hm.ok_retain [OF ok])
  moreover have "\<forall>p t e. hm_get (pending_t1 s') p = Some (t, e) \<longrightarrow> (p, t, e) \<in> set lg" using sub assms(1) unfolding solicited_def by blast
  ultimately show ?thesis using assms(1,3) unfolding solicited_def by simp
qed

lemma solicited_request:
  assumes "solicited lg s"
  shows "solicited (lg @ [(p, t1, epoch_no e)]) (fst (send_request t1 e p a s))"
proof -
  let ?s = "fst (send_request t1 e p a s)"
  have ok: "hm_ok (pending_t1 s)" using assms by (simp add: solicited_def)
  have pend: "hm_get (pending_t1 ?s) q = (if q = p then Some (t1, epoch_no e) else hm_get (pending_t1 s) q)" for q
    using hm.lookup_insert [OF ok] by (simp add: send_request_def)
  have "answered q ?s + of_bool (hm_get (pending_t1 ?s) q \<noteq> None) \<le> asked q (lg @ [(p, t1, epoch_no e)])" for q
  proof -
    have "answered q s + of_bool (hm_get (pending_t1 s) q \<noteq> None) \<le> asked q lg" using assms by (simp add: solicited_def)
    then show ?thesis unfolding pend by (auto simp: answered_def asked_def send_request_def split: if_splits)
  qed
  moreover have "hm_ok (pending_t1 ?s)" using hm.ok_insert [OF ok] by (simp add: send_request_def)
  moreover have "\<forall>q t e'. hm_get (pending_t1 ?s) q = Some (t, e') \<longrightarrow> (q, t, e') \<in> set (lg @ [(p, t1, epoch_no e)])"
    using assms unfolding pend by (auto simp: solicited_def)
  moreover have "\<forall>(q, t, _) \<in> set (raw_exchanges ?s). \<exists>e'. (q, t, e') \<in> set (lg @ [(p, t1, epoch_no e)])"
    using assms by (fastforce simp: solicited_def send_request_def)
  ultimately show ?thesis unfolding solicited_def by blast
qed

lemma solicited_response:
  assumes "solicited lg s"
  shows "solicited lg (time_response p t1 t2 t3 e from t4 s)"
proof (cases "hm_get (pending_t1 s) p = Some (t1, epoch_no e)")
  case True
  let ?s = "time_response p t1 t2 t3 e from t4 s"
  have ok: "hm_ok (pending_t1 s)" using assms by (simp add: solicited_def)
  have pend: "hm_get (pending_t1 ?s) q = (if q = p then None else hm_get (pending_t1 s) q)" for q
    using True hm.lookup_remove [OF ok] by (simp add: time_response_def Let_def)
  have raw: "raw_exchanges ?s = raw_exchanges s @ [(p, t1, t2, t3, t4)]" using True by (simp add: time_response_def Let_def)
  have "answered q ?s + of_bool (hm_get (pending_t1 ?s) q \<noteq> None) \<le> asked q lg" for q
  proof -
    have "answered q s + of_bool (hm_get (pending_t1 s) q \<noteq> None) \<le> asked q lg" using assms by (simp add: solicited_def)
    then show ?thesis using True unfolding pend by (auto simp: answered_def raw split: if_splits)
  qed
  moreover have "hm_ok (pending_t1 ?s)" using hm.ok_remove [OF ok] True by (simp add: time_response_def Let_def)
  moreover have "\<forall>q t e'. hm_get (pending_t1 ?s) q = Some (t, e') \<longrightarrow> (q, t, e') \<in> set lg"
    using assms unfolding pend by (auto simp: solicited_def)
  moreover have "\<forall>(q, t, _) \<in> set (raw_exchanges ?s). \<exists>e'. (q, t, e') \<in> set lg"
    using assms True unfolding raw by (fastforce simp: solicited_def)
  ultimately show ?thesis unfolding solicited_def by blast
next
  case False
  then show ?thesis using assms by (simp add: time_response_def)
qed

lemma tick_phase_exchanges:
  "pending_t1 (d_state (tick_phase sha512 blake3 R rng order now d)) = hm_retain (\<lambda>_ (_, ep). ep \<noteq> d_epoch d) (pending_t1 (d_state d))"
  "raw_exchanges (d_state (tick_phase sha512 blake3 R rng order now d)) = raw_exchanges (d_state d)"
  by (simp_all add: tick_phase_def run_geoid_and_emit_tick_def case_prod_unfold Let_def)

lemma handle_exchanges:
  assumes "handle_message from_json show_addr sha512 blake3 R now now' from msg s = Ret (s', o')"
  shows "(\<exists>p t1 t2 t3 e. s' = time_response p t1 t2 t3 e from now s) \<or> pending_t1 s' = pending_t1 s \<and> raw_exchanges s' = raw_exchanges s"
proof (cases msg)
  case (Beacon data e)
  then show ?thesis using assms by (cases "from_json data") (auto simp: handle_message_def)
next
  case (PeerAnnounce i port)
  then have "s' = s\<lparr>ns_peers := hm_insert i (from\<lparr>sa_port := port\<rparr>) (ns_peers s)\<rparr>"
    using assms by (simp add: handle_message_def Let_def)
  then show ?thesis by simp
next
  case (TimeRequest sender t1 e)
  then have "s' = learn_peer sender from s" using assms by (simp add: handle_message_def)
  then show ?thesis by simp
next
  case (TimeResponse sender t1 t2 t3 e)
  then have "s' = time_response sender t1 t2 t3 e from now s" using assms by (simp add: handle_message_def)
  then show ?thesis by blast
next
  case StatsRequest
  then have "s' = s" using assms by (simp add: handle_message_def obind_eq_Ret) blast
  then show ?thesis by simp
qed (use assms in \<open>simp_all add: handle_message_def\<close>)

lemma solicited_run:
  "d_run from_json to_json show_addr sha512 blake3 R rng order d lg out n \<Longrightarrow> solicited lg (d_state d)"
proof (induction rule: d_run.induct)
  case (run_start seed i kp port dur verbose k addrs)
  show ?case by (simp add: solicited_def daemon_start_def node_state_new_def hm_ok_def answered_def)
next
  case (run_loop d lg out n now secs d' o')
  from run_loop.hyps(3) show ?case
  proof (cases rule: loop_stepE)
    case quiet
    then show ?thesis using solicited_frame [OF run_loop.IH] by simp
  next
    case (request p a)
    then show ?thesis using solicited_request [OF run_loop.IH, of p now "Epoch (d_epoch d)" a] by simp
  next
    case solve
    have "solicited lg (d_state (solve_phase to_json sha512 blake3 R rng secs d))" by (rule solicited_clear [OF run_loop.IH]) simp_all
    then show ?thesis using solve by simp
  next
    case tick
    have "solicited lg (d_state (tick_phase sha512 blake3 R rng order now d))"
      by (rule solicited_retain [OF run_loop.IH]) (rule tick_phase_exchanges)+
    then show ?thesis using tick by simp
  qed
next
  case (run_recv d lg out n now now' src msg s' o')
  from handle_exchanges [OF run_recv.hyps(3)] show ?case
    using solicited_response [OF run_recv.IH] solicited_frame [OF run_recv.IH] by auto
qed

section \<open>What the solver is given\<close>

lemma epoch_solver_lut:
  "hs_lut (epoch_solver s) = foldl (\<lambda>lut b. case lut_latest (ns_twist_lut s) (ns_node_id s) b of None \<Rightarrow> lut
     | Some tw \<Rightarrow> lut_insert (ns_node_id s) b tw lut) [] (lut_neighbors (ns_twist_lut s) (ns_node_id s))"
proof -
  have "hs_lut (foldl (\<lambda>sv b. case lut_latest L me b of None \<Rightarrow> sv | Some tw \<Rightarrow> add_measurement me b tw sv) sv bs) =
      foldl (\<lambda>lut b. case lut_latest L me b of None \<Rightarrow> lut | Some tw \<Rightarrow> lut_insert me b tw lut) (hs_lut sv) bs" for L me sv bs
    by (induction bs arbitrary: sv) (simp_all add: add_measurement_def split: option.splits)
  moreover have "hs_lut (foldl (\<lambda>sv p. add_node p (chiral_frame_new 0 0 50) sv) sv ps) = hs_lut sv" for sv ps
    by (induction ps arbitrary: sv) (simp_all add: add_node_def)
  ultimately show ?thesis by (simp add: epoch_solver_def Let_def add_node_def solver_new_def lut_new_def)
qed

lemma refill_latest:
  assumes "lut_latest L me b = Some tw" "b \<in> set bs"
  shows "lut_latest (foldl (\<lambda>lut c. case lut_latest L me c of None \<Rightarrow> lut | Some w \<Rightarrow> lut_insert me c w lut) lut bs) me b = Some (orient me b tw)"
  using assms(2)
proof (induction bs rule: rev_induct)
  case (snoc c bs)
  have "c = b" if "edge_key me b = edge_key me c" using that by (auto simp: edge_key_def split: if_splits)
  then show ?case using snoc assms(1) by (cases "c = b") (auto simp: lut_latest_insert split: option.splits)
qed simp

lemma latest_neighbor: "lut_latest L me b \<noteq> None \<Longrightarrow> b \<in> set (lut_neighbors L me)"
proof -
  assume "lut_latest L me b \<noteq> None"
  then obtain v where "(edge_key me b, v) \<in> set L" by (auto simp: lut_latest_def lut_get_def bind_eq_Some_conv dest: map_of_SomeD)
  then have "edge_key me b \<in> set (map fst L)" by force
  moreover have "(case edge_key me b of (x, y) \<Rightarrow> if x = me then Some y else if y = me then Some x else None) = Some b"
    by (auto simp: edge_key_def)
  moreover have "f x = Some y \<Longrightarrow> x \<in> set xs \<Longrightarrow> y \<in> set (List.map_filter f xs)" for f :: "node_id \<times> node_id \<Rightarrow> node_id option" and x y xs
    by (force simp: map_filter_def)
  ultimately show ?thesis unfolding lut_neighbors_def by blast
qed

text \<open>
  A datagram that node \<open>a\<close>, bound to its listening port at \<open>ipa\<close>, sent to node \<open>b\<close> is delivered, and the roles change when the answer
  goes back to where it came from; anything but one such answer ends the rally.
\<close>

fun rally :: "(bytes \<Rightarrow> layer1_beacon option) \<Rightarrow> (socket_addr \<Rightarrow> string) \<Rightarrow> hash \<Rightarrow> hash \<Rightarrow> ('s::comm_ring_1, 'p::ab_group_add) ristretto \<Rightarrow> nat \<Rightarrow>
    ('sk, 'vk) node_state \<Rightarrow> bytes \<Rightarrow> ('sk, 'vk) node_state \<Rightarrow> bytes \<Rightarrow> protocol_message \<Rightarrow>
    (('sk, 'vk) node_state \<times> bytes \<times> ('sk, 'vk) node_state \<times> bytes \<times> protocol_message) option" where
  "rally from_json show_addr sha512 blake3 R 0 a ipa b ipb msg = Some (a, ipa, b, ipb, msg)"
| "rally from_json show_addr sha512 blake3 R (Suc n) a ipa b ipb msg =
     (let src = \<lparr>sa_ip = ipa, sa_port = ns_listen_port a\<rparr> in
      case handle_message from_json show_addr sha512 blake3 R 0 0 src msg b of
        Ret (b', [(dest, msg')]) \<Rightarrow> if dest = src then rally from_json show_addr sha512 blake3 R n b' ipb a ipa msg' else None
      | _ \<Rightarrow> None)"

section \<open>Properties\<close>

text \<open>
  (C3) A daemon's public clock holds whatever it hears. In every run of fewer than \<open>2 ^ 32\<close> steps, with messages from anyone between any two
  pieces of the epoch loop, the chain of clock ticks is valid and strictly increasing, has at most one tick per epoch, and that is what the
  node reports when it is asked for its statistics.
\<close>

theorem daemon_chain_valid:
  assumes "d_run from_json to_json show_addr sha512 blake3 R rng order d lg out n" "\<And>m. mset (order m) = mset m" "n < 2 ^ 32"
  shows "stream_ok blake3 (ns_clock_stream (d_state d)) \<and>
    (\<forall>st. build_stats_response show_addr blake3 (d_state d) = Ret (StatsResponse st) \<longrightarrow>
      st_chain_valid st \<and> unat (st_chain_length st) = length (ns_clock_stream (d_state d)) \<and> unat (st_chain_length st) \<le> unat (d_epoch d) + 1)"
proof -
  have inv: "chain_inv blake3 n d" using assms by (rule chain_run)
  then have len: "length (ns_clock_stream (d_state d)) \<le> Suc (unat (d_epoch d))" "unat (d_epoch d) \<le> n" by (simp_all add: chain_inv_def Let_def)
  then have "unat (of_nat (length (ns_clock_stream (d_state d))) :: u64) = length (ns_clock_stream (d_state d))"
    using assms(3) by (intro unat_of_nat_u64) simp
  moreover have ok: "stream_ok blake3 (ns_clock_stream (d_state d))" using inv by (simp add: chain_inv_def Let_def)
  moreover have "st_chain_valid st \<and> st_chain_length st = of_nat (length (ns_clock_stream (d_state d)))"
    if "build_stats_response show_addr blake3 (d_state d) = Ret (StatsResponse st)" for st
  proof -
    let ?c = "collect_stats (peer_stats_of show_addr (d_state d)) (lut_neighbors (ns_twist_lut (d_state d)) (ns_node_id (d_state d)))"
    show ?thesis
    proof (cases ?c)
      case Panic
      then show ?thesis using that by (simp add: build_stats_response_def)
    next
      case (Ret ps)
      then have "st_chain_valid st = verify_all blake3 (ns_clock_stream (d_state d))" "st_chain_length st = of_nat (length (ns_clock_stream (d_state d)))"
        using that by (auto simp: build_stats_response_def stream_len_def)
      then show ?thesis using ok by (simp add: stream_ok_def)
    qed
  qed
  ultimately show ?thesis using len by simp
qed

definition w_me :: node_id where "w_me = NodeId (replicate 32 9)"

definition w_peer :: node_id where "w_peer = NodeId (replicate 32 5)"

definition w_addr :: socket_addr where "w_addr = \<lparr>sa_ip = [10, 0, 0, 2], sa_port = 4242\<rparr>"

definition w_keypair :: "(bytes, bytes) node_keypair" where "w_keypair = keypair_generate w_hash w_ed25519 [1]"

definition w_daemon :: "(bytes, bytes) daemon" where "w_daemon = daemon_start (replicate 64 0) w_me w_keypair 4242 30 False 0"

text \<open>A peer announces itself, the epoch starts, the peer is asked at time 5 and answers.\<close>

definition w_asked :: "(bytes, bytes) node_state" where
  "w_asked = (d_state w_daemon)\<lparr>ns_peers := [(w_peer, w_addr)], pending_t1 := [(w_peer, (5, 0))]\<rparr>"

definition w_answered :: "(bytes, bytes) daemon" where
  "w_answered = w_daemon\<lparr>d_state := time_response w_peer 5 107 108 (Epoch 0) w_addr 9 w_asked, d_point := Measuring []\<rparr>"

lemma w_daemon_fields:
  "d_point w_daemon = Start_Epoch" "d_epoch w_daemon = 0" "ns_peers (d_state w_daemon) = []" "pending_t1 (d_state w_daemon) = []"
  "raw_exchanges (d_state w_daemon) = []" "ns_twist_lut (d_state w_daemon) = []" "ns_node_id (d_state w_daemon) = w_me"
  "ns_current_epoch (d_state w_daemon) = 0"
  by (simp_all add: w_daemon_def daemon_start_def node_state_new_def lut_new_def)

lemma w_answered_fields:
  "raw_exchanges (d_state w_answered) = [(w_peer, 5, 107, 108, 9)]" "ns_node_id (d_state w_answered) = w_me"
  "ns_twist_lut (d_state w_answered) = lut_insert w_me w_peer (response_twist 5 107 108 9 (Epoch 0)) []"
  by (simp_all add: w_answered_def time_response_def Let_def w_asked_def w_daemon_fields)

lemma w_run:
  "\<exists>out. d_run (\<lambda>_. None) (\<lambda>_. None) (\<lambda>_. []) w_hash w_hash w_ristretto (\<lambda>k. [of_nat k]) rev w_answered [(w_peer, 5, 0)] out 5"
proof -
  let ?run = "d_run (\<lambda>_. None) (\<lambda>_. None) (\<lambda>_. []) w_hash w_hash w_ristretto (\<lambda>k. [of_nat k]) rev"
  let ?step = "loop_step (\<lambda>_. None) w_hash w_hash w_ristretto (\<lambda>k. [of_nat k]) rev"
  have t: "(1 :: u64) < 2 ^ 63" "(5 :: u64) < 2 ^ 63" "(9 :: u64) < 2 ^ 63" by simp_all
  define s1 where "s1 = (d_state w_daemon)\<lparr>ns_peers := [(w_peer, w_addr)]\<rparr>"
  define d1 where "d1 = w_daemon\<lparr>d_state := s1\<rparr>"
  define d2 where "d2 = d1\<lparr>d_point := Copy_Peers\<rparr>"
  define d3 where "d3 = d1\<lparr>d_point := Measuring [(w_peer, w_addr)]\<rparr>"
  define d4 where "d4 = d1\<lparr>d_state := w_asked, d_point := Measuring []\<rparr>"
  note d = d1_def d2_def d3_def d4_def s1_def w_daemon_fields
  obtain o0 where r0: "?run w_daemon [] o0 0" unfolding w_daemon_def by (meson run_start)
  have "handle_message (\<lambda>_. None) (\<lambda>_. []) w_hash w_hash w_ristretto 1 1 w_addr (PeerAnnounce w_peer 4242) (d_state w_daemon) =
      Ret (s1, [(w_addr, PeerAnnounce w_me (ns_listen_port (d_state w_daemon)))])"
    by (simp add: handle_message_def Let_def s1_def w_daemon_fields w_addr_def)
  from run_recv [OF r0 t(1) this] obtain o1 where r1: "?run d1 [] o1 1" by (auto simp: d1_def)
  have "s1\<lparr>ns_current_epoch := 0\<rparr> = s1" by (simp add: s1_def w_daemon_def daemon_start_def node_state_new_def)
  then have "?step 1 (Fin 0) d1 = (d2, [])" by (simp add: loop_step_def d)
  from run_loop [OF r1 t(1) this] obtain o2 where r2: "?run d2 [] o2 2" by (auto simp: requests_of_def d numeral_2_eq_2)
  have "?step 1 (Fin 0) d2 = (d3, [])" by (simp add: loop_step_def d)
  from run_loop [OF r2 t(1) this] obtain o3 where r3: "?run d3 [] o3 3" by (auto simp: requests_of_def d numeral_3_eq_3 numeral_2_eq_2)
  have "?step 5 (Fin 0) d3 = (d4, snd (send_request 5 (Epoch 0) w_peer w_addr (d_state d3)))"
    by (simp add: loop_step_def d send_request_def w_asked_def)
  moreover have "requests_of 5 d3 = [(w_peer, 5, 0)]" by (simp add: requests_of_def d)
  ultimately obtain o4 where r4: "?run d4 [(w_peer, 5, 0)] o4 4"
    using run_loop [OF r3 t(2)] by (fastforce simp: numeral_eq_Suc)
  have "handle_message (\<lambda>_. None) (\<lambda>_. []) w_hash w_hash w_ristretto 9 9 w_addr (TimeResponse w_peer 5 107 108 (Epoch 0)) (d_state d4) =
      Ret (d_state w_answered, [])"
    by (simp add: handle_message_def d4_def w_answered_def)
  from run_recv [OF r4 t(3) this] have "?run (d4\<lparr>d_state := d_state w_answered\<rparr>) [(w_peer, 5, 0)] o4 5" by (simp add: numeral_eq_Suc)
  moreover have "d4\<lparr>d_state := d_state w_answered\<rparr> = w_answered" by (simp add: d w_answered_def)
  ultimately show ?thesis by auto
qed

theorem daemon_chain_valid_witness: "stream_ok w_hash (ns_clock_stream (d_state w_answered))"
proof -
  obtain out where "d_run (\<lambda>_. None) (\<lambda>_. None) (\<lambda>_. []) w_hash w_hash w_ristretto (\<lambda>k. [of_nat k]) rev w_answered [(w_peer, 5, 0)] out 5"
    using w_run by blast
  from daemon_chain_valid [OF this mset_rev] show ?thesis by simp
qed

text \<open>
  (C7) A daemon measures only what it asked for. In every run, each exchange it holds answers a request it made to that peer with that
  sending time, and a peer has no more answers accepted in an epoch than requests were made to it: an answer that was not asked for, is
  repeated or carries another time is ignored.
\<close>

theorem responses_solicited:
  assumes "d_run from_json to_json show_addr sha512 blake3 R rng order d lg out n"
  shows "(\<forall>(p, t1, _) \<in> set (raw_exchanges (d_state d)). \<exists>e. (p, t1, e) \<in> set lg) \<and>
    length (filter (\<lambda>x. fst x = p) (raw_exchanges (d_state d))) \<le> length (filter (\<lambda>x. fst x = p) lg)"
proof
  note sol = solicited_run [OF assms, unfolded solicited_def]
  show "\<forall>(p, t1, _) \<in> set (raw_exchanges (d_state d)). \<exists>e. (p, t1, e) \<in> set lg" using sol by blast
  have "answered p (d_state d) + of_bool (hm_get (pending_t1 (d_state d)) p \<noteq> None) \<le> asked p lg" using sol by blast
  then show "length (filter (\<lambda>x. fst x = p) (raw_exchanges (d_state d))) \<le> length (filter (\<lambda>x. fst x = p) lg)"
    unfolding answered_def asked_def by (rule add_leD1)
qed

theorem responses_solicited_witness:
  "\<exists>lg :: (node_id \<times> u64 \<times> u64) list. (\<forall>(p, t1, _) \<in> set (raw_exchanges (d_state w_answered)). \<exists>e. (p, t1, e) \<in> set lg) \<and> length lg = 1 \<and>
     raw_exchanges (d_state w_answered) = [(w_peer, 5, 107, 108, 9)]"
proof -
  obtain out where "d_run (\<lambda>_. None) (\<lambda>_. None) (\<lambda>_. []) w_hash w_hash w_ristretto (\<lambda>k. [of_nat k]) rev w_answered [(w_peer, 5, 0)] out 5"
    using w_run by blast
  note r = responses_solicited [OF this, of w_peer]
  show ?thesis
    by (rule exI [of _ "[(w_peer, 5, 0)]"], intro conjI, rule r [THEN conjunct1], simp, rule w_answered_fields(1))
qed

text \<open>
  (C11) The daemon hands the solver the right measurement only for peers with a larger identifier. Its table already holds each measurement
  oriented along the edge, and \<open>add_measurement\<close> orients it again: read from this node, the offset of a peer with a smaller identifier
  reaches the solver with its sign reversed.
\<close>

theorem solver_sign_reversed:
  assumes "edge_offset (ns_twist_lut s) (ns_node_id s, b) = Some off" "b \<noteq> ns_node_id s" "\<bar>off\<bar> < 2 ^ 63"
  shows "edge_offset (hs_lut (epoch_solver s)) (ns_node_id s, b) = Some (if ns_node_id s < b then off else - off)"
proof -
  let ?me = "ns_node_id s"
  obtain tw where tw: "lut_latest (ns_twist_lut s) ?me b = Some tw" "off = (if fst (edge_key ?me b) = ?me then tw_offset_nanos tw else - tw_offset_nanos tw)"
    using assms(1) by (auto simp: edge_offset_def)
  have "lut_latest (hs_lut (epoch_solver s)) ?me b = Some (orient ?me b tw)"
    unfolding epoch_solver_lut using tw(1) latest_neighbor [of "ns_twist_lut s" ?me b] by (intro refill_latest) auto
  moreover have "saturating_neg_i64 (tw_offset_nanos tw) = - tw_offset_nanos tw"
    using tw(2) assms(3) by (auto simp: saturating_neg_i64_def i64_defs split: if_splits)
  ultimately show ?thesis using tw(2) assms(2) by (auto simp: edge_offset_def orient_def edge_key_def split: if_splits)
qed

theorem solver_sign_reversed_witness:
  "edge_offset (ns_twist_lut (d_state w_answered)) (w_me, w_peer) = Some 100 \<and>
   edge_offset (hs_lut (epoch_solver (d_state w_answered))) (w_me, w_peer) = Some (- 100)"
proof -
  have "replicate 32 a = a # replicate 31 a" for a :: u8 by (simp add: numeral_eq_Suc)
  then have ids: "w_peer \<noteq> w_me" "\<not> w_me < w_peer" by (simp_all add: w_me_def w_peer_def less_node_id_def)
  have "tw_offset_nanos (response_twist 5 107 108 9 (Epoch 0)) = 100"
    by (simp add: response_twist_def Let_def tdiv_def i64_wrap_def)
  then have "edge_offset (ns_twist_lut (d_state w_answered)) (w_me, w_peer) = Some 100"
    using ids by (auto simp: w_answered_fields edge_offset_def lut_latest_insert orient_def edge_key_def saturating_neg_i64_def i64_defs)
  with solver_sign_reversed [of "d_state w_answered" w_peer 100] ids show ?thesis by (simp add: w_answered_fields)
qed

text \<open>
  (C40) Announcements never stop. Two daemons that know nothing but each other's address answer every announcement with one of their
  own, and that with another: however many have been delivered, exactly one more is on its way.
\<close>

theorem announcements_never_end:
  "\<exists>a' b' ipa' ipb'. rally from_json show_addr sha512 blake3 R n a ipa b ipb (PeerAnnounce (ns_node_id a) (ns_listen_port a)) =
     Some (a', ipa', b', ipb', PeerAnnounce (ns_node_id a') (ns_listen_port a'))"
proof (induction n arbitrary: a ipa b ipb)
  case (Suc n)
  from Suc.IH [of "b\<lparr>ns_peers := hm_insert (ns_node_id a) \<lparr>sa_ip = ipa, sa_port = ns_listen_port a\<rparr> (ns_peers b)\<rparr>" ipb a ipa]
  show ?case by (simp add: handle_message_def Let_def)
qed simp


lemma rnd_numeral: "(numeral w :: int) \<le> 2 ^ 53 \<Longrightarrow> rnd (numeral w) = Fin (numeral w)"
  using rnd_of_int [of "numeral w"] by simp

lemma rnd_neg_numeral: "(numeral w :: int) \<le> 2 ^ 53 \<Longrightarrow> rnd (- numeral w) = Fin (- numeral w)"
  using rnd_of_int [of "- numeral w"] by simp

lemma rnd_1: "rnd 1 = Fin 1" "rnd (- 1) = Fin (- 1)"
  using rnd_of_int [of 1] rnd_of_int [of "- 1"] by simp_all

text \<open>
  What the daemon hands to the clock regression is not what it measured: for a peer one second ahead over a round trip of two seconds
  (an offset of \<open>10 ^ 9\<close> ns in the table of measurements) the exchange it makes up has an offset of half a milliard of seconds and a round
  trip of a milliard. The offset is left in nanoseconds beside a round trip in seconds, and it is entered in one of the four times only.
\<close>

theorem synthetic_exchange_wrong:
  "let x = (p, 0, 2000000000, 2000000000, 2000000000); tw = response_twist 0 2000000000 2000000000 2000000000 e;
       m = measurement_of secs x in
   tw_offset_nanos tw = 10 ^ 9 \<and> rtt_nanos tw = 2000000000 \<and> mr_measured_rtt m = Fin 2 \<and>
   ex_offset (mr_exchange m) = Fin 500000000 \<and> round_trip_delay (mr_exchange m) = Fin 1000000002"
proof -
  have u: "of_u64 0 = Fin 0" "of_u64 2000000000 = Fin 2000000000"
    by (simp_all add: of_u64_def rnd_numeral)
  note arith = fsub_def fneg_def fadd_def fdiv_def f64_class fzero_def rnd_numeral rnd_neg_numeral rnd_1
  have "measurement_of secs (p, 0, 2000000000, 2000000000, 2000000000) =
    \<lparr>mr_peer = p, mr_exchange = time_exchange_new (Fin 0) (Fin 1000000001) (Fin 1) (Fin 2), mr_measured_rtt = Fin 2, mr_local_time = secs\<rparr>"
    by (simp add: measurement_of_def u arith Let_def)
  then show ?thesis
    by (simp add: response_twist_def tdiv_def i64_wrap_def ex_offset_def round_trip_delay_def time_exchange_new_def arith)
qed

end
