(* ===== verification/DaemonRun.thy ===== *)
theory DaemonRun
  imports Daemon "HOL-Library.Sublist"
begin

text \<open>
  More of what holds in every run of a daemon, whoever talks to it: what its store of beacons contains, that the public clock has
  exactly one tick for each epoch that ended, and that an epoch, once its peers are copied, ends after as many pieces of the loop as there are
  peers, and three.
\<close>

section \<open>The store of beacons\<close>

text \<open>Only beacons whose proof verifies, under different keys.\<close>

definition store_sound :: "hash \<Rightarrow> hash \<Rightarrow> ('s::comm_ring_1, 'p::ab_group_add) ristretto \<Rightarrow> layer1_store \<Rightarrow> bool" where
  "store_sound sha512 blake3 R l \<longleftrightarrow> (\<forall>b \<in> set l. verify_identity sha512 blake3 R b) \<and> distinct (map (beacon_key blake3) l)"

lemma layer1_insert_sound: "store_sound sha512 blake3 R l \<Longrightarrow> store_sound sha512 blake3 R (fst (layer1_insert sha512 blake3 R b l))"
  by (auto simp: store_sound_def layer1_insert_def)

lemma layer1_insert_prefix: "prefix l (fst (layer1_insert sha512 blake3 R b l))"
  by (simp add: layer1_insert_def)

text \<open>Every step of a daemon leaves its identity alone and its store as it is, or inserts one beacon.\<close>

definition grows :: "hash \<Rightarrow> hash \<Rightarrow> ('s::comm_ring_1, 'p::ab_group_add) ristretto \<Rightarrow> ('sk, 'vk) node_state \<Rightarrow> ('sk, 'vk) node_state \<Rightarrow> bool" where
  "grows sha512 blake3 R s s' \<longleftrightarrow> ns_node_id s' = ns_node_id s \<and>
     (l1_store s' = l1_store s \<or> (\<exists>b. l1_store s' = fst (layer1_insert sha512 blake3 R b (l1_store s))))"

lemma growsI: "ns_node_id s' = ns_node_id s \<Longrightarrow> l1_store s' = l1_store s \<Longrightarrow> grows sha512 blake3 R s s'"
  by (simp add: grows_def)

lemma solve_node_id [simp]: "ns_node_id (fst (fst (solve_and_advance rng secs e s k))) = ns_node_id s"
  by (simp add: solve_and_advance_def Let_def case_prod_unfold)

lemma solve_phase_grows: "grows sha512 blake3 R (d_state d) (d_state (solve_phase tj sha512 blake3 R rng secs d))"
proof -
  define s1 where "s1 = fst (fst (solve_and_advance rng secs (Epoch (d_epoch d)) (d_state d) (d_seed d)))"
  define k1 where "k1 = snd (solve_and_advance rng secs (Epoch (d_epoch d)) (d_state d) (d_seed d))"
  have "d_state (solve_phase tj sha512 blake3 R rng secs d) =
      fst (fst (build_and_publish_beacon tj sha512 blake3 R rng (Epoch (d_epoch d)) s1 k1))"
    by (simp add: solve_phase_def Let_def case_prod_unfold s1_def k1_def)
  moreover have "grows sha512 blake3 R s1 (fst (fst (build_and_publish_beacon tj sha512 blake3 R rng e s1 k1)))" for e
    by (auto simp: build_and_publish_beacon_def grows_def Let_def split: prod.splits option.splits)
  moreover have "ns_node_id s1 = ns_node_id (d_state d)" "l1_store s1 = l1_store (d_state d)" by (simp_all add: s1_def)
  ultimately show ?thesis by (simp add: grows_def)
qed

lemma tick_phase_fields [simp]:
  "l1_store (d_state (tick_phase sha512 blake3 R rng order now d)) = l1_store (d_state d)"
  "ns_node_id (d_state (tick_phase sha512 blake3 R rng order now d)) = ns_node_id (d_state d)"
  "d_epoch (tick_phase sha512 blake3 R rng order now d) = d_epoch d + 1"
  "d_point (tick_phase sha512 blake3 R rng order now d) = Start_Epoch"
  by (simp_all add: tick_phase_def run_geoid_and_emit_tick_def Let_def case_prod_unfold)

lemma time_response_node_id [simp]: "ns_node_id (time_response p t1 t2 t3 e from t4 s) = ns_node_id s"
  by (simp add: time_response_def Let_def)

lemma loop_step_grows:
  assumes "loop_step to_json sha512 blake3 R rng order now secs d = (d', o')"
  shows "grows sha512 blake3 R (d_state d) (d_state d')"
proof (cases "d_point d")
  case (Measuring ps)
  show ?thesis
  proof (cases ps)
    case Nil
    then show ?thesis using assms Measuring solve_phase_grows by (auto simp: loop_step_def)
  next
    case (Cons x qs)
    then show ?thesis using assms Measuring by (cases x) (auto simp: loop_step_def send_request_def Let_def intro!: growsI)
  qed
qed (use assms in \<open>auto simp: loop_step_def intro!: growsI\<close>)

lemma handle_grows:
  assumes "handle_message from_json show_addr sha512 blake3 R now now' from msg s = Ret (s', o')"
  shows "grows sha512 blake3 R s s'"
proof (cases msg)
  case (Beacon data e)
  then show ?thesis using assms by (cases "from_json data") (auto simp: handle_message_def grows_def)
next
  case (PeerAnnounce i port)
  then have "s' = s\<lparr>ns_peers := hm_insert i (from\<lparr>sa_port := port\<rparr>) (ns_peers s)\<rparr>" using assms by (simp add: handle_message_def Let_def)
  then show ?thesis by (intro growsI) simp_all
next
  case (TimeRequest sender t1 e)
  then show ?thesis using assms by (intro growsI) (auto simp: handle_message_def)
next
  case (TimeResponse sender t1 t2 t3 e)
  then show ?thesis using assms by (intro growsI) (auto simp: handle_message_def)
next
  case StatsRequest
  then have "s' = s" using assms by (simp add: handle_message_def obind_eq_Ret) blast
  then show ?thesis by (simp add: growsI)
qed (use assms in \<open>auto simp: handle_message_def intro!: growsI\<close>)

lemma grows_prefix: "grows sha512 blake3 R s s' \<Longrightarrow> prefix (l1_store s) (l1_store s')"
  by (auto simp: grows_def layer1_insert_prefix)

lemma grows_sound: "grows sha512 blake3 R s s' \<Longrightarrow> store_sound sha512 blake3 R (l1_store s) \<Longrightarrow> store_sound sha512 blake3 R (l1_store s')"
  by (auto simp: grows_def layer1_insert_sound)

lemma store_run:
  "d_run from_json to_json show_addr sha512 blake3 R rng order d lg out n \<Longrightarrow> store_sound sha512 blake3 R (l1_store (d_state d))"
proof (induction rule: d_run.induct)
  case (run_start seed i kp port dur verbose k addrs)
  show ?case by (simp add: daemon_start_def node_state_new_def store_sound_def layer1_new_def)
next
  case (run_loop d lg out n now secs d' o')
  then show ?case using grows_sound loop_step_grows by blast
next
  case (run_recv d lg out n now now' from_addr msg s' o')
  then show ?case using grows_sound handle_grows by fastforce
qed

section \<open>A tick for every epoch\<close>

text \<open>
  What a key of the store is the hash of, and what the keys of a node's own beacons are the hashes of, for any blinding factor it may draw.
  A stored beacon whose key is that of an own beacon, and hashes something else, is a collision.
\<close>

definition key_input :: "layer1_beacon \<Rightarrow> bytes" where
  "key_input b = bi_commitment (b_blinded_id b) @ u64_le (epoch_no (b_epoch b))"

definition own_key_input :: "hash \<Rightarrow> ('s::comm_ring_1, 'p::ab_group_add) ristretto \<Rightarrow> bytes \<Rightarrow> node_id \<Rightarrow> epoch \<Rightarrow> bytes" where
  "own_key_input sha512 R seed me e = bi_commitment (blind sha512 R (blinding_secret_new R seed me e)) @ u64_le (epoch_no e)"

definition keys_apart :: "hash \<Rightarrow> hash \<Rightarrow> ('s::comm_ring_1, 'p::ab_group_add) ristretto \<Rightarrow> seeds \<Rightarrow> node_id \<Rightarrow> layer1_store \<Rightarrow> bool" where
  "keys_apart sha512 blake3 R rng me l \<longleftrightarrow> (\<forall>b \<in> set l. \<forall>k e. blake3 (key_input b) = blake3 (own_key_input sha512 R (rng k) me e) \<longrightarrow>
     key_input b = own_key_input sha512 R (rng k) me e)"

lemma keys_apart_prefix: "prefix l l' \<Longrightarrow> keys_apart sha512 blake3 R rng me l' \<Longrightarrow> keys_apart sha512 blake3 R rng me l"
  by (auto simp: keys_apart_def prefix_def)

text \<open>After the node publishes, its store holds a beacon of the epoch: its own, or the one that already had its key.\<close>

lemma solve_phase_publishes:
  assumes R: "ristretto_ok R" and apart: "keys_apart sha512 blake3 R rng (ns_node_id (d_state d)) (l1_store (d_state d))"
  shows "l1_get_epoch (l1_store (d_state (solve_phase tj sha512 blake3 R rng secs d))) (Epoch (d_epoch d)) \<noteq> []"
proof -
  let ?e = "Epoch (d_epoch d)" and ?me = "ns_node_id (d_state d)" and ?l = "l1_store (d_state d)"
  define s1 where "s1 = fst (fst (solve_and_advance rng secs ?e (d_state d) (d_seed d)))"
  define k1 where "k1 = snd (solve_and_advance rng secs ?e (d_state d) (d_seed d))"
  have "\<exists>ms sol. l0_store s1 = record_epoch ?e ms sol (l0_store (d_state d))"
    unfolding s1_def solve_and_advance_def Let_def case_prod_unfold by (simp, blast)
  then have "l0_get_epoch (l0_store s1) ?e \<noteq> None"
    by (auto simp: l0_get_epoch_def record_epoch_def find_None_iff)
  then obtain b k2 where b: "valve_l0_to_l1 sha512 blake3 R rng (l0_store s1) ?e (blinding_secret_new R (rng k1) ?me ?e) (Suc k1) = (Some b, k2)"
      "b_epoch b = ?e" "b_blinded_id b = blind sha512 R (blinding_secret_new R (rng k1) ?me ?e)" "verify_identity sha512 blake3 R b"
    by (auto simp: valve_l0_to_l1_def Let_def verify_identity_def prove_verifies [OF R])
  have s1: "ns_node_id s1 = ?me" "l1_store s1 = ?l" by (simp_all add: s1_def)
  have "d_state (solve_phase tj sha512 blake3 R rng secs d) = fst (fst (build_and_publish_beacon tj sha512 blake3 R rng ?e s1 k1))"
    by (simp add: solve_phase_def Let_def case_prod_unfold s1_def k1_def)
  then have store: "l1_store (d_state (solve_phase tj sha512 blake3 R rng secs d)) = fst (layer1_insert sha512 blake3 R b ?l)"
    by (simp add: build_and_publish_beacon_def Let_def s1 b(1))
  show ?thesis
  proof (cases "\<exists>x \<in> set ?l. beacon_key blake3 x = beacon_key blake3 b")
    case True
    then obtain x where x: "x \<in> set ?l" "blake3 (key_input x) = blake3 (own_key_input sha512 R (rng k1) ?me ?e)"
      by (auto simp: beacon_key_def key_input_def own_key_input_def b(2,3))
    then have "key_input x = own_key_input sha512 R (rng k1) ?me ?e" using apart by (simp add: keys_apart_def)
    then have "epoch_no (b_epoch x) = d_epoch d" by (simp add: key_input_def own_key_input_def)
    then have "b_epoch x = ?e" by (cases "b_epoch x") simp
    then show ?thesis using x(1) True by (auto simp: store layer1_insert_def l1_get_epoch_def filter_empty_conv)
  next
    case False
    then show ?thesis by (simp add: store layer1_insert_def b(2,4) l1_get_epoch_def)
  qed
qed

text \<open>
  Between two ticks the stream has one tick for each epoch before this one, beside the genesis; once the epoch is solved the store holds
  a beacon of it.
\<close>

definition ticking :: "('sk, 'vk) daemon \<Rightarrow> bool" where
  "ticking d \<longleftrightarrow> length (ns_clock_stream (d_state d)) = Suc (unat (d_epoch d)) \<and>
     ((\<exists>data. d_point d = Sending data) \<or> d_point d = Publishing \<longrightarrow> l1_get_epoch (l1_store (d_state d)) (Epoch (d_epoch d)) \<noteq> [])"

lemma l1_get_epoch_prefix: "prefix l l' \<Longrightarrow> l1_get_epoch l e \<noteq> [] \<Longrightarrow> l1_get_epoch l' e \<noteq> []"
  by (auto simp: l1_get_epoch_def prefix_def)

lemma ticking_step:
  assumes step: "loop_step to_json sha512 blake3 R rng order now secs d = (d', o')" and t: "ticking d"
    and R: "ristretto_ok R" and apart: "keys_apart sha512 blake3 R rng (ns_node_id (d_state d)) (l1_store (d_state d))"
    and inv: "chain_inv blake3 n d" and n: "Suc n < 2 ^ 32" and order: "\<And>m. mset (order m) = mset m"
  shows "ticking d'"
proof (cases "d_point d")
  case (Measuring ps)
  show ?thesis
  proof (cases ps)
    case Nil
    then have "d' = solve_phase to_json sha512 blake3 R rng secs d" using step Measuring by (simp add: loop_step_def)
    then show ?thesis using t solve_phase_publishes [OF R apart] by (simp add: ticking_def)
  next
    case (Cons x qs)
    then show ?thesis using step t Measuring by (cases x) (auto simp: loop_step_def send_request_def ticking_def Let_def)
  qed
next
  case Publishing
  then have d': "d' = tick_phase sha512 blake3 R rng order now d" using step by (simp add: loop_step_def)
  have "unat (d_epoch d + 1) = Suc (unat (d_epoch d))" using inv n by (simp add: chain_inv_def Let_def unat_word_ariths)
  then show ?thesis
    using t Publishing tick_phase_stream [OF inv _ order, of sha512 R rng now] n by (simp add: d' ticking_def)
qed (use step t in \<open>auto simp: loop_step_def ticking_def\<close>)

lemma ticking_run:
  assumes "d_run from_json to_json show_addr sha512 blake3 R rng order d lg out n" "\<And>m. mset (order m) = mset m" "ristretto_ok R"
    and "n < 2 ^ 32" "keys_apart sha512 blake3 R rng (ns_node_id (d_state d)) (l1_store (d_state d))"
  shows "ticking d"
  using assms(1,4,5)
proof (induction rule: d_run.induct)
  case (run_start seed i kp port dur verbose k addrs)
  show ?case by (simp add: ticking_def daemon_start_def node_state_new_def clock_stream_new_def)
next
  case (run_loop d lg out n now secs d' o')
  have g: "grows sha512 blake3 R (d_state d) (d_state d')" by (rule loop_step_grows [OF run_loop.hyps(3)])
  then have apart: "keys_apart sha512 blake3 R rng (ns_node_id (d_state d)) (l1_store (d_state d))"
    using keys_apart_prefix [OF grows_prefix [OF g]] run_loop.prems(2) by (simp add: grows_def)
  moreover have "chain_inv blake3 n d" using chain_run [OF run_loop.hyps(1) assms(2)] run_loop.prems(1) by simp
  ultimately show ?case using ticking_step [OF run_loop.hyps(3) _ assms(3)] run_loop.IH run_loop.prems(1) assms(2) by simp
next
  case (run_recv d lg out n now now' src msg s' o')
  have g: "grows sha512 blake3 R (d_state d) s'" by (rule handle_grows [OF run_recv.hyps(3)])
  then have "keys_apart sha512 blake3 R rng (ns_node_id (d_state d)) (l1_store (d_state d))"
    using run_recv.prems(2) by (auto simp: grows_def intro: keys_apart_prefix [OF grows_prefix [OF g]])
  then have "ticking d" using run_recv.IH run_recv.prems(1) by simp
  then show ?case using handle_keeps(1) [OF run_recv.hyps(3)] l1_get_epoch_prefix [OF grows_prefix [OF g]] by (auto simp: ticking_def)
qed

section \<open>The steps of an epoch\<close>

text \<open>The two tasks side by side: pieces of the loop, each with the clock readings it takes, and messages, in any order.\<close>

datatype d_event = Loop u64 f64 | Recv u64 u64 socket_addr protocol_message

fun run_events :: "(bytes \<Rightarrow> layer1_beacon option) \<Rightarrow> (layer1_beacon \<Rightarrow> bytes option) \<Rightarrow> (socket_addr \<Rightarrow> string) \<Rightarrow> hash \<Rightarrow> hash \<Rightarrow>
    ('s::comm_ring_1, 'p::ab_group_add) ristretto \<Rightarrow> seeds \<Rightarrow> (grid_clusters \<Rightarrow> grid_clusters) \<Rightarrow> d_event list \<Rightarrow> ('sk, 'vk) daemon \<Rightarrow>
    (('sk, 'vk) daemon \<times> sends) outcome" where
  "run_events from_json to_json show_addr sha512 blake3 R rng order [] d = Ret (d, [])"
| "run_events from_json to_json show_addr sha512 blake3 R rng order (Loop now secs # es) d =
     (let (d1, o1) = loop_step to_json sha512 blake3 R rng order now secs d in
      obind (run_events from_json to_json show_addr sha512 blake3 R rng order es d1) (\<lambda>(d2, o2). Ret (d2, o1 @ o2)))"
| "run_events from_json to_json show_addr sha512 blake3 R rng order (Recv now now' from_addr msg # es) d =
     obind (handle_message from_json show_addr sha512 blake3 R now now' from_addr msg (d_state d)) (\<lambda>(s1, o1).
     obind (run_events from_json to_json show_addr sha512 blake3 R rng order es (d\<lparr>d_state := s1\<rparr>)) (\<lambda>(d2, o2). Ret (d2, o1 @ o2)))"

fun readings :: "d_event list \<Rightarrow> u64 list" where
  "readings [] = []"
| "readings (Loop now secs # es) = now # readings es"
| "readings (Recv now now' from_addr msg # es) = readings es"

fun event_now :: "d_event \<Rightarrow> u64" where
  "event_now (Loop now secs) = now"
| "event_now (Recv now now' from_addr msg) = now"

fun is_request :: "socket_addr \<times> protocol_message \<Rightarrow> bool" where
  "is_request (a, TimeRequest i t e) = True"
| "is_request _ = False"

text \<open>The peers still to be asked, and the pieces still to come after the peers have been copied.\<close>

fun to_ask :: "loop_point \<Rightarrow> (node_id \<times> socket_addr) list" where
  "to_ask (Measuring ps) = ps"
| "to_ask _ = []"

fun pieces_left :: "loop_point \<Rightarrow> nat" where
  "pieces_left (Measuring ps) = length ps + 3"
| "pieces_left (Sending data) = 2"
| "pieces_left Publishing = 1"
| "pieces_left _ = 0"

lemma loop_step_piece:
  assumes "loop_step to_json sha512 blake3 R rng order now secs d = (d', o')" "0 < pieces_left (d_point d)"
  shows "pieces_left (d_point d') = pieces_left (d_point d) - 1 \<and> d_point d' \<noteq> Copy_Peers \<and> to_ask (d_point d') = tl (to_ask (d_point d)) \<and>
    d_epoch d' = d_epoch d + of_bool (pieces_left (d_point d) = 1) \<and>
    filter is_request o' = map (\<lambda>((p, a), t). (a, TimeRequest (ns_node_id (d_state d)) t (Epoch (d_epoch d)))) (zip (to_ask (d_point d)) [now])"
proof (cases "d_point d")
  case (Measuring ps)
  then show ?thesis
  proof (cases ps)
    case Nil
    then show ?thesis using assms Measuring by (auto simp: loop_step_def solve_phase_def Let_def case_prod_unfold)
  next
    case (Cons x qs)
    then show ?thesis using assms Measuring by (cases x) (auto simp: loop_step_def send_request_def Let_def)
  qed
qed (use assms in \<open>auto simp: loop_step_def filter_empty_conv split: option.splits\<close>)

lemma handle_requests:
  "handle_message from_json show_addr sha512 blake3 R now now' from_addr msg s = Ret (s', o') \<Longrightarrow> filter is_request o' = []"
  by (cases msg) (auto simp: handle_message_def Let_def obind_eq_Ret build_stats_response_def)

lemma run_events_pieces:
  assumes "run_events from_json to_json show_addr sha512 blake3 R rng order es d = Ret (d', out)" "length (readings es) \<le> pieces_left (d_point d)"
    "d_point d \<noteq> Copy_Peers"
  shows "pieces_left (d_point d') = pieces_left (d_point d) - length (readings es) \<and> d_point d' \<noteq> Copy_Peers \<and>
    d_epoch d' = d_epoch d + of_bool (0 < pieces_left (d_point d) \<and> length (readings es) = pieces_left (d_point d)) \<and>
    filter is_request out = map (\<lambda>((p, a), t). (a, TimeRequest (ns_node_id (d_state d)) t (Epoch (d_epoch d)))) (zip (to_ask (d_point d)) (readings es))"
  using assms
proof (induction es arbitrary: d out rule: readings.induct)
  case (2 now secs es)
  obtain d1 o1 where step: "loop_step to_json sha512 blake3 R rng order now secs d = (d1, o1)" by fastforce
  then obtain o2 where rest: "run_events from_json to_json show_addr sha512 blake3 R rng order es d1 = Ret (d', o2)" and out: "out = o1 @ o2"
    using 2(2) by (auto simp: obind_eq_Ret)
  have "0 < pieces_left (d_point d)" using 2(3) by simp
  note one = loop_step_piece [OF step this]
  have me: "ns_node_id (d_state d1) = ns_node_id (d_state d)" using loop_step_grows [OF step] by (simp add: grows_def)
  have done_asking: "to_ask pt = []" if "pieces_left pt \<le> 1" for pt using that by (cases pt) auto
  note IH = 2(1) [OF rest]
  show ?case
  proof (cases "pieces_left (d_point d) = 1")
    case True
    then have "readings es = []" "to_ask (d_point d) = []" using 2(3) done_asking by simp_all
    then show ?thesis using IH one True out by simp
  next
    case False
    have "length (readings es) \<le> pieces_left (d_point d1)" using one 2(3) by simp
    note IH = IH [OF this]
    show ?thesis using IH one False out me 2(3) by (cases "to_ask (d_point d)") auto
  qed
next
  case (3 now now' src msg es)
  obtain s1 o1 o2 where h: "handle_message from_json show_addr sha512 blake3 R now now' src msg (d_state d) = Ret (s1, o1)"
    and rest: "run_events from_json to_json show_addr sha512 blake3 R rng order es (d\<lparr>d_state := s1\<rparr>) = Ret (d', o2)" and out: "out = o1 @ o2"
    using 3(2) by (auto simp: obind_eq_Ret)
  have "ns_node_id s1 = ns_node_id (d_state d)" using handle_grows [OF h] by (simp add: grows_def)
  then show ?case using 3(1) [OF rest] 3(3,4) handle_requests [OF h] by (simp add: out)
qed auto

lemma run_events_grow:
  "run_events from_json to_json show_addr sha512 blake3 R rng order es d = Ret (d', out) \<Longrightarrow> prefix (l1_store (d_state d)) (l1_store (d_state d'))"
proof (induction es arbitrary: d out rule: readings.induct)
  case (2 now secs es)
  obtain d1 o1 where step: "loop_step to_json sha512 blake3 R rng order now secs d = (d1, o1)" by fastforce
  then obtain o2 where "run_events from_json to_json show_addr sha512 blake3 R rng order es d1 = Ret (d', o2)"
    using 2(2) by (auto simp: obind_eq_Ret)
  from prefix_order.trans [OF grows_prefix [OF loop_step_grows [OF step]] 2(1) [OF this]] show ?case .
next
  case (3 now now' src msg es)
  obtain s1 o1 o2 where h: "handle_message from_json show_addr sha512 blake3 R now now' src msg (d_state d) = Ret (s1, o1)"
    and rest: "run_events from_json to_json show_addr sha512 blake3 R rng order es (d\<lparr>d_state := s1\<rparr>) = Ret (d', o2)"
    using 3(2) by (auto simp: obind_eq_Ret)
  from 3(1) [OF rest] prefix_order.trans [OF grows_prefix [OF handle_grows [OF h]]] show ?case by simp
qed simp

lemma run_events_d_run:
  assumes "d_run from_json to_json show_addr sha512 blake3 R rng order d lg out n" "\<forall>ev \<in> set es. event_now ev < 2 ^ 63"
    "run_events from_json to_json show_addr sha512 blake3 R rng order es d = Ret (d', out')"
  shows "\<exists>lg' out''. d_run from_json to_json show_addr sha512 blake3 R rng order d' lg' out'' (n + length es)"
  using assms
proof (induction es arbitrary: d lg out n out' rule: readings.induct)
  case (2 now secs es)
  obtain d1 o1 where step: "loop_step to_json sha512 blake3 R rng order now secs d = (d1, o1)" by fastforce
  then obtain o2 where rest: "run_events from_json to_json show_addr sha512 blake3 R rng order es d1 = Ret (d', o2)"
    using 2(4) by (auto simp: obind_eq_Ret)
  have "now < 2 ^ 63" using 2(3) by simp
  from 2(1) [OF run_loop [OF 2(2) this step] _ rest] 2(3) show ?case by auto
next
  case (3 now now' src msg es)
  obtain s1 o1 o2 where h: "handle_message from_json show_addr sha512 blake3 R now now' src msg (d_state d) = Ret (s1, o1)"
    and rest: "run_events from_json to_json show_addr sha512 blake3 R rng order es (d\<lparr>d_state := s1\<rparr>) = Ret (d', o2)"
    using 3(4) by (auto simp: obind_eq_Ret)
  have "now < 2 ^ 63" using 3(3) by simp
  from 3(1) [OF run_recv [OF 3(2) this h] _ rest] 3(3) show ?case by auto
qed auto

section \<open>Properties\<close>

text \<open>
  (C9) Whatever a daemon hears, what it stores is sound and is never taken back: in every run each stored beacon has a proof that
  verifies, no two share a key, and every further piece of the loop or message keeps the store as a prefix of the next.
\<close>

theorem beacon_store_sound:
  assumes "d_run from_json to_json show_addr sha512 blake3 R rng order d lg out n"
  shows "(\<forall>b \<in> set (l1_store (d_state d)). verify_identity sha512 blake3 R b) \<and> distinct (map (beacon_key blake3) (l1_store (d_state d))) \<and>
    (\<forall>es d' out'. run_events from_json to_json show_addr sha512 blake3 R rng order es d = Ret (d', out') \<longrightarrow>
       prefix (l1_store (d_state d)) (l1_store (d_state d')))"
  using store_run [OF assms] run_events_grow by (auto simp: store_sound_def)

text \<open>
  A daemon that knows no peer, in its first epoch: after three pieces of its loop it has published, after five its clock has ticked.
\<close>

abbreviation w_events :: "d_event list \<Rightarrow> (bytes, bytes) daemon \<Rightarrow> ((bytes, bytes) daemon \<times> sends) outcome" where
  "w_events \<equiv> run_events (\<lambda>_. None) (\<lambda>_. None) (\<lambda>_. []) w_hash (\<lambda>x. x) w_ristretto (\<lambda>k. [of_nat k]) rev"

abbreviation w_d_run :: "(bytes, bytes) daemon \<Rightarrow> (node_id \<times> u64 \<times> u64) list \<Rightarrow> sends \<Rightarrow> nat \<Rightarrow> bool" where
  "w_d_run \<equiv> d_run (\<lambda>_. None) (\<lambda>_. None) (\<lambda>_. []) w_hash (\<lambda>x. x) w_ristretto (\<lambda>k. [of_nat k]) rev"

lemma w_apart: "keys_apart sha512 (\<lambda>x. x) R rng me l"
  by (simp add: keys_apart_def)

lemma w_epoch:
  obtains d lg out d' lg' out' where "w_d_run d lg out 3" "d_epoch d = 0" "d_point d \<in> range Sending"
    "w_d_run d' lg' out' 5" "d_epoch d' = 1"
proof -
  let ?step = "loop_step (\<lambda>_. None) w_hash (\<lambda>x. x) w_ristretto (\<lambda>k. [of_nat k]) rev"
  define d2 where "d2 = w_daemon\<lparr>d_state := (d_state w_daemon)\<lparr>ns_current_epoch := 0\<rparr>, d_point := Measuring []\<rparr>"
  obtain o0 where r0: "w_d_run w_daemon [] o0 0" unfolding w_daemon_def by (meson run_start)
  have "w_events [Loop 1 (Fin 0), Loop 2 (Fin 0)] w_daemon = Ret (d2, [])"
    by (simp add: loop_step_def d2_def w_daemon_fields)
  from run_events_d_run [OF r0 _ this] obtain lg o2 where r2: "w_d_run d2 lg o2 (Suc (Suc 0))" by auto
  have r: "\<exists>d lg out. w_d_run d lg out (Suc (Suc 0) + length es) \<and> pieces_left (d_point d) = 3 - length es \<and> d_point d \<noteq> Copy_Peers \<and>
      d_epoch d = of_bool (length es = 3)" if es: "es = map (\<lambda>t. Loop t (Fin 0)) ts" "\<forall>t \<in> set ts. t < 2 ^ 63" "length ts \<le> 3" for es ts
  proof -
    have rd: "readings es = ts" unfolding es(1) by (induction ts) auto
    have "\<exists>d out. w_events es d2 = Ret (d, out)" for d2 unfolding es(1) by (induction ts arbitrary: d2) (auto split: prod.split, metis obind.simps(2) old.prod.case surj_pair)
    then obtain d out where e: "w_events es d2 = Ret (d, out)" by blast
    have "\<forall>ev \<in> set es. event_now ev < 2 ^ 63" using es(1,2) by auto
    from run_events_d_run [OF r2 this e] obtain lg' out' where "w_d_run d lg' out' (Suc (Suc 0) + length es)" by blast
    moreover have "pieces_left (d_point d) = 3 - length es \<and> d_point d \<noteq> Copy_Peers \<and> d_epoch d = of_bool (length es = 3)"
      using run_events_pieces [OF e] es(1,3) rd by (auto simp: d2_def w_daemon_fields)
    ultimately show ?thesis by blast
  qed
  have one: "(1 :: u64) < 9223372036854775808" by simp
  from r [of _ "[1]"] obtain d lg out where 1: "w_d_run d lg out 3" "pieces_left (d_point d) = 2" "d_epoch d = 0" by (auto simp: numeral_3_eq_3)
  moreover from 1(2) have "d_point d \<in> range Sending" by (cases "d_point d") auto
  moreover from r [of _ "[1, 1, 1]"] obtain d' lg' out' where "w_d_run d' lg' out' 5" "d_epoch d' = 1" by (auto simp: eval_nat_numeral one)
  ultimately show ?thesis using that by blast
qed

theorem beacon_store_sound_witness:
  "\<exists>d lg out b. w_d_run d lg out 3 \<and> b \<in> set (l1_store (d_state d)) \<and> b_epoch b = Epoch 0 \<and> verify_identity w_hash (\<lambda>x. x) w_ristretto b \<and>
     distinct (map (beacon_key (\<lambda>x. x)) (l1_store (d_state d)))"
proof -
  obtain d lg out where d: "w_d_run d lg out 3" "d_epoch d = 0" "d_point d \<in> range Sending" by (rule w_epoch)
  have "ticking d" by (rule ticking_run [OF d(1) mset_rev w_ristretto_ok _ w_apart]) simp
  then obtain b where "b \<in> set (l1_store (d_state d))" "b_epoch b = Epoch 0"
    using d(2,3) by (auto simp: ticking_def l1_get_epoch_def filter_empty_conv)
  then show ?thesis using d(1) beacon_store_sound [OF d(1)] by blast
qed

text \<open>
  (C4) A daemon's public clock ticks once in every epoch. In every run of fewer than \<open>2 ^ 32\<close> steps, whatever the node hears and whether it
  has peers or not, the clock has exactly one tick for each epoch that ended, beside the genesis. No stranger can take the tick away, short of
  a beacon whose key collides with that of a beacon of the node's own.
\<close>

theorem tick_every_epoch:
  assumes "d_run from_json to_json show_addr sha512 blake3 R rng order d lg out n" "\<And>m. mset (order m) = mset m" "ristretto_ok R"
    and "n < 2 ^ 32" "keys_apart sha512 blake3 R rng (ns_node_id (d_state d)) (l1_store (d_state d))"
  shows "length (ns_clock_stream (d_state d)) = Suc (unat (d_epoch d))"
  using ticking_run [OF assms] by (simp add: ticking_def)

theorem tick_every_epoch_witness:
  "\<exists>d lg out. w_d_run d lg out 5 \<and> d_epoch d = 1 \<and> length (ns_clock_stream (d_state d)) = 2"
proof -
  obtain d lg out where d: "w_d_run d lg out 5" "d_epoch d = 1" by (rule w_epoch)
  have "length (ns_clock_stream (d_state d)) = Suc (unat (d_epoch d))"
    by (rule tick_every_epoch [OF d(1) mset_rev w_ristretto_ok _ w_apart]) simp
  also have "\<dots> = 2" by (simp add: d(2))
  finally show ?thesis using d by blast
qed

text \<open>
  (C8) An epoch ends, and everyone is asked. Once the loop has copied its peers, whatever is heard in between, the epoch ends at exactly the
  third piece after one piece per peer, and not before; the requests sent on the way are one to each peer copied, in order, with the readings
  of the clock those pieces took: no message makes the node ask.
\<close>

theorem epoch_completes:
  assumes "d_point d = Measuring ps" "run_events from_json to_json show_addr sha512 blake3 R rng order es d = Ret (d', out)"
    and "length (readings es) \<le> length ps + 3"
  shows "(d_point d' = Start_Epoch \<longleftrightarrow> length (readings es) = length ps + 3) \<and>
    d_epoch d' = d_epoch d + of_bool (length (readings es) = length ps + 3) \<and>
    filter is_request out = map (\<lambda>((p, a), t). (a, TimeRequest (ns_node_id (d_state d)) t (Epoch (d_epoch d)))) (zip ps (readings es))"
proof -
  have "d_point d' = Start_Epoch \<longleftrightarrow> pieces_left (d_point d') = 0" if "d_point d' \<noteq> Copy_Peers" using that by (cases "d_point d'") auto
  then show ?thesis using run_events_pieces [OF assms(2)] assms(1,3) by auto
qed

theorem epoch_completes_witness:
  "\<exists>d out. w_events [Loop 5 (Fin 0), Recv 6 6 w_addr (Ping 3), Loop 7 (Fin 0), Loop 8 (Fin 0), Loop 9 (Fin 0)]
      (w_daemon\<lparr>d_point := Measuring [(w_peer, w_addr)]\<rparr>) = Ret (d, out) \<and>
     d_point d = Start_Epoch \<and> d_epoch d = 1 \<and> filter is_request out = [(w_addr, TimeRequest w_me 5 (Epoch 0))]"
proof -
  let ?d = "w_daemon\<lparr>d_point := Measuring [(w_peer, w_addr)]\<rparr>"
  let ?es = "[Loop 5 (Fin 0), Recv 6 6 w_addr (Ping 3), Loop 7 (Fin 0), Loop 8 (Fin 0), Loop 9 (Fin 0)]"
  have "\<exists>d out. w_events ?es ?d = Ret (d, out)" by (simp add: handle_message_def case_prod_unfold Let_def)
  then obtain d out where e: "w_events ?es ?d = Ret (d, out)" by blast
  with epoch_completes [OF _ e, of "[(w_peer, w_addr)]"] show ?thesis by (simp add: w_daemon_fields)
qed

end
