(* ===== verification/Fmt.thy ===== *)
theory Fmt
  imports Ntp
begin

text \<open>
  The part of Rust's \<open>std::fmt\<close> the programs print with. A \<open>String\<close> is its UTF-8 bytes, as a list of
  characters: \<open>{:02x}\<close> of a byte, \<open>{}\<close> of an integer, \<open>{:.p}\<close> of a float (exact, ties to even),
  alignment to a width that counts code points, and slicing at a byte index, which panics inside a
  code point. With each the way back: reading a number from its digits.
\<close>

section \<open>Printing\<close>

definition hex_digit :: "nat \<Rightarrow> char" where
  "hex_digit n = char_of (if n < 10 then 48 + n else 87 + n)"

definition hex_byte :: "u8 \<Rightarrow> string" where
  "hex_byte b = [hex_digit (unat b div 16), hex_digit (unat b mod 16)]"

definition hex_bytes :: "bytes \<Rightarrow> string" where
  "hex_bytes bs = concat (map hex_byte bs)"

definition continuation :: "char \<Rightarrow> bool" where
  "continuation c \<longleftrightarrow> (of_char c :: nat) div 64 = 2"

definition chars_count :: "string \<Rightarrow> nat" where
  "chars_count s = length (filter (\<lambda>c. \<not> continuation c) s)"

definition pad_left :: "nat \<Rightarrow> string \<Rightarrow> string" where
  "pad_left w s = replicate (w - chars_count s) (CHR '' '') @ s"

definition pad_right :: "nat \<Rightarrow> string \<Rightarrow> string" where
  "pad_right w s = s @ replicate (w - chars_count s) (CHR '' '')"

definition zero_pad :: "nat \<Rightarrow> string \<Rightarrow> string" where
  "zero_pad w s = replicate (w - length s) (CHR ''0'') @ s"

definition slice_to :: "nat \<Rightarrow> string \<Rightarrow> string outcome" where
  "slice_to n s = (if n < length s \<and> \<not> continuation (s ! n) \<or> n = length s then Ret (take n s) else Panic)"

definition fixed_digits :: "nat \<Rightarrow> nat \<Rightarrow> string" where
  "fixed_digits p n = dec_digits (n div 10 ^ p) @ CHR ''.'' # zero_pad p (dec_digits (n mod 10 ^ p))"

definition fmt_fixed :: "nat \<Rightarrow> f64 \<Rightarrow> string" where
  "fmt_fixed p x = (if is_nan x then ''NaN''
     else (if is_neg x then ''-'' else '''') @
          (if is_inf x then ''inf'' else fixed_digits p (nat (rnd_even (\<bar>nval x\<bar> * 10 ^ p)))))"

definition fmt_int :: "int \<Rightarrow> string" where
  "fmt_int n = (if n < 0 then ''-'' else '''') @ dec_digits (nat \<bar>n\<bar>)"

definition plus_sign :: "string \<Rightarrow> string" where
  "plus_sign s = (if take 1 s = ''-'' then s else CHR ''+'' # s)"

section \<open>Reading back\<close>

definition dec_val :: "string \<Rightarrow> nat" where
  "dec_val s = foldl (\<lambda>v c. 10 * v + (of_char c - 48)) 0 s"

definition hex_val :: "char \<Rightarrow> nat" where
  "hex_val c = (let n = of_char c in if n < 58 then n - 48 else n - 87)"

fun unhex :: "string \<Rightarrow> bytes" where
  "unhex (a # b # s) = of_nat (16 * hex_val a + hex_val b) # unhex s"
| "unhex _ = []"

lemma of_char_of [simp]: "n < 256 \<Longrightarrow> of_char (char_of n) = (n :: nat)"
  by simp

lemma hex_val_digit [simp]: "n < 16 \<Longrightarrow> hex_val (hex_digit n) = n"
  by (auto simp: hex_val_def hex_digit_def Let_def)

lemma hex_byte_val [simp]:
  "16 * hex_val (hex_digit (unat (b :: u8) div 16)) + unat b mod 16 = unat b"
  "hex_val (hex_digit (unat b mod 16)) = unat b mod 16"
proof -
  have "unat b < 256" using unsigned_less [of b] by simp
  then have "unat b div 16 < 16" by (simp add: less_mult_imp_div_less)
  then show "16 * hex_val (hex_digit (unat b div 16)) + unat b mod 16 = unat b" by simp
qed simp

lemma unhex_hex_bytes [simp]: "unhex (hex_bytes bs) = bs"
  by (induction bs) (simp_all add: hex_bytes_def hex_byte_def del: of_nat_add of_nat_mult)

lemma length_hex_bytes [simp]: "length (hex_bytes bs) = 2 * length bs"
  by (induction bs) (simp_all add: hex_bytes_def hex_byte_def)

lemma foldl_dec: "foldl (\<lambda>v c. 10 * v + (of_char c - 48)) a s = a * 10 ^ length s + dec_val s"
  unfolding dec_val_def
proof (induction s arbitrary: a)
  case (Cons c s)
  show ?case using Cons [of "10 * a + (of_char c - 48)"] Cons [of "of_char c - 48"] by (simp add: algebra_simps)
qed simp

lemma dec_val_append: "dec_val (s @ t) = dec_val s * 10 ^ length t + dec_val t"
  by (metis dec_val_def foldl_append foldl_dec)

lemma dec_val_digits [simp]: "dec_val (dec_digits n) = n"
proof (induction n rule: dec_digits.induct)
  case (1 n)
  show ?case
  proof (cases "n < 10")
    case False
    then have "dec_digits n = dec_digits (n div 10) @ [char_of (48 + n mod 10)]" by (subst dec_digits.simps) simp
    then show ?thesis using 1 [OF False] by (simp add: dec_val_append del: dec_digits.simps) (simp add: dec_val_def)
  qed (subst dec_digits.simps, simp add: dec_val_def)
qed

lemma dec_val_zeros [simp]: "dec_val (replicate k (CHR ''0'') @ s) = dec_val s"
  by (induction k) (simp_all add: dec_val_def)

definition is_digit :: "char \<Rightarrow> bool" where
  "is_digit c \<longleftrightarrow> of_char c \<in> {48 ..< 58 :: nat}"

lemma dec_digits_digits: "\<forall>c \<in> set (dec_digits n). is_digit c"
proof (induction n rule: dec_digits.induct)
  case (1 n)
  then show ?case by (subst dec_digits.simps) (auto simp: is_digit_def)
qed

lemma length_dec_digits_le: "n < 10 ^ k \<Longrightarrow> 0 < k \<Longrightarrow> length (dec_digits n) \<le> k"
proof (induction k arbitrary: n)
  case (Suc k)
  show ?case
  proof (cases "n < 10")
    case True
    then show ?thesis by (subst dec_digits.simps) simp
  next
    case False
    have "0 < k" using Suc.prems False by (cases k) auto
    moreover have "n div 10 < 10 ^ k" using Suc.prems(1) by (simp add: less_mult_imp_div_less mult.commute)
    ultimately have "length (dec_digits (n div 10)) \<le> k" using Suc.IH by blast
    then show ?thesis using False by (subst dec_digits.simps) simp
  qed
qed simp

text \<open>A number printed with \<open>p\<close> digits after the point, read back in units of the last of them.\<close>

definition read_fixed :: "nat \<Rightarrow> string \<Rightarrow> nat" where
  "read_fixed p s = dec_val (takeWhile is_digit s) * 10 ^ p +
     dec_val (take p (drop 1 (dropWhile is_digit s)))"

lemma takeWhile_digits: "\<forall>c \<in> set ds. is_digit c \<Longrightarrow> \<not> is_digit c \<Longrightarrow> takeWhile is_digit (ds @ c # s) = ds \<and> dropWhile is_digit (ds @ c # s) = c # s"
  by (induction ds) auto

lemma length_zero_pad: "length s \<le> p \<Longrightarrow> length (zero_pad p s) = p"
  by (simp add: zero_pad_def)

lemma read_fixed_digits [simp]:
  assumes "0 < p"
  shows "read_fixed p (fixed_digits p n @ s) = n"
proof -
  have dot: "\<not> is_digit (CHR ''.'')" by (simp add: is_digit_def)
  note t = takeWhile_digits [OF dec_digits_digits dot, of "n div 10 ^ p" "zero_pad p (dec_digits (n mod 10 ^ p)) @ s"]
  have "length (zero_pad p (dec_digits (n mod 10 ^ p))) = p"
    using assms by (intro length_zero_pad length_dec_digits_le) auto
  then show ?thesis using t by (simp add: read_fixed_def fixed_digits_def zero_pad_def div_mult_mod_eq)
qed

end
