(* ===== verification/Wasm.thy ===== *)
theory Wasm
  imports Fmt Clock Kalman Samr Solver Mirror Layers
begin

text \<open>
  \<open>rtfsn-wasm/src/lib.rs\<close>: the node and the solver a browser page drives. What the page's
  environment answers is an argument: the random bytes (\<open>None\<close> when \<open>getrandom\<close> fails),
  \<open>window\<close> and \<open>performance\<close> (\<open>None\<close> where a worker has none), the JSON parser and printer.
\<close>

record wasm_clock_node =
  wn_node_id :: node_id
  wn_clock_state :: clock_state
  wn_kalman :: clock_kalman
  wn_samr :: samr_state
  wn_clock_stream :: clock_stream

definition wasm_node_new :: "bytes option \<Rightarrow> wasm_clock_node outcome" where
  "wasm_node_new random = (case random of None \<Rightarrow> Panic | Some ids \<Rightarrow>
     Ret \<lparr>wn_node_id = NodeId ids, wn_clock_state = clock_state_new, wn_kalman = kalman_new,
          wn_samr = clock_default, wn_clock_stream = clock_stream_new\<rparr>)"

text \<open>The window, with its performance object, with the milliseconds it reads.\<close>

type_synonym web = "f64 option option"

definition wasm_now_nanos :: "web \<Rightarrow> f64 outcome" where
  "wasm_now_nanos w = (case w of None \<Rightarrow> Panic | Some None \<Rightarrow> Panic
     | Some (Some ms) \<Rightarrow> Ret (fmul ms (Fin 1000000)))"

definition process_exchange :: "web \<Rightarrow> f64 \<Rightarrow> f64 \<Rightarrow> f64 \<Rightarrow> f64 \<Rightarrow> wasm_clock_node \<Rightarrow> (wasm_clock_node \<times> f64) outcome" where
  "process_exchange w t1 t2 t3 t4 n =
     (let exchange = time_exchange_new t1 t2 t3 t4;
          offset = ex_offset exchange;
          delay = round_trip_delay exchange
      in obind (wasm_now_nanos w) (\<lambda>now.
           let local_time = fdiv now (Fin 1000000000);
               clock_state = add_exchange exchange local_time (wn_clock_state n);
               measurement_variance = fsq (fdiv delay (Fin 2));
               kalman = kalman_step (Fin 1) offset measurement_variance (wn_kalman n);
               offset_nanos = f64_as_i64 (fmul offset (Fin 1000000000));
               uncertainty_nanos = f64_as_u64 (fmul delay (Fin 500000000));
               drift_ppb = f64_as_i64 (fmul (kalman_drift_rate kalman) (Fin 1000000000))
           in obind (obind (obind (obind (classify_reachability True (wn_samr n))
                (classify_tier (f64_as_u64 (fmul delay (Fin 1000000000)))))
                (classify_offset offset_nanos uncertainty_nanos))
                (classify_drift drift_ppb)) (\<lambda>samr.
                Ret (n\<lparr>wn_clock_state := clock_state, wn_kalman := kalman, wn_samr := samr\<rparr>,
                     fmul offset (Fin 1000000000)))))"

definition estimated_offset_nanos :: "wasm_clock_node \<Rightarrow> f64" where
  "estimated_offset_nanos n = fmul (kalman_offset (wn_kalman n)) (Fin 1000000000)"

definition estimated_drift_ppb :: "wasm_clock_node \<Rightarrow> f64" where
  "estimated_drift_ppb n = fmul (kalman_drift_rate (wn_kalman n)) (Fin 1000000000)"

definition wasm_uncertainty_nanos :: "wasm_clock_node \<Rightarrow> f64" where
  "wasm_uncertainty_nanos n = fmul (kalman_uncertainty (wn_kalman n)) (Fin 1000000000)"

definition wasm_samr_state :: "wasm_clock_node \<Rightarrow> u64 outcome" where
  "wasm_samr_state n = crt_decode (wn_samr n)"

definition latest_epoch :: "wasm_clock_node \<Rightarrow> u64" where
  "latest_epoch n = epoch_no (ct_epoch (stream_latest (wn_clock_stream n)))"

definition node_id_hex :: "wasm_clock_node \<Rightarrow> string" where
  "node_id_hex n = hex_bytes (id_bytes (wn_node_id n))"

record wasm_holonomy_solver =
  ws_solver :: holonomy_solver
  ws_node_count :: u32

definition wasm_solver_new :: wasm_holonomy_solver where
  "wasm_solver_new = \<lparr>ws_solver = solver_new, ws_node_count = 0\<rparr>"

definition wasm_id :: "u8 \<Rightarrow> node_id" where "wasm_id b = NodeId (replicate 32 b)"

definition wasm_add_node :: "u8 \<Rightarrow> i64 \<Rightarrow> wasm_holonomy_solver \<Rightarrow> wasm_holonomy_solver" where
  "wasm_add_node id_byte offset s =
     s\<lparr>ws_solver := add_node (wasm_id id_byte) (chiral_frame_new offset 0 100) (ws_solver s),
       ws_node_count := ws_node_count s + 1\<rparr>"

definition wasm_add_measurement :: "u8 \<Rightarrow> u8 \<Rightarrow> i64 \<Rightarrow> u64 \<Rightarrow> wasm_holonomy_solver \<Rightarrow> wasm_holonomy_solver" where
  "wasm_add_measurement a_byte b_byte offset rtt s =
     s\<lparr>ws_solver := add_measurement (wasm_id a_byte) (wasm_id b_byte)
         \<lparr>rtt_nanos = rtt, tw_offset_nanos = offset, asymmetry_nanos = 0, quality = 100, epoch_measured = 0\<rparr>
         (ws_solver s)\<rparr>"

definition wasm_solve :: "u32 \<Rightarrow> wasm_holonomy_solver \<Rightarrow> wasm_holonomy_solver \<times> u64" where
  "wasm_solve max_iterations s = (case solve max_iterations 1000 (ws_solver s) of (solver, result) \<Rightarrow>
     (s\<lparr>ws_solver := solver\<rparr>, max_defect_nanos result))"

definition wasm_converged :: "wasm_holonomy_solver \<Rightarrow> bool" where
  "wasm_converged s \<longleftrightarrow> hs_iteration (ws_solver s) > 0"

definition find_temporal_fixed_point ::
  "(string \<Rightarrow> i64 list option) \<Rightarrow> (temporal_mirror \<Rightarrow> string option) \<Rightarrow> string \<Rightarrow> string \<Rightarrow> string" where
  "find_temporal_fixed_point parse print forward_json backward_json =
     (let forward = (case parse forward_json of None \<Rightarrow> [] | Some v \<Rightarrow> v);
          backward = (case parse backward_json of None \<Rightarrow> [] | Some v \<Rightarrow> v)
      in case print (find_fixed_point forward backward 100) of None \<Rightarrow> '''' | Some s \<Rightarrow> s)"

section \<open>A session of exchanges\<close>

text \<open>The calls a page makes of \<open>process_exchange\<close>, each with what its clock read.\<close>

fun exchange_session :: "(f64 \<times> f64 \<times> f64 \<times> f64 \<times> f64) list \<Rightarrow> wasm_clock_node \<Rightarrow> wasm_clock_node outcome" where
  "exchange_session [] n = Ret n"
| "exchange_session ((ms, t1, t2, t3, t4) # xs) n =
     obind (process_exchange (Some (Some ms)) t1 t2 t3 t4 n) (\<lambda>(n', _). exchange_session xs n')"

lemma process_exchange_ok:
  assumes "samr_ok (wn_samr n)"
  shows "\<exists>k samr. samr_ok samr \<and> process_exchange (Some (Some ms)) t1 t2 t3 t4 n =
    Ret (n\<lparr>wn_clock_state := add_exchange (time_exchange_new t1 t2 t3 t4)
           (fdiv (fmul ms (Fin 1000000)) (Fin 1000000000)) (wn_clock_state n),
         wn_kalman := k, wn_samr := samr\<rparr>, fmul (ex_offset (time_exchange_new t1 t2 t3 t4)) (Fin 1000000000))"
proof -
  let ?e = "time_exchange_new t1 t2 t3 t4"
  let ?d = "round_trip_delay ?e"
  let ?k = "kalman_step (Fin 1) (ex_offset ?e) (fsq (fdiv ?d (Fin 2))) (wn_kalman n)"
  obtain samr where r: "obind (obind (obind (classify_reachability True (wn_samr n))
      (classify_tier (f64_as_u64 (fmul ?d (Fin 1000000000)))))
      (classify_offset (f64_as_i64 (fmul (ex_offset ?e) (Fin 1000000000))) (f64_as_u64 (fmul ?d (Fin 500000000)))))
      (classify_drift (f64_as_i64 (fmul (kalman_drift_rate ?k) (Fin 1000000000)))) = Ret samr" "samr_ok samr"
    using classify_total [OF assms] by blast
  show ?thesis
    by (intro exI [of _ ?k] exI [of _ samr]) (simp add: process_exchange_def Let_def wasm_now_nanos_def r)
qed

definition session_samples :: "(f64 \<times> f64 \<times> f64 \<times> f64 \<times> f64) list \<Rightarrow> (time_exchange \<times> f64) list" where
  "session_samples xs = map (\<lambda>(ms, t1, t2, t3, t4). (time_exchange_new t1 t2 t3 t4,
     fdiv (fmul ms (Fin 1000000)) (Fin 1000000000))) xs"

lemma exchange_session_ok:
  assumes "samr_ok (wn_samr n)"
  shows "\<exists>n'. exchange_session xs n = Ret n' \<and> samr_ok (wn_samr n') \<and> wn_node_id n' = wn_node_id n \<and>
    wn_clock_stream n' = wn_clock_stream n \<and>
    wn_clock_state n' = foldl (\<lambda>st (e, t). add_exchange e t st) (wn_clock_state n) (session_samples xs)"
  using assms
proof (induction xs arbitrary: n)
  case (Cons x xs)
  obtain ms t1 t2 t3 t4 where x: "x = (ms, t1, t2, t3, t4)" by (metis prod_cases5)
  from process_exchange_ok [OF Cons.prems, of ms t1 t2 t3 t4] obtain n1 v where
    n1: "process_exchange (Some (Some ms)) t1 t2 t3 t4 n = Ret (n1, v)" "samr_ok (wn_samr n1)"
      "wn_node_id n1 = wn_node_id n" "wn_clock_stream n1 = wn_clock_stream n"
      "wn_clock_state n1 = add_exchange (time_exchange_new t1 t2 t3 t4)
           (fdiv (fmul ms (Fin 1000000)) (Fin 1000000000)) (wn_clock_state n)" by auto
  from Cons.IH [OF n1(2)] n1 show ?case by (auto simp: x session_samples_def)
qed (simp add: session_samples_def)

text \<open>
  (C26) A browser node survives every session. From a node made with any 32 random bytes, any sequence of
  \<open>process_exchange\<close> calls on a page with a clock, with any floats for the four times (infinities and
  NaN included) returns; afterwards the residue code is a number below 210, the printed identity is
  64 hexadecimal digits from which the identity is read back, the regression has seen exactly the
  session's exchanges in order, and \<open>latest_epoch\<close> is still 0: nothing in the class ever emits a
  tick.
\<close>

theorem wasm_session:
  assumes "wasm_node_new (Some ids) = Ret n" "length ids = 32"
  shows "\<exists>n'. exchange_session xs n = Ret n' \<and>
    (\<exists>code. wasm_samr_state n' = Ret code \<and> unat code < 210) \<and>
    length (node_id_hex n') = 64 \<and> unhex (node_id_hex n') = ids \<and>
    wn_clock_state n' = foldl (\<lambda>st (e, t). add_exchange e t st) clock_state_new (session_samples xs) \<and>
    latest_epoch n' = 0"
proof -
  have n: "wn_samr n = clock_default" "wn_node_id n = NodeId ids" "wn_clock_state n = clock_state_new"
    "wn_clock_stream n = clock_stream_new"
    using assms(1) by (auto simp: wasm_node_new_def)
  have ok: "samr_ok (wn_samr n)" by (simp add: n samr_ok_default)
  from exchange_session_ok [OF ok, of xs] obtain n' where n': "exchange_session xs n = Ret n'" "samr_ok (wn_samr n')"
    "wn_node_id n' = NodeId ids" "wn_clock_stream n' = clock_stream_new"
    "wn_clock_state n' = foldl (\<lambda>st (e, t). add_exchange e t st) clock_state_new (session_samples xs)"
    by (auto simp: n)
  then show ?thesis using samr_code_bound [OF n'(2)] assms(2)
    by (auto simp: wasm_samr_state_def node_id_hex_def latest_epoch_def stream_latest_def clock_stream_new_def genesis_def)
qed

theorem wasm_session_witness:
  "\<exists>n n'. wasm_node_new (Some (replicate 32 7)) = Ret n \<and>
    exchange_session [(NaN, PInf, NInf, NaN, Fin 0), (Fin 1, Fin 0, Fin 1, Fin 1, Fin 2)] n = Ret n' \<and>
    unhex (node_id_hex n') = replicate 32 7 \<and> latest_epoch n' = 0"
proof -
  obtain n where n: "wasm_node_new (Some (replicate 32 7)) = Ret n" by (simp add: wasm_node_new_def)
  show ?thesis using wasm_session [OF n, of "[(NaN, PInf, NInf, NaN, Fin 0), (Fin 1, Fin 0, Fin 1, Fin 1, Fin 2)]"] n
    by auto
qed

section \<open>The solver\<close>

lemma solver_step_iteration: "hs_iteration (fst (solver_step s)) = hs_iteration s + 1"
  by (simp add: solver_step_def Let_def)

lemma solve_loop_iteration:
  "0 < k \<Longrightarrow> \<exists>j. 0 < j \<and> j \<le> k \<and> hs_iteration (fst (solve_loop k tol s r)) = hs_iteration s + of_nat j"
proof (induction k arbitrary: s r)
  case (Suc k)
  obtain s' r' where st: "solver_step s = (s', r')" by fastforce
  have it: "hs_iteration s' = hs_iteration s + 1" using solver_step_iteration [of s] by (simp add: st)
  consider (stop) "max_defect_nanos r' \<le> tol \<or> k = 0" | (go) "\<not> max_defect_nanos r' \<le> tol" "0 < k" by blast
  then show ?case
  proof cases
    case stop
    then have "hs_iteration (fst (solve_loop (Suc k) tol s r)) = hs_iteration s + of_nat 1" by (auto simp: st it)
    then show ?thesis by (intro exI [of _ 1]) simp
  next
    case go
    then obtain j where j: "0 < j" "j \<le> k" "hs_iteration (fst (solve_loop k tol s' r')) = hs_iteration s' + of_nat j"
      using Suc.IH by blast
    then show ?thesis using go by (intro exI [of _ "Suc j"]) (simp add: st it)
  qed
qed simp

text \<open>
  \<open>converged\<close> says only that \<open>solve\<close> was called. On a solver whose iteration count is zero (every new
  one, whatever nodes and measurements it was given), after \<open>solve\<close> with a positive number of
  iterations it is true whatever defect is left, even the largest one there is; after \<open>solve\<close> with
  zero iterations it is false.
\<close>

theorem wasm_converged_any:
  assumes "hs_iteration (ws_solver s) = 0"
  shows "wasm_converged (fst (wasm_solve n s)) \<longleftrightarrow> 0 < n"
proof (cases "n = 0")
  case True
  then show ?thesis using assms by (simp add: wasm_converged_def wasm_solve_def solve_def)
next
  case False
  then have "0 < unat n" by (simp add: unat_gt_0)
  from solve_loop_iteration [OF this, of 1000 "ws_solver s" "\<lparr>sr_iterations = 0, max_defect_nanos = - 1, mean_defect_nanos = - 1, sr_converged = False\<rparr>"]
  obtain j where j: "0 < j" "j \<le> unat n" "hs_iteration (fst (solve n 1000 (ws_solver s))) = of_nat j"
    using assms by (auto simp: solve_def)
  have "unat n < 2 ^ 32" using unsigned_less [of n] by simp
  then have "j < 2 ^ 32" using j(2) by simp
  then have "unat (of_nat j :: u32) = j" by (simp add: unat_of_nat take_bit_nat_eq_self)
  then have "(of_nat j :: u32) \<noteq> 0" using j(1) by (metis less_irrefl unat_0)
  then show ?thesis using j(3) False by (simp add: wasm_converged_def wasm_solve_def case_prod_unfold word_gt_0)
qed

text \<open>Two measurements of a loop of two nodes that contradict the offsets by a second: one iteration.\<close>

definition w_wasm_solver :: wasm_holonomy_solver where
  "w_wasm_solver = wasm_add_measurement 1 2 1000000000 20000000 (wasm_add_node 2 0 (wasm_add_node 1 0 wasm_solver_new))"

theorem wasm_converged_any_witness:
  "wasm_converged (fst (wasm_solve 1 w_wasm_solver)) \<and> \<not> wasm_converged (fst (wasm_solve 0 w_wasm_solver))"
proof -
  have z: "hs_iteration (ws_solver w_wasm_solver) = 0"
    by (simp add: w_wasm_solver_def wasm_add_measurement_def wasm_add_node_def wasm_solver_new_def
        solver_new_def add_node_def add_measurement_def)
  show ?thesis by (simp only: wasm_converged_any [OF z]) simp
qed

end
