(* ===== verification/Query.thy ===== *)
theory Query
  imports Fmt Net
begin

text \<open>
  \<open>rtfsn-daemon/src/bin/query.rs\<close>: the client that asks a daemon for its statistics and prints them.
  The socket, JSON and the printing of an address are arguments; the output is the list of lines on
  the standard output, each its UTF-8 bytes.
\<close>

record args =
  qa_target :: socket_addr
  qa_watch :: "u64 option"
  qa_json :: bool
  qa_timeout_ms :: u64

section \<open>Asking\<close>

definition em_dash :: string where "em_dash = [CHR 0xE2, CHR 0x80, CHR 0x94]"

definition query_daemon :: "string + unit \<Rightarrow> (protocol_message \<Rightarrow> string + bytes) \<Rightarrow> (bytes \<Rightarrow> socket_addr \<Rightarrow> string + nat) \<Rightarrow>
    (string + bytes) option \<Rightarrow> (bytes \<Rightarrow> string + protocol_message) \<Rightarrow> socket_addr \<Rightarrow> u64 \<Rightarrow> string + protocol_message" where
  "query_daemon bound serialize send_to received deserialize target timeout_ms =
     (case bound of Inl _ \<Rightarrow> Inl ''bind local UDP socket''
      | Inr _ \<Rightarrow>
      case serialize StatsRequest of Inl _ \<Rightarrow> Inl ''serialize StatsRequest''
      | Inr data \<Rightarrow>
      case send_to data target of Inl _ \<Rightarrow> Inl ''send StatsRequest''
      | Inr _ \<Rightarrow>
      case received of
        None \<Rightarrow> Inl (''timeout ('' @ dec_digits (unat timeout_ms) @ '' ms) '' @ em_dash @ '' is the daemon running?'')
      | Some (Inl _) \<Rightarrow> Inl ''recv StatsResponse''
      | Some (Inr buf) \<Rightarrow>
      case deserialize (take 65536 buf) of Inl _ \<Rightarrow> Inl ''deserialize StatsResponse''
      | Inr resp \<Rightarrow> Inr resp)"

section \<open>Formatting\<close>

definition fmt_ns :: "u64 \<Rightarrow> string" where
  "fmt_ns ns =
     (if ns = 0 then ''0 ns''
      else if ns < 1000 then dec_digits (unat ns) @ '' ns''
      else if ns < 1000000 then fmt_fixed 2 (fdiv (of_u64 ns) (Fin 1000)) @ '' us''
      else if ns < 1000000000 then fmt_fixed 3 (fdiv (of_u64 ns) (Fin 1000000)) @ '' ms''
      else fmt_fixed 3 (fdiv (of_u64 ns) (Fin 1000000000)) @ '' s'')"

definition fmt_ns_signed :: "i64 \<Rightarrow> string" where
  "fmt_ns_signed ns =
     (let abs = unsigned_abs_i64 ns; sign = (if ns < 0 then CHR ''-'' else CHR ''+'') in
      if abs < 1000 then sign # dec_digits (unat abs) @ '' ns''
      else if abs < 1000000 then sign # fmt_fixed 2 (fdiv (of_u64 abs) (Fin 1000)) @ '' us''
      else if abs < 1000000000 then sign # fmt_fixed 3 (fdiv (of_u64 abs) (Fin 1000000)) @ '' ms''
      else sign # fmt_fixed 3 (fdiv (of_u64 abs) (Fin 1000000000)) @ '' s'')"

definition fmt_rtt_col :: "u64 \<Rightarrow> string" where "fmt_rtt_col ns = pad_left 9 (fmt_ns ns)"
definition fmt_offset_col :: "i64 \<Rightarrow> string" where "fmt_offset_col ns = pad_left 11 (fmt_ns_signed ns)"
definition fmt_asym_col :: "i64 \<Rightarrow> string" where "fmt_asym_col ns = pad_left 9 (fmt_ns_signed ns)"

definition hms :: "u64 \<Rightarrow> string" where
  "hms unix_secs =
     (let h = (unix_secs mod 86400) div 3600; m = (unix_secs mod 3600) div 60; s = unix_secs mod 60;
          two = (\<lambda>w. zero_pad 2 (dec_digits (unat w)))
      in two h @ '':'' @ two m @ '':'' @ two s @ '' UTC'')"

definition peer_hex :: "node_id \<Rightarrow> string" where
  "peer_hex i = hex_bytes (take 4 (id_bytes i))"

section \<open>Display\<close>

definition row_cells :: "string list \<Rightarrow> string" where
  "row_cells cs = concat (map (\<lambda>c. ''  '' @ c) cs)"

definition print_peer_row :: "peer_stats \<Rightarrow> string outcome" where
  "print_peer_row p =
     obind (if length (ps_peer_addr p) > 24 then slice_to 24 (ps_peer_addr p) else Ret (ps_peer_addr p)) (\<lambda>addr.
       let trend = (if ps_trend_nanos_per_epoch p = 0 then ''stable''
                    else plus_sign (fmt_int (ps_trend_nanos_per_epoch p)) @ ''ns/ep'')
       in Ret (row_cells [pad_right 8 (peer_hex (ps_peer_id p)), pad_right 24 addr, fmt_rtt_col (ps_rtt_nanos p),
            fmt_offset_col (ps_offset_nanos p), fmt_asym_col (ps_asymmetry_nanos p),
            pad_left 4 (dec_digits (unat (ps_quality p))), pad_left 4 (dec_digits (unat (ps_sample_count p))),
            pad_left 9 (fmt_ns (ps_rtt_jitter_ns p)), trend]))"

fun print_peer_rows :: "peer_stats list \<Rightarrow> string list outcome" where
  "print_peer_rows [] = Ret []"
| "print_peer_rows (p # ps) =
     obind (print_peer_row p) (\<lambda>row. obind (print_peer_rows ps) (\<lambda>rows. Ret (row # rows)))"

definition double_line :: string where
  "double_line = concat (replicate 64 [CHR 0xE2, CHR 0x95, CHR 0x90])"

definition single_line :: string where
  "single_line = concat (replicate 64 [CHR 0xE2, CHR 0x94, CHR 0x80])"

fun join_arrow :: "string list \<Rightarrow> string" where
  "join_arrow [] = ''''"
| "join_arrow [x] = x"
| "join_arrow (x # y # ys) = x @ '' -> '' @ join_arrow (y # ys)"

definition stats_head :: "(socket_addr \<Rightarrow> string) \<Rightarrow> stats_response \<Rightarrow> socket_addr \<Rightarrow> u64 \<Rightarrow> string list" where
  "stats_head show_addr r target query_time =
     (let drift_ns_per_s = fdiv (of_i64 (st_drift_ppb r)) (Fin 1000);
          solver_status = (if st_solver_converged r then ''converged'' else ''timeout  '');
          region_str = (if st_geoid_region_counts r = [] then ''none''
                        else join_arrow (map (\<lambda>c. dec_digits (unat c)) (st_geoid_region_counts r)));
          chain_ok = (if st_chain_valid r then ''[OK]'' else ''[INVALID]'')
      in [double_line,
          '' RTFSN node '' @ peer_hex (st_node_id r) @ ''  epoch '' @ dec_digits (unat (st_epoch r)) @
            ''  @ '' @ show_addr target @ ''  '' @ hms query_time,
          single_line,
          ''  offset     '' @ pad_left 13 (fmt_ns_signed (st_offset_nanos r)) @ ''  '' @ [CHR 0xC2, CHR 0xB1] @
            fmt_ns (st_uncertainty_nanos r),
          ''  drift      '' @ pad_left 13 (plus_sign (fmt_int (st_drift_ppb r))) @ '' ppb  ('' @
            plus_sign (fmt_fixed 2 drift_ns_per_s) @ '' ns/s)'',
          ''  RTT        min='' @ fmt_ns (st_rtt_min_ns r) @ ''  mean='' @ fmt_ns (st_rtt_mean_ns r) @
            ''  max='' @ fmt_ns (st_rtt_max_ns r),
          ''  jitter     '' @ fmt_ns (st_rtt_jitter_ns r) @ ''  (RTT std dev across peers)'',
          ''  solver     '' @ solver_status @ ''  '' @ dec_digits (unat (st_solver_iters r)) @ '' iters  defect='' @
            fmt_ns (st_max_defect_nanos r),
          ''  geoid      '' @ dec_digits (unat (st_geoid_depth r)) @ '' levels  ['' @ region_str @ '']'',
          ''  chain      '' @ dec_digits (unat (st_chain_length r)) @ '' ticks  '' @ chain_ok,
          single_line])"

definition print_stats :: "(socket_addr \<Rightarrow> string) \<Rightarrow> protocol_message \<Rightarrow> socket_addr \<Rightarrow> u64 \<Rightarrow> string list outcome" where
  "print_stats show_addr resp target query_time = (case resp of
     StatsResponse r \<Rightarrow>
       obind (if st_peers r = []
              then Ret [''  peers:  (none '' @ em_dash @ '' waiting for first epoch exchange)'']
              else obind (print_peer_rows (st_peers r)) (\<lambda>rows. Ret (
                [''  peers ('' @ dec_digits (length (st_peers r)) @ ''):'',
                 row_cells [pad_right 8 ''peer'', pad_right 24 ''address'', pad_left 9 ''RTT'', pad_left 11 ''offset'',
                   pad_left 9 ''asym'', pad_left 4 ''qual'', pad_left 4 ''n'', pad_left 9 ''jitter'', ''trend''],
                 row_cells (map (\<lambda>n. replicate n (CHR ''-'')) [8, 24, 9, 11, 9, 4, 4, 9, 12])] @ rows)))
         (\<lambda>peers. Ret (stats_head show_addr r target query_time @ peers @ [double_line]))
   | _ \<Rightarrow> Ret [])"

section \<open>The program\<close>

text \<open>
  One round is the time read and the answer of \<open>query_daemon\<close>. The result is what was printed and the
  exit status, \<open>None\<close> while the watch goes on after the rounds given.
\<close>

fun query_main :: "(socket_addr \<Rightarrow> string) \<Rightarrow> (protocol_message \<Rightarrow> string option) \<Rightarrow> args \<Rightarrow>
    (u64 \<times> (string + protocol_message)) list \<Rightarrow> (string list \<times> nat option) outcome" where
  "query_main show_addr to_json a [] = Ret ([], None)"
| "query_main show_addr to_json a ((query_time, answer) # rounds) = (case answer of
     Inl e \<Rightarrow> Ret ([], Some 1)
   | Inr resp \<Rightarrow>
       obind (if qa_json a
              then (case to_json resp of None \<Rightarrow> Ret None | Some s \<Rightarrow> Ret (Some [s]))
              else obind (print_stats show_addr resp (qa_target a) query_time) (\<lambda>ls. Ret (Some ls))) (\<lambda>printed.
         case printed of None \<Rightarrow> Ret ([], Some 1)
         | Some ls \<Rightarrow>
             if (case qa_watch a of None \<Rightarrow> 0 | Some n \<Rightarrow> n) = 0 then Ret (ls, Some 0)
             else obind (query_main show_addr to_json a rounds) (\<lambda>(ls', st). Ret (ls @ [''''] @ ls', st))))"

section \<open>What a duration looks like\<close>

text \<open>The way back: the unit is the last two characters.\<close>

definition read_ns :: "string \<Rightarrow> nat" where
  "read_ns s = (let u = drop (length s - 2) s in
     if u = ''us'' then 10 * read_fixed 2 s
     else if u = ''ms'' then 1000 * read_fixed 3 s
     else if u = '' s'' then 1000000 * read_fixed 3 s
     else dec_val (takeWhile is_digit s))"

definition read_signed :: "string \<Rightarrow> int" where
  "read_signed s = (if take 1 s = ''-'' then - int (read_ns (drop 1 s)) else int (read_ns (drop 1 s)))"

text \<open>The unit a duration is printed in, and how much the reader can be off by.\<close>

definition fmt_error :: "nat \<Rightarrow> int" where
  "fmt_error n = (if n < 1000 then 0 else if n < 1000000 then 5 else if n < 1000000000 then 500 else 505000)"

lemma of_u64_err:
  "\<bar>nval (of_u64 w) - of_int (uint w)\<bar> \<le> (if uint w \<le> 2 ^ 53 then 0 else 2 ^ 10)"
proof (cases "uint w \<le> 2 ^ 53")
  case True
  then show ?thesis by (simp add: of_u64_def rnd_of_int del: of_int_uint)
next
  case False
  have "uint w < 2 ^ 64" using uint_lt2p [of w] by simp
  then have "(of_int (uint w) :: rat) < of_int (2 ^ 64)" by (simp only: of_int_less_iff)
  then have b: "\<bar>of_int (uint w) :: rat\<bar> < 2 ^ 64" by (simp del: of_int_uint)
  have err: "\<bar>rr (of_int (uint w)) - of_int (uint w)\<bar> \<le> 2 ^ 10" using rr_abs_err [OF b] by (simp del: of_int_uint)
  have "(2 :: rat) ^ 10 + 2 ^ 64 < f_huge" by (simp add: f_huge_def)
  then have "\<bar>rr (of_int (uint w) :: rat)\<bar> \<le> f_huge" using err b by linarith
  then show ?thesis using False err by (simp add: of_u64_def nval_rnd nclamp_id del: of_int_uint)
qed

text \<open>A quotient by \<open>d\<close> below \<open>2^k\<close>, printed with \<open>p\<close> digits.\<close>

lemma fmt_fixed_close:
  assumes "is_finite x" "\<not> is_neg x"
  shows "\<exists>n. fmt_fixed p x = fixed_digits p n \<and> \<bar>of_nat n - nval x * 10 ^ p\<bar> \<le> 1 / 2"
proof -
  have x: "0 \<le> nval x" using assms by (cases x) (auto simp: f64_class)
  then have "0 \<le> rnd_even (nval x * 10 ^ p)" by (intro rnd_even_ge) simp
  then show ?thesis using assms x rnd_even_close [of "nval x * 10 ^ p"]
    by (intro exI [of _ "nat (rnd_even (nval x * 10 ^ p))"]) (auto simp: fmt_fixed_def is_finite_def)
qed

lemma not_nzero_rnd: "0 \<le> x \<Longrightarrow> rnd x \<noteq> NZero"
  by (simp add: rnd_def Let_def)

lemma not_nzero_fdiv:
  assumes "is_finite a" "a \<noteq> NZero" "0 \<le> nval a" "0 < r"
  shows "fdiv a (Fin r) \<noteq> NZero"
proof -
  have "\<not> is_neg a" using assms by (auto simp: f64_class)
  then show ?thesis using assms not_nzero_rnd [of "nval a / r"]
    by (auto simp: fdiv_def is_finite_def is_zero_def is_inf_def fzero_def is_neg_def)
qed

lemma nval_quotient:
  fixes w :: u64
  assumes "1 \<le> d" "d \<le> 2 ^ 53" "uint w < 2 ^ k * d" "k \<le> 35"
  defines "q \<equiv> fdiv (of_u64 w) (Fin (of_int d))"
  shows "is_finite q" "\<not> is_neg q" "\<bar>nval q * of_int d - nval (of_u64 w)\<bar> \<le> 2 powi (int k - 53) * of_int d"
proof -
  let ?a = "nval (of_u64 w)"
  have d: "0 < (of_int d :: rat)" using assms(1) by simp
  have a: "0 \<le> ?a" by (simp add: of_u64_def nval_rnd rnd_nonneg del: of_int_uint)
  have "?a \<le> 2 * of_int (uint w)"
  proof (cases "uint w \<le> 2 ^ 53")
    case True
    then have "?a = of_int (uint w)" using of_u64_err [of w] by simp
    then show ?thesis by (simp only:) (simp del: of_int_uint)
  next
    case False
    then have "(of_int (2 ^ 53) :: rat) < of_int (uint w)" by (simp only: of_int_less_iff not_le)
    then have "(2 ^ 10 :: rat) < of_int (uint w)" by (simp del: of_int_uint)
    then show ?thesis using of_u64_err [of w] False by (simp only: if_False)
  qed
  also have "\<dots> < 2 * of_int (2 ^ k * d)" using assms(3) by (simp only: of_int_less_iff mult_less_cancel_left_pos)
  finally have "?a / of_int d < 2 ^ (k + 1)" using d by (simp add: pos_divide_less_eq)
  then have b: "\<bar>?a / of_int d\<bar> < 2 ^ (k + 1)" using a d by simp
  note err = rr_abs_err [OF b]
  have "(2 :: rat) ^ (k + 1) \<le> 2 ^ 36" using assms(4) by (intro power_increasing) auto
  moreover have "(2 :: rat) powi (int (k + 1) - 54) \<le> 1"
    using assms(4) two_powi_le_iff [of "int (k + 1) - 54" 0] by simp
  moreover have "(2 :: rat) ^ 36 + 1 < f_huge" by (simp add: f_huge_def)
  ultimately have rr: "\<bar>rr (?a / of_int d)\<bar> < f_huge" using err b by linarith
  have v: "nval q = rr (?a / of_int d)"
    unfolding q_def using d rr by (simp add: nval_fdiv nclamp_id)
  have nn: "\<not> is_nan q" unfolding q_def using d by (intro nan_fdiv) auto
  show "is_finite q" using rr nn by (intro finite_bounded) (simp_all add: v, simp add: q_def)
  have "0 \<le> nval q" unfolding v using a d by (intro rr_nonneg) simp
  moreover have "q \<noteq> NZero"
    unfolding q_def using d a not_nzero_rnd [of "of_int (uint w)"]
    by (intro not_nzero_fdiv) (simp, simp add: of_u64_def del: of_int_uint, auto)
  ultimately show "\<not> is_neg q" using \<open>is_finite q\<close> by (auto simp: is_neg_def)
  have "nval q * of_int d - ?a = (rr (?a / of_int d) - ?a / of_int d) * of_int d"
    using d by (simp add: v algebra_simps)
  then have "\<bar>nval q * of_int d - ?a\<bar> = \<bar>rr (?a / of_int d) - ?a / of_int d\<bar> * of_int d"
    using d by (simp add: abs_mult)
  also have "\<dots> \<le> 2 powi (int k - 53) * of_int d" using err d by (intro mult_right_mono) auto
  finally show "\<bar>nval q * of_int d - ?a\<bar> \<le> 2 powi (int k - 53) * of_int d" .
qed

lemma fmt_quotient:
  fixes w :: u64
  assumes "1 \<le> d" "d \<le> 2 ^ 53" "uint w < 2 ^ k * d" "k \<le> 35"
    and B: "of_int d / 2 + 10 ^ p * (2 powi (int k - 53) * of_int d + (if uint w \<le> 2 ^ 53 then 0 else 2 ^ 10)) < (of_int (B + 1) :: rat)"
  shows "\<exists>n. fmt_fixed p (fdiv (of_u64 w) (Fin (of_int d))) = fixed_digits p n \<and> \<bar>int n * d - uint w * 10 ^ p\<bar> \<le> B"
proof -
  let ?q = "fdiv (of_u64 w) (Fin (of_int d))"
  note q = nval_quotient [OF assms(1-4)]
  obtain n where n: "fmt_fixed p ?q = fixed_digits p n" "\<bar>of_nat n - nval ?q * 10 ^ p\<bar> \<le> 1 / 2"
    using fmt_fixed_close [OF q(1,2)] by blast
  define e1 where "e1 = of_nat n - nval ?q * 10 ^ p"
  define e2 where "e2 = nval ?q * of_int d - nval (of_u64 w)"
  define e3 where "e3 = nval (of_u64 w) - of_int (uint w)"
  have tri: "\<bar>a + 10 ^ p * (b + c)\<bar> \<le> \<bar>a\<bar> + 10 ^ p * (\<bar>b\<bar> + \<bar>c\<bar>)" for a b c :: rat
  proof -
    have "\<bar>10 ^ p * (b + c)\<bar> \<le> 10 ^ p * (\<bar>b\<bar> + \<bar>c\<bar>)" by (simp add: abs_mult abs_triangle_ineq)
    then show ?thesis using abs_triangle_ineq [of a "10 ^ p * (b + c)"] by linarith
  qed
  have "of_int (int n * d - uint w * 10 ^ p) = e1 * of_int d + 10 ^ p * (e2 + e3)"
    by (simp add: e1_def e2_def e3_def algebra_simps del: of_int_uint)
  then have "\<bar>of_int (int n * d - uint w * 10 ^ p)\<bar> \<le> \<bar>e1\<bar> * of_int d + 10 ^ p * (\<bar>e2\<bar> + \<bar>e3\<bar>)"
    using assms(1) tri [of "e1 * of_int d"] by (simp add: abs_mult)
  also have "\<dots> \<le> 1 / 2 * of_int d + 10 ^ p * (2 powi (int k - 53) * of_int d + (if uint w \<le> 2 ^ 53 then 0 else 2 ^ 10))"
    using n(2) q(3) of_u64_err [of w] assms(1) unfolding e1_def e2_def e3_def
    by (intro add_mono mult_right_mono mult_left_mono) auto
  also have "\<dots> < of_int (B + 1)" using B by simp
  finally have "of_int \<bar>int n * d - uint w * 10 ^ p\<bar> < (of_int (B + 1) :: rat)" by (simp only: of_int_abs)
  then have "\<bar>int n * d - uint w * 10 ^ p\<bar> \<le> B" by (simp only: of_int_less_iff)
  with n(1) show ?thesis by blast
qed

lemma dec_digits_0: "dec_digits 0 = ''0''"
  by code_simp

lemma fmt_ns_signed_eq: "fmt_ns_signed z = (if z < 0 then CHR ''-'' else CHR ''+'') # fmt_ns (unsigned_abs_i64 z)"
  by (simp add: fmt_ns_signed_def fmt_ns_def Let_def dec_digits_0)

lemma fmt_guards: "(a :: u64) \<le> w \<Longrightarrow> a \<noteq> 0 \<Longrightarrow> w \<noteq> 0" "a \<le> w \<Longrightarrow> b \<le> a \<Longrightarrow> \<not> w < b"
  by auto

lemma unit_scale:
  fixes c :: int
  assumes "\<bar>int n * (int a * c) - w * c\<bar> \<le> b * c" "0 < c"
  shows "\<bar>int (a * n) - w\<bar> \<le> b"
proof -
  have "int n * (int a * c) - w * c = (int (a * n) - w) * c" by (simp add: algebra_simps)
  then show ?thesis using assms by (simp add: abs_mult)
qed

lemma read_ns_fmt: "\<bar>int (read_ns (fmt_ns w)) - uint w\<bar> \<le> fmt_error (unat w)"
proof -
  consider (ns) "w < 1000" | (us) "1000 \<le> w" "w < 1000000" | (ms) "1000000 \<le> w" "w < 1000000000" | (s) "1000000000 \<le> w"
    by (meson not_le)
  then show ?thesis
  proof cases
    case ns
    have f: "fmt_ns w = dec_digits (unat w) @ CHR '' '' # ''ns''"
      using ns by (auto simp: fmt_ns_def dec_digits_0)
    have "\<not> is_digit (CHR '' '')" by (simp add: is_digit_def)
    from takeWhile_digits [OF dec_digits_digits this] have "read_ns (fmt_ns w) = unat w"
      by (simp add: f read_ns_def Let_def)
    then show ?thesis using ns by (simp add: fmt_error_def word_less_nat_alt)
  next
    case us
    have w: "uint w < 1000000" "1000 \<le> uint w" using us by (simp_all add: word_less_def word_le_def)
    obtain n where n: "fmt_fixed 2 (fdiv (of_u64 w) (Fin (of_int 1000))) = fixed_digits 2 n" "\<bar>int n * 1000 - uint w * 10 ^ 2\<bar> \<le> 500"
      using fmt_quotient [of 1000 w 10 2 500] w by (auto simp: power_int_minus)
    have "fmt_ns w = fixed_digits 2 n @ '' us''" using us n(1) by (simp add: fmt_ns_def leD fmt_guards)
    then have "read_ns (fmt_ns w) = 10 * n" by (simp add: read_ns_def Let_def)
    moreover have "fmt_error (unat w) = 5" using us by (simp add: fmt_error_def word_less_nat_alt word_le_nat_alt)
    ultimately show ?thesis using unit_scale [of n 10 100 "uint w" 5] n(2) by simp
  next
    case ms
    have w: "uint w < 1000000000" "1000000 \<le> uint w" using ms by (simp_all add: word_less_def word_le_def)
    obtain n where n: "fmt_fixed 3 (fdiv (of_u64 w) (Fin (of_int 1000000))) = fixed_digits 3 n" "\<bar>int n * 1000000 - uint w * 10 ^ 3\<bar> \<le> 500000"
      using fmt_quotient [of 1000000 w 10 3 500000] w by (auto simp: power_int_minus)
    have "fmt_ns w = fixed_digits 3 n @ '' ms''" using ms n(1) by (simp add: fmt_ns_def leD fmt_guards)
    then have "read_ns (fmt_ns w) = 1000 * n" by (simp add: read_ns_def Let_def)
    moreover have "fmt_error (unat w) = 500" using ms by (simp add: fmt_error_def word_less_nat_alt word_le_nat_alt)
    ultimately show ?thesis using unit_scale [of n 1000 1000 "uint w" 500] n(2) by simp
  next
    case s
    have w: "uint w < 2 ^ 64" "1000000000 \<le> uint w" using s uint_lt2p [of w] by (simp_all add: word_le_def)
    obtain n where n: "fmt_fixed 3 (fdiv (of_u64 w) (Fin (of_int 1000000000))) = fixed_digits 3 n"
      "\<bar>int n * 1000000000 - uint w * 10 ^ 3\<bar> \<le> 505000000"
      using fmt_quotient [of 1000000000 w 35 3 505000000] w by (cases "uint w \<le> 2 ^ 53") (auto simp: power_int_minus)
    have "fmt_ns w = fixed_digits 3 n @ '' s''" using s n(1) by (simp add: fmt_ns_def leD fmt_guards)
    then have "read_ns (fmt_ns w) = 1000000 * n" by (simp add: read_ns_def Let_def)
    moreover have "fmt_error (unat w) = 505000" using s by (simp add: fmt_error_def word_le_nat_alt)
    ultimately show ?thesis using unit_scale [of n 1000000 1000 "uint w" 505000] n(2) by simp
  qed
qed

section \<open>Properties\<close>

text \<open>
  (C31) Printed durations can be trusted. A duration as \<open>fmt_ns\<close> prints it, read back from its digits and
  its unit, is the duration itself below a microsecond, within 5 ns below a millisecond, within
  500 ns below a second, and within half the last printed digit and 5 microseconds (what
  floating-point numbers lose on 584 years) above; digits that round up to the next unit (\<open>1000.00 us\<close>)
  still read back right, and a signed duration keeps its sign.
\<close>

theorem fmt_ns_readable:
  assumes "is_i64 z"
  shows "\<bar>int (read_ns (fmt_ns w)) - uint w\<bar> \<le> fmt_error (unat w) \<and>
    \<bar>read_signed (fmt_ns_signed z) - z\<bar> \<le> fmt_error (nat \<bar>z\<bar>)"
proof
  have u: "uint (unsigned_abs_i64 z) = \<bar>z\<bar>" using assms by (rule uint_unsigned_abs)
  then have n: "unat (unsigned_abs_i64 z) = nat \<bar>z\<bar>" by (simp add: unat_eq_nat_uint)
  have "\<bar>int (read_ns (fmt_ns (unsigned_abs_i64 z))) - \<bar>z\<bar>\<bar> \<le> fmt_error (nat \<bar>z\<bar>)"
    using read_ns_fmt [of "unsigned_abs_i64 z"] by (simp only: u n)
  then show "\<bar>read_signed (fmt_ns_signed z) - z\<bar> \<le> fmt_error (nat \<bar>z\<bar>)"
    by (auto simp: fmt_ns_signed_eq read_signed_def abs_if split: if_splits)
qed (rule read_ns_fmt)

theorem fmt_ns_readable_witness:
  "\<bar>int (read_ns (fmt_ns 999)) - 999\<bar> \<le> 0 \<and> \<bar>read_signed (fmt_ns_signed (- 1234567)) - (- 1234567)\<bar> \<le> 500"
  using fmt_ns_readable [of "- 1234567" 999] by (simp add: i64_defs fmt_error_def)

text \<open>The time of day: two digits each, and together the second of the day.\<close>

lemma zero_pad_two: "n < 100 \<Longrightarrow> length (zero_pad 2 (dec_digits n)) = 2"
  by (intro length_zero_pad length_dec_digits_le) auto

lemma dec_val_zero_pad [simp]: "dec_val (zero_pad k (dec_digits n)) = n"
  by (simp add: zero_pad_def)

lemma second_of_day: "3600 * (t mod 86400 div 3600) + 60 * (t mod 3600 div 60) + t mod 60 = t mod (86400 :: nat)"
proof -
  have "t mod 86400 mod 3600 = t mod 3600" "t mod 3600 mod 60 = t mod 60" by (simp_all add: mod_mod_cancel)
  then show ?thesis using div_mult_mod_eq [of "t mod 86400" 3600] div_mult_mod_eq [of "t mod 3600" 60] by linarith
qed

theorem hms_readable:
  "length (hms t) = 12 \<and> dec_val (take 2 (hms t)) < 24 \<and>
   3600 * dec_val (take 2 (hms t)) + 60 * dec_val (take 2 (drop 3 (hms t))) + dec_val (take 2 (drop 6 (hms t))) = unat t mod 86400"
proof -
  define h m s where "h = unat t mod 86400 div 3600" and "m = unat t mod 3600 div 60" and "s = unat t mod 60"
  have b: "h < 24" "m < 60" "s < 60" by (simp_all add: h_def m_def s_def less_mult_imp_div_less)
  have l: "length (zero_pad 2 (dec_digits h)) = 2" "length (zero_pad 2 (dec_digits m)) = 2" "length (zero_pad 2 (dec_digits s)) = 2"
    using b by (auto intro!: zero_pad_two)
  have e: "hms t = zero_pad 2 (dec_digits h) @ '':'' @ zero_pad 2 (dec_digits m) @ '':'' @ zero_pad 2 (dec_digits s) @ '' UTC''"
    by (simp add: hms_def h_def m_def s_def unat_div_distrib unat_mod_distrib)
  have "3600 * h + 60 * m + s = unat t mod 86400" unfolding h_def m_def s_def by (rule second_of_day)
  then show ?thesis using l b by (simp add: e)
qed

lemma print_peer_row_cases:
  "print_peer_row p = Panic \<longleftrightarrow> 24 < length (ps_peer_addr p) \<and> continuation (ps_peer_addr p ! 24)"
  by (simp add: print_peer_row_def slice_to_def Let_def)

lemma print_peer_rows_cases:
  "print_peer_rows ps = Panic \<longleftrightarrow> (\<exists>p \<in> set ps. print_peer_row p = Panic)"
  "print_peer_rows ps = Ret rows \<Longrightarrow> length rows = length ps"
proof -
  show "print_peer_rows ps = Panic \<longleftrightarrow> (\<exists>p \<in> set ps. print_peer_row p = Panic)"
  proof (induction ps)
    case (Cons p ps)
    then show ?case by (cases "print_peer_row p"; cases "print_peer_rows ps") auto
  qed simp
  show "print_peer_rows ps = Ret rows \<Longrightarrow> length rows = length ps"
    by (induction ps arbitrary: rows) (auto simp: obind_eq_Ret)
qed

text \<open>
  What one query does. Without \<open>--json\<close> and \<open>--watch\<close>: a failed query exits with status 1; a reply
  of any kind other than statistics prints nothing and exits with status 0, as if it had succeeded;
  statistics are printed whole, with one row per peer, and exit with status 0, unless the daemon at
  the other end put a peer address into them whose byte 24 is inside a code point, which panics.
\<close>

theorem query_one_shot:
  assumes "qa_watch a \<in> {None, Some 0}" "\<not> qa_json a"
  shows "query_main show_addr to_json a ((t, Inl e) # rounds) = Ret ([], Some 1) \<and>
    (\<forall>m. (\<nexists>r. m = StatsResponse r) \<longrightarrow> query_main show_addr to_json a ((t, Inr m) # rounds) = Ret ([], Some 0)) \<and>
    (\<forall>r. if \<exists>p \<in> set (st_peers r). 24 < length (ps_peer_addr p) \<and> continuation (ps_peer_addr p ! 24)
         then query_main show_addr to_json a ((t, Inr (StatsResponse r)) # rounds) = Panic
         else \<exists>ls. query_main show_addr to_json a ((t, Inr (StatsResponse r)) # rounds) = Ret (ls, Some 0) \<and>
           length ls = 12 + (if st_peers r = [] then 1 else 3 + length (st_peers r)))"
proof -
  have w: "(case qa_watch a of None \<Rightarrow> 0 | Some n \<Rightarrow> n) = 0" using assms(1) by auto
  have h: "length (stats_head show_addr r target q) = 11" for r target q by (simp add: stats_head_def Let_def)
  have other: "query_main show_addr to_json a ((t, Inr m) # rounds) = Ret ([], Some 0)" if "\<nexists>r. m = StatsResponse r" for m
    using that assms(2) w by (cases m) (simp_all add: print_stats_def)
  have stats: "if \<exists>p \<in> set (st_peers r). print_peer_row p = Panic
         then query_main show_addr to_json a ((t, Inr (StatsResponse r)) # rounds) = Panic
         else \<exists>ls. query_main show_addr to_json a ((t, Inr (StatsResponse r)) # rounds) = Ret (ls, Some 0) \<and>
           length ls = 12 + (if st_peers r = [] then 1 else 3 + length (st_peers r))" for r
    using assms(2) w h print_peer_rows_cases [of "st_peers r"]
    by (cases "print_peer_rows (st_peers r)") (auto simp: print_stats_def)
  have failed: "query_main show_addr to_json a ((t, Inl e) # rounds) = Ret ([], Some 1)" by simp
  show ?thesis using failed other stats [unfolded print_peer_row_cases] by (intro conjI allI impI)
qed

definition w_args :: args where
  "w_args = \<lparr>qa_target = \<lparr>sa_ip = [127, 0, 0, 1], sa_port = 4242\<rparr>, qa_watch = None, qa_json = False, qa_timeout_ms = 2000\<rparr>"

theorem query_one_shot_witness:
  "query_main (\<lambda>_. ''127.0.0.1:4242'') (\<lambda>_. None) w_args [(0, Inr (Pong 7))] = Ret ([], Some 0)"
  using query_one_shot [of w_args "\<lambda>_. ''127.0.0.1:4242''" "\<lambda>_. None" 0 "[]" "[]"]
  by (simp add: w_args_def del: query_main.simps)

end
