(* ===== verification/Status.thy ===== *)
theory Status
  imports Daemon Query
begin

text \<open>
  How a daemon starts and what it prints (\<open>rtfsn-daemon/src/main.rs\<close>): \<open>main\<close> from the parsed command line to the two tasks, and the status
  printed after every epoch. The answers of the operating system to \<open>bind\<close> and \<open>local_addr\<close> and the printed form of an address are
  arguments.
\<close>

section \<open>The start\<close>

record daemon_args =
  da_listen :: socket_addr
  da_peers :: "socket_addr list"
  da_epoch_duration :: u64
  da_quorum :: nat
  da_verbose :: bool

definition status_line :: string where
  "status_line = concat (replicate 54 [CHR 0xE2, CHR 0x95, CHR 0x90])"

definition status_mid :: string where
  "status_mid = concat (replicate 54 [CHR 0xE2, CHR 0x94, CHR 0x80])"

fun join_comma :: "string list \<Rightarrow> string" where
  "join_comma [] = ''''"
| "join_comma [x] = x"
| "join_comma (x # y # ys) = x @ '', '' @ join_comma (y # ys)"

definition start_banner :: "(socket_addr \<Rightarrow> string) \<Rightarrow> node_id \<Rightarrow> daemon_args \<Rightarrow> string list" where
  "start_banner show_addr i a =
     [status_line,
      '' RTFSN daemon starting'',
      ''  node_id   : '' @ peer_hex i,
      ''  listen    : '' @ show_addr (da_listen a),
      ''  peers     : '' @ (if da_peers a = [] then ''(none '' @ em_dash @ '' bootstrap anchor)''
                            else join_comma (map show_addr (da_peers a))),
      ''  epoch     : '' @ dec_digits (unat (da_epoch_duration a)) @ ''s  quorum: '' @ dec_digits (da_quorum a) @
        ''  verbose: '' @ (if da_verbose a then ''true'' else ''false''),
      status_line]"

definition local_addr :: "string + socket_addr \<Rightarrow> transport_error + socket_addr" where
  "local_addr answer = (case answer of Inl e \<Rightarrow> Inl (ConnectionFailed e) | Inr a \<Rightarrow> Inr a)"

text \<open>
  What \<open>main\<close> logs, and the error it ends with or the daemon it leaves running: the state the tasks share, the transport, and the
  announcements with which the epoch loop begins.
\<close>

definition daemon_main :: "hash \<Rightarrow> ('sk, 'vk) ed25519 \<Rightarrow> bytes \<Rightarrow> bytes \<Rightarrow> (socket_addr \<Rightarrow> string) \<Rightarrow> string + unit \<Rightarrow> string + socket_addr \<Rightarrow> nat \<Rightarrow>
    daemon_args \<Rightarrow> string list \<times> (transport_error + ('sk, 'vk) daemon \<times> udp_transport \<times> sends)" where
  "daemon_main blake3 E key_seed seed show_addr bound local k a =
     (let keypair = keypair_generate blake3 E key_seed;
          i = kp_node_id keypair;
          banner = start_banner show_addr i a;
          d = daemon_start seed i keypair (sa_port (da_listen a)) (da_epoch_duration a) (da_verbose a) k
      in case transport_bind bound i of
           Inl e \<Rightarrow> (banner, Inl e)
         | Inr transport \<Rightarrow> (case local_addr local of
             Inl e \<Rightarrow> (banner, Inl e)
           | Inr addr \<Rightarrow> (banner @ [''listening on '' @ show_addr addr], Inr (d, transport, bootstrap (da_peers a) (d_state d)))))"

section \<open>The status of an epoch\<close>

definition in_ms :: "f64 \<Rightarrow> f64" where "in_ms ns = fdiv ns (Fin 1000000)"

definition print_status :: "hash \<Rightarrow> epoch \<Rightarrow> ('sk, 'vk) node_state \<Rightarrow> string list" where
  "print_status blake3 e s =
     (let region_counts = map (\<lambda>l. dec_digits (length (gl_regions l))) (ng_layers (cm_geoid (circulation s)));
          region_str = (if region_counts = [] then ''none'' else join_arrow region_counts);
          rtt = (\<lambda>ns. fmt_fixed 1 (in_ms (of_u64 ns)) @ ''ms'')
      in [status_line,
          '' epoch '' @ dec_digits (unat (epoch_no e)) @ '' | node '' @ peer_hex (ns_node_id s),
          status_mid,
          ''  offset  '' @ plus_sign (fmt_fixed 3 (in_ms (of_i64 (last_offset_nanos s)))) @ '' ms  '' @ [CHR 0xC2, CHR 0xB1] @
            fmt_fixed 3 (in_ms (of_u64 (last_uncertainty_nanos s))) @ '' ms   drift '' @
            plus_sign (fmt_int (last_drift_ppb s)) @ '' ppb'',
          ''  peers '' @ dec_digits (last_peer_count s) @ ''   solver '' @
            (if last_solver_converged s then ''converged'' else ''timeout'') @ '' in '' @
            dec_digits (unat (last_solver_iters s)) @ '' iters'',
          ''  geoid '' @ dec_digits (unat (geoid_depth (cm_geoid (circulation s)))) @ '' levels ('' @ region_str @ '')'',
          ''  chain '' @ dec_digits (stream_len (ns_clock_stream s)) @ '' ticks  '' @
            (if verify_all blake3 (ns_clock_stream s) then ''[OK]'' else ''[!!]''),
          ''  RTT: min='' @ rtt (last_rtt_min_ns s) @ '' mean='' @ rtt (last_rtt_mean_ns s) @ '' max='' @ rtt (last_rtt_max_ns s),
          status_line])"

section \<open>Properties\<close>

text \<open>Unless the system refuses the socket, \<open>main\<close> starts a run: what is shown of runs holds of every daemon started.\<close>

theorem daemon_main_runs:
  assumes "bound = Inr ()" "local = Inr addr"
  shows "\<exists>d t out. daemon_main blake3 E key_seed seed show_addr bound local k a =
      (start_banner show_addr (kp_node_id (keypair_generate blake3 E key_seed)) a @ [''listening on '' @ show_addr addr], Inr (d, t, out)) \<and>
    d_run from_json to_json show_addr sha512 blake3 R rng order d [] out 0 \<and>
    length out = length (da_peers a) \<and> ns_node_id (d_state d) = ut_local_node_id t"
  using assms d_run.run_start [of from_json to_json show_addr sha512 blake3 R rng order seed "kp_node_id (keypair_generate blake3 E key_seed)"
      "keypair_generate blake3 E key_seed" "sa_port (da_listen a)" "da_epoch_duration a" "da_verbose a" k "da_peers a"]
  by (auto simp: daemon_main_def transport_bind_def local_addr_def daemon_start_def bootstrap_def node_state_new_def Let_def)

theorem daemon_main_runs_witness:
  "\<exists>d t out. snd (daemon_main w_hash w_ed25519 [1] [] (\<lambda>_. []) (Inr ()) (Inr w_addr) 0
      \<lparr>da_listen = w_addr, da_peers = [w_addr], da_epoch_duration = 30, da_quorum = 2, da_verbose = False\<rparr>) = Inr (d, t, out) \<and> length out = 1"
proof -
  from daemon_main_runs [OF refl refl, of w_hash w_ed25519 "[1]" "[]" "\<lambda>_. []" w_addr 0
      "\<lparr>da_listen = w_addr, da_peers = [w_addr], da_epoch_duration = 30, da_quorum = 2, da_verbose = False\<rparr>"
      "\<lambda>_. None" "\<lambda>_. None" w_hash w_ristretto "\<lambda>_. []" id]
  show ?thesis by fastforce
qed

text \<open>A number of nanoseconds printed in milliseconds, read back: right to half a microsecond below 104 days.\<close>

lemma ms_readable:
  assumes "uint w < 2 ^ 53"
  shows "\<bar>int (read_fixed 3 (fmt_fixed 3 (in_ms (of_u64 w)) @ s)) * 1000 - uint w\<bar> \<le> 502"
proof -
  have w: "uint w < 2 ^ 34 * 1000000" using assms by simp
  have "of_int 1000000 / 2 + 10 ^ 3 * (2 powi (int 34 - 53) * of_int 1000000 + (if uint w \<le> 2 ^ 53 then 0 else 2 ^ 10)) < (of_int (502000 + 1) :: rat)"
    using assms by (simp add: power_int_def power_divide)
  from fmt_quotient [OF _ _ w _ this] obtain n where
    "fmt_fixed 3 (in_ms (of_u64 w)) = fixed_digits 3 n" "\<bar>int n * 1000000 - uint w * 1000\<bar> \<le> 502000"
    by (auto simp: in_ms_def)
  then show ?thesis by simp
qed

text \<open>
  The status printed in any run reads \<open>[OK]\<close>, with the number of ticks beside it, which is at most one more than the epochs begun; and the
  uncertainty in it, read back, is the node's own to half a microsecond.
\<close>

theorem status_truthful:
  assumes "d_run from_json to_json show_addr sha512 blake3 R rng order d lg out n" "\<And>m. mset (order m) = mset m" "n < 2 ^ 32"
    and "uint (last_uncertainty_nanos (d_state d)) < 2 ^ 53"
  shows "let ls = print_status blake3 e (d_state d); ticks = length (ns_clock_stream (d_state d)) in
    length ls = 9 \<and> ls ! 6 = ''  chain '' @ dec_digits ticks @ '' ticks  [OK]'' \<and> dec_val (takeWhile is_digit (drop 8 (ls ! 6))) = ticks \<and>
    ticks \<le> unat (d_epoch d) + 1 \<and>
    (\<exists>pre. ls ! 3 = pre @ fmt_fixed 3 (in_ms (of_u64 (last_uncertainty_nanos (d_state d)))) @ '' ms   drift '' @
       plus_sign (fmt_int (last_drift_ppb (d_state d))) @ '' ppb'' \<and>
     \<bar>int (read_fixed 3 (drop (length pre) (ls ! 3))) * 1000 - uint (last_uncertainty_nanos (d_state d))\<bar> \<le> 502)"
proof -
  let ?s = "d_state d"
  have inv: "verify_all blake3 (ns_clock_stream ?s)" "length (ns_clock_stream ?s) \<le> unat (d_epoch d) + 1"
    using chain_run [OF assms(1-3)] by (auto simp: chain_inv_def stream_ok_def Let_def)
  have chain: "print_status blake3 e ?s ! 6 = ''  chain '' @ dec_digits (length (ns_clock_stream ?s)) @ '' ticks  [OK]''"
    using inv(1) by (simp add: print_status_def stream_len_def Let_def)
  have count: "dec_val (takeWhile is_digit (drop 8 (''  chain '' @ dec_digits k @ '' ticks  [OK]''))) = k" for k
    using takeWhile_digits [OF dec_digits_digits, of "CHR '' ''" k "''ticks  [OK]''"] by (simp add: is_digit_def)
  define pre where "pre = ''  offset  '' @ plus_sign (fmt_fixed 3 (in_ms (of_i64 (last_offset_nanos ?s)))) @ '' ms  '' @ [CHR 0xC2, CHR 0xB1]"
  have "print_status blake3 e ?s ! 3 = pre @ fmt_fixed 3 (in_ms (of_u64 (last_uncertainty_nanos ?s))) @ '' ms   drift '' @
      plus_sign (fmt_int (last_drift_ppb ?s)) @ '' ppb''"
    by (simp add: print_status_def pre_def Let_def)
  with chain count inv(2) ms_readable [OF assms(4)] show ?thesis
    by (auto simp: Let_def print_status_def intro!: exI [of _ pre])
qed

theorem status_truthful_witness:
  "print_status w_hash (Epoch 0) (d_state w_answered) ! 6 = ''  chain 1 ticks  [OK]''"
proof -
  obtain out where run: "d_run (\<lambda>_. None) (\<lambda>_. None) (\<lambda>_. []) w_hash w_hash w_ristretto (\<lambda>k. [of_nat k]) rev w_answered [(w_peer, 5, 0)] out 5"
    using w_run by blast
  have f: "last_uncertainty_nanos (d_state w_answered) = 1000000000" "length (ns_clock_stream (d_state w_answered)) = 1"
    by (simp_all add: w_answered_def time_response_def learn_peer_def w_asked_def w_daemon_def daemon_start_def node_state_new_def clock_stream_new_def Let_def)
  have "print_status w_hash (Epoch 0) (d_state w_answered) ! 6 = ''  chain '' @ dec_digits 1 @ '' ticks  [OK]''"
    using status_truthful [OF run mset_rev, of "Epoch 0"] f by (simp only: Let_def) simp
  moreover have "dec_digits 1 = ''1''" by code_simp
  ultimately show ?thesis by simp
qed

end
