(* ===== verification/Sim.thy ===== *)
theory Sim
  imports Twist Kalman Samr
begin

text \<open>
  \<open>rtfsn-sim/src/main.rs\<close>: the simulated nodes, their exchanges and the network that is built.
  Everything drawn from the random generator is an argument; \<open>rand\<close> promises that a draw lies in its
  range and panics on an empty one, \<open>rand_distr::Normal::new\<close> refuses a bad deviation (\<open>None\<close>).
\<close>

section \<open>Nodes and exchanges\<close>

record sim_node =
  sn_id :: node_id
  true_offset_nanos :: i64
  true_drift_ppb :: i64
  sn_kalman :: clock_kalman
  sn_samr :: samr_state
  sn_peers :: "nat list"
  last_solved_offset_nanos :: i64

definition local_time_nanos :: "sim_node \<Rightarrow> i64 \<Rightarrow> i64" where
  "local_time_nanos n real_time = i64_wrap (i64_wrap (real_time + true_offset_nanos n) +
     tdiv (i64_wrap (true_drift_ppb n * real_time)) 1000000000)"

record sim_network =
  net_nodes :: "sim_node list"
  base_latencies :: "u64 list list"
  jitter_stddev_nanos :: f64

definition exchange_times :: "u64 \<Rightarrow> f64 \<Rightarrow> f64 \<Rightarrow> i64 \<Rightarrow> i64 \<Rightarrow> twist_index" where
  "exchange_times base_lat j1 j2 la lb =
     (let forward_delay = fadd (of_u64 base_lat) (fabs j1);
          backward_delay = fadd (of_u64 base_lat) (fabs j2);
          t1 = i64_as_u64 la;
          t2 = f64_as_u64 (fadd (of_i64 lb) forward_delay);
          processing = 100000;
          t3 = t2 + processing;
          t4 = f64_as_u64 (fadd (fadd (fadd (of_i64 la) forward_delay) backward_delay) (of_u64 processing))
      in from_exchange t1 t2 t3 t4)"

text \<open>The two samples of the jitter, when the distribution exists.\<close>

type_synonym jitter = "(f64 \<times> f64) option"

definition simulate_exchange :: "jitter \<Rightarrow> nat \<Rightarrow> nat \<Rightarrow> i64 \<Rightarrow> sim_network \<Rightarrow> twist_index outcome" where
  "simulate_exchange jitter a b real_time net = (case jitter of None \<Rightarrow> Panic | Some (j1, j2) \<Rightarrow>
     if a < length (base_latencies net) \<and> b < length (base_latencies net ! a) \<and>
        a < length (net_nodes net) \<and> b < length (net_nodes net)
     then Ret (exchange_times (base_latencies net ! a ! b) j1 j2
            (local_time_nanos (net_nodes net ! a) real_time) (local_time_nanos (net_nodes net ! b) real_time))
     else Panic)"

section \<open>Building the world\<close>

record sim_config =
  num_nodes :: nat
  peers_per_node :: nat
  max_offset_ms :: f64
  max_drift_ppb :: i64
  base_latency_ms :: f64
  latency_spread_ms :: f64
  jitter_ms :: f64
  num_epochs :: nat
  exchanges_per_epoch :: nat
  cfg_solver_iterations :: u32
  solver_tolerance_nanos :: u64

definition sim_config_default :: sim_config where
  "sim_config_default = \<lparr>num_nodes = 100, peers_per_node = 12, max_offset_ms = Fin 500, max_drift_ppb = 200,
     base_latency_ms = Fin 20, latency_spread_ms = Fin 30, jitter_ms = Fin 2, num_epochs = 20,
     exchanges_per_epoch = 5, cfg_solver_iterations = 500, solver_tolerance_nanos = 100000\<rparr>"

text \<open>
  The draws: the 30 random bytes of a node's identity, its offset and drift, the latency of a pair,
  and the index drawn for a long link of a node, given how many there are to choose from.
\<close>

record draws =
  dr_id :: "nat \<Rightarrow> bytes"
  dr_offset :: "nat \<Rightarrow> f64"
  dr_drift :: "nat \<Rightarrow> i64"
  dr_latency :: "nat \<Rightarrow> nat \<Rightarrow> f64"
  dr_peer :: "nat \<Rightarrow> nat \<Rightarrow> nat \<Rightarrow> nat"

definition range_f64 :: "f64 \<Rightarrow> f64 \<Rightarrow> f64 \<Rightarrow> f64 outcome" where
  "range_f64 lo hi d = (if flt lo hi \<and> is_finite (fsub hi lo) then Ret d else Panic)"

definition range_incl :: "i64 \<Rightarrow> i64 \<Rightarrow> i64 \<Rightarrow> i64 outcome" where
  "range_incl lo hi d = (if lo \<le> hi then Ret d else Panic)"

fun traverse :: "('a \<Rightarrow> 'b outcome) \<Rightarrow> 'a list \<Rightarrow> 'b list outcome" where
  "traverse f [] = Ret []"
| "traverse f (x # xs) = obind (f x) (\<lambda>y. obind (traverse f xs) (\<lambda>ys. Ret (y # ys)))"

definition make_sim_node :: "sim_config \<Rightarrow> draws \<Rightarrow> nat \<Rightarrow> sim_node outcome" where
  "make_sim_node cfg dr i =
     obind (range_f64 (fneg (max_offset_ms cfg)) (max_offset_ms cfg) (dr_offset dr i)) (\<lambda>off.
     obind (range_incl (i64_wrap (- max_drift_ppb cfg)) (max_drift_ppb cfg) (dr_drift dr i)) (\<lambda>drift.
       Ret \<lparr>sn_id = NodeId (of_nat i # of_nat (i div 256) # dr_id dr i),
            true_offset_nanos = f64_as_i64 (fmul off (Fin 1000000)), true_drift_ppb = drift,
            sn_kalman = kalman_new, sn_samr = clock_default, sn_peers = [], last_solved_offset_nanos = 0\<rparr>))"

definition draw_latency :: "sim_config \<Rightarrow> draws \<Rightarrow> nat \<times> nat \<Rightarrow> ((nat \<times> nat) \<times> u64) outcome" where
  "draw_latency cfg dr ij =
     obind (range_f64 (Fin 0) (latency_spread_ms cfg) (dr_latency dr (fst ij) (snd ij))) (\<lambda>d.
       let lat = fmul (fadd (base_latency_ms cfg) d) (Fin 1000000)
       in Ret (ij, f64_as_u64 (fmax lat (Fin 1000000))))"

definition set_cell :: "nat \<Rightarrow> nat \<Rightarrow> 'a \<Rightarrow> 'a list list \<Rightarrow> 'a list list" where
  "set_cell i j v m = m[i := (m ! i)[j := v]]"

definition index_pairs :: "nat \<Rightarrow> (nat \<times> nat) list" where
  "index_pairs n = concat (map (\<lambda>i. map (Pair i) [i + 1 ..< n]) [0 ..< n])"

definition fill_latencies :: "nat \<Rightarrow> ((nat \<times> nat) \<times> u64) list \<Rightarrow> u64 list list" where
  "fill_latencies n ls = foldl (\<lambda>m ((i, j), lat). set_cell j i lat (set_cell i j lat m))
     (replicate n (replicate n 0)) ls"

definition choose_peers :: "sim_config \<Rightarrow> draws \<Rightarrow> u64 list list \<Rightarrow> nat \<Rightarrow> nat list" where
  "choose_peers cfg dr lats i =
     (let candidates = sort_key snd (map (\<lambda>j. (j, lats ! i ! j)) (filter (\<lambda>j. j \<noteq> i) [0 ..< num_nodes cfg]));
          k = peers_per_node cfg;
          near = k * 3 div 4;
          far = k - near;
          peers = map fst (take near candidates);
          remaining = map fst (drop near candidates)
      in foldl (\<lambda>ps l. let c = remaining ! dr_peer dr i l (length remaining)
                       in if c \<in> set ps then ps else ps @ [c])
           peers [0 ..< min far (length remaining)])"

definition edges_to_add :: "nat list list \<Rightarrow> (nat \<times> nat) list" where
  "edges_to_add ps = concat (map (\<lambda>i. map (\<lambda>j. (j, i)) (filter (\<lambda>j. i \<notin> set (ps ! j)) (ps ! i))) [0 ..< length ps])"

definition add_edges :: "(nat \<times> nat) list \<Rightarrow> nat list list \<Rightarrow> nat list list" where
  "add_edges es ps = foldl (\<lambda>ps (j, i). ps[j := ps ! j @ [i]]) ps es"

definition bidirectional :: "nat list list \<Rightarrow> nat list list" where
  "bidirectional ps = add_edges (edges_to_add ps) ps"

definition build_network :: "sim_config \<Rightarrow> draws \<Rightarrow> sim_network outcome" where
  "build_network cfg dr =
     obind (traverse (make_sim_node cfg dr) [0 ..< num_nodes cfg]) (\<lambda>nodes.
     obind (traverse (draw_latency cfg dr) (index_pairs (num_nodes cfg))) (\<lambda>ls.
       let lats = fill_latencies (num_nodes cfg) ls;
           peers = bidirectional (map (choose_peers cfg dr lats) [0 ..< num_nodes cfg])
       in Ret \<lparr>net_nodes = map (\<lambda>(n, ps). n\<lparr>sn_peers := ps\<rparr>) (zip nodes peers), base_latencies = lats,
               jitter_stddev_nanos = fmul (jitter_ms cfg) (Fin 1000000)\<rparr>))"

section \<open>Helpers\<close>

lemma traverse_Ret: "(\<And>x. x \<in> set xs \<Longrightarrow> f x = Ret (g x)) \<Longrightarrow> traverse f xs = Ret (map g xs)"
  by (induction xs) auto

lemma traverse_eq_Ret: "traverse f xs = Ret ys \<longleftrightarrow> list_all2 (\<lambda>x y. f x = Ret y) xs ys"
  by (induction xs arbitrary: ys) (auto simp: obind_eq_Ret list_all2_Cons1)

lemma set_cell_nth:
  assumes "i < length m" "j < length (m ! i)"
  shows "set_cell i j v m ! a ! b = (if a = i \<and> b = j then v else m ! a ! b)"
    "length (set_cell i j v m) = length m" "length (set_cell i j v m ! a) = length (m ! a)"
  using assms by (auto simp: set_cell_def nth_list_update)

lemma set_index_pairs: "set (index_pairs n) = {(i, j). i < j \<and> j < n}"
proof -
  have "\<exists>x \<in> {0..<n}. (a, b) \<in> Pair x ` {Suc x..<n}" if "a < b" "b < n" for a b
    using that by (intro bexI [of _ a]) auto
  then show ?thesis by (auto simp: index_pairs_def)
qed

lemma distinct_index_pairs: "distinct (index_pairs n)"
proof -
  have "distinct (concat (map (\<lambda>i. map (Pair i) [i + 1 ..< n]) xs))" if "distinct xs" for xs
    using that by (induction xs) (auto simp: distinct_map inj_on_def)
  then show ?thesis by (simp add: index_pairs_def)
qed

text \<open>The matrix is symmetric with the latency of a pair in both of its cells.\<close>

definition pair_latency :: "((nat \<times> nat) \<times> u64) list \<Rightarrow> nat \<Rightarrow> nat \<Rightarrow> u64" where
  "pair_latency ls a b = (case map_of ls (min a b, max a b) of None \<Rightarrow> 0 | Some v \<Rightarrow> v)"

lemma fill_latencies_entry:
  assumes "\<forall>((i, j), v) \<in> set ls. i < j \<and> j < n" "distinct (map fst ls)"
  shows "length (fill_latencies n ls) = n" "a < n \<Longrightarrow> length (fill_latencies n ls ! a) = n"
    "a < n \<Longrightarrow> b < n \<Longrightarrow> fill_latencies n ls ! a ! b = pair_latency ls a b"
  using assms
proof (induction ls arbitrary: a b rule: rev_induct)
  case Nil
  { case 1 show ?case by (simp add: fill_latencies_def) }
  { case 2 then show ?case by (simp add: fill_latencies_def) }
  { case 3 then show ?case by (simp add: fill_latencies_def pair_latency_def) }
next
  case (snoc x ls)
  obtain i j v where x: "x = ((i, j), v)" by (metis prod.exhaust)
  let ?m = "fill_latencies n ls"
  have f: "fill_latencies n (ls @ [x]) = set_cell j i v (set_cell i j v ?m)" by (simp add: fill_latencies_def x)
  have s: "i < j \<and> j < n \<and> (i, j) \<notin> fst ` set ls \<and> (\<forall>((i, j), v) \<in> set ls. i < j \<and> j < n) \<and> distinct (map fst ls)"
    if "\<forall>((i, j), v) \<in> set (ls @ [x]). i < j \<and> j < n" "distinct (map fst (ls @ [x]))"
    using that by (auto simp: x)
  { case 1 with s snoc.IH show ?case by (simp add: f set_cell_def) }
  { case 2 with s snoc.IH show ?case by (simp add: f set_cell_nth set_cell_def nth_list_update) }
  { case 3
    have nn: "map_of ls (i, j) = None" using s [OF 3(3,4)] by (simp add: map_of_eq_None_iff)
    have e: "pair_latency (ls @ [x]) a b = (if (min a b, max a b) = (i, j) then v else pair_latency ls a b)"
      using nn by (auto simp: pair_latency_def x map_add_def split: option.splits)
    show ?case using s [OF 3(3,4)] snoc.IH 3(1,2) unfolding e f
      by (auto simp: set_cell_nth min_def max_def split: if_splits) }
qed

section \<open>The peer graph\<close>

definition peers_ok :: "nat \<Rightarrow> nat \<Rightarrow> nat list \<Rightarrow> bool" where
  "peers_ok n i ps \<longleftrightarrow> distinct ps \<and> set ps \<subseteq> {..<n} - {i}"

lemma choose_peers_ok:
  assumes "\<And>i l k. 0 < k \<Longrightarrow> dr_peer dr i l k < k"
  shows "peers_ok (num_nodes cfg) i (choose_peers cfg dr lats i) \<and>
    (i < num_nodes cfg \<longrightarrow> min (peers_per_node cfg * 3 div 4) (num_nodes cfg - 1) \<le> length (choose_peers cfg dr lats i))"
proof -
  let ?cand = "filter (\<lambda>j. j \<noteq> i) [0 ..< num_nodes cfg]"
  define cs where "cs = sort_key snd (map (\<lambda>j. (j, lats ! i ! j)) ?cand)"
  define near where "near = peers_per_node cfg * 3 div 4"
  define rem where "rem = map fst (drop near cs)"
  have "mset (map fst cs) = mset ?cand" by (simp add: cs_def multiset.map_comp comp_def)
  then have d: "distinct (map fst cs)" and st: "set (map fst cs) = set ?cand"
    by (metis distinct_filter distinct_upt mset_eq_imp_distinct_iff) (metis \<open>mset (map fst cs) = mset ?cand\<close> set_mset_mset)
  have len: "length cs = length ?cand" by (simp add: cs_def)
  let ?f = "\<lambda>ps l. let c = rem ! dr_peer dr i l (length rem) in if c \<in> set ps then ps else ps @ [c]"
  have inv: "distinct (foldl ?f ps ls) \<and> set (foldl ?f ps ls) \<subseteq> set ?cand \<and> length ps \<le> length (foldl ?f ps ls)"
    if "distinct ps" "set ps \<subseteq> set ?cand" "ls = [] \<or> 0 < length rem" for ps ls
    using that
  proof (induction ls arbitrary: ps)
    case (Cons l ls)
    have "rem ! dr_peer dr i l (length rem) \<in> set rem" using assms Cons.prems(3) by (intro nth_mem) auto
    then have "rem ! dr_peer dr i l (length rem) \<in> set ?cand"
      using st set_drop_subset [of near cs] by (auto simp: rem_def)
    then have "distinct (?f ps l)" "set (?f ps l) \<subseteq> set ?cand" "length ps \<le> length (?f ps l)"
      using Cons.prems by (auto simp: Let_def)
    with Cons.IH [of "?f ps l"] Cons.prems(3) show ?case by auto
  qed simp
  have c: "choose_peers cfg dr lats i = foldl ?f (map fst (take near cs)) [0 ..< min (peers_per_node cfg - near) (length rem)]"
    unfolding choose_peers_def Let_def cs_def near_def rem_def by (rule refl)
  have "distinct (map fst (take near cs))" "set (map fst (take near cs)) \<subseteq> set ?cand"
    using d st set_take_subset [of near "map fst cs"] by (simp_all only: take_map [symmetric] distinct_take)
  moreover have "[0 ..< min (peers_per_node cfg - near) (length rem)] = [] \<or> 0 < length rem" by auto
  ultimately have r: "distinct (choose_peers cfg dr lats i)" "set (choose_peers cfg dr lats i) \<subseteq> set ?cand"
    "length (map fst (take near cs)) \<le> length (choose_peers cfg dr lats i)"
    unfolding c using inv by blast+
  have "length ?cand = num_nodes cfg - 1" if "i < num_nodes cfg"
  proof -
    have "length ?cand = card (set ?cand)" by (simp add: distinct_card del: set_filter)
    also have "set ?cand = {..<num_nodes cfg} - {i}" by auto
    finally show ?thesis using that by simp
  qed
  then show ?thesis using r len unfolding peers_ok_def near_def [symmetric] by auto
qed

lemma add_edges_nth:
  "\<forall>(j, i) \<in> set es. j < length ps \<Longrightarrow> j < length ps \<Longrightarrow>
   length (add_edges es ps) = length ps \<and> add_edges es ps ! j = ps ! j @ map snd (filter (\<lambda>e. fst e = j) es)"
proof (induction es arbitrary: ps)
  case (Cons e es)
  obtain k i where e: "e = (k, i)" by (cases e)
  have "add_edges (e # es) ps = add_edges es (ps[k := ps ! k @ [i]])" by (simp add: add_edges_def e)
  with Cons.IH [of "ps[k := ps ! k @ [i]]"] Cons.prems show ?case by (auto simp: e nth_list_update)
qed (simp add: add_edges_def)

lemma edges_to_add_iff:
  "(j, i) \<in> set (edges_to_add ps) \<longleftrightarrow> i < length ps \<and> j \<in> set (ps ! i) \<and> i \<notin> set (ps ! j)"
  by (auto simp: edges_to_add_def)

lemma distinct_edges_to_add:
  assumes "\<forall>i < length ps. distinct (ps ! i)"
  shows "distinct (edges_to_add ps)"
proof -
  have "distinct (concat (map (\<lambda>i. map (\<lambda>j. (j, i)) (filter (\<lambda>j. i \<notin> set (ps ! j)) (ps ! i))) xs))"
    if "distinct xs" "set xs \<subseteq> {..<length ps}" for xs
    using that assms by (induction xs) (auto simp: distinct_map inj_on_def)
  then show ?thesis by (simp add: edges_to_add_def lessThan_atLeast0)
qed

text \<open>Both ends of a link know it; nobody is linked to itself or twice.\<close>

lemma bidirectional_symmetric:
  assumes "\<forall>i < length ps. peers_ok (length ps) i (ps ! i)"
  shows "length (bidirectional ps) = length ps"
    and "\<And>i. i < length ps \<Longrightarrow> peers_ok (length ps) i (bidirectional ps ! i) \<and> length (ps ! i) \<le> length (bidirectional ps ! i)"
    and "\<And>i j. i < length ps \<Longrightarrow> j < length ps \<Longrightarrow>
      j \<in> set (bidirectional ps ! i) \<longleftrightarrow> j \<in> set (ps ! i) \<or> i \<in> set (ps ! j)"
proof -
  let ?es = "edges_to_add ps"
  have es: "\<forall>(j, i) \<in> set ?es. j < length ps"
    using assms by (fastforce simp: edges_to_add_iff peers_ok_def)
  show "length (bidirectional ps) = length ps"
    by (cases ps) (use add_edges_nth [OF es, of 0] in \<open>auto simp: bidirectional_def add_edges_def edges_to_add_def\<close>)
  have nth: "bidirectional ps ! i = ps ! i @ map snd (filter (\<lambda>e. fst e = i) ?es)" if "i < length ps" for i
    using add_edges_nth [OF es that] by (simp add: bidirectional_def)
  show mem: "j \<in> set (bidirectional ps ! i) \<longleftrightarrow> j \<in> set (ps ! i) \<or> i \<in> set (ps ! j)"
    if "i < length ps" "j < length ps" for i j
  proof -
    have "j \<in> snd ` {e \<in> set ?es. fst e = i} \<longleftrightarrow> (i, j) \<in> set ?es" by force
    then show ?thesis using that by (auto simp: nth edges_to_add_iff)
  qed
  show "peers_ok (length ps) i (bidirectional ps ! i) \<and> length (ps ! i) \<le> length (bidirectional ps ! i)" if i: "i < length ps" for i
  proof -
    have "distinct ?es" using assms by (intro distinct_edges_to_add) (simp add: peers_ok_def)
    then have "distinct (map snd (filter (\<lambda>e. fst e = i) ?es))"
      by (auto simp: distinct_map inj_on_def prod_eq_iff)
    moreover have "set (map snd (filter (\<lambda>e. fst e = i) ?es)) \<inter> set (ps ! i) = {}"
      by (auto simp: edges_to_add_iff)
    moreover have "set (map snd (filter (\<lambda>e. fst e = i) ?es)) \<subseteq> {..<length ps} - {i}"
      using assms by (auto simp: edges_to_add_iff peers_ok_def)
    ultimately show ?thesis using assms i by (auto simp: nth peers_ok_def)
  qed
qed

section \<open>The network\<close>

text \<open>What \<open>rand\<close> promises of the draws, and a configuration whose ranges are not empty.\<close>

definition draws_ok :: "draws \<Rightarrow> bool" where
  "draws_ok dr \<longleftrightarrow> (\<forall>i. length (dr_id dr i) = 30) \<and> (\<forall>i l k. 0 < k \<longrightarrow> dr_peer dr i l k < k)"

definition config_ok :: "sim_config \<Rightarrow> bool" where
  "config_ok cfg \<longleftrightarrow> flt (fneg (max_offset_ms cfg)) (max_offset_ms cfg) \<and>
     is_finite (fsub (max_offset_ms cfg) (fneg (max_offset_ms cfg))) \<and>
     i64_wrap (- max_drift_ppb cfg) \<le> max_drift_ppb cfg \<and>
     flt (Fin 0) (latency_spread_ms cfg) \<and> is_finite (fsub (latency_spread_ms cfg) (Fin 0))"

definition network_ok :: "sim_config \<Rightarrow> sim_network \<Rightarrow> bool" where
  "network_ok cfg net \<longleftrightarrow> length (net_nodes net) = num_nodes cfg \<and>
     length (base_latencies net) = num_nodes cfg \<and> (\<forall>row \<in> set (base_latencies net). length row = num_nodes cfg) \<and>
     (\<forall>i < num_nodes cfg. \<forall>j \<in> set (sn_peers (net_nodes net ! i)).
        j < num_nodes cfg \<and> j \<noteq> i \<and> i \<in> set (sn_peers (net_nodes net ! j))) \<and>
     (\<forall>n \<in> set (net_nodes net). distinct (sn_peers n) \<and> samr_ok (sn_samr n) \<and> is_i64 (true_offset_nanos n))"

lemma latency_at_least: "1000000 \<le> uint (f64_as_u64 (fmax x (Fin 1000000)))"
proof -
  have "1000000 \<le> nval (fmax x (Fin 1000000))" by (auto simp: fmax_def not_less)
  then have "of_int 1000000 \<le> nval (fmax x (Fin 1000000))" by simp
  then have "1000000 \<le> \<lfloor>nval (fmax x (Fin 1000000))\<rfloor>" by (simp only: le_floor_iff)
  then have "1000000 \<le> trunc_rat (nval (fmax x (Fin 1000000)))" by (auto simp: trunc_rat_def)
  then show ?thesis by (auto simp: f64_as_u64_def uint_word_of_int)
qed

definition sim_node_of :: "draws \<Rightarrow> nat \<Rightarrow> sim_node" where
  "sim_node_of dr i = \<lparr>sn_id = NodeId (of_nat i # of_nat (i div 256) # dr_id dr i),
     true_offset_nanos = f64_as_i64 (fmul (dr_offset dr i) (Fin 1000000)), true_drift_ppb = dr_drift dr i,
     sn_kalman = kalman_new, sn_samr = clock_default, sn_peers = [], last_solved_offset_nanos = 0\<rparr>"

definition lat_nanos :: "sim_config \<Rightarrow> draws \<Rightarrow> nat \<times> nat \<Rightarrow> u64" where
  "lat_nanos cfg dr ij = f64_as_u64 (fmax (fmul (fadd (base_latency_ms cfg) (dr_latency dr (fst ij) (snd ij))) (Fin 1000000)) (Fin 1000000))"

lemma build_network_eq:
  fixes dr :: draws
  assumes "config_ok cfg"
  defines "n \<equiv> num_nodes cfg"
  defines "ls \<equiv> map (\<lambda>ij. (ij, lat_nanos cfg dr ij)) (index_pairs n)"
  shows "build_network cfg dr = Ret \<lparr>net_nodes = map (\<lambda>(m, ps). m\<lparr>sn_peers := ps\<rparr>) (zip (map (sim_node_of dr) [0 ..< n])
       (bidirectional (map (choose_peers cfg dr (fill_latencies n ls)) [0 ..< n]))),
     base_latencies = fill_latencies n ls, jitter_stddev_nanos = fmul (jitter_ms cfg) (Fin 1000000)\<rparr>"
proof -
  have a: "traverse (make_sim_node cfg dr) xs = Ret (map (sim_node_of dr) xs)" for xs
    using assms(1) by (intro traverse_Ret) (simp add: make_sim_node_def range_f64_def range_incl_def config_ok_def sim_node_of_def)
  have b: "traverse (draw_latency cfg dr) xs = Ret (map (\<lambda>ij. (ij, lat_nanos cfg dr ij)) xs)" for xs
    using assms(1) by (intro traverse_Ret) (simp add: draw_latency_def range_f64_def config_ok_def lat_nanos_def Let_def)
  show ?thesis by (simp add: build_network_def a b ls_def n_def Let_def)
qed

lemma sim_ids_distinct:
  assumes "n \<le> 65536" "i < n" "j < n" "i \<noteq> j"
  shows "sn_id (sim_node_of dr i) \<noteq> sn_id (sim_node_of dr j)"
proof
  assume "sn_id (sim_node_of dr i) = sn_id (sim_node_of dr j)"
  then have "(of_nat i :: u8) = of_nat j" "(of_nat (i div 256) :: u8) = of_nat (j div 256)" by (simp_all add: sim_node_of_def)
  then have "unat (of_nat i :: u8) = unat (of_nat j :: u8)" "unat (of_nat (i div 256) :: u8) = unat (of_nat (j div 256) :: u8)" by simp_all
  then have "i mod 256 = j mod 256" "i div 256 mod 256 = j div 256 mod 256" by (simp_all add: unat_of_nat take_bit_eq_mod)
  moreover have "i div 256 < 256" "j div 256 < 256" using assms by (simp_all add: less_mult_imp_div_less)
  ultimately have "i div 256 = j div 256" "i mod 256 = j mod 256" by simp_all
  then have "i = j" by (metis div_mult_mod_eq)
  with assms(4) show False by simp
qed

lemma build_network_facts:
  assumes "draws_ok dr" "config_ok cfg"
  shows "\<exists>net. build_network cfg dr = Ret net \<and> network_ok cfg net \<and>
    (\<forall>i < num_nodes cfg. min (peers_per_node cfg * 3 div 4) (num_nodes cfg - 1) \<le> length (sn_peers (net_nodes net ! i))) \<and>
    (\<forall>i < num_nodes cfg. \<forall>j < num_nodes cfg. base_latencies net ! i ! j = base_latencies net ! j ! i \<and>
       (i \<noteq> j \<longrightarrow> 1000000 \<le> base_latencies net ! i ! j)) \<and>
    (num_nodes cfg \<le> 65536 \<longrightarrow> distinct (map sn_id (net_nodes net))) \<and>
    (\<forall>m \<in> set (net_nodes net). last_solved_offset_nanos m = 0)"
proof -
  define n where "n = num_nodes cfg"
  define ls where "ls = map (\<lambda>ij. (ij, lat_nanos cfg dr ij)) (index_pairs n)"
  define lats where "lats = fill_latencies n ls"
  define ps where "ps = map (choose_peers cfg dr lats) [0 ..< n]"
  define nodes where "nodes = map (\<lambda>(m, ps). m\<lparr>sn_peers := ps\<rparr>) (zip (map (sim_node_of dr) [0 ..< n]) (bidirectional ps))"
  define net where "net = \<lparr>net_nodes = nodes, base_latencies = lats, jitter_stddev_nanos = fmul (jitter_ms cfg) (Fin 1000000)\<rparr>"
  have net: "build_network cfg dr = Ret net"
    unfolding net_def nodes_def ps_def lats_def ls_def n_def by (rule build_network_eq [OF assms(2)])
  have lsk: "\<forall>((i, j), v) \<in> set ls. i < j \<and> j < n" "distinct (map fst ls)"
    by (auto simp: ls_def set_index_pairs distinct_index_pairs comp_def)
  note lat = fill_latencies_entry [OF lsk, folded lats_def]
  have ml: "map_of ls (a, b) = Some (lat_nanos cfg dr (a, b))" if "a < b" "b < n" for a b
    using that lsk(2) by (intro map_of_is_SomeI) (auto simp: ls_def set_index_pairs)
  have big: "1000000 \<le> lats ! i ! j" if "i < n" "j < n" "i \<noteq> j" for i j
  proof -
    have "lats ! i ! j = lat_nanos cfg dr (min i j, max i j)"
      using that lat(3) [OF that(1,2)] ml [of "min i j" "max i j"] by (simp add: pair_latency_def)
    then show ?thesis using latency_at_least by (simp add: lat_nanos_def word_le_def)
  qed
  have c: "peers_ok n i (choose_peers cfg dr lats i)" "i < n \<Longrightarrow> min (peers_per_node cfg * 3 div 4) (n - 1) \<le> length (choose_peers cfg dr lats i)" for i
    using choose_peers_ok [of dr cfg i lats] assms(1) by (auto simp: draws_ok_def n_def)
  have pl: "length ps = n" "\<forall>i < length ps. peers_ok (length ps) i (ps ! i)" using c(1) by (simp_all add: ps_def)
  note bd = bidirectional_symmetric [OF pl(2), unfolded pl(1)]
  have node: "length nodes = n" "i < n \<Longrightarrow> nodes ! i = (sim_node_of dr i)\<lparr>sn_peers := bidirectional ps ! i\<rparr>" for i
    using bd(1) by (simp_all add: nodes_def)
  have peer: "j < n \<and> j \<noteq> i \<and> i \<in> set (sn_peers (nodes ! j))" if "i < n" "j \<in> set (sn_peers (nodes ! i))" for i j
  proof -
    have j: "j \<in> set (bidirectional ps ! i)" "j < n" "j \<noteq> i"
      using that node(2) [OF that(1)] bd(2) [OF that(1)] by (auto simp: peers_ok_def)
    then have "i \<in> set (bidirectional ps ! j)" using bd(3) that(1) by blast
    then show ?thesis using j node(2) [OF j(2)] by simp
  qed
  have wf: "distinct (sn_peers m) \<and> samr_ok (sn_samr m) \<and> is_i64 (true_offset_nanos m)" if "m \<in> set nodes" for m
    using that node bd(2) by (auto simp: in_set_conv_nth peers_ok_def sim_node_of_def samr_ok_default f64_as_i64_bounds)
  have "length row = n" if "row \<in> set lats" for row using that lat(1,2) by (auto simp: in_set_conv_nth)
  then have "network_ok cfg net"
    unfolding network_ok_def net_def n_def [symmetric] sim_network.simps using node(1) lat(1) peer wf by blast
  moreover have "min (peers_per_node cfg * 3 div 4) (n - 1) \<le> length (sn_peers (nodes ! i))" if "i < n" for i
    using c(2) [OF that] bd(2) [OF that] node(2) [OF that] that by (simp add: ps_def)
  moreover have "lats ! i ! j = lats ! j ! i" if "i < n" "j < n" for i j
    using that lat(3) by (simp add: pair_latency_def min.commute max.commute)
  moreover have "distinct (map sn_id nodes)" if "n \<le> 65536"
    using sim_ids_distinct [OF that, of _ _ dr] node by (auto simp: distinct_conv_nth)
  moreover have "last_solved_offset_nanos m = 0" if "m \<in> set nodes" for m
    using that node by (auto simp: in_set_conv_nth sim_node_of_def)
  ultimately show ?thesis using big net by (auto simp: net_def n_def [symmetric])
qed

text \<open>
  (C18) The simulated world is well formed. With draws in their ranges, \<open>build_network\<close> returns a network of
  the configured size in which links run both ways and never from a node to itself, no link is there
  twice, every node has at least the near peers asked for (or everybody else), the latencies are
  symmetric and of at least a millisecond, and, up to 65536 nodes, identities are distinct.
\<close>

theorem build_network_ok:
  assumes "draws_ok dr" "config_ok cfg"
  shows "\<exists>net. build_network cfg dr = Ret net \<and> network_ok cfg net \<and>
    (\<forall>i < num_nodes cfg. min (peers_per_node cfg * 3 div 4) (num_nodes cfg - 1) \<le> length (sn_peers (net_nodes net ! i))) \<and>
    (\<forall>i < num_nodes cfg. \<forall>j < num_nodes cfg. base_latencies net ! i ! j = base_latencies net ! j ! i \<and>
       (i \<noteq> j \<longrightarrow> 1000000 \<le> base_latencies net ! i ! j)) \<and>
    (num_nodes cfg \<le> 65536 \<longrightarrow> distinct (map sn_id (net_nodes net)))"
  using build_network_facts [OF assms] by blast

definition w_draws :: draws where
  "w_draws = \<lparr>dr_id = \<lambda>_. replicate 30 0, dr_offset = \<lambda>_. Fin 1, dr_drift = \<lambda>_. 5, dr_latency = \<lambda>_ _. Fin 3, dr_peer = \<lambda>_ _ _. 0\<rparr>"

lemma default_ok: "config_ok sim_config_default"
  by (simp add: config_ok_def sim_config_default_def flt_def fneg_def fsub_def fadd_def f64_class i64_defs fzero_def
      rnd_of_int [of 1000, simplified] rnd_of_int [of 30, simplified])

theorem build_network_ok_witness:
  "\<exists>net. build_network sim_config_default w_draws = Ret net \<and> length (net_nodes net) = 100 \<and> distinct (map sn_id (net_nodes net))"
proof -
  have "draws_ok w_draws" by (simp add: draws_ok_def w_draws_def)
  from build_network_ok [OF this default_ok] show ?thesis
    by (auto simp: network_ok_def sim_config_default_def)
qed

section \<open>What an exchange measures\<close>

lemma f64_as_u64_floor:
  assumes "0 \<le> nval x" "nval x < 2 ^ 64"
  shows "uint (f64_as_u64 x) = \<lfloor>nval x\<rfloor>"
proof -
  have "0 \<le> \<lfloor>nval x\<rfloor>" using assms(1) by simp
  moreover have "\<lfloor>nval x\<rfloor> < 2 ^ 64" using assms(2) by (simp add: floor_less_iff)
  ultimately show ?thesis using assms(1) by (simp add: f64_as_u64_def trunc_rat_def uint_word_of_int)
qed

text \<open>A clock reading or a delay: a number from zero up to \<open>m\<close>.\<close>

definition reading :: "rat \<Rightarrow> f64 \<Rightarrow> bool" where
  "reading m x \<longleftrightarrow> is_f64 x \<and> is_finite x \<and> 0 \<le> nval x \<and> nval x \<le> m"

lemma reading_fadd:
  assumes "reading m a" "reading l b" "m + l + 1 / 2 < 2 ^ 53"
  shows "reading (m + l + 1 / 2) (fadd a b)" "\<bar>nval (fadd a b) - (nval a + nval b)\<bar> \<le> 1 / 2"
proof -
  have s: "0 \<le> nval a + nval b" "nval a + nval b \<le> m + l" using assms by (auto simp: reading_def)
  then have "\<bar>nval a + nval b\<bar> < 2 ^ 53" using assms(3) by simp
  then show e: "\<bar>nval (fadd a b) - (nval a + nval b)\<bar> \<le> 1 / 2"
    using fadd_close [of a b 53] assms(1,2) by (simp add: reading_def power_int_minus)
  have f: "is_f64 (fadd a b)" "\<not> is_nan (fadd a b)" using assms by (simp_all add: reading_def nan_fadd)
  have u: "nval (fadd a b) \<le> m + l + 1 / 2" using e s by linarith
  have l: "0 \<le> nval (fadd a b)" using assms s by (simp add: reading_def nval_fadd rnd_nonneg)
  have "(2 :: rat) ^ 53 < f_huge" by (simp add: f_huge_def)
  then have "is_finite (fadd a b)" using f u l assms(3) by (intro finite_bounded) auto
  with f u l show "reading (m + l + 1 / 2) (fadd a b)" by (simp add: reading_def)
qed

lemma reading_int: "0 \<le> n \<Longrightarrow> n \<le> m \<Longrightarrow> m \<le> 2 ^ 53 \<Longrightarrow> reading (of_int m) (of_i64 n) \<and> nval (of_i64 n) = of_int n"
  by (simp add: reading_def of_i64_def rnd_of_int)

lemma reading_u64: "uint w \<le> m \<Longrightarrow> m \<le> 2 ^ 53 \<Longrightarrow> reading (of_int m) (of_u64 w) \<and> nval (of_u64 w) = of_int (uint w)"
  using is_f64_of_int [of "uint w"] by (simp add: reading_def of_u64_def rnd_of_int del: of_int_uint)

lemma reading_floor: "reading m x \<Longrightarrow> m < 2 ^ 64 \<Longrightarrow> of_int (uint (f64_as_u64 x)) \<le> nval x \<and> nval x < of_int (uint (f64_as_u64 x)) + 1"
  using f64_as_u64_floor [of x] floor_correct [of "nval x"] by (simp add: reading_def del: of_int_uint)

text \<open>The two delays of an exchange as the code draws them.\<close>

definition path_delay :: "u64 \<Rightarrow> f64 \<Rightarrow> f64" where
  "path_delay base_lat j = fadd (of_u64 base_lat) (fabs j)"

lemma reading_path_delay:
  assumes "1000000 \<le> uint base_lat" "uint base_lat \<le> 2 ^ 50" "is_f64 j" "is_finite j" "\<bar>nval j\<bar> \<le> 2 ^ 50"
  shows "reading (2 ^ 51 + 1) (path_delay base_lat j)" "1000000 \<le> nval (path_delay base_lat j)"
proof -
  have b: "reading (2 ^ 50) (of_u64 base_lat)" "nval (of_u64 base_lat) = of_int (uint base_lat)"
    using reading_u64 [of base_lat "2 ^ 50"] assms(2) by simp_all
  have j: "reading (2 ^ 50) (fabs j)" using assms(3-5) by (simp add: reading_def)
  show "reading (2 ^ 51 + 1) (path_delay base_lat j)"
    using reading_fadd(1) [OF b(1) j] by (simp add: path_delay_def reading_def)
  have "(of_int 1000000 :: rat) \<le> of_int (uint base_lat)" using assms(1) by (simp only: of_int_le_iff)
  also have "\<dots> \<le> nval (path_delay base_lat j)"
    using fadd_nonneg_ge(1) [of "of_u64 base_lat" "fabs j"] b j by (simp add: path_delay_def reading_def nonneg_def del: of_int_uint)
  finally show "1000000 \<le> nval (path_delay base_lat j)" by simp
qed

text \<open>The arithmetic of the bounds, away from the conversions.\<close>

lemma offset_bound:
  fixes q t2 t4 la lb f b :: rat
  assumes "\<bar>2 * q - (2 * t2 + 100000 - la - t4)\<bar> \<le> 1" "\<bar>t2 - (lb + f)\<bar> \<le> 3 / 2" "\<bar>t4 - (la + f + b + 100000)\<bar> \<le> 5 / 2"
  shows "\<bar>q - (lb - la + (f - b) / 2)\<bar> \<le> 4"
  using assms unfolding abs_le_iff by (simp add: field_simps)

lemma stamp_bounds:
  fixes t x y1 y2 y3 a f b :: rat
  shows "t \<le> x \<Longrightarrow> x < t + 1 \<Longrightarrow> \<bar>x - (a + f)\<bar> \<le> 1 / 2 \<Longrightarrow> \<bar>t - (a + f)\<bar> \<le> 3 / 2"
    and "t \<le> y3 \<Longrightarrow> y3 < t + 1 \<Longrightarrow> \<bar>y1 - (a + f)\<bar> \<le> 1 / 2 \<Longrightarrow> \<bar>y2 - (y1 + b)\<bar> \<le> 1 / 2 \<Longrightarrow>
      \<bar>y3 - (y2 + 100000)\<bar> \<le> 1 / 2 \<Longrightarrow> \<bar>t - (a + f + b + 100000)\<bar> \<le> 5 / 2"
  unfolding abs_le_iff by (simp_all add: field_simps)

text \<open>The four times of an exchange whose clocks have started.\<close>

lemma exchange_stamps:
  assumes "0 \<le> la" "la \<le> 2 ^ 50" "0 \<le> lb" "lb \<le> 2 ^ 50" "reading (2 ^ 51 + 1) f" "reading (2 ^ 51 + 1) b"
  defines "t2 \<equiv> f64_as_u64 (fadd (of_i64 lb) f)"
    and "t4 \<equiv> f64_as_u64 (fadd (fadd (fadd (of_i64 la) f) b) (of_u64 100000))"
  shows "\<bar>of_int (uint t2) - (of_int lb + nval f)\<bar> \<le> 3 / 2" "uint t2 < 2 ^ 53"
    and "\<bar>of_int (uint t4) - (of_int la + nval f + nval b + 100000)\<bar> \<le> 5 / 2" "uint t4 < 2 ^ 54"
proof -
  have b2: "reading (2 ^ 50) (of_i64 lb)" "nval (of_i64 lb) = of_int lb" "reading (2 ^ 50) (of_i64 la)" "nval (of_i64 la) = of_int la"
    using reading_int [of lb "2 ^ 50"] reading_int [of la "2 ^ 50"] assms(1-4) by simp_all
  have p: "reading 100000 (of_u64 100000)" "nval (of_u64 100000) = 100000" using reading_u64 [of 100000 100000] by simp_all
  note x2 = reading_fadd(1) [OF b2(1) assms(5), simplified] reading_fadd(2) [OF b2(1) assms(5)]
  note y1 = reading_fadd(1) [OF b2(3) assms(5), simplified] reading_fadd(2) [OF b2(3) assms(5)]
  note y2 = reading_fadd(1) [OF y1(1) assms(6), simplified] reading_fadd(2) [OF y1(1) assms(6)]
  note y3 = reading_fadd(1) [OF y2(1) p(1), simplified] reading_fadd(2) [OF y2(1) p(1)]
  have f2: "of_int (uint t2) \<le> nval (fadd (of_i64 lb) f)" "nval (fadd (of_i64 lb) f) < of_int (uint t2) + 1"
    using reading_floor [OF x2(1)] unfolding t2_def by (simp_all del: of_int_uint)
  have f4: "of_int (uint t4) \<le> nval (fadd (fadd (fadd (of_i64 la) f) b) (of_u64 100000))"
    "nval (fadd (fadd (fadd (of_i64 la) f) b) (of_u64 100000)) < of_int (uint t4) + 1"
    using reading_floor [OF y3(1)] unfolding t4_def by (simp_all del: of_int_uint)
  show "\<bar>of_int (uint t2) - (of_int lb + nval f)\<bar> \<le> 3 / 2" by (rule stamp_bounds(1) [OF f2]) (use x2(2) b2(2) in simp)
  show "\<bar>of_int (uint t4) - (of_int la + nval f + nval b + 100000)\<bar> \<le> 5 / 2"
    by (rule stamp_bounds(2) [OF f4, of "nval (fadd (of_i64 la) f)" _ _ "nval (fadd (fadd (of_i64 la) f) b)"])
      (use y1(2) y2(2) y3(2) b2(4) p(2) in simp_all)
  have "of_int (uint t2) < (of_int (2 ^ 53) :: rat)" using f2(1) x2(1) by (simp add: reading_def del: of_int_uint)
  then show "uint t2 < 2 ^ 53" by (simp only: of_int_less_iff)
  have "of_int (uint t4) < (of_int (2 ^ 54) :: rat)" using f4(1) y3(1) by (simp add: reading_def del: of_int_uint)
  then show "uint t4 < 2 ^ 54" by (simp only: of_int_less_iff)
qed

definition jitter_ok :: "f64 \<Rightarrow> bool" where
  "jitter_ok j \<longleftrightarrow> is_f64 j \<and> is_finite j \<and> \<bar>nval j\<bar> \<le> 2 ^ 50"

lemma exchange_measures:
  assumes "0 \<le> la" "la \<le> 2 ^ 50" "0 \<le> lb" "lb \<le> 2 ^ 50" "1000000 \<le> uint base" "uint base \<le> 2 ^ 50" "jitter_ok j1" "jitter_ok j2"
  defines "tw \<equiv> exchange_times base j1 j2 la lb"
  defines "f \<equiv> nval (path_delay base j1)" and "b \<equiv> nval (path_delay base j2)"
  shows "\<bar>of_int (tw_offset_nanos tw) - (of_int (lb - la) + (f - b) / 2)\<bar> \<le> 4"
    and "\<bar>of_int (uint (rtt_nanos tw)) - (f + b)\<bar> \<le> 3"
proof -
  have j: "is_f64 j1" "is_finite j1" "\<bar>nval j1\<bar> \<le> 2 ^ 50" "is_f64 j2" "is_finite j2" "\<bar>nval j2\<bar> \<le> 2 ^ 50"
    using assms(7,8) by (simp_all add: jitter_ok_def)
  note F = reading_path_delay [OF assms(5,6) j(1-3)] reading_path_delay [OF assms(5,6) j(4-6)]
  define t2 where "t2 = f64_as_u64 (fadd (of_i64 lb) (path_delay base j1))"
  define t4 where "t4 = f64_as_u64 (fadd (fadd (fadd (of_i64 la) (path_delay base j1)) (path_delay base j2)) (of_u64 100000))"
  note s = exchange_stamps [OF assms(1-4) F(1,3), folded t2_def t4_def f_def b_def]
  have t1: "uint (i64_as_u64 la) = la" using assms(1,2) by (simp add: i64_as_u64_def uint_word_of_int)
  have t3: "uint (t2 + 100000) = uint t2 + 100000" using s(2) by (simp add: uint_word_ariths)
  have tw: "tw = from_exchange (i64_as_u64 la) t2 (t2 + 100000) t4"
    by (simp add: tw_def exchange_times_def path_delay_def t2_def t4_def Let_def)
  have ok: "ts_ok (i64_as_u64 la)" "ts_ok t2" "ts_ok (t2 + 100000)" "ts_ok t4"
    using assms(2) s(2,4) by (simp_all add: ts_ok_def t1 t3)
  define X where "X = (uint t2 - uint (i64_as_u64 la)) + (uint (t2 + 100000) - uint t4)"
  have o: "tw_offset_nanos tw = tdiv X 2" unfolding tw X_def by (rule exchange_offset(1) [OF ok])
  have X: "X = 2 * uint t2 + 100000 - la - uint t4" by (simp add: X_def t1 t3)
  have xr: "(of_int X :: rat) = 2 * of_int (uint t2) + 100000 - of_int la - of_int (uint t4)"
    by (simp add: X del: of_int_uint)
  have "\<bar>of_int (2 * tdiv X 2 - X) :: rat\<bar> \<le> 1" using tdiv_2_close [of X] by (simp only: of_int_abs [symmetric] of_int_le_1_iff)
  then have q: "\<bar>2 * of_int (tw_offset_nanos tw) - (of_int X :: rat)\<bar> \<le> 1" by (simp add: o)
  show "\<bar>of_int (tw_offset_nanos tw) - (of_int (lb - la) + (f - b) / 2)\<bar> \<le> 4"
    using offset_bound [OF q [unfolded xr] s(1,3)] by simp
  define d where "d = uint t4 - la - 100000"
  have dr: "(of_int d :: rat) = of_int (uint t4) - of_int la - 100000" by (simp add: d_def del: of_int_uint)
  have "0 \<le> (of_int d :: rat)" using s(3) F(2,4) unfolding dr f_def [symmetric] b_def [symmetric] abs_le_iff by safe linarith
  then have "0 \<le> d" by simp
  moreover have "d < 2 ^ 64" using s(4) assms(1) by (simp add: d_def)
  ultimately have "uint (rtt_nanos tw) = d" unfolding tw by (intro exchange_rtt) (simp_all add: t1 t3 d_def)
  then show "\<bar>of_int (uint (rtt_nanos tw)) - (f + b)\<bar> \<le> 3"
    using s(3) dr unfolding abs_le_iff by safe linarith+
qed

text \<open>
  (C32) The simulator measures what it simulates. Whenever both nodes' clocks show a time from zero up to
  \<open>2^50\<close> ns (13 days), the base latency is what the network was built with and the samples of the jitter
  are numbers, an exchange returns, its offset is the difference of the two local clocks plus half the
  difference of the two delays that were drawn, to 4 ns, and its round trip is the sum of the delays, to
  3 ns: all the rounding of the path through \<open>f64\<close> and back is in these bounds.
\<close>

theorem sim_exchange_accurate:
  assumes "a < length (net_nodes net)" "b < length (net_nodes net)" "a < length (base_latencies net)" "b < length (base_latencies net ! a)"
    and "local_time_nanos (net_nodes net ! a) t \<in> {0 .. 2 ^ 50}" "local_time_nanos (net_nodes net ! b) t \<in> {0 .. 2 ^ 50}"
    and "uint (base_latencies net ! a ! b) \<in> {1000000 .. 2 ^ 50}" "jitter_ok j1" "jitter_ok j2"
  shows "\<exists>tw. simulate_exchange (Some (j1, j2)) a b t net = Ret tw \<and>
    (let f = nval (path_delay (base_latencies net ! a ! b) j1); k = nval (path_delay (base_latencies net ! a ! b) j2) in
     \<bar>of_int (tw_offset_nanos tw) - (of_int (local_time_nanos (net_nodes net ! b) t - local_time_nanos (net_nodes net ! a) t) + (f - k) / 2)\<bar> \<le> 4 \<and>
     \<bar>of_int (uint (rtt_nanos tw)) - (f + k)\<bar> \<le> 3)"
  using assms exchange_measures [of "local_time_nanos (net_nodes net ! a) t" "local_time_nanos (net_nodes net ! b) t" "base_latencies net ! a ! b" j1 j2]
  by (simp add: simulate_exchange_def Let_def del: of_int_uint)

text \<open>Two nodes 20 ms apart, without drift.\<close>

definition w_sim_node :: "u8 \<Rightarrow> i64 \<Rightarrow> sim_node" where
  "w_sim_node k off = \<lparr>sn_id = NodeId (replicate 32 k), true_offset_nanos = off, true_drift_ppb = 0, sn_kalman = kalman_new,
     sn_samr = clock_default, sn_peers = [], last_solved_offset_nanos = 0\<rparr>"

definition w_sim_net :: "i64 \<Rightarrow> i64 \<Rightarrow> sim_network" where
  "w_sim_net off1 off2 = \<lparr>net_nodes = [w_sim_node 1 off1, w_sim_node 2 off2],
     base_latencies = [[0, 20000000], [20000000, 0]], jitter_stddev_nanos = Fin 0\<rparr>"

lemma w_sim_time: "is_i64 (t + off) \<Longrightarrow> local_time_nanos (w_sim_node k off) t = t + off"
  by (simp add: local_time_nanos_def w_sim_node_def i64_wrap_id [of 0] i64_defs)

theorem sim_exchange_accurate_witness:
  "\<exists>tw. simulate_exchange (Some (Fin 0, Fin 0)) 0 1 1000 (w_sim_net 0 500) = Ret tw \<and> \<bar>of_int (tw_offset_nanos tw) - (500 :: rat)\<bar> \<le> 4"
  using sim_exchange_accurate [of 0 "w_sim_net 0 500" 1 1000 "Fin 0" "Fin 0"]
  by (auto simp: w_sim_net_def w_sim_time i64_defs jitter_ok_def)

section \<open>Before the clock starts\<close>

lemma f64_as_u64_le:
  assumes "nval x \<le> of_int m" "0 \<le> m" "m < 2 ^ 64"
  shows "uint (f64_as_u64 x) \<le> m"
proof -
  have "trunc_rat (nval x) \<le> m" using trunc_rat_mono [OF assms(1)] using assms(2) by (simp add: trunc_rat_def [of "of_int m"])
  then show ?thesis using assms(2,3) by (simp add: f64_as_u64_def uint_word_of_int)
qed

lemma wrap_far:
  assumes "- (2 ^ 63) - 2 ^ 60 \<le> x" "x \<le> - (2 ^ 62)"
  shows "2 ^ 61 \<le> \<bar>i64_wrap x\<bar>"
proof (cases "- (2 ^ 63) \<le> x")
  case True
  then have "is_i64 x" using assms by (simp add: i64_defs)
  then show ?thesis using assms by simp
next
  case False
  have "i64_wrap x = i64_wrap (x + 2 ^ 64 * 1)" by (rule i64_wrap_shift [symmetric])
  also have "\<dots> = x + 2 ^ 64 * 1" using False assms by (intro i64_wrap_id) (simp add: i64_defs)
  finally show ?thesis using assms by simp
qed

lemma exchange_far:
  assumes "- (2 ^ 50) \<le> la" "la < 0" "\<bar>lb\<bar> \<le> 2 ^ 50" "reading (2 ^ 51 + 1) f" "reading (2 ^ 51 + 1) b"
  defines "t2 \<equiv> f64_as_u64 (fadd (of_i64 lb) f)"
    and "t4 \<equiv> f64_as_u64 (fadd (fadd (fadd (of_i64 la) f) b) (of_u64 100000))"
  shows "2 ^ 61 \<le> \<bar>tw_offset_nanos (from_exchange (i64_as_u64 la) t2 (t2 + 100000) t4)\<bar>"
proof -
  have i: "fbound 52 (of_i64 n)" if "\<bar>n\<bar> \<le> 2 ^ 50" for n
  proof (rule fbound_rr [of _ "of_int n"])
    have "(of_int \<bar>n\<bar> :: rat) \<le> of_int (2 ^ 50)" using that by (simp only: of_int_le_iff)
    then show "\<bar>of_int n :: rat\<bar> \<le> 2 ^ 52" by simp
  qed (simp_all add: nval_of_i64, simp add: of_i64_def)
  have fb: "fbound 52 f" "fbound 52 b" using assms(4,5) by (simp_all add: fbound_def reading_def)
  have p: "fbound 54 (of_u64 100000)" using reading_u64 [of 100000 100000] by (simp add: fbound_def reading_def)
  have ia: "fbound 52 (of_i64 la)" "fbound 52 (of_i64 lb)" using i assms(1-3) by simp_all
  have x2: "fbound 53 (fadd (of_i64 lb) f)" using fbound_fadd [OF ia(2) fb(1)] by simp
  have "fbound 53 (fadd (of_i64 la) f)" using fbound_fadd [OF ia(1) fb(1)] by simp
  then have "fbound 54 (fadd (fadd (of_i64 la) f) b)"
    using fbound_fadd [of 53 _ b] fbound_le [OF fb(2), of 53] by simp
  then have x4: "fbound 55 (fadd (fadd (fadd (of_i64 la) f) b) (of_u64 100000))" using fbound_fadd [OF _ p] by simp
  have t2: "uint t2 \<le> 2 ^ 53" unfolding t2_def using x2 by (intro f64_as_u64_le) (auto simp: fbound_def)
  have t4: "uint t4 \<le> 2 ^ 55" unfolding t4_def using x4 by (intro f64_as_u64_le) (auto simp: fbound_def)
  have t1: "uint (i64_as_u64 la) = la + 2 ^ 64"
  proof -
    have "la mod 2 ^ 64 = (la + 2 ^ 64) mod 2 ^ 64" by simp
    also have "\<dots> = la + 2 ^ 64" using assms(1,2) by (intro mod_pos_pos_trivial) auto
    finally show ?thesis by (simp add: i64_as_u64_def uint_word_of_int)
  qed
  have t3: "uint (t2 + 100000) = uint t2 + 100000" using t2 by (simp add: uint_word_ariths)
  define X where "X = (uint t2 - uint (i64_as_u64 la)) + (uint (t2 + 100000) - uint t4)"
  have X: "X = 2 * uint t2 + 100000 - la - 2 ^ 64 - uint t4" by (simp add: X_def t1 t3)
  have e: "(2 :: int) ^ 54 = 2 * 2 ^ 53" "(2 :: int) ^ 51 = 2 ^ 50 + 2 ^ 50" "(100000 :: int) \<le> 2 ^ 50" by simp_all
  have "- (2 ^ 64) - 2 ^ 55 \<le> X" "X \<le> 2 ^ 54 + 2 ^ 51 - 2 ^ 64"
    using t2 t4 assms(1,2) uint_ge_0 [of t2] uint_ge_0 [of t4] e unfolding X by linarith+
  moreover have "2 * tdiv X 2 \<le> X + 1" "X - 1 \<le> 2 * tdiv X 2" using tdiv_2_close [of X] by (auto simp: abs_le_iff)
  ultimately have "- (2 ^ 63) - 2 ^ 60 \<le> tdiv X 2" "tdiv X 2 \<le> - (2 ^ 62)" by simp_all
  then show ?thesis using wrap_far [of "tdiv X 2"] by (simp add: from_exchange_def Let_def X_def)
qed

text \<open>
  In the first epoch half the simulated clocks are before zero, and what they measure is not a clock
  difference. When the local clock of the node that starts an exchange is negative (by up to \<open>2^50\<close> ns), the
  conversions \<open>as u64\<close> wrap its first time to the top of the range and clamp its last to zero, and
  the offset recorded is at least \<open>2^61\<close> ns (73 years) in magnitude, whatever the peer's clock shows.
\<close>

theorem sim_exchange_before_zero:
  assumes "a < length (net_nodes net)" "b < length (net_nodes net)" "a < length (base_latencies net)" "b < length (base_latencies net ! a)"
    and "local_time_nanos (net_nodes net ! a) t \<in> {- (2 ^ 50) ..< 0}" "local_time_nanos (net_nodes net ! b) t \<in> {- (2 ^ 50) .. 2 ^ 50}"
    and "uint (base_latencies net ! a ! b) \<in> {1000000 .. 2 ^ 50}" "jitter_ok j1" "jitter_ok j2"
  shows "\<exists>tw. simulate_exchange (Some (j1, j2)) a b t net = Ret tw \<and> 2 ^ 61 \<le> \<bar>tw_offset_nanos tw\<bar>"
proof -
  let ?base = "base_latencies net ! a ! b"
  have "reading (2 ^ 51 + 1) (path_delay ?base j1)" "reading (2 ^ 51 + 1) (path_delay ?base j2)"
    using assms(7-9) unfolding jitter_ok_def by (intro reading_path_delay(1); simp)+
  from exchange_far [OF _ _ _ this, of "local_time_nanos (net_nodes net ! a) t" "local_time_nanos (net_nodes net ! b) t"]
  show ?thesis using assms(1-6) by (simp add: simulate_exchange_def exchange_times_def path_delay_def Let_def abs_le_iff)
qed

theorem sim_exchange_before_zero_witness:
  "\<exists>tw. simulate_exchange (Some (Fin 0, Fin 0)) 0 1 0 (w_sim_net (- 500000000) (- 400000000)) = Ret tw \<and> 2 ^ 61 \<le> \<bar>tw_offset_nanos tw\<bar>"
  by (rule sim_exchange_before_zero) (auto simp: w_sim_net_def w_sim_time i64_defs jitter_ok_def)

end
