(* ===== verification/SimRun.thy ===== *)
theory SimRun
  imports Sim Outlier Solver Mirror Layers
begin

text \<open>
  The main program of \<open>rtfsn-sim/src/main.rs\<close>: one epoch of the simulation (measure, solve, classify,
  emit), its statistics, the run over all epochs and the report.
\<close>

section \<open>One epoch\<close>

text \<open>The samples of the jitter for one exchange: its nodes and its number.\<close>

type_synonym jitter_draws = "nat \<Rightarrow> nat \<Rightarrow> nat \<Rightarrow> jitter"

definition exchange_plan :: "sim_config \<Rightarrow> sim_network \<Rightarrow> (nat \<times> nat \<times> nat) list" where
  "exchange_plan cfg net = concat (map (\<lambda>i. concat (map (\<lambda>j. map (\<lambda>e. (i, j, e)) [0 ..< exchanges_per_epoch cfg])
     (sn_peers (net_nodes net ! i)))) [0 ..< num_nodes cfg])"

definition measure_all :: "sim_config \<Rightarrow> jitter_draws \<Rightarrow> i64 \<Rightarrow> sim_network \<Rightarrow> (nat \<times> nat \<times> twist_index) list outcome" where
  "measure_all cfg jd real_time net =
     (if num_nodes cfg \<le> length (net_nodes net)
      then traverse (\<lambda>(i, j, e). obind (simulate_exchange (jd i j e) i j real_time net) (\<lambda>tw. Ret (i, j, tw)))
             (exchange_plan cfg net)
      else Panic)"

definition index_key :: "nat \<Rightarrow> nat \<Rightarrow> nat \<times> nat" where
  "index_key i j = (if i < j then (i, j) else (j, i))"

definition best_step :: "((nat \<times> nat), twist_index) hashmap \<Rightarrow> nat \<times> nat \<times> twist_index \<Rightarrow> ((nat \<times> nat), twist_index) hashmap" where
  "best_step best m = (case m of (i, j, tw) \<Rightarrow>
     let key = index_key i j;
         is_better = (case hm_get best key of None \<Rightarrow> True | Some prev \<Rightarrow> rtt_nanos tw < rtt_nanos prev)
     in if is_better then hm_insert key tw best else best)"

definition best_twists :: "(nat \<times> nat \<times> twist_index) list \<Rightarrow> ((nat \<times> nat), twist_index) hashmap" where
  "best_twists ms = foldl best_step [] ms"

definition seed_solver :: "sim_network \<Rightarrow> holonomy_solver" where
  "seed_solver net = foldl (\<lambda>s n. add_node (sn_id n) (chiral_frame_new (last_solved_offset_nanos n)
     (f64_as_i64 (fmul (kalman_drift_rate (sn_kalman n)) (Fin 1000000000))) 100) s) solver_new (net_nodes net)"

text \<open>The indices of a measurement have been used by the exchange, so they are in range.\<close>

definition add_best :: "sim_network \<Rightarrow> ((nat \<times> nat), twist_index) hashmap \<Rightarrow> holonomy_solver \<Rightarrow> holonomy_solver" where
  "add_best net best s = foldl (\<lambda>s ((i, j), tw).
     add_measurement (sn_id (net_nodes net ! i)) (sn_id (net_nodes net ! j)) tw s) s best"

definition measurement_var :: "u64 \<Rightarrow> f64" where
  "measurement_var mean_defect = fmax (fsq (fdiv (of_u64 mean_defect) (Fin 1000000000))) (flit (1 / 10 ^ 12))"

definition store_solved :: "f64 \<Rightarrow> u64 \<Rightarrow> holonomy_solver \<Rightarrow> sim_node \<Rightarrow> sim_node" where
  "store_solved dt mean_defect solver n = (case hm_get (hs_nodes solver) (sn_id n) of None \<Rightarrow> n
     | Some frame \<Rightarrow> n\<lparr>last_solved_offset_nanos := cf_offset_nanos frame,
         sn_kalman := kalman_step dt (fdiv (of_i64 (cf_offset_nanos frame)) (Fin 1000000000))
           (measurement_var mean_defect) (sn_kalman n)\<rparr>)"

definition classify_node :: "u64 list list \<Rightarrow> nat \<times> sim_node \<Rightarrow> sim_node outcome" where
  "classify_node lats idx_node = (case idx_node of (idx, n) \<Rightarrow>
     let uncertainty_nanos = f64_as_u64 (fmul (kalman_uncertainty (sn_kalman n)) (Fin 1000000000));
         drift_ppb = f64_as_i64 (fmul (kalman_drift_rate (sn_kalman n)) (Fin 1000000000))
     in obind (obind (obind (obind (classify_reachability True (sn_samr n)) (\<lambda>st.
          case sn_peers n of [] \<Rightarrow> Ret st
          | first_peer # _ \<Rightarrow> if idx < length lats \<and> first_peer < length (lats ! idx)
              then classify_tier (lats ! idx ! first_peer) st else Panic))
          (classify_offset (last_solved_offset_nanos n) uncertainty_nanos))
          (classify_drift drift_ppb)) (\<lambda>st. Ret (n\<lparr>sn_samr := st\<rparr>)))"

definition saturating_mul_u64 :: "u64 \<Rightarrow> u64 \<Rightarrow> u64" where
  "saturating_mul_u64 a b = word_of_int (min (2 ^ 64 - 1) (uint a * uint b))"

definition offsets_hash :: "hash \<Rightarrow> i64 list \<Rightarrow> bytes" where
  "offsets_hash blake3 offs = blake3 (concat (map (\<lambda>off. u64_le (i64_as_u64 off)) offs))"

record sim_state =
  sm_net :: sim_network
  sm_stream :: clock_stream
  sm_boundary :: epoch_boundary_solver

definition EPOCH_NANOS :: i64 where "EPOCH_NANOS = 30000000000"

text \<open>The interval most nodes agree on; the epoch computes it and uses it for nothing.\<close>

definition consensus_interval :: "u64 \<Rightarrow> holonomy_solver \<Rightarrow> time_interval option" where
  "consensus_interval mean_defect solver = marzullo (map (\<lambda>nf.
     let unc = fdiv (of_u64 mean_defect) (Fin 1000000000)
     in from_measurement (cf_offset_secs (snd nf)) (fmax unc (flit (1 / 1000)))) (hs_nodes solver))"

text \<open>
  The orders in which an epoch walks its two \<open>HashMap\<close>s, the best measurement of each edge and the nodes of the solver. Rust draws them
  anew for every map; they are arguments, one pair per epoch.
\<close>

record walk_orders =
  wo_best :: "((nat \<times> nat) \<times> twist_index) list \<Rightarrow> ((nat \<times> nat) \<times> twist_index) list"
  wo_nodes :: "(node_id \<times> chiral_frame) list \<Rightarrow> (node_id \<times> chiral_frame) list"

text \<open>
  The state an epoch leaves, and what its statistics are computed from: the solver, its result and
  the suspected outliers.
\<close>

definition sim_epoch :: "hash \<Rightarrow> walk_orders \<Rightarrow> sim_config \<Rightarrow> jitter_draws \<Rightarrow> nat \<Rightarrow> sim_state \<Rightarrow>
    (sim_state \<times> holonomy_solver \<times> solve_result \<times> node_id list) outcome" where
  "sim_epoch blake3 wo cfg jd epoch st =
     (let real_time = i64_wrap (int epoch * EPOCH_NANOS); net = sm_net st
      in obind (measure_all cfg jd real_time net) (\<lambda>all_twists.
         case solve (cfg_solver_iterations cfg) (solver_tolerance_nanos cfg)
                (add_best net (wo_best wo (best_twists all_twists)) (seed_solver net)) of (solver, result) \<Rightarrow>
           let dt = (if epoch = 0 then Fin 1 else fdiv (of_i64 EPOCH_NANOS) (Fin 1000000000));
               stored = map (store_solved dt (mean_defect_nanos result) solver) (net_nodes net)
           in obind (traverse (classify_node (base_latencies net)) (enumerate 0 stored)) (\<lambda>nodes.
             let defective = detect_defective_nodes (max (saturating_mul_u64 (mean_defect_nanos result) 5)
                   (solver_tolerance_nanos cfg * 10)) solver;
                 node_offsets = map (cf_offset_nanos \<circ> snd) (wo_nodes wo (hs_nodes solver));
                 node_drifts = map (cf_drift_ppb \<circ> snd) (wo_nodes wo (hs_nodes solver))
             in case solve_boundary node_offsets node_drifts (i64_as_u64 real_time) (sm_boundary st) of (boundary, mirror) \<Rightarrow>
               Ret (\<lparr>sm_net = net\<lparr>net_nodes := nodes\<rparr>,
                     sm_stream = stream_emit blake3 (fixed_point_nanos mirror) (disagreement_nanos mirror)
                       (offsets_hash blake3 node_offsets) None (sm_stream st),
                     sm_boundary = boundary\<rparr>, solver, result, defective))))"

section \<open>Statistics\<close>

record epoch_stats =
  es_epoch :: nat
  max_error_us :: f64
  mean_error_us :: f64
  median_error_us :: f64
  p95_error_us :: f64
  p99_error_us :: f64
  solver_max_defect_us :: f64
  es_converged :: bool
  es_iterations :: u32
  outliers_detected :: nat

definition percentile :: "f64 list \<Rightarrow> f64 \<Rightarrow> f64" where
  "percentile xs p = (if xs = [] then Fin 0
     else let idx = f64_as_usize (fround (fmul (fsub (of_usize (length xs)) (Fin 1)) p))
          in xs ! min idx (length xs - 1))"

text \<open>\<open>sort_by(|a, b| a.partial_cmp(b).unwrap())\<close>: a NaN that is compared panics.\<close>

definition sort_partial :: "('a \<Rightarrow> f64) \<Rightarrow> 'a list \<Rightarrow> 'a list outcome" where
  "sort_partial f xs = (if 2 \<le> length xs \<and> (\<exists>x \<in> set xs. is_nan (f x)) then Panic
     else Ret (sort_by (\<lambda>a b. fle (f a) (f b)) xs))"

definition centred_errors :: "(i64 \<times> i64) list \<Rightarrow> f64 list" where
  "centred_errors pairs =
     (let n = of_usize (length pairs);
          true_mean = fdiv (fsum (map (of_i64 \<circ> fst) pairs)) n;
          solved_mean = fdiv (fsum (map (of_i64 \<circ> snd) pairs)) n
      in map (\<lambda>(t, s). fdiv (fabs (fsub (fsub (of_i64 t) true_mean) (fsub (of_i64 s) solved_mean))) (Fin 1000)) pairs)"

definition error_pairs :: "sim_node list \<Rightarrow> holonomy_solver \<Rightarrow> (i64 \<times> i64) list" where
  "error_pairs nodes solver = List.map_filter (\<lambda>n. case hm_get (hs_nodes solver) (sn_id n) of None \<Rightarrow> None
     | Some frame \<Rightarrow> Some (true_offset_nanos n, cf_offset_nanos frame)) nodes"

definition make_stats :: "nat \<Rightarrow> sim_node list \<Rightarrow> holonomy_solver \<Rightarrow> solve_result \<Rightarrow> node_id list \<Rightarrow> epoch_stats outcome" where
  "make_stats epoch nodes solver result defective =
     obind (sort_partial id (centred_errors (error_pairs nodes solver))) (\<lambda>errors_us.
       Ret \<lparr>es_epoch = epoch,
            max_error_us = (case last_opt errors_us of None \<Rightarrow> Fin 0 | Some e \<Rightarrow> e),
            mean_error_us = fdiv (fsum errors_us) (of_usize (max (length errors_us) 1)),
            median_error_us = percentile errors_us (flit (1 / 2)),
            p95_error_us = percentile errors_us (flit (95 / 100)),
            p99_error_us = percentile errors_us (flit (99 / 100)),
            solver_max_defect_us = fdiv (of_u64 (max_defect_nanos result)) (Fin 1000),
            es_converged = sr_converged result, es_iterations = sr_iterations result,
            outliers_detected = length defective\<rparr>)"

section \<open>The run and its report\<close>

fun sim_run :: "hash \<Rightarrow> (nat \<Rightarrow> walk_orders) \<Rightarrow> sim_config \<Rightarrow> (nat \<Rightarrow> jitter_draws) \<Rightarrow> nat list \<Rightarrow> sim_state \<Rightarrow> (sim_state \<times> epoch_stats list) outcome" where
  "sim_run blake3 wos cfg jds [] st = Ret (st, [])"
| "sim_run blake3 wos cfg jds (epoch # es) st =
     obind (sim_epoch blake3 (wos epoch) cfg (jds epoch) epoch st) (\<lambda>(st', solver, result, defective).
     obind (make_stats epoch (net_nodes (sm_net st')) solver result defective) (\<lambda>stats.
     obind (sim_run blake3 wos cfg jds es st') (\<lambda>(st'', all_stats). Ret (st'', stats # all_stats))))"

record sim_report =
  rp_initial_spread :: f64
  rp_connectivity :: "nat \<times> f64 \<times> nat"
  rp_first_real :: nat
  rp_reduction :: f64
  rp_converged_count :: nat
  rp_chain_valid :: bool
  rp_chain_len :: nat
  rp_unique_samr :: nat
  rp_best_epoch :: nat
  rp_worst_nodes :: "(nat \<times> f64) list"
  rp_best_nodes :: "(nat \<times> f64) list"

definition initial_spread :: "sim_node list \<Rightarrow> f64 outcome" where
  "initial_spread nodes =
     obind (sort_partial id (map (\<lambda>n. fdiv (of_i64 (true_offset_nanos n)) (Fin 1000000)) nodes)) (\<lambda>offs.
       if offs = [] then Panic else Ret (fsub (last offs) (hd offs)))"

definition peer_connectivity :: "sim_node list \<Rightarrow> (nat \<times> f64 \<times> nat) outcome" where
  "peer_connectivity nodes = (let counts = map (length \<circ> sn_peers) nodes in
     if counts = [] then Panic
     else Ret (Min (set counts), fdiv (of_usize (sum_list counts)) (of_usize (length counts)), Max (set counts)))"

definition best_epoch :: "epoch_stats list \<Rightarrow> epoch_stats outcome" where
  "best_epoch all_stats = (if all_stats = [] then Panic
     else if 2 \<le> length all_stats \<and> (\<exists>s \<in> set all_stats. is_nan (mean_error_us s)) then Panic
     else Ret (foldl (\<lambda>b s. if flt (mean_error_us s) (mean_error_us b) then s else b) (hd all_stats) (tl all_stats)))"

definition node_errors :: "sim_node list \<Rightarrow> (nat \<times> f64) list outcome" where
  "node_errors nodes = sort_partial (fneg \<circ> snd) (enumerate 0 (centred_errors
     (map (\<lambda>n. (true_offset_nanos n, last_solved_offset_nanos n)) nodes)))"

definition sim_report_of :: "hash \<Rightarrow> f64 \<Rightarrow> nat \<times> f64 \<times> nat \<Rightarrow> sim_state \<Rightarrow> epoch_stats list \<Rightarrow> sim_report outcome" where
  "sim_report_of blake3 spread conn st all_stats =
     (if all_stats = [] then Panic
      else let nodes = net_nodes (sm_net st);
               spread_us = fmul spread (Fin 1000);
               reduction = (if flt (Fin 0) spread_us
                 then fmul (fsub (Fin 1) (fdiv (mean_error_us (last all_stats)) spread_us)) (Fin 100) else Fin 0)
           in obind (traverse (crt_decode \<circ> sn_samr) nodes) (\<lambda>codes.
              obind (best_epoch all_stats) (\<lambda>best.
              obind (node_errors nodes) (\<lambda>errors.
                Ret \<lparr>rp_initial_spread = spread, rp_connectivity = conn,
                     rp_first_real = es_epoch (if 1 < length all_stats then all_stats ! 1 else all_stats ! 0), rp_reduction = reduction,
                     rp_converged_count = length (filter es_converged all_stats),
                     rp_chain_valid = verify_all blake3 (sm_stream st), rp_chain_len = stream_len (sm_stream st),
                     rp_unique_samr = length (remdups (sort codes)), rp_best_epoch = es_epoch best,
                     rp_worst_nodes = take 10 errors, rp_best_nodes = take 10 (rev errors)\<rparr>))))"

definition sim_start :: "sim_network \<Rightarrow> sim_state" where
  "sim_start net = \<lparr>sm_net = net, sm_stream = clock_stream_new, sm_boundary = ebs_new (i64_as_u64 EPOCH_NANOS)\<rparr>"

definition sim_main :: "hash \<Rightarrow> (nat \<Rightarrow> walk_orders) \<Rightarrow> sim_config \<Rightarrow> draws \<Rightarrow> (nat \<Rightarrow> jitter_draws) \<Rightarrow> sim_report outcome" where
  "sim_main blake3 wos cfg dr jds =
     obind (build_network cfg dr) (\<lambda>net.
     obind (initial_spread (net_nodes net)) (\<lambda>spread.
     obind (peer_connectivity (net_nodes net)) (\<lambda>conn.
     obind (sim_run blake3 wos cfg jds [0 ..< num_epochs cfg] (sim_start net)) (\<lambda>(st, all_stats).
       sim_report_of blake3 spread conn st all_stats))))"

section \<open>The best measurement of an edge\<close>

lemma best_step_get:
  "hm_get (best_step best (i, j, tw)) k =
     (if k = index_key i j \<and> (\<forall>prev. hm_get best k = Some prev \<longrightarrow> rtt_nanos tw < rtt_nanos prev) then Some tw else hm_get best k)"
  by (auto simp: best_step_def index_key_def Let_def update_conv' split: option.splits if_splits)

interpretation best: kept best_step hm_ok
  by unfold_locales (auto simp: best_step_def Let_def hm_ok_def distinct_update)

lemma best_twists_ok: "hm_ok (best_twists ms)"
  unfolding best_twists_def by (rule best.run) (simp add: hm_ok_def)

lemma best_twists_snoc: "best_twists (ms @ [m]) = best_step (best_twists ms) m"
  by (simp add: best_twists_def)

text \<open>What is kept for an edge is a measurement of it, from either end, with the least round trip.\<close>

lemma best_twists_min:
  "case hm_get (best_twists ms) k of
     None \<Rightarrow> \<forall>(i, j, tw) \<in> set ms. index_key i j \<noteq> k
   | Some tw \<Rightarrow> (\<exists>i j. (i, j, tw) \<in> set ms \<and> index_key i j = k) \<and>
       (\<forall>(i, j, tw') \<in> set ms. index_key i j = k \<longrightarrow> rtt_nanos tw \<le> rtt_nanos tw')"
proof (induction ms rule: rev_induct)
  case (snoc m ms)
  obtain i j tw where m: "m = (i, j, tw)" by (metis prod_cases3)
  show ?case using snoc
    by (auto simp: best_twists_snoc m best_step_get not_less intro: less_imp_le order_trans split: option.splits)
qed (simp add: best_twists_def)

lemma add_best_lut:
  "hs_lut (add_best net best s) = foldl (\<lambda>lut ((i, j), tw). lut_insert (sn_id (net_nodes net ! i)) (sn_id (net_nodes net ! j)) tw lut) (hs_lut s) best"
  by (induction best arbitrary: s) (auto simp: add_best_def add_measurement_def)

lemma latest_of_inserts:
  assumes "distinct (map key es)" "e \<in> set es" "\<And>x. x \<in> set es \<Longrightarrow> edge_key (fst (f x)) (fst (snd (f x))) = edge_key a b \<longleftrightarrow> x = e"
    and "f e = (a, b, tw)"
  shows "lut_latest (foldl (\<lambda>lut x. case f x of (a, b, tw) \<Rightarrow> lut_insert a b tw lut) lut es) a b = Some (orient a b tw)"
  using assms(1-3)
proof (induction es rule: rev_induct)
  case (snoc x es)
  obtain a' b' tw' where x: "f x = (a', b', tw')" by (metis prod_cases3)
  show ?case
  proof (cases "x = e")
    case True
    then show ?thesis using x assms(4) by (simp add: lut_latest_insert)
  next
    case False
    then have "edge_key a' b' \<noteq> edge_key a b" using snoc.prems(3) [of x] x by simp
    moreover have "e \<in> set es" using snoc.prems(2) False by simp
    ultimately show ?thesis using snoc x by (simp add: lut_latest_insert)
  qed
qed simp

lemma edge_key_eq: "edge_key a b = edge_key c d \<longleftrightarrow> (a = c \<and> b = d) \<or> (a = d \<and> b = c)"
  by (auto simp: edge_key_def)

lemma add_best_latest:
  assumes "distinct (map sn_id (net_nodes net))" "hm_ok best" "((i, j), tw) \<in> set best"
    and "\<forall>((i, j), tw) \<in> set best. i < j \<and> j < length (net_nodes net)"
  defines "idn \<equiv> \<lambda>i. sn_id (net_nodes net ! i)"
  shows "lut_latest (hs_lut (add_best net best s)) (idn i) (idn j) = Some (orient (idn i) (idn j) tw)"
proof -
  have inj: "idn k = idn l \<longleftrightarrow> k = l" if "k < length (net_nodes net)" "l < length (net_nodes net)" for k l
    using assms(1) that nth_eq_iff_index_eq [of "map sn_id (net_nodes net)" k l] by (simp add: idn_def)
  have "edge_key (idn k) (idn l) = edge_key (idn i) (idn j) \<longleftrightarrow> ((k, l), tw') = ((i, j), tw)" if "((k, l), tw') \<in> set best" for k l tw'
  proof -
    have b: "k < l" "l < length (net_nodes net)" "i < j" "j < length (net_nodes net)" using that assms(3,4) by auto
    have "edge_key (idn k) (idn l) = edge_key (idn i) (idn j) \<longleftrightarrow> (k, l) = (i, j)"
      using b inj by (auto simp: edge_key_eq)
    also have "\<dots> \<longleftrightarrow> ((k, l), tw') = ((i, j), tw)"
      using that assms(2,3) unfolding hm_ok_def by (metis eq_key_imp_eq_value fst_conv prod.inject)
    finally show ?thesis .
  qed
  then have "lut_latest (foldl (\<lambda>lut x. case (\<lambda>((i, j), tw). (idn i, idn j, tw)) x of (a, b, tw) \<Rightarrow> lut_insert a b tw lut) (hs_lut s) best) (idn i) (idn j) = Some (orient (idn i) (idn j) tw)"
    using assms(2,3) unfolding hm_ok_def by (intro latest_of_inserts [where key = fst and e = "((i, j), tw)"]) auto
  then show ?thesis by (simp add: add_best_lut idn_def case_prod_unfold)
qed

text \<open>
  Half the measurements reach the solver with the wrong sign. Edges are kept under their smaller index
  first, whoever measured. When the least round trip of the edge between \<open>i < j\<close> was measured by
  \<open>j\<close>, the solver is told that measurement as if \<open>i\<close> had made it: with true clock differences measured,
  the offset it holds for the edge from \<open>i\<close> to \<open>j\<close> is the clock of \<open>i\<close> less the clock of \<open>j\<close>.
\<close>

theorem best_twist_sign:
  assumes "distinct (map sn_id (net_nodes net))" "\<forall>(a, b, tw) \<in> set ms. a \<noteq> b \<and> a < length (net_nodes net) \<and> b < length (net_nodes net)"
    and "i < j" "sn_id (net_nodes net ! i) < sn_id (net_nodes net ! j)" "(j, i, tw) \<in> set ms"
    and "\<forall>(a, b, tw') \<in> set ms. index_key a b = (i, j) \<and> tw' \<noteq> tw \<longrightarrow> rtt_nanos tw < rtt_nanos tw'"
    and "tw_offset_nanos tw = c i - c j"
  shows "\<exists>tw'. lut_latest (hs_lut (add_best net (best_twists ms) s)) (sn_id (net_nodes net ! i)) (sn_id (net_nodes net ! j)) = Some tw' \<and>
    tw_offset_nanos tw' = - (c j - c i :: int)"
proof -
  have k: "index_key j i = (i, j)" using assms(3) by (simp add: index_key_def)
  from best_twists_min [of ms "(i, j)"] assms(5) k
  obtain tw' a b where tw': "hm_get (best_twists ms) (i, j) = Some tw'" "(a, b, tw') \<in> set ms" "index_key a b = (i, j)" "rtt_nanos tw' \<le> rtt_nanos tw"
    by (cases "hm_get (best_twists ms) (i, j)") fastforce+
  then have eq: "tw' = tw" using assms(6) by fastforce
  have "i < j \<and> j < length (net_nodes net)" if "((i, j), tw) \<in> set (best_twists ms)" for i j tw
  proof -
    have "hm_get (best_twists ms) (i, j) = Some tw" using that best_twists_ok [of ms] by (simp add: hm_ok_def)
    with best_twists_min [of ms "(i, j)"] obtain a b where "(a, b, tw) \<in> set ms" "index_key a b = (i, j)" by auto
    then show ?thesis using assms(2) by (auto simp: index_key_def split: if_splits)
  qed
  then have "lut_latest (hs_lut (add_best net (best_twists ms) s)) (sn_id (net_nodes net ! i)) (sn_id (net_nodes net ! j)) =
      Some (orient (sn_id (net_nodes net ! i)) (sn_id (net_nodes net ! j)) tw)"
    using assms(1) map_of_SomeD [OF tw'(1)] eq by (intro add_best_latest best_twists_ok) auto
  then show ?thesis using assms(4,7) by (simp add: orient_def edge_key_def)
qed

theorem best_twist_sign_witness:
  "\<exists>tw'. lut_latest (hs_lut (add_best (w_sim_net 0 500) (best_twists [(0, 1, w_twist 500), (1, 0, (w_twist (- 500))\<lparr>rtt_nanos := 9\<rparr>)]) solver_new))
     (NodeId (replicate 32 1)) (NodeId (replicate 32 2)) = Some tw' \<and> tw_offset_nanos tw' = - 500"
  using best_twist_sign [of "w_sim_net 0 500" "[(0, 1, w_twist 500), (1, 0, (w_twist (- 500))\<lparr>rtt_nanos := 9\<rparr>)]" 0 1
      "(w_twist (- 500))\<lparr>rtt_nanos := 9\<rparr>" "\<lambda>i. if i = 0 then 0 else 500" solver_new]
  by (simp add: w_sim_net_def w_sim_node_def w_twist_def index_key_def less_node_id_def replicate_32)

section \<open>The solver keeps its nodes\<close>

definition frames_ok :: "holonomy_solver \<Rightarrow> bool" where
  "frames_ok s \<longleftrightarrow> (\<forall>nf \<in> set (hs_nodes s). is_i64 (cf_offset_nanos (snd nf)))"

lemma frames_ok_step: "frames_ok s \<Longrightarrow> frames_ok (fst (solver_step s))"
  by (auto simp: frames_ok_def solver_step_def Let_def move_offset_def saturating_add_i64_def split: option.splits)

lemma frames_ok_solve_loop: "frames_ok s \<Longrightarrow> frames_ok (fst (solve_loop k tol s r))"
proof (induction k arbitrary: s r)
  case (Suc k)
  then show ?case using frames_ok_step [of s] by (cases "solver_step s") auto
qed simp

lemma frames_ok_solve: "frames_ok s \<Longrightarrow> frames_ok (fst (solve n tol s))"
  by (simp add: solve_def frames_ok_solve_loop)

lemma update_mem: "x \<in> set (AList.update k v m) \<Longrightarrow> x = (k, v) \<or> x \<in> set m"
  by (induction m) (auto split: if_splits)

lemma frames_ok_add_node: "frames_ok s \<Longrightarrow> is_i64 (cf_offset_nanos f) \<Longrightarrow> frames_ok (add_node n f s)"
  unfolding frames_ok_def add_node_def by (auto dest!: update_mem)

lemma frames_ok_seed:
  assumes "\<forall>n \<in> set (net_nodes net). is_i64 (last_solved_offset_nanos n)"
  shows "frames_ok (add_best net best (seed_solver net))"
proof -
  have "frames_ok (foldl (\<lambda>s n. add_node (sn_id n) (chiral_frame_new (last_solved_offset_nanos n) (g n) 100) s) s ns)"
    if "frames_ok s" "\<forall>n \<in> set ns. is_i64 (last_solved_offset_nanos n)" for s ns and g :: "sim_node \<Rightarrow> i64"
    using that by (induction ns arbitrary: s) (auto simp: frames_ok_add_node chiral_frame_new_def)
  from this [of solver_new "net_nodes net"] have "frames_ok (seed_solver net)"
    using assms by (simp add: seed_solver_def frames_ok_def solver_new_def)
  moreover have "hs_nodes (add_best net best s) = hs_nodes s" for s
    by (induction best arbitrary: s) (auto simp: add_best_def add_measurement_def)
  ultimately show ?thesis by (simp add: frames_ok_def)
qed

section \<open>An epoch returns\<close>

lemma traverse_total:
  assumes "\<And>x. x \<in> set xs \<Longrightarrow> \<exists>y. f x = Ret y \<and> P x y"
  shows "\<exists>ys. traverse f xs = Ret ys \<and> list_all2 P xs ys"
  using assms
proof (induction xs)
  case (Cons x xs)
  obtain y where "f x = Ret y" "P x y" using Cons.prems [of x] by auto
  moreover obtain ys where "traverse f xs = Ret ys" "list_all2 P xs ys" using Cons by auto
  ultimately show ?case by auto
qed simp

lemma network_okD:
  assumes "network_ok cfg net"
  shows "length (net_nodes net) = num_nodes cfg" "length (base_latencies net) = num_nodes cfg"
    and "i < num_nodes cfg \<Longrightarrow> length (base_latencies net ! i) = num_nodes cfg"
    and "i < num_nodes cfg \<Longrightarrow> j \<in> set (sn_peers (net_nodes net ! i)) \<Longrightarrow>
      j < num_nodes cfg \<and> j \<noteq> i \<and> i \<in> set (sn_peers (net_nodes net ! j))"
    and "n \<in> set (net_nodes net) \<Longrightarrow> distinct (sn_peers n) \<and> samr_ok (sn_samr n) \<and> is_i64 (true_offset_nanos n)"
  using assms unfolding network_ok_def by (blast, blast, simp, blast, blast)

lemma network_okI:
  assumes "length (net_nodes net) = num_nodes cfg" "length (base_latencies net) = num_nodes cfg"
    and "\<And>i. i < num_nodes cfg \<Longrightarrow> length (base_latencies net ! i) = num_nodes cfg"
    and "\<And>i j. i < num_nodes cfg \<Longrightarrow> j \<in> set (sn_peers (net_nodes net ! i)) \<Longrightarrow>
      j < num_nodes cfg \<and> j \<noteq> i \<and> i \<in> set (sn_peers (net_nodes net ! j))"
    and "\<And>n. n \<in> set (net_nodes net) \<Longrightarrow> distinct (sn_peers n) \<and> samr_ok (sn_samr n) \<and> is_i64 (true_offset_nanos n)"
  shows "network_ok cfg net"
proof -
  have "\<forall>row \<in> set (base_latencies net). length row = num_nodes cfg" using assms(2,3) by (auto simp: in_set_conv_nth)
  then show ?thesis unfolding network_ok_def using assms(1,2,4,5) by blast
qed

definition sim_ok :: "sim_config \<Rightarrow> sim_network \<Rightarrow> bool" where
  "sim_ok cfg net \<longleftrightarrow> network_ok cfg net \<and> (\<forall>n \<in> set (net_nodes net). is_i64 (last_solved_offset_nanos n))"

lemma measure_all_total:
  assumes "network_ok cfg net" "\<And>i j e. jd i j e \<noteq> None"
  shows "\<exists>ms. measure_all cfg jd t net = Ret ms"
proof -
  note n = network_okD [OF assms(1)]
  have tot: "\<exists>y. (case x of (i, j, e) \<Rightarrow> obind (simulate_exchange (jd i j e) i j t net) (\<lambda>tw. Ret (i, j, tw))) = Ret y \<and> True"
    if "x \<in> set (exchange_plan cfg net)" for x
  proof -
    from that obtain i j e where x: "x = (i, j, e)" "i < num_nodes cfg" "j \<in> set (sn_peers (net_nodes net ! i))"
      by (auto simp: exchange_plan_def)
    then have "j < num_nodes cfg" using n(4) by blast
    moreover obtain j1 j2 where "jd i j e = Some (j1, j2)" using assms(2) by fastforce
    ultimately show ?thesis using x(1,2) n(1-3) by (simp add: simulate_exchange_def)
  qed
  have "\<exists>ys. traverse (\<lambda>(i, j, e). obind (simulate_exchange (jd i j e) i j t net) (\<lambda>tw. Ret (i, j, tw))) (exchange_plan cfg net) = Ret ys \<and>
      list_all2 (\<lambda>_ _. True) (exchange_plan cfg net) ys"
    by (rule traverse_total) (rule tot)
  then show ?thesis using n(1) by (auto simp: measure_all_def)
qed

definition kept_node :: "sim_node \<Rightarrow> sim_node \<Rightarrow> bool" where
  "kept_node n m \<longleftrightarrow> sn_id m = sn_id n \<and> true_offset_nanos m = true_offset_nanos n \<and> true_drift_ppb m = true_drift_ppb n \<and> sn_peers m = sn_peers n"

lemma store_solved_kept:
  assumes "frames_ok solver" "is_i64 (last_solved_offset_nanos n)"
  shows "kept_node n (store_solved dt d solver n)" "sn_samr (store_solved dt d solver n) = sn_samr n"
    "is_i64 (last_solved_offset_nanos (store_solved dt d solver n))"
  using assms by (auto simp: store_solved_def kept_node_def frames_ok_def split: option.splits dest!: map_of_SomeD)

lemma classify_node_total:
  assumes "samr_ok (sn_samr n)" "idx < length lats" "\<forall>j \<in> set (sn_peers n). j < length (lats ! idx)"
  shows "\<exists>m. classify_node lats (idx, n) = Ret m \<and> kept_node n m \<and> samr_ok (sn_samr m) \<and> last_solved_offset_nanos m = last_solved_offset_nanos n"
proof -
  obtain s1 where s1: "classify_reachability True (sn_samr n) = Ret s1" "samr_ok s1" using classify_reachability_ok [OF assms(1)] by blast
  obtain s2 where s2: "(case sn_peers n of [] \<Rightarrow> Ret s1 | p # _ \<Rightarrow> if idx < length lats \<and> p < length (lats ! idx)
      then classify_tier (lats ! idx ! p) s1 else Panic) = Ret s2" "samr_ok s2"
    using classify_tier_ok [OF s1(2)] s1(2) assms(2,3) by (cases "sn_peers n") auto
  obtain s3 where s3: "classify_offset (last_solved_offset_nanos n) (f64_as_u64 (fmul (kalman_uncertainty (sn_kalman n)) (Fin 1000000000))) s2 = Ret s3" "samr_ok s3"
    using classify_offset_ok [OF s2(2)] by blast
  obtain s4 where s4: "classify_drift (f64_as_i64 (fmul (kalman_drift_rate (sn_kalman n)) (Fin 1000000000))) s3 = Ret s4" "samr_ok s4"
    using classify_drift_ok [OF s3(2)] by blast
  show ?thesis by (simp add: classify_node_def s1 s2 s3 s4 kept_node_def)
qed

lemma sim_ok_kept:
  assumes "sim_ok cfg net" "list_all2 kept_node (net_nodes net) nodes"
    and "\<forall>n \<in> set nodes. samr_ok (sn_samr n) \<and> is_i64 (last_solved_offset_nanos n)"
  shows "sim_ok cfg (net\<lparr>net_nodes := nodes\<rparr>)"
proof -
  have len: "length nodes = length (net_nodes net)" using assms(2) by (simp add: list_all2_lengthD)
  have k: "kept_node (net_nodes net ! i) (nodes ! i)" if "i < length nodes" for i
    using assms(2) that len by (simp add: list_all2_conv_all_nth)
  have net: "network_ok cfg net" using assms(1) by (simp add: sim_ok_def)
  note n = network_okD [OF net]
  have ps: "sn_peers (nodes ! i) = sn_peers (net_nodes net ! i)" if "i < num_nodes cfg" for i
    using k [of i] that n(1) len by (simp add: kept_node_def)
  have peer: "j < num_nodes cfg \<and> j \<noteq> i \<and> i \<in> set (sn_peers (nodes ! j))" if "i < num_nodes cfg" "j \<in> set (sn_peers (nodes ! i))" for i j
    using n(4) [OF that(1), of j] that(2) by (auto simp: ps that(1))
  have wf: "distinct (sn_peers m) \<and> samr_ok (sn_samr m) \<and> is_i64 (true_offset_nanos m)" if m: "m \<in> set nodes" for m
  proof -
    obtain i where i: "i < length nodes" "m = nodes ! i" using m by (auto simp: in_set_conv_nth)
    then have "net_nodes net ! i \<in> set (net_nodes net)" using len by simp
    from n(5) [OF this] show ?thesis using k [OF i(1)] assms(3) m by (simp add: i(2) kept_node_def)
  qed
  let ?m = "net\<lparr>net_nodes := nodes\<rparr>"
  have "network_ok cfg ?m"
  proof (rule network_okI)
    show "length (net_nodes ?m) = num_nodes cfg" using len n(1) by simp
    show "length (base_latencies ?m) = num_nodes cfg" using n(2) by simp
    show "length (base_latencies ?m ! i) = num_nodes cfg" if "i < num_nodes cfg" for i using n(3) [OF that] by simp
    show "j < num_nodes cfg \<and> j \<noteq> i \<and> i \<in> set (sn_peers (net_nodes ?m ! j))"
      if "i < num_nodes cfg" "j \<in> set (sn_peers (net_nodes ?m ! i))" for i j using peer [of i j] that by simp
    show "distinct (sn_peers m) \<and> samr_ok (sn_samr m) \<and> is_i64 (true_offset_nanos m)" if "m \<in> set (net_nodes ?m)" for m
      using wf [of m] that by simp
  qed
  then show ?thesis using assms(3) by (simp add: sim_ok_def)
qed

lemma sim_epoch_total:
  assumes "sim_ok cfg (sm_net st)" "\<And>i j e. jd i j e \<noteq> None"
  shows "\<exists>st' solver result defective. sim_epoch blake3 wo cfg jd epoch st = Ret (st', solver, result, defective) \<and>
    sim_ok cfg (sm_net st') \<and> frames_ok solver \<and> length (net_nodes (sm_net st')) = length (net_nodes (sm_net st)) \<and>
    (\<exists>m c eh. mirrors (sm_boundary st') = mirrors (sm_boundary st) @ [m] \<and>
       sm_stream st' = stream_emit blake3 (fixed_point_nanos m) c eh None (sm_stream st))"
proof -
  let ?net = "sm_net st" and ?t = "i64_wrap (int epoch * EPOCH_NANOS)"
  have net: "network_ok cfg ?net" using assms(1) by (simp add: sim_ok_def)
  note nk = network_okD [OF net]
  obtain ms where ms: "measure_all cfg jd ?t ?net = Ret ms" using measure_all_total [OF net, of jd] assms(2) by blast
  obtain solver result where so: "solve (cfg_solver_iterations cfg) (solver_tolerance_nanos cfg)
      (add_best ?net (wo_best wo (best_twists ms)) (seed_solver ?net)) = (solver, result)" by fastforce
  have fr: "frames_ok solver"
    using frames_ok_solve [OF frames_ok_seed, of ?net "cfg_solver_iterations cfg" "solver_tolerance_nanos cfg" "wo_best wo (best_twists ms)"] assms(1)
    by (simp add: so sim_ok_def)
  define dt where "dt = (if epoch = 0 then Fin 1 else fdiv (of_i64 EPOCH_NANOS) (Fin 1000000000))"
  let ?stored = "map (store_solved dt (mean_defect_nanos result) solver) (net_nodes ?net)"
  have tot: "\<exists>m. classify_node (base_latencies ?net) x = Ret m \<and>
      (kept_node (snd x) m \<and> samr_ok (sn_samr m) \<and> last_solved_offset_nanos m = last_solved_offset_nanos (snd x))"
    if "x \<in> set (enumerate 0 ?stored)" for x
  proof -
    define i where "i = fst x"
    have i: "i < num_nodes cfg" "x = (i, store_solved dt (mean_defect_nanos result) solver (net_nodes ?net ! i))"
      using that nk(1) by (auto simp: in_set_enumerate_eq i_def prod_eq_iff)
    let ?n = "net_nodes ?net ! i"
    have n: "?n \<in> set (net_nodes ?net)" using nk(1) i by simp
    then have k: "kept_node ?n (snd x)" "sn_samr (snd x) = sn_samr ?n"
      using store_solved_kept [OF fr, of ?n] assms(1) by (auto simp: sim_ok_def i)
    have "samr_ok (sn_samr ?n)" using nk(5) [OF n] by blast
    moreover have "\<forall>j \<in> set (sn_peers (snd x)). j < length (base_latencies ?net ! i)"
      using k(1) nk(3,4) [OF i(1)] by (auto simp: kept_node_def)
    ultimately show ?thesis using classify_node_total [of "snd x" i "base_latencies ?net"] k(2) nk(2) i by simp
  qed
  have "\<exists>nodes. traverse (classify_node (base_latencies ?net)) (enumerate 0 ?stored) = Ret nodes \<and>
      list_all2 (\<lambda>x m. kept_node (snd x) m \<and> samr_ok (sn_samr m) \<and> last_solved_offset_nanos m = last_solved_offset_nanos (snd x)) (enumerate 0 ?stored) nodes"
    by (rule traverse_total) (rule tot)
  then obtain nodes where nodes: "traverse (classify_node (base_latencies ?net)) (enumerate 0 ?stored) = Ret nodes"
    "list_all2 (\<lambda>x m. kept_node (snd x) m \<and> samr_ok (sn_samr m) \<and> last_solved_offset_nanos m = last_solved_offset_nanos (snd x)) (enumerate 0 ?stored) nodes"
    by blast
  have len: "length nodes = length (net_nodes ?net)" using list_all2_lengthD [OF nodes(2)] by simp
  have rel: "kept_node (store_solved dt (mean_defect_nanos result) solver (net_nodes ?net ! i)) (nodes ! i) \<and> samr_ok (sn_samr (nodes ! i)) \<and>
      last_solved_offset_nanos (nodes ! i) = last_solved_offset_nanos (store_solved dt (mean_defect_nanos result) solver (net_nodes ?net ! i))"
    if "i < length nodes" for i
    using nodes(2) that len by (simp add: list_all2_conv_all_nth nth_enumerate_eq)
  have st: "kept_node (net_nodes ?net ! i) (store_solved dt (mean_defect_nanos result) solver (net_nodes ?net ! i)) \<and>
      is_i64 (last_solved_offset_nanos (store_solved dt (mean_defect_nanos result) solver (net_nodes ?net ! i)))" if "i < length nodes" for i
    using store_solved_kept [OF fr, of "net_nodes ?net ! i"] assms(1) that len by (simp add: sim_ok_def)
  have "sim_ok cfg (?net\<lparr>net_nodes := nodes\<rparr>)"
  proof (rule sim_ok_kept [OF assms(1)])
    show "list_all2 kept_node (net_nodes ?net) nodes"
      using rel st len by (auto simp: list_all2_conv_all_nth kept_node_def)
    show "\<forall>n \<in> set nodes. samr_ok (sn_samr n) \<and> is_i64 (last_solved_offset_nanos n)"
      using rel st by (auto simp: in_set_conv_nth)
  qed
  then show ?thesis using len fr
    by (simp add: sim_epoch_def Let_def ms so nodes(1) dt_def [symmetric] solve_boundary_def case_prod_beta) blast
qed

section \<open>The statistics are numbers\<close>

lemma of_usize_small: "0 < n \<Longrightarrow> n \<le> 2 ^ 53 \<Longrightarrow> of_usize n = Fin (of_nat n)"
proof -
  assume "0 < n" "n \<le> 2 ^ 53"
  then have "\<bar>int n\<bar> \<le> 2 ^ 53" by (simp add: nat_le_numeral_power_cancel_iff)
  from rnd_of_int [OF this] show ?thesis by (simp add: of_usize_def)
qed

lemma mean_bound:
  assumes "\<forall>x \<in> set xs. is_i64 x" "xs \<noteq> []" "length xs \<le> 900"
  shows "fbound 963 (fdiv (fsum (map of_i64 xs)) (of_usize (length xs)))"
proof (rule fbound_fdiv)
  have "fbound (63 + length (map of_i64 xs)) (fsum (map of_i64 xs))"
    using assms by (intro fbound_fsum) (auto simp: fbound_of_i64)
  then show "fbound 963 (fsum (map of_i64 xs))" using assms(3) by (auto intro: fbound_le)
  have "of_usize (length xs) = Fin (of_nat (length xs))" using assms by (intro of_usize_small) auto
  then show "is_finite (of_usize (length xs))" "1 \<le> nval (of_usize (length xs))" using assms(2) by (simp_all add: Suc_le_eq)
qed simp

lemma centred_errors_numbers:
  assumes "\<forall>(t, s) \<in> set pairs. is_i64 t \<and> is_i64 s" "length pairs \<le> 900" "e \<in> set (centred_errors pairs)"
  shows "is_finite e \<and> 0 \<le> nval e \<and> is_f64 e"
proof -
  let ?tm = "fdiv (fsum (map of_i64 (map fst pairs))) (of_usize (length (map fst pairs)))"
  let ?sm = "fdiv (fsum (map of_i64 (map snd pairs))) (of_usize (length (map snd pairs)))"
  obtain t s where ts: "(t, s) \<in> set pairs" "e = fdiv (fabs (fsub (fsub (of_i64 t) ?tm) (fsub (of_i64 s) ?sm))) (Fin 1000)"
    using assms(3) by (auto simp: centred_errors_def Let_def)
  have i: "is_i64 t" "is_i64 s" using assms(1) ts(1) by auto
  have "fbound 963 ?tm" "fbound 963 ?sm" 
    using assms(1,2) ts(1) by (intro mean_bound; fastforce)+
  moreover have "fbound 963 (of_i64 t)" "fbound 963 (of_i64 s)" using i by (auto intro: fbound_le fbound_of_i64)
  ultimately have "fbound 964 (fsub (of_i64 t) ?tm)" "fbound 964 (fsub (of_i64 s) ?sm)"
    using fbound_fsub [of 963] by auto
  then have "fbound 965 (fsub (fsub (of_i64 t) ?tm) (fsub (of_i64 s) ?sm))" using fbound_fsub [of 964] by auto
  then have a: "fbound 965 (fabs (fsub (fsub (of_i64 t) ?tm) (fsub (of_i64 s) ?sm)))" by (rule fbound_fabs)
  have "fbound 965 e" unfolding ts(2) using a by (intro fbound_fdiv) auto
  moreover have "0 \<le> nval e" unfolding ts(2) using a by (simp add: nval_fdiv fbound_def rnd_nonneg)
  ultimately show ?thesis by (simp add: fbound_def)
qed

lemma fsum_not_nan:
  assumes "\<forall>x \<in> set xs. is_finite x \<and> 0 \<le> nval x \<and> is_f64 x"
  shows "\<not> is_nan (fsum xs)"
proof -
  have "\<not> is_nan (foldl fadd a xs)" if "\<not> is_nan a" "a \<noteq> NInf" "0 \<le> nval a" for a
    using that assms
  proof (induction xs arbitrary: a)
    case (Cons x xs)
    have x: "is_finite x" "0 \<le> nval x" using Cons.prems(4) by auto
    have "\<not> is_nan (fadd a x) \<and> 0 \<le> nval (fadd a x)"
    proof (cases "a = PInf")
      case True
      then show ?thesis using x by (simp add: fadd_def f64_class)
    next
      case False
      then have "is_finite a" using Cons.prems(1,2) by (auto simp: f64_class)
      then show ?thesis using x Cons.prems(3) by (simp add: nan_fadd nval_fadd rnd_nonneg)
    qed
    moreover from this have "fadd a x \<noteq> NInf" by auto
    ultimately show ?case using Cons by simp
  qed simp
  then show ?thesis by (simp add: fsum_def)
qed

lemma mean_not_nan: "\<not> is_nan a \<Longrightarrow> 0 < n \<Longrightarrow> n \<le> 2 ^ 53 \<Longrightarrow> \<not> is_nan (fdiv a (of_usize n))"
  by (cases a) (auto simp: of_usize_small fdiv_def f64_class finf_def fzero_def rnd_def Let_def)

lemma sort_partial_total:
  assumes "\<forall>x \<in> set xs. \<not> is_nan (f x)"
  shows "\<exists>ys. sort_partial f xs = Ret ys \<and> set ys = set xs \<and> length ys = length xs"
  using assms by (auto simp: sort_partial_def)

lemma make_stats_total:
  assumes "\<forall>n \<in> set nodes. is_i64 (true_offset_nanos n)" "frames_ok solver" "length nodes \<le> 900"
  shows "\<exists>s. make_stats epoch nodes solver result defective = Ret s \<and> es_epoch s = epoch \<and> \<not> is_nan (mean_error_us s)"
proof -
  let ?p = "error_pairs nodes solver"
  have "is_i64 t \<and> is_i64 s" if ts: "(t, s) \<in> set ?p" for t s
  proof -
    obtain n f where "n \<in> set nodes" "hm_get (hs_nodes solver) (sn_id n) = Some f" "t = true_offset_nanos n" "s = cf_offset_nanos f"
      using ts by (auto simp: error_pairs_def map_filter_mem split: option.splits)
    then show ?thesis using assms(1,2) by (auto simp: frames_ok_def dest!: map_of_SomeD)
  qed
  then have "\<forall>(t, s) \<in> set ?p. is_i64 t \<and> is_i64 s" by blast
  moreover have "length ?p \<le> 900" using length_map_filter [of _ nodes] assms(3) by (auto simp: error_pairs_def intro: order_trans)
  ultimately have num: "is_finite e \<and> 0 \<le> nval e \<and> is_f64 e" if "e \<in> set (centred_errors ?p)" for e
    using centred_errors_numbers that by blast
  then obtain es where es: "sort_partial id (centred_errors ?p) = Ret es" "set es = set (centred_errors ?p)" "length es = length (centred_errors ?p)"
    using sort_partial_total [of "centred_errors ?p" id] by (auto simp: is_finite_def)
  have "length es \<le> 900" using es(3) \<open>length ?p \<le> 900\<close> by (simp add: centred_errors_def Let_def)
  moreover have "\<not> is_nan (fsum es)" using num es(2) by (intro fsum_not_nan) auto
  ultimately have "\<not> is_nan (fdiv (fsum es) (of_usize (max (length es) 1)))" by (intro mean_not_nan) auto
  then show ?thesis by (simp add: make_stats_def es(1))
qed

section \<open>The run\<close>

lemma sim_run_total:
  assumes "sim_ok cfg (sm_net st)" "num_nodes cfg \<le> 900" "\<And>e i j k. jds e i j k \<noteq> None"
  shows "\<exists>st' stats. sim_run blake3 wos cfg jds es st = Ret (st', stats) \<and> sim_ok cfg (sm_net st') \<and> map es_epoch stats = es \<and>
    (\<forall>s \<in> set stats. \<not> is_nan (mean_error_us s)) \<and>
    (\<exists>ms. length ms = length es \<and> mirrors (sm_boundary st') = mirrors (sm_boundary st) @ map fst ms \<and>
       sm_stream st' = emits blake3 (map (\<lambda>(m, c, eh). (fixed_point_nanos m, c, eh, None)) ms) (sm_stream st))"
  using assms(1)
proof (induction es arbitrary: st)
  case Nil
  then show ?case by (auto simp: emits_def intro!: exI [of _ "[]"])
next
  case (Cons e es)
  obtain st1 solver result defective m c eh where st1: "sim_epoch blake3 (wos e) cfg (jds e) e st = Ret (st1, solver, result, defective)"
    "sim_ok cfg (sm_net st1)" "frames_ok solver" "mirrors (sm_boundary st1) = mirrors (sm_boundary st) @ [m]"
    "sm_stream st1 = stream_emit blake3 (fixed_point_nanos m) c eh None (sm_stream st)"
    using sim_epoch_total [OF Cons.prems, of "jds e" blake3 "wos e" e] assms(3) by blast
  have net: "network_ok cfg (sm_net st1)" using st1(2) by (simp add: sim_ok_def)
  obtain s where s: "make_stats e (net_nodes (sm_net st1)) solver result defective = Ret s" "es_epoch s = e" "\<not> is_nan (mean_error_us s)"
    using make_stats_total [of "net_nodes (sm_net st1)" solver e result defective] network_okD(1,5) [OF net] st1(3) assms(2) by auto
  obtain st' stats ms where r: "sim_run blake3 wos cfg jds es st1 = Ret (st', stats)" "sim_ok cfg (sm_net st')" "map es_epoch stats = es"
    "\<forall>s \<in> set stats. \<not> is_nan (mean_error_us s)" "length ms = length es" "mirrors (sm_boundary st') = mirrors (sm_boundary st1) @ map fst ms"
    "sm_stream st' = emits blake3 (map (\<lambda>(m, c, eh). (fixed_point_nanos m, c, eh, None)) ms) (sm_stream st1)"
    using Cons.IH [OF st1(2)] by blast
  have "sm_stream st' = emits blake3 (map (\<lambda>(m, c, eh). (fixed_point_nanos m, c, eh, None)) ((m, c, eh) # ms)) (sm_stream st)"
    by (simp add: r(7) st1(5) emits_def)
  moreover have "mirrors (sm_boundary st') = mirrors (sm_boundary st) @ map fst ((m, c, eh) # ms)" by (simp add: r(6) st1(4))
  moreover have "sim_run blake3 wos cfg jds (e # es) st = Ret (st', s # stats)" by (simp add: st1(1) s(1) r(1))
  ultimately show ?case using r(2-5) s(2,3)
    by (intro exI [of _ st'] exI [of _ "s # stats"] conjI exI [of _ "(m, c, eh) # ms"]) auto
qed

lemma foldl_select_mem: "foldl (\<lambda>b s. if P s b then s else b) b xs \<in> insert b (set xs)"
proof (induction xs arbitrary: b)
  case (Cons x xs)
  show ?case using Cons [of "if P x b then x else b"] by (auto split: if_splits)
qed simp

lemma best_epoch_total:
  assumes "stats \<noteq> []" "\<forall>s \<in> set stats. \<not> is_nan (mean_error_us s)"
  shows "\<exists>s \<in> set stats. best_epoch stats = Ret s"
proof -
  let ?s = "foldl (\<lambda>b s. if flt (mean_error_us s) (mean_error_us b) then s else b) (hd stats) (tl stats)"
  have "?s \<in> insert (hd stats) (set (tl stats))" by (rule foldl_select_mem)
  then have "?s \<in> set stats" using assms(1) by (cases stats) auto
  then show ?thesis using assms by (auto simp: best_epoch_def)
qed

lemma initial_spread_total:
  assumes "nodes \<noteq> []" "\<forall>n \<in> set nodes. is_i64 (true_offset_nanos n)"
  shows "\<exists>x. initial_spread nodes = Ret x"
proof -
  have "\<not> is_nan (fdiv (of_i64 (true_offset_nanos n)) (Fin 1000000))" if "n \<in> set nodes" for n
    using assms(2) that by (intro nan_fdiv) auto
  then obtain offs where "sort_partial id (map (\<lambda>n. fdiv (of_i64 (true_offset_nanos n)) (Fin 1000000)) nodes) = Ret offs" "length offs = length nodes"
    using sort_partial_total [of "map (\<lambda>n. fdiv (of_i64 (true_offset_nanos n)) (Fin 1000000)) nodes" id] by auto
  then show ?thesis using assms(1) by (auto simp: initial_spread_def)
qed

lemma codes_total:
  assumes "\<forall>n \<in> set nodes. samr_ok (sn_samr n)"
  shows "\<exists>cs. traverse (crt_decode \<circ> sn_samr) nodes = Ret cs \<and> (\<forall>c \<in> set cs. unat c < 210)"
proof -
  have "\<exists>cs. traverse (crt_decode \<circ> sn_samr) nodes = Ret cs \<and> list_all2 (\<lambda>_ c. unat c < 210) nodes cs"
    using assms samr_code_bound by (intro traverse_total) auto
  then show ?thesis by (auto simp: list_all2_conv_all_nth in_set_conv_nth)
qed

lemma unique_codes:
  assumes "\<forall>c \<in> set (cs :: u64 list). unat c < 210"
  shows "length (remdups (sort cs)) \<le> 210"
proof -
  have "unat ` set cs \<subseteq> {..<210}" using assms by auto
  then have "card (unat ` set cs) \<le> 210" using card_mono [of "{..<210 :: nat}"] by fastforce
  moreover have "card (unat ` set cs) = card (set cs)" by (intro card_image inj_onI) (simp add: unsigned_word_eqI)
  ultimately show ?thesis by (simp add: length_remdups_card_conv)
qed

lemma report_total:
  assumes "sim_ok cfg (sm_net st)" "num_nodes cfg \<le> 900" "stats \<noteq> []" "\<forall>s \<in> set stats. \<not> is_nan (mean_error_us s)"
  shows "\<exists>rep. sim_report_of blake3 spread conn st stats = Ret rep \<and> rp_unique_samr rep \<le> 210 \<and> rp_converged_count rep \<le> length stats \<and>
    rp_best_epoch rep \<in> es_epoch ` set stats \<and> length (rp_worst_nodes rep) = min 10 (num_nodes cfg) \<and>
    rp_chain_valid rep = verify_all blake3 (sm_stream st) \<and> rp_chain_len rep = length (sm_stream st)"
proof -
  let ?nodes = "net_nodes (sm_net st)"
  let ?errs = "enumerate 0 (centred_errors (map (\<lambda>n. (true_offset_nanos n, last_solved_offset_nanos n)) ?nodes))"
  have net: "network_ok cfg (sm_net st)" "\<forall>n \<in> set ?nodes. is_i64 (last_solved_offset_nanos n)" using assms(1) by (simp_all add: sim_ok_def)
  note n = network_okD [OF net(1)]
  obtain cs where cs: "traverse (crt_decode \<circ> sn_samr) ?nodes = Ret cs" "\<forall>c \<in> set cs. unat c < 210"
    using codes_total [of ?nodes] n(5) by blast
  obtain s where s: "s \<in> set stats" "best_epoch stats = Ret s" using best_epoch_total [OF assms(3,4)] by blast
  have "is_finite e \<and> 0 \<le> nval e \<and> is_f64 e" if "e \<in> set (centred_errors (map (\<lambda>n. (true_offset_nanos n, last_solved_offset_nanos n)) ?nodes))" for e
    using that n(1,5) net(2) assms(2) by (intro centred_errors_numbers) auto
  then have "\<forall>x \<in> set ?errs. \<not> is_nan ((fneg \<circ> snd) x)"
    by (auto simp: in_set_enumerate_eq is_finite_def dest!: nth_mem)
  from sort_partial_total [OF this] obtain es where es: "sort_partial (fneg \<circ> snd) ?errs = Ret es" "length es = length ?errs" by blast
  have "length es = num_nodes cfg" using es(2) n(1) by (simp add: centred_errors_def Let_def)
  then show ?thesis using assms(3) unique_codes [OF cs(2)] s(1)
    by (simp add: sim_report_of_def node_errors_def Let_def cs(1) s(2) es(1) stream_len_def min.commute)
qed

section \<open>The whole simulation\<close>

lemma length_emits: "length (emits blake3 xs s) = length s + length xs"
  by (induction xs arbitrary: s) (auto simp: emits_def stream_emit_def Let_def)

text \<open>
  (C10) The simulation always reaches its report. For any draws in their ranges, any jitter and any orders in which the maps are walked, with 1 to
  900 nodes and at least one epoch, no index, no \<open>unwrap\<close> of a comparison (which a NaN would fail) and
  no channel assertion panics, whatever the wrong measurements above do to the solver; the report
  counts one tick per epoch after the genesis, at most 210 residue codes, a best epoch among those run,
  and the chain of ticks is valid as long as no fixed point comes within the number of epochs of the
  end of \<open>u64\<close>.
\<close>

theorem sim_main_total:
  assumes "draws_ok dr" "config_ok cfg" "1 \<le> num_nodes cfg" "num_nodes cfg \<le> 900" "1 \<le> num_epochs cfg" "num_epochs cfg < 2 ^ 63"
    and "\<And>e i j k. jds e i j k \<noteq> None"
  shows "\<exists>net st stats rep. build_network cfg dr = Ret net \<and> sim_run blake3 wos cfg jds [0 ..< num_epochs cfg] (sim_start net) = Ret (st, stats) \<and>
    sim_main blake3 wos cfg dr jds = Ret rep \<and> rp_chain_len rep = num_epochs cfg + 1 \<and> rp_unique_samr rep \<le> 210 \<and>
    rp_best_epoch rep < num_epochs cfg \<and> rp_converged_count rep \<le> num_epochs cfg \<and> length (rp_worst_nodes rep) = min 10 (num_nodes cfg) \<and>
    ((\<forall>m \<in> set (mirrors (sm_boundary st)). unat (fixed_point_nanos m) + num_epochs cfg < 2 ^ 64) \<longrightarrow> rp_chain_valid rep)"
proof -
  obtain net where net: "build_network cfg dr = Ret net" "network_ok cfg net" "\<forall>n \<in> set (net_nodes net). last_solved_offset_nanos n = 0"
    using build_network_facts [OF assms(1,2)] by blast
  note n = network_okD [OF net(2)]
  have ok: "sim_ok cfg (sm_net (sim_start net))" using net by (simp add: sim_ok_def sim_start_def)
  have "net_nodes net \<noteq> []" using n(1) assms(3) by auto
  then obtain spread where spread: "initial_spread (net_nodes net) = Ret spread" using initial_spread_total n(5) by blast
  obtain conn where conn: "peer_connectivity (net_nodes net) = Ret conn"
    using \<open>net_nodes net \<noteq> []\<close> by (auto simp: peer_connectivity_def Let_def)
  obtain st stats ms where r: "sim_run blake3 wos cfg jds [0 ..< num_epochs cfg] (sim_start net) = Ret (st, stats)" "sim_ok cfg (sm_net st)"
    "map es_epoch stats = [0 ..< num_epochs cfg]" "\<forall>s \<in> set stats. \<not> is_nan (mean_error_us s)" "length ms = num_epochs cfg"
    "mirrors (sm_boundary st) = map fst ms"
    "sm_stream st = emits blake3 (map (\<lambda>(m, c, eh). (fixed_point_nanos m, c, eh, None)) ms) clock_stream_new"
    using sim_run_total [OF ok assms(4), of jds blake3 wos "[0 ..< num_epochs cfg]"] assms(7) by (auto simp: sim_start_def ebs_new_def)
  have ls: "length stats = num_epochs cfg" using arg_cong [OF r(3), of length] by simp
  then have "stats \<noteq> []" using assms(5) by auto
  from report_total [OF r(2) assms(4) this r(4), of blake3 spread conn] obtain rep where rep: "sim_report_of blake3 spread conn st stats = Ret rep"
    "rp_unique_samr rep \<le> 210" "rp_converged_count rep \<le> length stats" "rp_best_epoch rep \<in> es_epoch ` set stats"
    "length (rp_worst_nodes rep) = min 10 (num_nodes cfg)" "rp_chain_valid rep = verify_all blake3 (sm_stream st)" "rp_chain_len rep = length (sm_stream st)" by blast
  have "es_epoch ` set stats = {0 ..< num_epochs cfg}" using arg_cong [OF r(3), of set] by simp
  then have best: "rp_best_epoch rep < num_epochs cfg" using rep(4) by auto
  have len: "length (sm_stream st) = num_epochs cfg + 1" using r(5) by (simp add: r(7) length_emits clock_stream_new_def)
  have valid: "verify_all blake3 (sm_stream st)" if "\<forall>m \<in> set (mirrors (sm_boundary st)). unat (fixed_point_nanos m) + num_epochs cfg < 2 ^ 64"
  proof -
    have "stream_ok blake3 (emits blake3 (map (\<lambda>(m, c, eh). (fixed_point_nanos m, c, eh, None)) ms) clock_stream_new)"
      using that assms(6) r(5,6) emits_ok [OF stream_new_ok, of "map (\<lambda>(m, c, eh). (fixed_point_nanos m, c, eh, None)) ms" blake3]
      by (fastforce simp: clock_stream_new_def genesis_def delay_ok_def)
    then show ?thesis by (simp add: r(7) stream_ok_def)
  qed
  have "sim_main blake3 wos cfg dr jds = Ret rep"
    using r(1) by (simp add: sim_main_def net(1) spread conn rep(1))
  with net(1) r(1) rep best len valid ls show ?thesis
    by (intro exI [of _ net] exI [of _ st] exI [of _ stats] exI [of _ rep]) simp
qed

theorem sim_main_total_witness:
  "\<exists>rep. sim_main w_hash (\<lambda>_. \<lparr>wo_best = rev, wo_nodes = rev\<rparr>) sim_config_default w_draws (\<lambda>_ _ _ _. Some (Fin 0, Fin 0)) = Ret rep \<and> rp_chain_len rep = 21"
  using sim_main_total [of w_draws sim_config_default "\<lambda>_ _ _ _. Some (Fin 0, Fin 0)" w_hash "\<lambda>_. \<lparr>wo_best = rev, wo_nodes = rev\<rparr>"] default_ok
  by (auto simp: draws_ok_def w_draws_def sim_config_default_def)

end
