(* ===== verification/GeoidSim.thy ===== *)
theory GeoidSim
  imports Fmt Geoid Twist Clock
begin

text \<open>
  \<open>rtfsn-sim/src/geoid_sim.rs\<close>: the simulation of the geoid over epochs, thirty nodes in three regions,
  with its own measure of how much the structure changed. The samples of the normal distribution and the
  seeds of the blinding are arguments.
\<close>

section \<open>The world\<close>

definition NODES_PER_REGION :: nat where "NODES_PER_REGION = 10"
definition NUM_EPOCHS :: nat where "NUM_EPOCHS = 8"
definition GEOID_LEVELS :: u8 where "GEOID_LEVELS = 4"

definition REGION_CENTROIDS :: "f64 list list" where
  "REGION_CENTROIDS = [[flit (1 / 1000), Fin 0], [flit (1 / 100), Fin 0], [flit (5 / 100), flit (1 / 100)]]"

definition make_node_id :: "u8 \<Rightarrow> u8 \<Rightarrow> node_id" where
  "make_node_id region idx = NodeId ((replicate 32 0)[0 := region, 1 := idx])"

definition make_coords :: "f64 list \<Rightarrow> (nat \<Rightarrow> f64) option \<Rightarrow> coordinates outcome" where
  "make_coords center samples = (case samples of None \<Rightarrow> Panic | Some s \<Rightarrow>
     Ret \<lparr>dims = fadd (center ! 0) (s 0) # fadd (center ! 1) (s 1) #
       map (\<lambda>d. fmul (s d) (flit (1 / 10))) [2 ..< COORDINATE_DIMENSIONS]\<rparr>)"

definition make_beacon :: "hash \<Rightarrow> hash \<Rightarrow> ('s::comm_ring_1, 'p::ab_group_add) ristretto \<Rightarrow> seeds \<Rightarrow> node_id \<Rightarrow> epoch \<Rightarrow> coordinates \<Rightarrow> f64 \<Rightarrow> nat \<Rightarrow>
    layer1_beacon \<times> nat" where
  "make_beacon sha512 blake3 R rng i e pos off k =
     (let secret = blinding_secret_new R (rng k) i e
      in (\<lparr>b_blinded_id = blind sha512 R secret, b_epoch = e, b_coordinates = \<lparr>position = pos, co_error = flit (1 / 100)\<rparr>,
           b_clock_offset = off, b_clock_drift = Fin 0, b_uncertainty = flit (1 / 1000), b_peer_count = 5,
           b_consistency_score = flit (95 / 100),
           b_proof_of_identity = prove_knowledge sha512 blake3 R (rng (k + 1)) (rng (k + 2)) secret,
           b_proof_of_peer_count = None, b_geoid_coord = None\<rparr>, k + 3))"

definition region_centroid :: "nat \<Rightarrow> coordinates" where
  "region_centroid region = \<lparr>dims = [REGION_CENTROIDS ! region ! 0, REGION_CENTROIDS ! region ! 1] @ replicate (COORDINATE_DIMENSIONS - 2) (Fin 0)\<rparr>"

definition dist_ms :: "coordinates \<Rightarrow> coordinates \<Rightarrow> f64" where
  "dist_ms a b = fmul (coords_distance a b) (Fin 1000)"

definition bytes_to_hex :: "bytes \<Rightarrow> string" where
  "bytes_to_hex bs = hex_bytes bs"

section \<open>Structural change\<close>

record geoid_snapshot = snap_levels :: "(f64 \<times> f64 \<times> u32) list list"

definition from_geoid :: "network_geoid \<Rightarrow> geoid_snapshot" where
  "from_geoid g = \<lparr>snap_levels = map (\<lambda>l. map (\<lambda>r. (fmul (dims (gr_centroid r) ! 0) (Fin 1000),
     fmul (dims (gr_centroid r) ! 1) (Fin 1000), gr_member_count r)) (gl_regions l)) (ng_layers g)\<rparr>"

definition centroid_move :: "f64 \<times> f64 \<times> u32 \<Rightarrow> f64 \<times> f64 \<times> u32 \<Rightarrow> f64" where
  "centroid_move c p = fsqrt (fadd (fsq (fsub (fst c) (fst p))) (fsq (fsub (fst (snd c)) (fst (snd p)))))"

definition nearest_move :: "f64 \<times> f64 \<times> u32 \<Rightarrow> (f64 \<times> f64 \<times> u32) list \<Rightarrow> f64" where
  "nearest_move c prev_level = foldl fmin f64_MAX (map (centroid_move c) prev_level)"

definition level_moves :: "(f64 \<times> f64 \<times> u32) list \<Rightarrow> (f64 \<times> f64 \<times> u32) list \<Rightarrow> f64 \<times> nat \<Rightarrow> f64 \<times> nat" where
  "level_moves cur prev acc =
     (if length cur \<noteq> length prev
      then (fadd (fst acc) (of_usize (max (length cur) (length prev))), snd acc + max (length cur) (length prev))
      else foldl (\<lambda>(total, count) c. (fadd total (nearest_move c prev), count + 1)) acc cur)"

definition snapshot_delta :: "geoid_snapshot \<Rightarrow> geoid_snapshot \<Rightarrow> f64" where
  "snapshot_delta s prev =
     (if length (snap_levels s) \<noteq> length (snap_levels prev) then Fin 1
      else case foldl (\<lambda>acc (cur, pre). level_moves cur pre acc) (Fin 0, 0) (zip (snap_levels s) (snap_levels prev)) of
        (total_move, total_count) \<Rightarrow>
          if total_count = 0 then Fin 0
          else fmin (fdiv (fdiv total_move (of_usize total_count)) (Fin 20)) (Fin 1))"

section \<open>The epochs\<close>

definition node_regions :: "nat list" where
  "node_regions = concat (map (replicate NODES_PER_REGION) [0, 1, 2])"

definition node_positions :: "(nat \<Rightarrow> (nat \<Rightarrow> f64) option) \<Rightarrow> (nat \<times> coordinates) list outcome" where
  "node_positions samples = foldr (\<lambda>(i, r) rest. obind (make_coords (REGION_CENTROIDS ! r) (samples i))
     (\<lambda>pos. obind rest (\<lambda>ps. Ret ((r, pos) # ps)))) (enumerate 0 node_regions) (Ret [])"

record geoid_sim =
  gs_circulation :: circulation_manager
  gs_prev_snapshot :: geoid_snapshot
  gs_seed :: nat

record geoid_epoch_row =
  ge_level_counts :: "nat list"
  ge_delta :: f64
  ge_hints :: nat
  ge_schedule :: u32
  ge_converged :: bool

definition epoch_beacons :: "hash \<Rightarrow> hash \<Rightarrow> ('s::comm_ring_1, 'p::ab_group_add) ristretto \<Rightarrow> seeds \<Rightarrow> (nat \<times> coordinates) list \<Rightarrow> epoch \<Rightarrow> nat \<Rightarrow>
    layer1_beacon list \<times> nat" where
  "epoch_beacons sha512 blake3 R rng ps e k = draw_map (\<lambda>(i, (r, pos)).
     make_beacon sha512 blake3 R rng (make_node_id (of_nat r) (of_nat i)) e pos (fmul (dims pos ! 0) (flit (1 / 1000)))) (enumerate 0 ps) k"

definition geoid_epoch :: "hash \<Rightarrow> hash \<Rightarrow> ('s::comm_ring_1, 'p::ab_group_add) ristretto \<Rightarrow> seeds \<Rightarrow> (nat \<times> coordinates) list \<Rightarrow>
    geoid_sim \<Rightarrow> nat \<Rightarrow> geoid_sim \<times> geoid_epoch_row" where
  "geoid_epoch sha512 blake3 R rng ps st epoch_num =
     (let e = Epoch (of_nat epoch_num);
          (beacons, k1) = epoch_beacons sha512 blake3 R rng ps e (gs_seed st);
          (circulation, k2) = process_upward sha512 blake3 R rng beacons e k1 (gs_circulation st);
          snap = from_geoid (cm_geoid circulation);
          delta = snapshot_delta snap (gs_prev_snapshot st);
          hints = generate_hints circulation (snd (ps ! 0))
      in (\<lparr>gs_circulation = circulation, gs_prev_snapshot = snap, gs_seed = k2\<rparr>,
          \<lparr>ge_level_counts = map (\<lambda>l. case nth_opt (ng_layers (cm_geoid circulation)) l of None \<Rightarrow> 0 | Some layer \<Rightarrow> length (gl_regions layer))
             [0 ..< unat GEOID_LEVELS],
           ge_delta = delta, ge_hints = length hints, ge_schedule = total_measurements (apply_hints hints),
           ge_converged = flt delta (flit (1 / 100))\<rparr>))"

definition geoid_sim_start :: "nat \<Rightarrow> geoid_sim" where
  "geoid_sim_start k = (let c = circulation_with_levels (Epoch 0) GEOID_LEVELS
     in \<lparr>gs_circulation = c, gs_prev_snapshot = from_geoid (cm_geoid c), gs_seed = k\<rparr>)"

fun geoid_epochs :: "hash \<Rightarrow> hash \<Rightarrow> ('s::comm_ring_1, 'p::ab_group_add) ristretto \<Rightarrow> seeds \<Rightarrow> (nat \<times> coordinates) list \<Rightarrow>
    nat list \<Rightarrow> geoid_sim \<Rightarrow> geoid_sim \<times> geoid_epoch_row list" where
  "geoid_epochs sha512 blake3 R rng ps [] st = (st, [])"
| "geoid_epochs sha512 blake3 R rng ps (e # es) st =
     (let (st1, row) = geoid_epoch sha512 blake3 R rng ps st e; (st2, rows) = geoid_epochs sha512 blake3 R rng ps es st1
      in (st2, row # rows))"

definition final_delta :: "geoid_sim \<Rightarrow> f64" where
  "final_delta st = snapshot_delta (from_geoid (cm_geoid (gs_circulation st))) (gs_prev_snapshot st)"

text \<open>The boundary node between the first two regions, and what it is asked to measure.\<close>

definition boundary_pos :: coordinates where
  "boundary_pos = \<lparr>dims = fdiv (fadd (REGION_CENTROIDS ! 0 ! 0) (REGION_CENTROIDS ! 1 ! 0)) (Fin 2) # replicate (COORDINATE_DIMENSIONS - 1) (Fin 0)\<rparr>"

definition boundary_schedule :: "circulation_manager \<Rightarrow> nat \<times> u32" where
  "boundary_schedule c = (let hints = generate_hints c boundary_pos in (length hints, total_measurements (apply_hints hints)))"

section \<open>The latency profiles\<close>

text \<open>Three samples per exchange: of the round trip, the offset and the asymmetry.\<close>

definition sim_twist :: "f64 \<Rightarrow> f64 \<Rightarrow> u32 \<Rightarrow> u64 \<Rightarrow> f64 \<times> f64 \<times> f64 \<Rightarrow> twist_index" where
  "sim_twist rtt_true drift q ep s = \<lparr>rtt_nanos = f64_as_u64 (fadd (fadd rtt_true drift) (fabs (fst s))),
     tw_offset_nanos = f64_as_i64 (fmul (fst (snd s)) (flit (5 / 100))),
     asymmetry_nanos = f64_as_i64 (fmul (snd (snd s)) (flit (2 / 100))), quality = q, epoch_measured = ep\<rparr>"

definition profile_lut :: "f64 \<Rightarrow> f64 \<Rightarrow> (u64 \<Rightarrow> nat \<Rightarrow> (f64 \<times> f64 \<times> f64) \<times> (f64 \<times> f64 \<times> f64)) \<Rightarrow> twist_lut" where
  "profile_lut rtt_ab rtt_ac s = foldl (\<lambda>lut (ep, i).
       let ac_drift = fmul (of_u64 (ep - 1)) (Fin 5000)
       in lut_insert (make_node_id 0 0) (make_node_id 2 0) (sim_twist rtt_ac ac_drift 88 ep (snd (s ep i)))
            (lut_insert (make_node_id 0 0) (make_node_id 1 0) (sim_twist rtt_ab (Fin 0) 95 ep (fst (s ep i))) lut))
     lut_new (concat (map (\<lambda>ep. map (Pair (of_nat ep)) [0 ..< 5]) [1 ..< NUM_EPOCHS + 1]))"

section \<open>Properties\<close>

lemma nval_fsqrt_ge: "0 \<le> nval (fsqrt x)"
proof (cases "is_nan x \<or> is_zero x \<or> x = PInf \<or> is_neg x")
  case True
  then show ?thesis by (auto simp: fsqrt_def f64_class)
next
  case False
  have "0 \<le> sqrt_even z" for z by (simp add: sqrt_even_def Let_def)
  then show ?thesis using False by (simp add: fsqrt_def Let_def)
qed

text \<open>Never NaN, never negative.\<close>

definition amount :: "f64 \<Rightarrow> bool" where
  "amount x \<longleftrightarrow> \<not> is_nan x \<and> 0 \<le> nval x"

lemma amount_not_NInf: "amount x \<Longrightarrow> x \<noteq> NInf"
  by (auto simp: amount_def)

lemma amount_fadd: "amount a \<Longrightarrow> amount b \<Longrightarrow> amount (fadd a b)"
proof -
  assume ab: "amount a" "amount b"
  consider "a = PInf \<or> b = PInf" | "is_finite a" "is_finite b"
    using ab amount_not_NInf [OF ab(1)] amount_not_NInf [OF ab(2)] by (auto simp: amount_def f64_class)
  then show ?thesis
  proof cases
    case 1
    then show ?thesis using ab by (cases a; cases b) (auto simp: amount_def fadd_def f64_class)
  next
    case 2
    then show ?thesis using ab by (simp add: amount_def nan_fadd nval_fadd rnd_nonneg)
  qed
qed

lemma amount_fdiv: "amount a \<Longrightarrow> 0 < r \<Longrightarrow> amount (fdiv a (Fin r))"
proof -
  assume a: "amount a" "0 < r"
  show ?thesis
  proof (cases "is_finite a")
    case True
    then show ?thesis using a by (simp add: amount_def nan_fdiv nval_fdiv rnd_nonneg)
  next
    case False
    then have "a = PInf" using a(1) amount_not_NInf by (auto simp: amount_def f64_class)
    then show ?thesis using a(2) by (simp add: amount_def fdiv_def f64_class finf_def)
  qed
qed

lemma amount_fmin: "amount a \<Longrightarrow> 0 \<le> nval b \<Longrightarrow> amount (fmin a b)"
  by (auto simp: amount_def fmin_def)

lemma f64_MAX_pos: "0 < nval f64_MAX"
  by (simp add: f64_MAX_def power_int_minus)

lemma amount_nearest: "amount (nearest_move c ps)"
proof -
  have "amount (foldl fmin a (map (centroid_move c) ps))" if "amount a" for a
    using that by (induction ps arbitrary: a) (simp_all add: amount_fmin centroid_move_def nval_fsqrt_ge)
  moreover have "amount f64_MAX" using f64_MAX_pos by (simp add: amount_def f64_MAX_def)
  ultimately show ?thesis by (simp add: nearest_move_def)
qed

lemma amount_of_usize: "amount (of_usize n)"
  by (simp add: amount_def of_usize_def nval_rnd rnd_nonneg)

lemma amount_level_moves: "amount (fst acc) \<Longrightarrow> amount (fst (level_moves cur prev acc))"
proof -
  assume a: "amount (fst acc)"
  have "amount (fst (foldl (\<lambda>(total, count) c. (fadd total (nearest_move c prev), count + 1)) acc cur))"
    using a by (induction cur arbitrary: acc) (auto simp: amount_fadd amount_nearest case_prod_unfold)
  then show ?thesis using a by (auto simp: level_moves_def amount_fadd amount_of_usize)
qed

lemma of_usize_class: "0 < n \<Longrightarrow> n < 2 ^ 64 \<Longrightarrow> is_finite (of_usize n) \<and> 1 \<le> nval (of_usize n)"
proof
  assume n: "0 < n" "n < 2 ^ 64"
  then have "\<bar>int n\<bar> \<le> 2 ^ 64" by (simp add: nat_less_numeral_power_cancel_iff less_imp_le)
  from finite_of_int_64 [OF this] show "is_finite (of_usize n)" by (simp add: of_usize_def)
  have "nval (Fin 1) \<le> nclamp (rr (of_nat n))" using n(1) by (intro rnd_ge) (simp_all add: Suc_le_eq)
  then show "1 \<le> nval (of_usize n)" by (simp add: of_usize_def nval_rnd)
qed

lemma level_moves_count: "snd (level_moves cur prev acc) \<le> snd acc + length cur + length prev"
proof -
  have "snd (foldl (\<lambda>(total, count) c. (fadd total (nearest_move c prev), count + 1)) acc cur) = snd acc + length cur"
    by (induction cur arbitrary: acc) (auto simp: case_prod_unfold)
  then show ?thesis by (auto simp: level_moves_def)
qed

lemma moves_ok:
  "amount (fst acc) \<Longrightarrow>
   let r = foldl (\<lambda>acc (cur, pre). level_moves cur pre acc) acc ls
   in amount (fst r) \<and> snd r \<le> snd acc + sum_list (map (length \<circ> fst) ls) + sum_list (map (length \<circ> snd) ls)"
proof (induction ls arbitrary: acc)
  case (Cons l ls)
  obtain cur pre where l: "l = (cur, pre)" by (cases l)
  show ?case using Cons.IH [OF amount_level_moves [OF Cons.prems], of cur pre] level_moves_count [of cur pre acc]
    by (simp add: l Let_def)
qed simp

lemma zip_lengths: "sum_list (map (length \<circ> fst) (zip xs ys)) + sum_list (map (length \<circ> snd) (zip xs ys)) \<le> sum_list (map length xs) + sum_list (map length ys)"
proof (induction xs arbitrary: ys)
  case (Cons x xs)
  show ?case
  proof (cases ys)
    case (Cons y zs)
    then show ?thesis using Cons.IH [of zs] by simp
  qed simp
qed simp

text \<open>The change is always a number from 0 to 1, whatever the coordinates.\<close>

theorem snapshot_delta_unit:
  assumes "sum_list (map length (snap_levels s)) + sum_list (map length (snap_levels p)) < 2 ^ 64"
  shows "\<not> is_nan (snapshot_delta s p) \<and> 0 \<le> nval (snapshot_delta s p) \<and> nval (snapshot_delta s p) \<le> 1"
proof -
  obtain total count where r: "foldl (\<lambda>acc (cur, pre). level_moves cur pre acc) (Fin 0, 0) (zip (snap_levels s) (snap_levels p)) = (total, count)"
    by fastforce
  have a: "amount total" "count < 2 ^ 64"
    using moves_ok [of "(Fin 0, 0)" "zip (snap_levels s) (snap_levels p)"] zip_lengths [of "snap_levels s" "snap_levels p"] assms
    by (simp_all add: r Let_def amount_def)
  have "amount (fdiv total (of_usize count))" if "0 < count"
  proof -
    have f: "is_finite (of_usize count)" "1 \<le> nval (of_usize count)" using of_usize_class [OF that a(2)] by simp_all
    then obtain q where "of_usize count = Fin q" "0 < q" by (cases "of_usize count") auto
    then show ?thesis using amount_fdiv [OF a(1)] by simp
  qed
  then have "amount (fdiv (fdiv total (of_usize count)) (Fin 20))" if "0 < count" using that by (intro amount_fdiv) auto
  then show ?thesis by (auto simp: snapshot_delta_def r amount_def fmin_def)
qed

definition finite_snapshot :: "geoid_snapshot \<Rightarrow> bool" where
  "finite_snapshot s \<longleftrightarrow> (\<forall>level \<in> set (snap_levels s). \<forall>c \<in> set level. is_finite (fst c) \<and> is_finite (fst (snd c)))"

lemma is_zero_fsub_self: "is_finite a \<Longrightarrow> is_zero (fsub a a)"
  by (cases a) (auto simp: fsub_def fadd_def fneg_def f64_class fzero_def)

lemma centroid_move_self: "is_finite (fst c) \<Longrightarrow> is_finite (fst (snd c)) \<Longrightarrow> is_zero (centroid_move c c)"
proof -
  assume f: "is_finite (fst c)" "is_finite (fst (snd c))"
  have z: "is_zero (fsq x)" if "is_zero x" for x using that by (auto simp: fsq_def is_zero_def fmul_def f64_class fzero_def)
  have "is_zero (fadd (fsq (fsub (fst c) (fst c))) (fsq (fsub (fst (snd c)) (fst (snd c)))))"
    by (intro is_zero_fadd z is_zero_fsub_self f)
  then show ?thesis by (simp add: centroid_move_def fsqrt_def)
qed

lemma fmin_zero:
  assumes "amount a" "\<forall>x \<in> set xs. 0 \<le> nval x" "is_zero a \<or> (\<exists>x \<in> set xs. is_zero x)"
  shows "is_zero (foldl fmin a xs)"
  using assms
proof (induction xs arbitrary: a)
  case (Cons x xs)
  have "is_zero (fmin a x)" if "is_zero a \<or> is_zero x"
    using that Cons.prems(1,2) by (cases a; cases x) (auto simp: fmin_def is_zero_def amount_def f64_class)
  then show ?case using Cons.IH [of "fmin a x"] Cons.prems amount_fmin by auto
qed simp

lemma nearest_self: "c \<in> set level \<Longrightarrow> is_finite (fst c) \<Longrightarrow> is_finite (fst (snd c)) \<Longrightarrow> is_zero (nearest_move c level)"
  unfolding nearest_move_def using f64_MAX_pos centroid_move_self [of c]
  by (intro fmin_zero) (auto simp: amount_def f64_MAX_def centroid_move_def nval_fsqrt_ge)

lemma level_moves_self:
  assumes "\<forall>c \<in> set level. is_finite (fst c) \<and> is_finite (fst (snd c))" "is_zero (fst acc)"
  shows "is_zero (fst (level_moves level level acc))"
proof -
  have "is_zero (fst (foldl (\<lambda>(total, count) c. (fadd total (nearest_move c level), count + 1)) acc cur))"
    if "set cur \<subseteq> set level" "is_zero (fst acc)" for cur and acc :: "f64 \<times> nat"
    using that by (induction cur arbitrary: acc) (auto simp: case_prod_unfold is_zero_fadd nearest_self assms(1))
  then show ?thesis using assms(2) by (simp add: level_moves_def)
qed

lemma is_zero_fdiv: "is_zero a \<Longrightarrow> \<not> is_nan b \<Longrightarrow> \<not> is_zero b \<Longrightarrow> is_zero (fdiv a b)"
  by (auto simp: fdiv_def is_zero_def f64_class fzero_def)

lemma snapshot_delta_self:
  assumes "finite_snapshot s"
  shows "is_zero (snapshot_delta s s)"
proof -
  have "is_zero (fst (foldl (\<lambda>acc (cur, pre). level_moves cur pre acc) acc (zip ls ls)))"
    if "\<forall>level \<in> set ls. \<forall>c \<in> set level. is_finite (fst c) \<and> is_finite (fst (snd c))" "is_zero (fst acc)" for ls and acc :: "f64 \<times> nat"
    using that
  proof (induction ls arbitrary: acc)
    case (Cons l ls)
    then show ?case using level_moves_self [of l acc] by auto
  qed simp
  from this [of "snap_levels s" "(Fin 0, 0)"] obtain total count where
    r: "foldl (\<lambda>acc (cur, pre). level_moves cur pre acc) (Fin 0, 0) (zip (snap_levels s) (snap_levels s)) = (total, count)" "is_zero total"
    using assms by (cases "foldl (\<lambda>acc (cur, pre). level_moves cur pre acc) (Fin 0, 0) (zip (snap_levels s) (snap_levels s))")
      (auto simp: finite_snapshot_def is_zero_def)
  have nz: "\<not> is_zero (of_usize count)" if "0 < count"
  proof -
    have "nval (Fin 1) \<le> nclamp (rr (of_nat count))" using that by (intro rnd_ge) (simp_all add: Suc_le_eq)
    then have "1 \<le> nval (of_usize count)" by (simp add: of_usize_def nval_rnd)
    then show ?thesis by (auto simp: is_zero_def)
  qed
  have "is_zero (fdiv (fdiv total (of_usize count)) (Fin 20))" if "0 < count"
    using nz [OF that] r(2) by (intro is_zero_fdiv) (auto simp: of_usize_def is_zero_def)
  then have "is_zero (fmin (fdiv (fdiv total (of_usize count)) (Fin 20)) (Fin 1))" if "0 < count"
    using that by (auto simp: fmin_def is_zero_def f64_class)
  then show ?thesis by (cases "count = 0") (auto simp: snapshot_delta_def r(1) is_zero_def)
qed

lemma geoid_epochs_snapshot:
  assumes "gs_prev_snapshot st = from_geoid (cm_geoid (gs_circulation st))" "geoid_epochs sha512 blake3 R rng ps es st = (st', rows)"
  shows "gs_prev_snapshot st' = from_geoid (cm_geoid (gs_circulation st')) \<and> length rows = length es"
  using assms
proof (induction es arbitrary: st rows)
  case (Cons e es)
  obtain st1 row where s: "geoid_epoch sha512 blake3 R rng ps st e = (st1, row)" by fastforce
  then have "gs_prev_snapshot st1 = from_geoid (cm_geoid (gs_circulation st1))"
    by (auto simp: geoid_epoch_def Let_def case_prod_unfold)
  moreover obtain st2 rows2 where "geoid_epochs sha512 blake3 R rng ps es st1 = (st2, rows2)" by fastforce
  ultimately show ?case using Cons.IH [of st1 rows2] Cons.prems(2) s by auto
qed simp

text \<open>
  The change reported at the end of the simulation is always zero. The last epoch stores the snapshot of the
  geoid it built as the previous one, and the report then compares the same geoid with it: whatever
  happened in the run, the "convergence delta" printed is 0 and the verdict is "(stable)", while a row
  is still printed for every epoch.
\<close>

theorem final_delta_zero:
  assumes "geoid_epochs sha512 blake3 R rng ps es (geoid_sim_start k) = (st, rows)"
    and "finite_snapshot (from_geoid (cm_geoid (gs_circulation st)))"
  shows "is_zero (final_delta st) \<and> flt (final_delta st) (flit (1 / 100)) \<and> length rows = length es"
proof -
  have s: "gs_prev_snapshot st = from_geoid (cm_geoid (gs_circulation st))" "length rows = length es"
    using geoid_epochs_snapshot [OF _ assms(1)] by (simp_all add: geoid_sim_start_def Let_def)
  then have z: "is_zero (final_delta st)" using snapshot_delta_self [OF assms(2)] by (simp add: final_delta_def)
  have "0 < nval (flit (1 / 100))"
  proof -
    have "nval (Fin (2 powi - 10)) \<le> nclamp (rr (1 / 100))"
    proof (rule rnd_ge)
      have "(2 :: rat) powi - 10 < 1" by simp
      also have "1 < f_huge" by (simp add: f_huge_def)
      finally show "is_f64 (Fin (2 powi - 10))" using rr_pow2 [of "- 10"] by (simp add: is_f64_def)
    qed (simp add: power_int_minus)
    moreover have "0 < nval (Fin (2 powi - 10))" by simp
    ultimately show ?thesis unfolding nval_rnd by linarith
  qed
  then show ?thesis using z s(2) by (auto simp: flt_def is_zero_def)
qed

text \<open>The run of one node at the origin: every layer has one region, at the origin.\<close>

definition single :: "geoid_layer \<Rightarrow> bool" where
  "single l \<longleftrightarrow> (\<exists>r. gl_regions l = [r] \<and> dims (gr_centroid r) = replicate 6 (Fin 0) \<and> gr_member_count r = 1)"

lemma add_edges_single: "add_inter_edges sha512 R rng [r] th k = ([r], k)"
  by (simp add: add_inter_edges_def near_pairs_def)

lemma weight_one: "fdiv (of_u32 1) (fmax (of_u32 1) (Fin 1)) = Fin 1"
  by (simp add: of_u32_def rnd_of_int [of 1, simplified] fmax_def fdiv_def f64_class)

lemma zero_dims: "map (\<lambda>i. fadd (replicate 6 (Fin 0) ! i) (fmul (replicate 6 (Fin 0) ! i) (Fin 1))) [0..<6] = replicate 6 (Fin 0)"
  by (rule nth_equalityI) (simp_all add: fadd_def fmul_def f64_class fzero_def)

lemma single_coarsen: "single l \<Longrightarrow> single (fst (coarsen_layer sha512 blake3 R rng op l e k))"
  by (auto simp: single_def coarsen_layer_def Let_def merge_regions_def commit_latency_def add_edges_single weight_one
      COORDINATE_DIMENSIONS_def zero_dims case_prod_unfold)

lemma single_loop: "ls \<noteq> [] \<Longrightarrow> \<forall>l \<in> set ls. single l \<Longrightarrow> \<forall>l \<in> set (fst (coarsen_loop sha512 blake3 R rng op e n ls k)). single l"
proof (induction n arbitrary: ls k)
  case (Suc n)
  obtain l k' where l: "coarsen_layer sha512 blake3 R rng op (last ls) e k = (l, k')" by fastforce
  have "single (last ls)" using Suc.prems by simp
  then have "single l" using single_coarsen [of "last ls" sha512 blake3 R rng op e k] by (simp add: l)
  then have "\<forall>x \<in> set (ls @ [l]). single x" using Suc.prems(2) by simp
  then have "\<forall>x \<in> set (fst (coarsen_loop sha512 blake3 R rng op e n (ls @ [l]) k')). single x" by (intro Suc.IH) simp
  moreover have "gl_regions (last ls) \<noteq> []" using \<open>single (last ls)\<close> by (auto simp: single_def)
  ultimately show ?case by (simp add: l)
qed simp

lemma leaf_region_fields:
  "gr_centroid (fst (leaf_region sha512 blake3 R rng th e a k)) = accum_centroid a"
  "gr_member_count (fst (leaf_region sha512 blake3 R rng th e a k)) = ra_count a"
  by (simp_all add: leaf_region_def Let_def case_prod_unfold)

lemma single_leaf:
  assumes "position (b_coordinates b) = coords_origin"
  shows "single (fst (build_leaf_layer sha512 blake3 R rng op [b] e k))"
proof -
  define a where "a = \<lparr>ra_sum = dims coords_origin, ra_count = 1, ra_offsets = [b_clock_offset b]\<rparr>"
  define r where "r = leaf_region sha512 blake3 R rng (base_resolution_secs op) e a k"
  have la: "leaf_accums (base_resolution_secs op) [b] = [a]" using assms by (simp add: leaf_accums_def a_def)
  have "dims (accum_centroid a) = replicate 6 (Fin 0)"
    by (rule nth_equalityI) (simp_all add: accum_centroid_def a_def coords_origin_def COORDINATE_DIMENSIONS_def of_u32_def
        rnd_of_int [of 1, simplified] fdiv_def f64_class fzero_def)
  moreover have "gl_regions (fst (build_leaf_layer sha512 blake3 R rng op [b] e k)) = [fst r]"
    by (simp add: build_leaf_layer_def Let_def la r_def case_prod_unfold add_edges_single)
  ultimately show ?thesis by (simp add: single_def r_def leaf_region_fields) (simp add: a_def)
qed

lemma single_upward:
  assumes "position (b_coordinates b) = coords_origin"
  shows "\<forall>l \<in> set (ng_layers (cm_geoid (fst (process_upward sha512 blake3 R rng [b] e k m)))). single l"
proof -
  let ?leaf = "build_leaf_layer sha512 blake3 R rng (coarsener m) [b] e k"
  have "\<forall>l \<in> set (fst (coarsen_loop sha512 blake3 R rng (coarsener m) e (unat (co_levels (coarsener m)) - 1) [fst ?leaf] (snd ?leaf))). single l"
    using single_leaf [OF assms] by (intro single_loop) auto
  then show ?thesis by (simp add: process_upward_def build_hierarchy_def Let_def case_prod_unfold)
qed

lemma single_finite: "\<forall>l \<in> set (ng_layers g). single l \<Longrightarrow> finite_snapshot (from_geoid g)"
proof -
  assume g: "\<forall>l \<in> set (ng_layers g). single l"
  have z: "is_finite (fmul (Fin 0) (Fin 1000))" by (simp add: fmul_def f64_class fzero_def)
  have "is_finite (fst c) \<and> is_finite (fst (snd c))" if l: "single l" and
    c: "c \<in> set (map (\<lambda>r. (fmul (dims (gr_centroid r) ! 0) (Fin 1000), fmul (dims (gr_centroid r) ! 1) (Fin 1000), gr_member_count r)) (gl_regions l))" for l c
  proof -
    obtain r where "gl_regions l = [r]" "dims (gr_centroid r) = replicate 6 (Fin 0)" using l by (auto simp: single_def)
    then have "fst c = fmul (Fin 0) (Fin 1000)" "fst (snd c) = fmul (Fin 0) (Fin 1000)" using c by simp_all
    then show ?thesis using z by simp
  qed
  then show ?thesis using g unfolding finite_snapshot_def from_geoid_def by fastforce
qed

theorem final_delta_zero_witness:
  "\<exists>st rows. geoid_epochs w_hash w_hash w_ristretto (\<lambda>_. [1]) [(0, coords_origin)] [1, 2] (geoid_sim_start 0) = (st, rows) \<and>
    length rows = 2 \<and> is_zero (final_delta st)"
proof -
  let ?run = "geoid_epochs w_hash w_hash w_ristretto (\<lambda>_. [1]) [(0, coords_origin)]"
  have b: "\<exists>b k'. epoch_beacons w_hash w_hash w_ristretto (\<lambda>_. [1]) [(0, coords_origin)] e k = ([b], k') \<and> position (b_coordinates b) = coords_origin" for e k
    by (simp add: epoch_beacons_def make_beacon_def Let_def)
  have one: "\<forall>l \<in> set (ng_layers (cm_geoid (gs_circulation (fst (geoid_epoch w_hash w_hash w_ristretto (\<lambda>_. [1]) [(0, coords_origin)] st n))))). single l" for st n
    using b [of "Epoch (of_nat n)" "gs_seed st"] single_upward [of _ w_hash w_hash w_ristretto "\<lambda>_. [1]"]
    by (auto simp: geoid_epoch_def Let_def case_prod_unfold)
  obtain st rows where r: "?run [1, 2] (geoid_sim_start 0) = (st, rows)" by fastforce
  then have "\<forall>l \<in> set (ng_layers (cm_geoid (gs_circulation st))). single l"
    using one by (auto simp: case_prod_unfold Let_def)
  from final_delta_zero [OF r single_finite [OF this]] r show ?thesis by auto
qed

end
