(* ===== verification/GeoidReport.thy ===== *)
theory GeoidReport
  imports GeoidSim
begin

text \<open>
  What the geoid simulation reports (\<open>rtfsn-sim/src/geoid_sim.rs\<close>, the rest of \<open>main\<close>): the tables as data, a number for every number
  printed, without the layout of the lines. That the simulation always reaches its report (coordinates stay bounded through all the layers, the
  division of the trend is never by zero), and what the report says of it.
\<close>

section \<open>The tables\<close>

definition REGION_NAMES :: "string list" where "REGION_NAMES = [''West    '', ''Central '', ''East    '']"

definition INTRA_JITTER :: f64 where "INTRA_JITTER = flit (3 / 10000)"

definition in_millis :: "i64 \<Rightarrow> f64" where "in_millis ns = fdiv (of_i64 ns) (Fin 1000000)"

text \<open>A region of the topology: its name, nodes, centroid and spread, and the distances to the regions before it.\<close>

definition topology_row :: "nat \<Rightarrow> string \<times> nat \<times> f64 \<times> f64 \<times> f64 \<times> f64 list" where
  "topology_row r = (REGION_NAMES ! r, NODES_PER_REGION, fmul (REGION_CENTROIDS ! r ! 0) (Fin 1000), fmul (REGION_CENTROIDS ! r ! 1) (Fin 1000),
     fmul (fmul INTRA_JITTER (Fin 1000)) (Fin 3), map (\<lambda>q. dist_ms (region_centroid q) (region_centroid r)) [0 ..< r])"

definition topology :: "(string \<times> nat \<times> f64 \<times> f64 \<times> f64 \<times> f64 list) list" where
  "topology = map topology_row [0, 1, 2]"

record layer_rows =
  lr_level :: u8
  lr_resolution_ms :: f64
  lr_regions :: "(u32 \<times> f64 \<times> f64 \<times> f64 list) list"

definition region_row :: "geoid_region \<Rightarrow> u32 \<times> f64 \<times> f64 \<times> f64 list" where
  "region_row r = (gr_member_count r, fmul (dims (gr_centroid r) ! 0) (Fin 1000), fmul (dims (gr_centroid r) ! 1) (Fin 1000),
     map (\<lambda>e. in_millis (mean_nanos_plaintext e)) (inter_edges r))"

definition layer_rows_of :: "geoid_layer \<Rightarrow> layer_rows" where
  "layer_rows_of l = \<lparr>lr_level = gl_level l, lr_resolution_ms = fdiv (of_u64 (resolution_nanos l)) (Fin 1000000), lr_regions = map region_row (gl_regions l)\<rparr>"

text \<open>The edges of a layer, from either end, each pair of regions once.\<close>

definition region_position :: "geoid_layer \<Rightarrow> region_id \<Rightarrow> nat option" where
  "region_position l i = (let p = length (takeWhile (\<lambda>r. gr_id r \<noteq> i) (gl_regions l)) in if p < length (gl_regions l) then Some p else None)"

definition edge_positions :: "geoid_layer \<Rightarrow> (nat \<times> nat \<times> geoid_edge) list" where
  "edge_positions l = concat (map (\<lambda>(i, r). List.map_filter (\<lambda>e. map_option (\<lambda>j. (i, j, e)) (region_position l (ge_to e))) (inter_edges r))
     (enumerate 0 (gl_regions l)))"

definition edge_pair_key :: "nat \<Rightarrow> nat \<Rightarrow> nat \<times> nat" where
  "edge_pair_key i j = (if i < j then (i, j) else (j, i))"

definition show_edge :: "geoid_layer \<Rightarrow> ((nat \<times> nat) list \<times> (f64 \<times> f64 \<times> f64) list) \<Rightarrow> nat \<times> nat \<times> geoid_edge \<Rightarrow>
    (nat \<times> nat) list \<times> (f64 \<times> f64 \<times> f64) list" where
  "show_edge l acc m = (case m of (i, j, e) \<Rightarrow> case acc of (shown, rows) \<Rightarrow>
     let pair = edge_pair_key i j
     in if pair \<in> set shown then acc
        else (shown @ [pair], rows @ [(fmul (dims (gr_centroid (gl_regions l ! i)) ! 0) (Fin 1000),
               fmul (dims (gr_centroid (gl_regions l ! j)) ! 0) (Fin 1000), in_millis (mean_nanos_plaintext e))]))"

definition cross_edges :: "geoid_layer \<Rightarrow> (nat \<times> nat) list \<times> (f64 \<times> f64 \<times> f64) list" where
  "cross_edges l = foldl (show_edge l) ([], []) (edge_positions l)"

definition cross_edge_table :: "network_geoid \<Rightarrow> (u8 \<times> f64 \<times> (f64 \<times> f64 \<times> f64) list) list" where
  "cross_edge_table g = map (\<lambda>l. (gl_level l, fdiv (of_u64 (resolution_nanos l)) (Fin 1000000), snd (cross_edges l)))
     (filter (\<lambda>l. \<exists>r \<in> set (gl_regions l). inter_edges r \<noteq> []) (ng_layers g))"

definition hint_row :: "refinement_hint \<Rightarrow> u8 \<times> f64 \<times> u8 \<times> nat" where
  "hint_row h = (geoid_level h, in_millis (geoid_residual_nanos h), priority h, length (suggested_neighbor_regions h))"

definition schedule_split :: "measurement_schedule \<Rightarrow> u32 \<times> u32 \<times> u32" where
  "schedule_split s = (min_measurements s, total_measurements s - min_measurements s, total_measurements s)"

definition profile_row :: "f64 \<Rightarrow> latency_profile \<Rightarrow> f64 list" where
  "profile_row rtt_true p = [fdiv rtt_true (Fin 1000000), in_millis (mean_nanos p), fdiv (fsqrt (of_i64 (variance_nanos p))) (Fin 1000000),
     in_millis (p10_nanos p), in_millis (p50_nanos p), in_millis (p90_nanos p), in_millis (Types.trend_nanos_per_epoch p)]"

definition true_rtt :: "coordinates \<Rightarrow> coordinates \<Rightarrow> f64" where
  "true_rtt a b = fmul (fmul (coords_distance a b) (Fin 2)) (Fin 1000000000)"

section \<open>The simulation\<close>

record geoid_report =
  gp_rows :: "geoid_epoch_row list"
  gp_layers :: "layer_rows list"
  gp_cross_edges :: "(u8 \<times> f64 \<times> (f64 \<times> f64 \<times> f64) list) list"
  gp_hints :: "(u8 \<times> f64 \<times> u8 \<times> nat) list"
  gp_schedule :: "u32 \<times> u32 \<times> u32"
  gp_boundary :: "nat \<times> u32"
  gp_profiles :: "latency_profile option list"
  gp_profile_rows :: "f64 list option list"
  gp_depth :: u8
  gp_total_regions :: nat
  gp_generation :: u64
  gp_hash :: string
  gp_delta :: f64
  gp_stable :: bool

definition geoid_report_of :: "hash \<Rightarrow> (nat \<times> coordinates) list \<Rightarrow> (u64 \<Rightarrow> nat \<Rightarrow> (f64 \<times> f64 \<times> f64) \<times> (f64 \<times> f64 \<times> f64)) \<Rightarrow>
    geoid_sim \<Rightarrow> geoid_epoch_row list \<Rightarrow> geoid_report outcome" where
  "geoid_report_of blake3 ps jitter st rows =
     (let c = gs_circulation st; g = cm_geoid c;
          a0 = snd (ps ! 0); b0 = snd (ps ! NODES_PER_REGION); c0 = snd (ps ! (NODES_PER_REGION * 2));
          hints = generate_hints c a0;
          rtt_ab = true_rtt a0 b0; rtt_ac = true_rtt a0 c0;
          lut = profile_lut rtt_ab rtt_ac jitter
      in obind (lut_profile lut (make_node_id 0 0) (make_node_id 1 0)) (\<lambda>ab.
         obind (lut_profile lut (make_node_id 0 0) (make_node_id 2 0)) (\<lambda>ac.
         Ret \<lparr>gp_rows = rows, gp_layers = map layer_rows_of (ng_layers g), gp_cross_edges = cross_edge_table g,
              gp_hints = map hint_row hints, gp_schedule = schedule_split (apply_hints hints), gp_boundary = boundary_schedule c,
              gp_profiles = [ab, ac], gp_profile_rows = [map_option (profile_row rtt_ab) ab, map_option (profile_row rtt_ac) ac],
              gp_depth = geoid_depth g, gp_total_regions = sum_list (map (length \<circ> gl_regions) (ng_layers g)),
              gp_generation = refinement_generation g, gp_hash = bytes_to_hex (take 8 (geoid_hash blake3 g)),
              gp_delta = final_delta st, gp_stable = flt (final_delta st) (flit (1 / 100))\<rparr>)))"

definition geoid_sim_main :: "hash \<Rightarrow> hash \<Rightarrow> ('s::comm_ring_1, 'p::ab_group_add) ristretto \<Rightarrow> seeds \<Rightarrow> nat \<Rightarrow> (nat \<Rightarrow> (nat \<Rightarrow> f64) option) \<Rightarrow>
    (u64 \<Rightarrow> nat \<Rightarrow> (f64 \<times> f64 \<times> f64) \<times> (f64 \<times> f64 \<times> f64)) \<Rightarrow> geoid_report outcome" where
  "geoid_sim_main sha512 blake3 R rng k samples jitter =
     obind (node_positions samples) (\<lambda>ps.
       case geoid_epochs sha512 blake3 R rng ps [1 ..< NUM_EPOCHS + 1] (geoid_sim_start k) of (st, rows) \<Rightarrow>
         geoid_report_of blake3 ps jitter st rows)"

section \<open>The table of edges\<close>

lemma show_edges:
  assumes "distinct (fst acc)" "length (fst acc) = length (snd acc)"
  shows "let r = foldl (show_edge l) acc ms in distinct (fst r) \<and> length (fst r) = length (snd r) \<and>
    set (fst r) = set (fst acc) \<union> (\<lambda>(i, j, e). edge_pair_key i j) ` set ms"
  using assms
proof (induction ms arbitrary: acc)
  case (Cons m ms)
  obtain i j e where m: "m = (i, j, e)" by (cases m)
  have "distinct (fst (show_edge l acc m))" "length (fst (show_edge l acc m)) = length (snd (show_edge l acc m))"
    "set (fst (show_edge l acc m)) = insert (edge_pair_key i j) (set (fst acc))"
    using Cons.prems by (auto simp: m show_edge_def Let_def split: prod.splits)
  with Cons.IH [of "show_edge l acc m"] show ?case by (auto simp: m Let_def)
qed simp

text \<open>Every pair of regions joined by an edge, from either end, is shown exactly once.\<close>

theorem cross_edges_once:
  "distinct (fst (cross_edges l)) \<and> length (snd (cross_edges l)) = length (fst (cross_edges l)) \<and>
   set (fst (cross_edges l)) = (\<lambda>(i, j, e). edge_pair_key i j) ` set (edge_positions l)"
  using show_edges [of "([], [])" l "edge_positions l"] by (auto simp: cross_edges_def Let_def)

section \<open>The profiles\<close>

lemma lut_get_insert:
  "lut_get (lut_insert a b tw lut) c d =
     (if edge_key c d = edge_key a b then Some ((case lut_get lut c d of None \<Rightarrow> [] | Some v \<Rightarrow> v) @ [orient a b tw]) else lut_get lut c d)"
  by (auto simp: lut_get_def lut_insert_def Let_def update_conv' split: option.splits)

text \<open>The epochs of the measurements of one pair: five in each of eight epochs, whatever was measured.\<close>

definition profile_epochs :: "u64 list" where
  "profile_epochs = concat (map (\<lambda>ep. replicate 5 (of_nat ep)) [1 ..< NUM_EPOCHS + 1])"

lemma profile_trend_epochs:
  assumes "map epoch_measured ts = profile_epochs"
  shows "\<exists>z. profile_trend ts = Ret z"
proof -
  let ?x = "\<lambda>t. u64_as_i64 (epoch_measured t)"
  have len: "length ts = 40" using arg_cong [OF assms, of length] by (simp add: profile_epochs_def NUM_EPOCHS_def upt_rec)
  have "map ?x ts = map u64_as_i64 profile_epochs" "map (\<lambda>t. i64_wrap (?x t * ?x t)) ts = map (\<lambda>e. i64_wrap (u64_as_i64 e * u64_as_i64 e)) profile_epochs"
    by (simp_all add: assms [symmetric])
  moreover have "sum_i64 (map u64_as_i64 profile_epochs) = 180" by code_simp
  moreover have "sum_i64 (map (\<lambda>e. i64_wrap (u64_as_i64 e * u64_as_i64 e)) profile_epochs) = 1020" by code_simp
  moreover have "i64_wrap (i64_wrap (40 * 1020) - i64_wrap (180 * 180)) = 8400" by code_simp
  ultimately show ?thesis by (simp add: profile_trend_def len div_i64_def Let_def)
qed

lemma profile_epochs_ends: "hd profile_epochs = 1" "last profile_epochs = 8" "length profile_epochs = 40"
  by code_simp+

lemma lut_profile_epochs:
  assumes "lut_get lut a b = Some ts" "map epoch_measured ts = profile_epochs"
  shows "\<exists>p. lut_profile lut a b = Ret (Some p) \<and> sample_count p = 40 \<and> Types.epoch_first p = 1 \<and> Types.epoch_last p = 8"
proof -
  have len: "length ts = 40" using profile_epochs_ends(3) by (simp add: assms(2) [symmetric])
  then have "ts \<noteq> []" by auto
  then have ts: "length ts = 40" "ts \<noteq> []" "epoch_measured (hd ts) = 1" "epoch_measured (last ts) = 8"
    using profile_epochs_ends(1,2) len by (simp_all add: assms(2) [symmetric] hd_map last_map)
  obtain z where "profile_trend ts = Ret z" using profile_trend_epochs [OF assms(2)] by blast
  with ts show ?thesis by (simp add: lut_profile_def assms(1) Let_def)
qed

lemma sim_pairs:
  "edge_key (make_node_id 0 0) (make_node_id 1 0) \<noteq> edge_key (make_node_id 0 0) (make_node_id 2 0)"
  by code_simp

lemma profile_fold:
  fixes xs :: "(u64 \<times> nat) list" and f g :: "u64 \<Rightarrow> nat \<Rightarrow> twist_index"
  defines "step \<equiv> \<lambda>lut (ep, i). lut_insert (make_node_id 0 0) (make_node_id 2 0) (f ep i)
            (lut_insert (make_node_id 0 0) (make_node_id 1 0) (g ep i) lut)"
  assumes "\<And>ep i. epoch_measured (f ep i) = ep" "\<And>ep i. epoch_measured (g ep i) = ep" "q \<in> {1, 2}"
  shows "map epoch_measured (case lut_get (foldl step lut xs) (make_node_id 0 0) (make_node_id q 0) of None \<Rightarrow> [] | Some ts \<Rightarrow> ts) =
    map epoch_measured (case lut_get lut (make_node_id 0 0) (make_node_id q 0) of None \<Rightarrow> [] | Some ts \<Rightarrow> ts) @ map fst xs \<and>
    (xs \<noteq> [] \<longrightarrow> lut_get (foldl step lut xs) (make_node_id 0 0) (make_node_id q 0) \<noteq> None)"
proof (induction xs arbitrary: lut)
  case (Cons x xs)
  obtain ep i where x: "x = (ep, i)" by (cases x)
  have o: "epoch_measured (orient a b tw) = epoch_measured tw" for a b tw by (simp add: orient_def)
  have one: "map epoch_measured (case lut_get (step lut x) (make_node_id 0 0) (make_node_id q 0) of None \<Rightarrow> [] | Some ts \<Rightarrow> ts) =
    map epoch_measured (case lut_get lut (make_node_id 0 0) (make_node_id q 0) of None \<Rightarrow> [] | Some ts \<Rightarrow> ts) @ [ep] \<and>
    lut_get (step lut x) (make_node_id 0 0) (make_node_id q 0) \<noteq> None"
    using assms(2-4) sim_pairs not_sym [OF sim_pairs] by (auto simp: step_def x lut_get_insert o)
  show ?case using Cons.IH [of "step lut x"] one by (cases xs) (auto simp: x)
qed simp

lemma profile_lut_profiles:
  assumes "q \<in> {1, 2}"
  shows "\<exists>p. lut_profile (profile_lut rtt_ab rtt_ac s) (make_node_id 0 0) (make_node_id q 0) = Ret (Some p) \<and>
    sample_count p = 40 \<and> Types.epoch_first p = 1 \<and> Types.epoch_last p = 8"
proof -
  let ?xs = "concat (map (\<lambda>ep. map (Pair (of_nat ep :: u64)) [0 ..< 5 :: nat]) [1 ..< NUM_EPOCHS + 1])"
  let ?lut = "profile_lut rtt_ab rtt_ac s"
  have fst: "map fst ?xs = profile_epochs" by code_simp
  then have ne: "?xs \<noteq> []" by (auto simp: NUM_EPOCHS_def)
  have "map epoch_measured (case lut_get ?lut (make_node_id 0 0) (make_node_id q 0) of None \<Rightarrow> [] | Some ts \<Rightarrow> ts) = profile_epochs \<and>
    lut_get ?lut (make_node_id 0 0) (make_node_id q 0) \<noteq> None"
    using profile_fold [of "\<lambda>ep i. sim_twist rtt_ac (fmul (of_u64 (ep - 1)) (Fin 5000)) 88 ep (snd (s ep i))"
        "\<lambda>ep i. sim_twist rtt_ab (Fin 0) 95 ep (fst (s ep i))" q lut_new ?xs] assms ne fst
    by (simp add: profile_lut_def sim_twist_def Let_def lut_get_def lut_new_def)
  then obtain ts where "lut_get ?lut (make_node_id 0 0) (make_node_id q 0) = Some ts" "map epoch_measured ts = profile_epochs" by auto
  then show ?thesis by (rule lut_profile_epochs)
qed

section \<open>Coordinates stay bounded\<close>

lemma fbound_of_u32: "fbound 32 (of_u32 w)"
proof (rule fbound_rr [of _ "of_int (uint w)"])
  have "uint w < 2 ^ 32" using uint_bounded [of w] by simp
  then have "(of_int (uint w) :: rat) \<le> of_int (2 ^ 32)" by (simp only: of_int_le_iff)
  then show "\<bar>of_int (uint w) :: rat\<bar> \<le> 2 ^ 32" by (simp del: of_int_uint)
qed (simp_all add: of_u32_def nval_rnd is_nan_rnd del: of_int_uint)

lemma one_of_u32: "1 \<le> unat w \<Longrightarrow> 1 \<le> nval (of_u32 w)"
proof -
  assume "1 \<le> unat w"
  then have "1 \<le> uint w" unfolding unat_eq_nat_uint by linarith
  then have "rr (of_int 1) \<le> rr (of_int (uint w))" by (intro rr_mono) (simp only: of_int_le_iff)
  moreover have "nval (of_u32 w) = nclamp (rr (of_int (uint w)))" by (simp add: of_u32_def nval_rnd del: of_int_uint)
  ultimately show ?thesis using nclamp_mono [of "rr (of_int 1)" "rr (of_int (uint w))"] nclamp_id [of 1] rr_of_int [of 1]
    by (simp add: f_huge_def del: of_int_uint)
qed

definition fcoords :: "nat \<Rightarrow> coordinates \<Rightarrow> bool" where
  "fcoords k c \<longleftrightarrow> length (dims c) = COORDINATE_DIMENSIONS \<and> (\<forall>x \<in> set (dims c). fbound k x)"

lemma fcoords_le: "fcoords k c \<Longrightarrow> k \<le> l \<Longrightarrow> fcoords l c"
  by (auto simp: fcoords_def intro: fbound_le)

definition accum_in :: "nat \<Rightarrow> nat \<Rightarrow> region_accum \<Rightarrow> bool" where
  "accum_in k n a \<longleftrightarrow> fcoords k \<lparr>dims = ra_sum a\<rparr> \<and> 1 \<le> unat (ra_count a) \<and> unat (ra_count a) \<le> n"

lemma place_beacon_in:
  assumes "\<forall>a \<in> set as. accum_in k n a" "fcoords k pos" "Suc n < 2 ^ 32" "k < 1000"
  shows "(\<forall>a \<in> set (place_beacon th pos off as). accum_in (Suc k) (Suc n) a) \<and> length (place_beacon th pos off as) \<le> Suc (length as)"
  using assms(1)
proof (induction as)
  case Nil
  show ?case using assms(2) by (auto simp: accum_in_def fcoords_def intro: fbound_le)
next
  case (Cons a as)
  have keep: "accum_in (Suc k) (Suc n) b" if "accum_in k n b" for b
    using that by (auto simp: accum_in_def intro: fcoords_le)
  have a: "accum_in k n a" using Cons.prems by simp
  have "fbound (Suc k) (fadd (ra_sum a ! i) (dims pos ! i))" if "i < COORDINATE_DIMENSIONS" for i
    using fbound_fadd [of k "ra_sum a ! i" "dims pos ! i"] a assms(2,4) that by (simp add: accum_in_def fcoords_def)
  moreover have "unat (ra_count a + 1) = Suc (unat (ra_count a))"
    using a assms(3) by (simp add: accum_in_def unat_word_ariths)
  ultimately have "accum_in (Suc k) (Suc n) (a\<lparr>ra_sum := map (\<lambda>i. fadd (ra_sum a ! i) (dims pos ! i)) [0..<COORDINATE_DIMENSIONS],
      ra_count := ra_count a + 1, ra_offsets := ra_offsets a @ [off]\<rparr>)"
    using a by (auto simp: accum_in_def fcoords_def)
  then show ?case using Cons keep by auto
qed

lemma leaf_accums_in:
  assumes "\<forall>b \<in> set bs. fcoords k (position (b_coordinates b))" "k + length bs < 1000"
  shows "(\<forall>a \<in> set (leaf_accums th bs). accum_in (k + length bs) (length bs) a) \<and> length (leaf_accums th bs) \<le> length bs"
  using assms
proof (induction bs rule: rev_induct)
  case (snoc b bs)
  have "fcoords (k + length bs) (position (b_coordinates b))" using snoc.prems by (auto intro: fcoords_le)
  with snoc place_beacon_in [of "leaf_accums th bs" "k + length bs" "length bs" "position (b_coordinates b)" th "b_clock_offset b"]
  show ?case by (auto simp: leaf_accums_def)
qed (simp add: leaf_accums_def)

lemma accum_centroid_in: "accum_in k n a \<Longrightarrow> k \<le> 1000 \<Longrightarrow> fcoords k (accum_centroid a)"
  using one_of_u32 [of "ra_count a"] by (auto simp: accum_in_def fcoords_def accum_centroid_def intro!: fbound_fdiv)

definition layer_in :: "nat \<Rightarrow> nat \<Rightarrow> geoid_layer \<Rightarrow> bool" where
  "layer_in k n l \<longleftrightarrow> length (gl_regions l) \<le> n \<and> (\<forall>c \<in> set (map gr_centroid (gl_regions l)). fcoords k c)"

lemma leaf_layer_in:
  assumes "\<forall>b \<in> set bs. fcoords k (position (b_coordinates b))" "k + length bs < 1000"
  shows "layer_in (k + length bs) (length bs) (fst (build_leaf_layer sha512 blake3 R rng op bs e s))"
proof -
  let ?th = "base_resolution_secs op"
  let ?d = "draw_map (leaf_region sha512 blake3 R rng ?th e) (leaf_accums ?th bs) s"
  let ?rs = "gl_regions (fst (build_leaf_layer sha512 blake3 R rng op bs e s))"
  have "map gr_centroid ?rs = map gr_centroid (fst ?d)"
    by (simp add: build_leaf_layer_def case_prod_unfold Let_def add_inter_edges_image)
  also have "\<dots> = map accum_centroid (leaf_accums ?th bs)" by (rule draw_map_image) (simp add: leaf_region_fields)
  finally have c: "map gr_centroid ?rs = map accum_centroid (leaf_accums ?th bs)" .
  then have "length ?rs = length (leaf_accums ?th bs)" by (metis length_map)
  with leaf_accums_in [OF assms, of ?th] accum_centroid_in assms(2) show ?thesis
    unfolding layer_in_def c by fastforce
qed

lemma merge_regions_in:
  assumes "\<forall>r \<in> set rs. fcoords k (gr_centroid r)" "length rs \<le> n" "k + 33 + n < 1000"
  shows "fcoords (k + 32 + n) (gr_centroid (fst (merge_regions sha512 blake3 R rng level e rs s)))"
proof -
  define W where "W = fmax (of_u32 (sum_list (map gr_member_count rs))) (Fin 1)"
  let ?step = "\<lambda>ds r. let w = fdiv (of_u32 (gr_member_count r)) W
    in map (\<lambda>i. fadd (ds ! i) (fmul (dims (gr_centroid r) ! i) w)) [0..<COORDINATE_DIMENSIONS]"
  have one: "is_finite (Fin 1)" by (simp add: f64_class)
  have W: "is_finite W" "1 \<le> nval W"
    using fmax_class [OF finite_of_u32 one] nval_fmax [OF finite_not_nan [OF finite_of_u32] finite_not_nan [OF one]] by (simp_all add: W_def)
  have w: "fbound 32 (fdiv (of_u32 (gr_member_count r)) W)" for r by (intro fbound_fdiv fbound_of_u32 W) simp
  have "fcoords (m + length qs) \<lparr>dims = foldl ?step ds qs\<rparr>"
    if "fcoords m \<lparr>dims = ds\<rparr>" "k + 32 \<le> m" "m + length qs < 1000" "set qs \<subseteq> set rs" for m ds qs
    using that
  proof (induction qs arbitrary: m ds)
    case (Cons r qs)
    have "fbound m (fmul (dims (gr_centroid r) ! i) (fdiv (of_u32 (gr_member_count r)) W))" if "i < COORDINATE_DIMENSIONS" for i
    proof -
      have "fcoords k (gr_centroid r)" using assms(1) Cons.prems(4) by simp
      then have "fbound k (dims (gr_centroid r) ! i)" using that by (simp add: fcoords_def)
      from fbound_fmul [OF this w] show ?thesis using Cons.prems(2,3) by (auto intro: fbound_le)
    qed
    then have "fcoords (Suc m) \<lparr>dims = ?step ds r\<rparr>"
      using Cons.prems(1,3) fbound_fadd [of m] by (auto simp: fcoords_def Let_def)
    from Cons.IH [OF this] Cons.prems show ?case by simp
  qed simp
  moreover have "fcoords (k + 32) \<lparr>dims = replicate COORDINATE_DIMENSIONS (Fin 0)\<rparr>"
    by (auto simp: fcoords_def fbound_def f64_class)
  ultimately have "fcoords (k + 32 + length rs) \<lparr>dims = foldl ?step (replicate COORDINATE_DIMENSIONS (Fin 0)) rs\<rparr>"
    using assms(2,3) by auto
  then have "fcoords (k + 32 + n) \<lparr>dims = foldl ?step (replicate COORDINATE_DIMENSIONS (Fin 0)) rs\<rparr>"
    by (rule fcoords_le) (use assms(2) in simp)
  then show ?thesis by (simp add: merge_regions_def Let_def case_prod_unfold W_def)
qed

lemma coarsen_layer_in:
  assumes "gl_regions l \<noteq> []" "layer_in k n l" "k + 33 + n < 1000"
  shows "layer_in (k + 32 + n) n (fst (coarsen_layer sha512 blake3 R rng op l e s))"
proof -
  let ?rs = "gl_regions l" and ?c = "fst (coarsen_layer sha512 blake3 R rng op l e s)"
  let ?n = "length ?rs"
  define th where "th = fmul (base_resolution_secs op) (fpowi (scale_factor op) (unat (gl_level l + 1)))"
  define groups where "groups = group_loop (\<lambda>i j. flt (coords_distance (gr_centroid (?rs ! i)) (gr_centroid (?rs ! j))) th) ?n
    [0..<?n] (replicate ?n False)"
  let ?m = "\<lambda>g. merge_regions sha512 blake3 R rng (gl_level l + 1) e (map ((!) ?rs) g)"
  let ?d = "draw_map ?m groups s"
  have c: "gl_regions ?c = fst (add_inter_edges sha512 R rng (fst ?d) (fmul th (Fin 3)) (snd ?d))"
    by (simp add: coarsen_layer_def case_prod_unfold Let_def th_def groups_def)
  have all: "mset (concat groups) = mset [0..<?n]" unfolding groups_def by (rule group_loop_all)
  then have len: "length (concat groups) = ?n" by (metis length_upt minus_nat.diff_0 size_mset)
  have group: "length g \<le> n \<and> set g \<subseteq> {..< ?n}" if "g \<in> set groups" for g
  proof -
    have "length g \<le> length (concat groups)" using that by (auto dest!: split_list)
    moreover have "set g \<subseteq> set (concat groups)" using that by auto
    moreover have "set (concat groups) = {0..<?n}" using all by (metis atLeastLessThan_upt mset_eq_setD)
    ultimately show ?thesis using len assms(2) by (auto simp: layer_in_def)
  qed
  have "fcoords (k + 32 + n) (gr_centroid (fst (?m g s')))" if "g \<in> set groups" for g s'
    using group [OF that] assms(2,3) by (intro merge_regions_in) (auto simp: layer_in_def)
  moreover have "\<exists>g s'. g \<in> set groups \<and> x = fst (?m g s')" if "x \<in> set (fst ?d)" for x
    using that by (induction groups arbitrary: s) (auto simp: case_prod_unfold Let_def, blast+)
  moreover have "map gr_centroid (gl_regions ?c) = map gr_centroid (fst ?d)" by (simp add: c add_inter_edges_image)
  moreover have "length (gl_regions ?c) \<le> n" 
    using coarsen_layer_ok(3) [OF assms(1), of sha512 blake3 R rng op e s] assms(2) by (simp add: coarser_def layer_in_def)
  ultimately show ?thesis unfolding layer_in_def by fastforce
qed

lemma coarsen_loop_in:
  assumes "ls \<noteq> []" "gl_regions (last ls) \<noteq> []" "\<forall>l \<in> set ls. layer_in k n l" "k + j * (32 + n) + 1 < 1000"
  shows "\<forall>l \<in> set (fst (coarsen_loop sha512 blake3 R rng op e j ls s)). layer_in (k + j * (32 + n)) n l"
  using assms
proof (induction j arbitrary: ls k s)
  case (Suc j)
  obtain l s' where l: "coarsen_layer sha512 blake3 R rng op (last ls) e s = (l, s')" by fastforce
  have "layer_in (k + 32 + n) n l" using coarsen_layer_in [OF Suc.prems(2), of k n sha512 blake3 R rng op e s] Suc.prems(1,3,4) l by simp
  moreover have mono: "layer_in (k + 32 + n) n q" if "layer_in k n q" for q
    using that by (auto simp: layer_in_def intro: fcoords_le)
  moreover have "gl_regions l \<noteq> []" using coarsen_layer_ok(4) [OF Suc.prems(2), of sha512 blake3 R rng op e s] l by simp
  ultimately have "\<forall>q \<in> set (fst (coarsen_loop sha512 blake3 R rng op e j (ls @ [l]) s')). layer_in ((k + 32 + n) + j * (32 + n)) n q"
    using Suc.prems by (intro Suc.IH) auto
  moreover have "k + 32 + n + j * (32 + n) = k + Suc j * (32 + n)" by simp
  ultimately show ?case using Suc.prems(2) l by simp
qed simp

lemma upward_in:
  assumes "bs \<noteq> []" "co_levels (coarsener m) = 4" "\<forall>b \<in> set bs. fcoords k (position (b_coordinates b))" "k + 4 * length bs < 900"
  shows "\<forall>l \<in> set (ng_layers (cm_geoid (fst (process_upward sha512 blake3 R rng bs e s m)))). layer_in (k + 4 * length bs + 96) (length bs) l"
proof -
  let ?l = "build_leaf_layer sha512 blake3 R rng (coarsener m) bs e s"
  have "layer_in (k + length bs) (length bs) (fst ?l)" using assms(3,4) by (intro leaf_layer_in) auto
  with coarsen_loop_in [of "[fst ?l]" "k + length bs" "length bs" 3 sha512 blake3 R rng "coarsener m" e "snd ?l"]
    leaf_layer_ok(3) [OF assms(1), of sha512 blake3 R rng "coarsener m" e s] assms(4)
  have "\<forall>l \<in> set (fst (coarsen_loop sha512 blake3 R rng (coarsener m) e 3 [fst ?l] (snd ?l))). layer_in (k + length bs + 3 * (32 + length bs)) (length bs) l"
    by simp
  also have "k + length bs + 3 * (32 + length bs) = k + 4 * length bs + 96" by simp
  finally show ?thesis using assms(1,2) by (simp add: process_upward_def build_hierarchy_def case_prod_unfold Let_def)
qed

lemma layers_finite:
  assumes "\<forall>l \<in> set (ng_layers g). layer_in k n l" "k \<le> 900"
  shows "finite_snapshot (from_geoid g)"
proof -
  have th: "fbound 10 (Fin 1000)" using is_f64_of_int [of 1000] by (simp add: fbound_def f64_class)
  have "is_finite (fmul (dims c ! i) (Fin 1000))" if "fcoords k c" "i < 2" for c i
  proof -
    have "fbound k (dims c ! i)" using that by (simp add: fcoords_def COORDINATE_DIMENSIONS_def)
    from fbound_fmul [OF this th] assms(2) show ?thesis by (simp add: fbound_def)
  qed
  with assms(1) show ?thesis by (auto simp: finite_snapshot_def from_geoid_def layer_in_def)
qed

lemma beacons_positions:
  "map (position \<circ> b_coordinates) (fst (epoch_beacons sha512 blake3 R rng ps e s)) = map snd ps"
proof -
  have "map (position \<circ> b_coordinates) (fst (epoch_beacons sha512 blake3 R rng ps e s)) = map (snd \<circ> snd) (enumerate 0 ps)"
    unfolding epoch_beacons_def by (rule draw_map_image) (auto simp: make_beacon_def Let_def)
  also have "\<dots> = map snd (map snd (enumerate 0 ps))" by (simp only: map_map)
  finally show ?thesis by simp
qed

lemma geoid_epochs_finite:
  assumes "ps \<noteq> []" "\<forall>p \<in> set ps. fcoords k (snd p)" "k + 4 * length ps < 800" "es \<noteq> []" "co_levels (coarsener (gs_circulation st)) = 4"
    "geoid_epochs sha512 blake3 R rng ps es st = (st', rows)"
  shows "finite_snapshot (from_geoid (cm_geoid (gs_circulation st')))"
  using assms(4-6)
proof (induction es arbitrary: st rows)
  case (Cons e es)
  obtain st1 row where s: "geoid_epoch sha512 blake3 R rng ps st e = (st1, row)" by fastforce
  obtain st2 rows2 where r: "geoid_epochs sha512 blake3 R rng ps es st1 = (st2, rows2)" by fastforce
  then have st': "st' = st2" using s Cons.prems(3) by simp
  let ?b = "epoch_beacons sha512 blake3 R rng ps (Epoch (of_nat e)) (gs_seed st)"
  have bs: "length (fst ?b) = length ps" by (simp add: epoch_beacons_def)
  have pos: "(position \<circ> b_coordinates) ` set (fst ?b) = snd ` set ps"
    using arg_cong [OF beacons_positions, of set] by (simp only: set_map)
  have "fcoords k (position (b_coordinates b))" if "b \<in> set (fst ?b)" for b
  proof -
    have "position (b_coordinates b) \<in> snd ` set ps" using that unfolding pos [symmetric] by simp
    then show ?thesis using assms(2) by auto
  qed
  then have "\<forall>b \<in> set (fst ?b). fcoords k (position (b_coordinates b))" by blast
  moreover have "fst ?b \<noteq> []" using bs assms(1) by auto
  moreover have "gs_circulation st1 = fst (process_upward sha512 blake3 R rng (fst ?b) (Epoch (of_nat e)) (snd ?b) (gs_circulation st))"
    using s by (auto simp: geoid_epoch_def Let_def case_prod_unfold)
  ultimately have "\<forall>l \<in> set (ng_layers (cm_geoid (gs_circulation st1))). layer_in (k + 4 * length ps + 96) (length ps) l"
    using upward_in [of "fst ?b" "gs_circulation st" k sha512 blake3 R rng "Epoch (of_nat e)" "snd ?b"] Cons.prems(2) assms(3) bs by simp
  then have one: "finite_snapshot (from_geoid (cm_geoid (gs_circulation st1)))" using assms(3) by (intro layers_finite) auto
  have "co_levels (coarsener (gs_circulation st1)) = 4" using s Cons.prems(2)
    by (auto simp: geoid_epoch_def process_upward_def Let_def case_prod_unfold)
  from Cons.IH [OF _ this] r st' one show ?case by (cases "es = []") auto
qed simp

lemma fbound_flit: "\<bar>x\<bar> \<le> 2 ^ k \<Longrightarrow> k \<le> 1000 \<Longrightarrow> fbound k (flit x)"
  by (rule fbound_rr [of _ x]) (simp_all add: nval_rnd is_nan_rnd)

lemma make_coords_in:
  assumes "make_coords (REGION_CENTROIDS ! r) (Some s) = Ret c" "r < 3" "\<forall>d < 6. fbound 0 (s d)"
  shows "fcoords 1 c"
proof -
  have z: "fbound 0 (Fin 0)" by (simp add: fbound_def f64_class)
  have x: "fbound 0 (REGION_CENTROIDS ! r ! j)" if "j < 2" for j
  proof -
    have "r \<in> {0, 1, 2}" "j \<in> {0, 1}" using assms(2) that by auto
    then show ?thesis by (auto simp: REGION_CENTROIDS_def z intro!: fbound_flit)
  qed
  have "fbound 1 (fadd (REGION_CENTROIDS ! r ! j) (s j))" if "j < 2" for j
    using fbound_fadd [OF x [OF that], of "s j"] assms(3) that by simp
  moreover have "fbound 1 (fmul (s d) (flit (1 / 10)))" if "d < 6" for d
    using fbound_le [OF fbound_fmul [of 0 "s d" 0 "flit (1 / 10)"], of 1] fbound_flit [of "1 / 10" 0] assms(3) that by simp
  ultimately show ?thesis using assms(1) by (auto simp: make_coords_def fcoords_def COORDINATE_DIMENSIONS_def)
qed

section \<open>The report\<close>

lemma node_positions_total:
  assumes "\<forall>i < 30. \<exists>s. samples i = Some s \<and> (\<forall>d < 6. fbound 0 (s d))"
  shows "\<exists>ps. node_positions samples = Ret ps \<and> length ps = 30 \<and> (\<forall>p \<in> set ps. fcoords 1 (snd p))"
proof -
  let ?f = "\<lambda>(i, r) rest. obind (make_coords (REGION_CENTROIDS ! r) (samples i)) (\<lambda>pos. obind rest (\<lambda>ps. Ret ((r, pos) # ps)))"
  have "\<exists>ps. foldr ?f xs (Ret []) = Ret ps \<and> length ps = length xs \<and> (\<forall>p \<in> set ps. fcoords 1 (snd p))"
    if "\<forall>i \<in> fst ` set xs. i < 30" "\<forall>r \<in> snd ` set xs. r < 3" for xs :: "(nat \<times> nat) list"
    using that
  proof (induction xs)
    case (Cons x xs)
    obtain i r where x: "x = (i, r)" by (cases x)
    obtain s where s: "samples i = Some s" "\<forall>d < 6. fbound 0 (s d)" using assms Cons.prems(1) by (auto simp: x)
    obtain c where "make_coords (REGION_CENTROIDS ! r) (Some s) = Ret c" by (simp add: make_coords_def)
    with make_coords_in [OF this _ s(2)] Cons s(1) show ?case by (auto simp: x)
  qed simp
  note all = this [of "enumerate 0 node_regions"]
  have "fst ` set (enumerate 0 node_regions) = {..< 30}"
    by (simp add: node_regions_def NODES_PER_REGION_def enumerate_eq_zip atLeast0LessThan flip: set_map)
  moreover have "snd ` set (enumerate 0 node_regions) = {0, 1, 2}"
    by (auto simp: node_regions_def NODES_PER_REGION_def simp flip: set_map)
  moreover have "length (enumerate 0 node_regions) = 30" by (simp add: node_regions_def NODES_PER_REGION_def)
  ultimately show ?thesis using all by (simp add: node_positions_def)
qed

lemma upward_layers:
  assumes "bs \<noteq> []" "co_levels (coarsener m) = 4"
  shows "let m' = fst (process_upward sha512 blake3 R rng bs e k m) in
    length (ng_layers (cm_geoid m')) = 4 \<and> hierarchy_ok (length bs) (ng_layers (cm_geoid m')) \<and>
    refinement_generation (cm_geoid m') = 1 \<and> co_levels (coarsener m') = 4"
proof -
  let ?l = "build_leaf_layer sha512 blake3 R rng (coarsener m) bs e k"
  note leaf = leaf_layer_ok [OF assms(1), of sha512 blake3 R rng "coarsener m" e k]
  have "hierarchy_ok (length bs) [fst ?l]" using leaf by (simp add: hierarchy_ok_def)
  from coarsen_loop_ok [OF _ this, of sha512 blake3 R rng "coarsener m" e 3 "snd ?l"] leaf(3) assms
  show ?thesis by (simp add: process_upward_def build_hierarchy_def case_prod_unfold Let_def)
qed

lemma geoid_epochs_layers:
  assumes "ps \<noteq> []" "es \<noteq> []" "co_levels (coarsener (gs_circulation st)) = 4" "geoid_epochs sha512 blake3 R rng ps es st = (st', rows)"
  shows "length (ng_layers (cm_geoid (gs_circulation st'))) = 4 \<and> hierarchy_ok (length ps) (ng_layers (cm_geoid (gs_circulation st'))) \<and>
    refinement_generation (cm_geoid (gs_circulation st')) = 1 \<and> length rows = length es"
  using assms(2-4)
proof (induction es arbitrary: st rows)
  case (Cons e es)
  obtain st1 row where s: "geoid_epoch sha512 blake3 R rng ps st e = (st1, row)" by fastforce
  obtain st2 rows2 where r: "geoid_epochs sha512 blake3 R rng ps es st1 = (st2, rows2)" by fastforce
  define bs where "bs = fst (epoch_beacons sha512 blake3 R rng ps (Epoch (of_nat e)) (gs_seed st))"
  have bs: "length bs = length ps" by (simp add: bs_def epoch_beacons_def)
  with assms(1) have "bs \<noteq> []" by auto
  from upward_layers [OF this Cons.prems(2), of sha512 blake3 R rng "Epoch (of_nat e)" "snd (epoch_beacons sha512 blake3 R rng ps (Epoch (of_nat e)) (gs_seed st))"] s bs
  have one: "length (ng_layers (cm_geoid (gs_circulation st1))) = 4" "hierarchy_ok (length ps) (ng_layers (cm_geoid (gs_circulation st1)))"
    "refinement_generation (cm_geoid (gs_circulation st1)) = 1" "co_levels (coarsener (gs_circulation st1)) = 4"
    by (auto simp: geoid_epoch_def Let_def case_prod_unfold bs_def)
  show ?case
  proof (cases "es = []")
    case True
    then show ?thesis using one s r Cons.prems(3) by auto
  next
    case False
    have "st2 = st'" using s r Cons.prems(3) by simp
    from Cons.IH [OF False one(4) r [unfolded this]] s r Cons.prems(3) show ?thesis by auto
  qed
qed simp

text \<open>
  (C39) The geoid simulation always reaches its report, and two of the numbers in it say nothing. Whatever positions are drawn (from samples
  up to one second) and whatever jitter, there is a row for each of the 8 epochs; the geoid has four layers each of which counts the 30
  nodes; the profiles are computed over all 40 exchanges of epochs 1 to 8 (the division of the trend is always by 8400); the guided
  measurements are the total less the base, without wrap-around. But the generation printed is 1 after eight passes, and the
  convergence delta, which compares the final geoid with the snapshot the last epoch took of it, is always 0 and reads "(stable)".
\<close>

theorem geoid_sim_report:
  assumes "\<forall>i < 30. \<exists>s. samples i = Some s \<and> (\<forall>d < 6. fbound 0 (s d))"
  shows "\<exists>rep. geoid_sim_main sha512 blake3 R rng k samples jitter = Ret rep \<and> length (gp_rows rep) = 8 \<and>
    gp_depth rep = 4 \<and> map lr_level (gp_layers rep) = [0, 1, 2, 3] \<and>
    (\<forall>l \<in> set (gp_layers rep). sum_list (map fst (lr_regions l)) = 30) \<and> gp_generation rep = 1 \<and>
    (\<forall>p \<in> set (gp_profiles rep). \<exists>q. p = Some q \<and> sample_count q = 40 \<and> Types.epoch_first q = 1 \<and> Types.epoch_last q = 8) \<and>
    (case gp_schedule rep of (base, guided, tot) \<Rightarrow> base = 8 \<and> unat tot = 8 + unat guided \<and> 2 * length (gp_hints rep) \<le> unat guided) \<and>
    is_zero (gp_delta rep) \<and> gp_stable rep"
proof -
  obtain ps where ps: "node_positions samples = Ret ps" "length ps = 30" "\<forall>p \<in> set ps. fcoords 1 (snd p)" using node_positions_total [OF assms] by blast
  then have ne: "ps \<noteq> []" by auto
  obtain st rows where run: "geoid_epochs sha512 blake3 R rng ps [1 ..< NUM_EPOCHS + 1] (geoid_sim_start k) = (st, rows)" by fastforce
  let ?c = "gs_circulation st"
  let ?ls = "ng_layers (cm_geoid ?c)"
  have start: "co_levels (coarsener (gs_circulation (geoid_sim_start k))) = 4"
    by (simp add: geoid_sim_start_def circulation_with_levels_def coarsener_with_levels_def GEOID_LEVELS_def Let_def)
  have layers: "length ?ls = 4" "hierarchy_ok 30 ?ls" "refinement_generation (cm_geoid ?c) = 1" "length rows = 8"
    using geoid_epochs_layers [OF ne _ start run] ps(2) by (simp_all add: NUM_EPOCHS_def)
  have "finite_snapshot (from_geoid (cm_geoid ?c))"
    using geoid_epochs_finite [OF ne ps(3) _ _ start run] ps(2) by (simp add: NUM_EPOCHS_def)
  note delta = final_delta_zero [OF run this]
  have levels: "map gl_level ?ls = [0, 1, 2, 3]" using layers(1,2) by (simp add: hierarchy_ok_def upt_rec numeral_eq_Suc)
  have count: "sum_list (map gr_member_count (gl_regions l)) = 30" if "l \<in> set ?ls" for l
  proof -
    have "members l \<in> set (map members ?ls)" using that by simp
    also have "map members ?ls = replicate 4 30" using layers(1,2) by (simp add: hierarchy_ok_def)
    finally show ?thesis by (simp add: members_def)
  qed
  let ?hs = "generate_hints ?c (snd (ps ! 0))"
  have "length ?ls < 2 ^ 27" using layers(1) by simp
  from schedule_exact [OF this, of "snd (ps ! 0)"] have sched: "8 + 2 * length ?hs \<le> unat (total_measurements (apply_hints ?hs))"
    by (simp add: Let_def)
  moreover have base: "min_measurements (apply_hints ?hs) = 8" by (simp add: apply_hints_def default_schedule_def)
  ultimately have split: "unat (total_measurements (apply_hints ?hs) - 8) = unat (total_measurements (apply_hints ?hs)) - 8"
    using unat_sub [of 8 "total_measurements (apply_hints ?hs)"] by (simp add: word_le_nat_alt)
  obtain ab ac where prof: "lut_profile (profile_lut (true_rtt (snd (ps ! 0)) (snd (ps ! NODES_PER_REGION))) (true_rtt (snd (ps ! 0)) (snd (ps ! (NODES_PER_REGION * 2)))) jitter)
      (make_node_id 0 0) (make_node_id 1 0) = Ret (Some ab)" "sample_count ab = 40 \<and> Types.epoch_first ab = 1 \<and> Types.epoch_last ab = 8"
    "lut_profile (profile_lut (true_rtt (snd (ps ! 0)) (snd (ps ! NODES_PER_REGION))) (true_rtt (snd (ps ! 0)) (snd (ps ! (NODES_PER_REGION * 2)))) jitter)
      (make_node_id 0 0) (make_node_id 2 0) = Ret (Some ac)" "sample_count ac = 40 \<and> Types.epoch_first ac = 1 \<and> Types.epoch_last ac = 8"
    using profile_lut_profiles [of 1] profile_lut_profiles [of 2] by (metis insertCI)
  have rows: "fst (region_row r) = gr_member_count r" for r by (simp add: region_row_def)
  have guided: "2 * length ?hs \<le> unat (total_measurements (apply_hints ?hs)) - 8" using sched by simp
  have main: "geoid_sim_main sha512 blake3 R rng k samples jitter = geoid_report_of blake3 ps jitter st rows"
    by (simp only: geoid_sim_main_def ps(1) obind.simps run prod.case)
  show ?thesis
    using layers levels count sched guided split base prof(2,4) delta
    by (simp add: main geoid_report_of_def Let_def prof(1,3) geoid_depth_def schedule_split_def layer_rows_of_def rows comp_def)
qed

theorem geoid_sim_report_witness:
  "\<exists>rep. geoid_sim_main w_hash w_hash w_ristretto (\<lambda>_. [1]) 0 (\<lambda>_. Some (\<lambda>_. Fin 0)) (\<lambda>_ _. ((Fin 0, Fin 0, Fin 0), (Fin 0, Fin 0, Fin 0))) = Ret rep \<and>
    gp_depth rep = 4 \<and> gp_stable rep"
proof -
  have "fbound 0 (Fin 0)" by (simp add: fbound_def f64_class)
  with geoid_sim_report [of "\<lambda>_. Some (\<lambda>_. Fin 0)" w_hash w_hash w_ristretto "\<lambda>_. [1]" 0 "\<lambda>_ _. ((Fin 0, Fin 0, Fin 0), (Fin 0, Fin 0, Fin 0))"]
  show ?thesis by auto
qed

end
