(* ===== verification/Spec2Isabelle.thy ===== *)
theory Spec2Isabelle
  imports EpochManager Routing Storage Chiral Twist Samr Mirror Solver Kalman Clock Geometry Outlier Ntp
    PeerTrack SelectionLoop Gossip Dht Daemon DaemonRun Wasm Status SimRun GeoidReport
begin

text \<open>
  \<^bold>\<open>The program.\<close> The relational time-frequency synthesis network keeps a shared clock among nodes none of which is trusted. The library
  \<open>rtfsn-core\<close> holds the algorithms, \<open>rtfsn-net\<close> the messages and the UDP transport, \<open>rtfsn-daemon\<close> a node built from both and a
  tool that queries it, \<open>rtfsn-wasm\<close> a node for browsers, \<open>rtfsn-sim\<close> two simulations of whole networks. A node
  exchanges four time stamps with each peer (\<open>sync/clock.rs\<close>, \<open>sync/ntp.rs\<close>), turns the exchanges with one peer into an estimate
  (\<open>sync/relational.rs\<close>, \<open>PeerTrack\<close>), keeps all pairwise measurements in a table (\<open>holonomy/twist.rs\<close>) and solves for the clocks that
  explain them: by relaxation (\<open>holonomy/solver.rs\<close>) or by least squares over the measured graph (\<open>sync/relational.rs\<close>,
  \<open>solve_frame\<close>), optionally tied to UTC by anchors that are gossiped (\<open>RelationalClock\<close>). What a node measured stays in layer 0;
  valves turn it into a pseudonymous beacon (layer 1), a committed cluster mean (layer 2) and a tick of a public hash-chained clock
  (layer 3). From the beacons the geoid, a hierarchy of regions, is built, and hints on where to measure next are sent back down.

  \<^bold>\<open>The theories.\<close> \<open>Prelude\<close>: machine integers, byte strings, hash maps and ordered maps with the interface \<open>kv_map\<close> both implement, the
  interface \<open>kept\<close> of a component whose operations keep an invariant, sorting and the iterator methods. \<open>F64\<close>: binary64 with its
  special values, round to nearest even, and the bounds the components use. \<open>Types\<close>: \<open>types.rs\<close>. Then one theory for each part:
  \<^item> \<open>EpochManager\<close> (\<open>epoch.rs\<close>), \<open>Routing\<close> and \<open>Storage\<close> (\<open>dht/\<close>): the phases of an epoch, the Kademlia table, the bounded stores.
    \<open>Dht\<close>: what the table, the stores and the table of measurements implement: numbers, maps, logs.
  \<^item> \<open>Chiral\<close>, \<open>Twist\<close>, \<open>Samr\<close>, \<open>Mirror\<close>, \<open>Solver\<close> (\<open>holonomy/\<close>): frames, measurements and holonomy, residue channels with
    Chinese remaindering, the temporal mirror, the relaxation.
  \<^item> \<open>Kalman\<close>, \<open>Clock\<close>, \<open>Geometry\<close>, \<open>Outlier\<close>, \<open>Ntp\<close> (\<open>sync/\<close>): the filter, the regression, the Vivaldi coordinates, Marzullo's
    algorithm, the NTP packets.
  \<^item> \<open>PeerTrack\<close>, \<open>Frame\<close>, \<open>FrameTotal\<close>, \<open>RelClock\<close>, \<open>SelectionLoop\<close>, \<open>Gossip\<close> (\<open>sync/relational.rs\<close>): one peer's estimate; the
    frame of the network; that it is always computed; the node's clock with anchors and clock selection; the messages after which selection
    never ends; a network of clocks that hand their anchors on.
  \<^item> \<open>Crypto\<close> (\<open>crypto/\<close>), \<open>Layers\<close> (\<open>layers/layer0.rs\<close> to \<open>layer3.rs\<close>), \<open>Geoid\<close> (\<open>geoid/\<close>), \<open>Valve\<close> (\<open>layers/valve.rs\<close>).
  \<^item> \<open>Net\<close> (\<open>rtfsn-net\<close>) and \<open>Daemon\<close> (\<open>rtfsn-daemon/src/main.rs\<close>): the messages, and a node as two tasks over one state;
    \<open>DaemonRun\<close>: the store of beacons, the public clock and the steps of an epoch over a whole run.
  \<^item> \<open>Fmt\<close> (what the programs use of \<open>std::fmt\<close>: padding, hexadecimal, numbers with fixed digits, with functions that read them back),
    \<open>Query\<close> (\<open>rtfsn-daemon/src/bin/query.rs\<close>), \<open>Status\<close> (how the daemon starts and the status it prints), \<open>Wasm\<close>
    (\<open>rtfsn-wasm/src/lib.rs\<close>).
  \<^item> \<open>Sim\<close>, \<open>SimRun\<close> (\<open>rtfsn-sim/src/main.rs\<close>): the simulated network and one exchange; the epochs and the report. \<open>GeoidSim\<close>
    and \<open>GeoidReport\<close> (\<open>rtfsn-sim/src/geoid_sim.rs\<close>): the geoid built from fixed positions, epoch after epoch, and what is reported of it.

  \<^bold>\<open>How code becomes definitions.\<close> A struct is a record, an enum a datatype, a method a function from the old state to the new one with
  what it returns; a piece of a long function that has a meaning of its own is a definition of its own, named after what it computes.
  Unsigned integers are words and wrap as release builds do; a signed 64-bit integer is an \<^typ>\<open>int\<close> in its range, with every
  operation that wraps, saturates or truncates written as such; \<open>usize\<close> is \<^typ>\<open>nat\<close>. Floating point is computed exactly as rounding of
  rationals, NaN, infinities and the sign of zero included. A panic is the value \<open>Panic\<close> of \<open>outcome\<close>, an error a value of a sum or an
  option. A hash map is an association list without duplicate keys whose list order stands for the order of a walk; where a result
  depends on that order (\<open>valve_l1_to_l2\<close>, \<open>sim_epoch\<close>) the order is an argument. In \<open>epoch_solver\<close> the order of the peers only fixes the
  list order of the solver's own map. List indexing and \<open>index_of\<close> are total where Rust panics; a model that could index out of bounds says so
  with \<open>Panic\<close>, and where it does not a lemma has the bounds (\<open>frame_indices\<close> and its neighbours for \<open>solve_frame\<close>). Loops are recursive functions with a termination proof;
  the one loop that need not end (clock selection, \<open>select\<close>) is a partial function whose value \<open>None\<close> means that it does not return, and
  both its termination and its divergence are theorems. There is no fuel: \<open>solve\<close>, \<open>find_fixed_point\<close> and the geoid's levels carry the
  bound of the source.

  \<^bold>\<open>What is an argument.\<close> The Ristretto group, Ed25519, SHA-512, BLAKE3 and JSON are third-party code: records or functions passed to the
  definitions, with \<open>ristretto_ok\<close> and \<open>ed25519_ok\<close> stating the documented laws a theorem needs; the witnesses use concrete instances. So are
  the operating system's clock, its random bytes (a source of seeds with a counter), sockets, the page a browser node runs on, the random
  draws of the simulators (a function of what is drawn, in the range asked for; samples of the jitter may be any float), the clocks and the delays of
  the network in \<open>Gossip\<close> (each right to some parts per million, any delay), and the three
  transcendental functions of \<open>solve_frame\<close>, about which nothing is assumed.

  \<^bold>\<open>What is shown.\<close> Measurements: the error of one exchange, that honest measurements have no holonomy and that holonomy is blind to a
  consistent shift, order and window of a peer's track, the filter's variances, Marzullo's interval, packets and time stamps read back.
  Solving: the frame is total and covers exactly the component of the reference; the relaxation stays near any potential that explains the
  measurements; the mirror converges; residues decode. Coordinates: an update is a step of the Vivaldi spring, to rounding. Absolute
  time: selection ends for honest edges and two forged ones stop any clock with three anchors; an anchor passed on, over any number of hops between
  clocks that do not agree, shows its age less the time it was under way. Storage and lookup: the shape of the routing table, that its byte-wise
  buckets and lookups are the ones of Kademlia on 256-bit numbers, that a bounded store is a map that may forget and what
  it may forget. Privacy and the public clock: the layer 0 valve does not leak, proofs are sound, every beacon is counted once, the chain of ticks is valid for times below the
  end of 64 bits and as far as its delay proofs are, its hashed fields cannot be rewritten while its delay proofs can, and where the code falls short
  of its comments. The whole daemon: for every interleaving of its loop with messages from anyone, its
  published chain is valid with one tick for each epoch that ended, only solicited answers are measured, the store of beacons is sound and
  only grows, an epoch ends after as many pieces as there are peers, and three; and defects of its epoch code. The other programs: a browser
  node survives any floats, the durations the query tool prints read back within half a digit, and its exit status on every reply; the
  simulated network is well formed, an exchange in it measures the clocks to nanoseconds, the whole simulation ends in a report without
  panic, and half its measurements reach the solver with the wrong sign; the other simulation always reaches its report too, and the change it
  reports is always zero.

  \<^bold>\<open>How the proofs are organised.\<close> Each operation has a lemma that it keeps its component's invariant, collected in \<open>inv_intro\<close>; the
  interfaces \<open>kv_map\<close>, \<open>kept\<close> and its extension \<open>refines\<close> (runs of a component are runs of a specification, through an abstraction
  function) are interpreted on the model's own maps and operations (\<open>hm\<close>, \<open>bt\<close>, \<open>rt\<close>, \<open>lut\<close>, \<open>st\<close>, \<open>clusters\<close>, \<open>best\<close>,
  \<open>store_map\<close>, \<open>lut_log\<close>), so that invariants of runs follow from those of steps; state machines (\<open>em_reach\<close>, \<open>net_reach\<close>, \<open>d_run\<close>) are inductive with invariants by rule
  induction. The rounding lemmas of \<open>F64\<close> (a rounded sum never crosses a representable number; \<open>rounds_to\<close>, the relative error of one operation) carry every
  floating-point bound.

  \<^bold>\<open>Not modelled.\<close> The sign and payload of a NaN (\<open>total_le\<close> puts the one NaN last, as \<open>total_cmp\<close> does a positive one), logging, the banners and the layout of the tables the simulators print (what is in them is), the parsing of command lines
  (third-party code), and the scheduling of \<open>tokio\<close>, of which only that the lock serialises the pieces is used. The tests in
  the sources are not part of the model.
\<close>

end
